(* ===== verification/Prelude.thy ===== *)
theory Prelude
  imports Main "HOL-Library.Word" "HOL-Library.Monad_Syntax" "HOL-Library.Multiset"
begin

text \<open>
  What every component of the model shares: the machine integers of the Rust
  source with the arithmetic the source uses on them, panics as \<open>None\<close> of the
  option monad, maps as association lists sorted by key, and stable sorting by
  a comparison.
\<close>

named_theorems unat_arith_simps "saturating and checked word arithmetic, read as natural numbers"
named_theorems om_simps "lookup, keys and well-formedness of ordered maps"

section \<open>Machine integers\<close>

type_synonym u8 = "8 word"
type_synonym u16 = "16 word"
type_synonym u32 = "32 word"
type_synonym u64 = "64 word"
type_synonym usize = nat

text \<open>Time in nanoseconds since an origin the caller picks (\<open>gcra::Nanos\<close>).\<close>

type_synonym nanos = u64

abbreviation u64_max :: nat where
  "u64_max \<equiv> 18446744073709551615"

definition saturating_add :: "'a::len word \<Rightarrow> 'a word \<Rightarrow> 'a word" where
  "saturating_add a b = (if unat a + unat b < 2 ^ LENGTH('a) then a + b else - 1)"

definition saturating_sub :: "'a::len word \<Rightarrow> 'a word \<Rightarrow> 'a word" where
  "saturating_sub a b = (if b \<le> a then a - b else 0)"

definition saturating_mul :: "'a::len word \<Rightarrow> 'a word \<Rightarrow> 'a word" where
  "saturating_mul a b = (if unat a * unat b < 2 ^ LENGTH('a) then a * b else - 1)"

definition checked_add :: "'a::len word \<Rightarrow> 'a word \<Rightarrow> 'a word option" where
  "checked_add a b = (if unat a + unat b < 2 ^ LENGTH('a) then Some (a + b) else None)"

definition div_ceil :: "'a::len word \<Rightarrow> 'a word \<Rightarrow> 'a word" where
  "div_ceil a b = (if a mod b = 0 then a div b else a div b + 1)"

lemma unat_max_word [unat_arith_simps]: "unat (- 1 :: 'a::len word) = 2 ^ LENGTH('a) - 1"
  by (simp add: unsigned_minus_1_eq_mask mask_eq_exp_minus_1)

lemma unat_lt_2p: "unat (a :: 'a::len word) < 2 ^ LENGTH('a)"
  by (rule unsigned_less)

lemma unat_saturating_add [unat_arith_simps]:
  "unat (saturating_add a b) = min (unat a + unat b) (2 ^ LENGTH('a) - 1)"
  for a b :: "'a::len word"
  by (auto simp: saturating_add_def unat_max_word unat_word_ariths min_def)

lemma unat_saturating_sub [unat_arith_simps]:
  "unat (saturating_sub a b) = unat a - unat b"
  for a b :: "'a::len word"
  by (auto simp: saturating_sub_def unat_sub word_le_nat_alt)

lemma unat_saturating_mul [unat_arith_simps]:
  "unat (saturating_mul a b) = min (unat a * unat b) (2 ^ LENGTH('a) - 1)"
  for a b :: "'a::len word"
proof (cases "unat a * unat b < 2 ^ LENGTH('a)")
  case True
  then show ?thesis by (simp add: saturating_mul_def unat_word_ariths)
next
  case False
  then show ?thesis by (simp add: saturating_mul_def unat_max_word)
qed

lemma checked_add_Some:
  "checked_add a b = Some c \<Longrightarrow> unat c = unat a + unat b"
  by (auto simp: checked_add_def unat_word_ariths split: if_splits)

lemma div_up_nat:
  fixes a b :: nat
  assumes "0 < b"
  shows "(a + b - 1) div b = (if a mod b = 0 then a div b else a div b + 1)"
proof -
  define q r where "q = a div b" and "r = a mod b"
  have a: "a = b * q + r" and r: "r < b" using assms by (simp_all add: q_def r_def)
  have "a + b - 1 = (r + b - 1) + b * q" using a assms by simp
  then have "(a + b - 1) div b = q + (r + b - 1) div b"
    using div_mult_self2 [of b "r + b - 1" q] assms by simp
  moreover have "(r + b - 1) div b = (if r = 0 then 0 else 1)"
    using r assms by (auto simp: div_if)
  ultimately show ?thesis by (simp add: q_def r_def)
qed

lemma unat_div_ceil [unat_arith_simps]:
  fixes a b :: "'a::len word"
  assumes "0 < unat b"
  shows "unat (div_ceil a b) = (unat a + unat b - 1) div unat b"
proof -
  have eq: "unat (a mod b) = unat a mod unat b" "unat (a div b) = unat a div unat b"
    by (simp_all add: unat_mod unat_div)
  have z: "a mod b = 0 \<longleftrightarrow> unat a mod unat b = 0"
    by (metis eq(1) unat_eq_zero)
  have "unat (a div b + 1) = unat a div unat b + 1" if "unat a mod unat b \<noteq> 0"
  proof -
    have "unat b \<noteq> 1" using that by auto
    then have "1 < unat b" using assms by linarith
    moreover have "unat a \<noteq> 0" using that by (metis mod_0)
    ultimately have "unat a div unat b < unat a" by simp
    then have "unat a div unat b + 1 < 2 ^ LENGTH('a)"
      using unat_lt_2p [of a] by linarith
    then show ?thesis using eq(2) by (simp add: unat_word_ariths)
  qed
  then show ?thesis
    by (simp only: div_up_nat [OF assms] div_ceil_def z eq(2) split: if_split) simp
qed

lemma unat_mult_small: "unat a * unat b < 2 ^ LENGTH('a) \<Longrightarrow> unat (a * b) = unat a * unat b"
  for a b :: "'a::len word"
  by (simp add: unat_word_ariths)

lemma bit_below:
  fixes a :: "'a::len word"
  assumes "unat a < 2 ^ n" and "bit a k"
  shows "k < n"
proof (rule ccontr)
  assume "\<not> k < n"
  then have "(2::nat) ^ n \<le> 2 ^ k" by simp
  with assms(1) have "unat a < 2 ^ k" by linarith
  then have "\<not> bit (unat a) k" by (simp add: bit_iff_odd)
  with assms(2) show False
    by (auto simp: bit_unsigned_iff dest: bit_imp_le_length)
qed

lemma unat_ucast_up:
  fixes a :: "'a::len word"
  assumes "LENGTH('a::len) \<le> LENGTH('b::len)"
  shows "unat (ucast a :: 'b::len word) = unat a"
proof -
  have "(2::nat) ^ LENGTH('a) \<le> 2 ^ LENGTH('b)" using assms by simp
  then have "unat a < 2 ^ LENGTH('b)" using unat_lt_2p [of a] by linarith
  then show ?thesis by (simp add: unsigned_ucast_eq take_bit_nat_eq_self_iff)
qed

lemma ucast_ucast_up:
  "LENGTH('a::len) \<le> LENGTH('b::len) \<Longrightarrow> ucast (ucast a :: 'b::len word) = a" for a :: "'a::len word"
  by (rule bit_eqI) (auto simp: bit_ucast_iff dest: bit_imp_le_length)

section \<open>Panics\<close>

text \<open>
  A Rust panic (\<open>assert!\<close>, \<open>expect\<close>, \<open>unreachable!\<close>) is \<open>None\<close>; \<open>ensure b\<close> is
  \<open>assert!(b)\<close>. Operations that may panic return an option and are composed with
  the do notation of the option monad.
\<close>

definition ensure :: "bool \<Rightarrow> unit option" where
  "ensure b = (if b then Some () else None)"

lemma ensure_simps [simp]:
  "ensure True = Some ()" "ensure False = None"
  "ensure b = Some u \<longleftrightarrow> b" "ensure b = None \<longleftrightarrow> \<not> b"
  by (simp_all add: ensure_def)

lemma bind_ensure_Some [simp]:
  "(ensure b \<bind> f) = Some x \<longleftrightarrow> b \<and> f () = Some x"
  by (cases b) simp_all

section \<open>Ordered maps\<close>

text \<open>
  A \<open>BTreeMap\<close> is an association list whose keys ascend strictly, which is also
  its order of iteration. A \<open>HashMap\<close> is the same list; where the order of its
  iteration can be observed, the model takes that order as an argument.
\<close>

type_synonym ('k, 'v) omap = "('k \<times> 'v) list"

definition om_wf :: "('k::linorder, 'v) omap \<Rightarrow> bool" where
  "om_wf m = sorted_wrt (<) (map fst m)"

abbreviation om_get :: "('k, 'v) omap \<Rightarrow> 'k \<Rightarrow> 'v option" where
  "om_get m k \<equiv> map_of m k"

abbreviation om_keys :: "('k, 'v) omap \<Rightarrow> 'k list" where
  "om_keys m \<equiv> map fst m"

definition om_has :: "('k, 'v) omap \<Rightarrow> 'k \<Rightarrow> bool" where
  "om_has m k = (om_get m k \<noteq> None)"

fun om_put :: "'k::linorder \<Rightarrow> 'v \<Rightarrow> ('k, 'v) omap \<Rightarrow> ('k, 'v) omap" where
  "om_put k v [] = [(k, v)]"
| "om_put k v ((a, b) # m) =
     (if k < a then (k, v) # (a, b) # m
      else if k = a then (k, v) # m
      else (a, b) # om_put k v m)"

definition om_del :: "'k \<Rightarrow> ('k, 'v) omap \<Rightarrow> ('k, 'v) omap" where
  "om_del k m = filter (\<lambda>(a, b). a \<noteq> k) m"

text \<open>\<open>retain\<close>: keeps the entries the predicate holds for.\<close>

definition om_retain :: "('k \<Rightarrow> 'v \<Rightarrow> bool) \<Rightarrow> ('k, 'v) omap \<Rightarrow> ('k, 'v) omap" where
  "om_retain p m = filter (\<lambda>(k, v). p k v) m"

lemma om_has_simps [simp]: "om_has [] k = False"
  by (simp add: om_has_def)

lemma om_wf_Nil [simp]: "om_wf []"
  by (simp add: om_wf_def)

lemma om_wf_Cons: "om_wf ((a, b) # m) \<longleftrightarrow> (\<forall>k \<in> set (om_keys m). a < k) \<and> om_wf m"
  by (simp add: om_wf_def)

lemma om_wf_distinct: "om_wf m \<Longrightarrow> distinct (om_keys m)"
  by (simp add: om_wf_def strict_sorted_iff)

lemma om_get_put [simp, om_simps]:
  "om_get (om_put k v m) j = (if j = k then Some v else om_get m j)"
  by (induction k v m rule: om_put.induct) auto

lemma set_keys_om_put [simp, om_simps]:
  "fst ` set (om_put k v m) = insert k (fst ` set m)"
  by (induction k v m rule: om_put.induct) auto

lemma om_wf_put [simp, intro]: "om_wf m \<Longrightarrow> om_wf (om_put k v m)"
  by (induction k v m rule: om_put.induct) (auto simp: om_wf_Cons)

lemma mem_om_put:
  "om_wf m \<Longrightarrow> e \<in> set (om_put k v m) \<longleftrightarrow> e = (k, v) \<or> (e \<in> set m \<and> fst e \<noteq> k)"
proof (induction k v m rule: om_put.induct)
  case (2 k v a b m)
  have gt: "e \<in> set m \<Longrightarrow> a < fst e" using 2(2) by (auto simp: om_wf_Cons)
  from 2(2) have wf: "om_wf m" by (simp add: om_wf_Cons)
  consider "k < a" | "k = a" | "\<not> k < a" "k \<noteq> a" by blast
  then show ?case
  proof cases
    case 1
    with gt show ?thesis by auto
  next
    case 2
    with gt show ?thesis by auto
  next
    case 3
    then show ?thesis using 2(1) [OF 3 wf] by auto
  qed
qed auto

lemma length_om_put:
  "om_wf m \<Longrightarrow> length (om_put k v m) = (if om_has m k then length m else Suc (length m))"
proof (induction k v m rule: om_put.induct)
  case (2 k v a b m)
  have gt: "\<And>e. e \<in> set m \<Longrightarrow> a < fst e" using 2(2) by (auto simp: om_wf_Cons)
  from 2(2) have wf: "om_wf m" by (simp add: om_wf_Cons)
  have "k < a \<Longrightarrow> om_get m k = None"
    using gt by (force simp: map_of_eq_None_iff)
  with 2(1) wf show ?case by (auto simp: om_has_def)
qed simp

lemma om_get_del [simp, om_simps]:
  "om_get (om_del k m) j = (if j = k then None else om_get m j)"
  by (induction m) (auto simp: om_del_def)

lemma set_keys_om_del [simp, om_simps]: "fst ` set (om_del k m) = fst ` set m - {k}"
  by (auto simp: om_del_def image_iff)

lemma sorted_wrt_map_filter: "sorted_wrt P (map f xs) \<Longrightarrow> sorted_wrt P (map f (filter Q xs))"
  by (induction xs) auto

lemma om_wf_del [simp, intro]: "om_wf m \<Longrightarrow> om_wf (om_del k m)"
  by (simp add: om_wf_def om_del_def sorted_wrt_map_filter)

lemma om_wf_retain [simp, intro]: "om_wf m \<Longrightarrow> om_wf (om_retain p m)"
  by (simp add: om_wf_def om_retain_def sorted_wrt_map_filter)

lemma om_get_retain [om_simps]:
  "om_wf m \<Longrightarrow> om_get (om_retain p m) k =
     (case om_get m k of None \<Rightarrow> None | Some v \<Rightarrow> if p k v then Some v else None)"
proof (induction m)
  case (Cons e m)
  obtain a b where e: "e = (a, b)" by force
  from Cons.prems e have "om_wf m" and na: "a \<notin> set (om_keys m)"
    by (auto simp: om_wf_Cons)
  from na have "om_get m a = None" by (simp add: map_of_eq_None_iff)
  with Cons.IH [OF \<open>om_wf m\<close>] show ?case
    by (cases "k = a") (auto simp: e om_retain_def)
qed (simp add: om_retain_def)

lemma length_om_retain: "length (om_retain p m) \<le> length m"
  by (simp add: om_retain_def)

lemma om_has_keys: "om_has m k \<longleftrightarrow> k \<in> fst ` set m"
  by (auto simp: om_has_def map_of_eq_None_iff)

lemma length_om_del:
  "om_wf m \<Longrightarrow> length (om_del k m) = (if om_has m k then length m - 1 else length m)"
proof (induction m)
  case (Cons e m)
  obtain a b where e: "e = (a, b)" by force
  from Cons.prems e have wf: "om_wf m" and na: "a \<notin> fst ` set m"
    by (auto simp: om_wf_Cons)
  have del_a: "om_del a m = m"
    using na by (force simp: om_del_def filter_id_conv)
  show ?case
  proof (cases "k = a")
    case True
    then show ?thesis using del_a by (simp add: e om_has_def om_del_def)
  next
    case False
    have "om_has m k \<Longrightarrow> 0 < length m" by (cases m) auto
    with False Cons.IH [OF wf] show ?thesis
      by (auto simp: e om_has_def om_del_def)
  qed
qed (simp add: om_del_def)

section \<open>Sorting by a comparison\<close>

text \<open>
  \<open>sort_by\<close> with \<open>le a b\<close> for "\<open>a\<close> does not come after \<open>b\<close>". Insertion keeps
  equal elements in order, as the standard library's stable sort does.
\<close>

fun insort_by :: "('a \<Rightarrow> 'a \<Rightarrow> bool) \<Rightarrow> 'a \<Rightarrow> 'a list \<Rightarrow> 'a list" where
  "insort_by le x [] = [x]"
| "insort_by le x (y # ys) = (if le x y then x # y # ys else y # insort_by le x ys)"

fun sort_by :: "('a \<Rightarrow> 'a \<Rightarrow> bool) \<Rightarrow> 'a list \<Rightarrow> 'a list" where
  "sort_by le [] = []"
| "sort_by le (x # xs) = insort_by le x (sort_by le xs)"

lemma mset_insort_by [simp]: "mset (insort_by le x ys) = add_mset x (mset ys)"
  by (induction ys) auto

lemma mset_sort_by [simp]: "mset (sort_by le xs) = mset xs"
  by (induction xs) auto

lemma set_insort_by [simp]: "set (insort_by le x ys) = insert x (set ys)"
  by (induction ys) auto

lemma set_sort_by [simp]: "set (sort_by le xs) = set xs"
  by (induction xs) auto

lemma length_sort_by [simp]: "length (sort_by le xs) = length xs"
  using mset_sort_by [of le xs] by (metis size_mset)

lemma distinct_sort_by [simp]: "distinct (sort_by le xs) = distinct xs"
  using mset_sort_by [of le xs] by (metis mset_eq_imp_distinct_iff)

lemma sorted_insort_by:
  assumes "\<And>a b. a \<in> insert x (set ys) \<Longrightarrow> b \<in> insert x (set ys) \<Longrightarrow> le a b \<or> le b a"
    and "\<And>a b c. {a, b, c} \<subseteq> insert x (set ys) \<Longrightarrow> le a b \<Longrightarrow> le b c \<Longrightarrow> le a c"
    and "sorted_wrt le ys"
  shows "sorted_wrt le (insort_by le x ys)"
  using assms
proof (induction ys)
  case Nil
  show ?case by simp
next
  case (Cons y ys)
  have IH: "sorted_wrt le (insort_by le x ys)"
  proof (rule Cons.IH)
    show "le a b \<or> le b a" if "a \<in> insert x (set ys)" "b \<in> insert x (set ys)" for a b
      using that by (intro Cons.prems(1)) auto
    show "le a c" if "{a, b, c} \<subseteq> insert x (set ys)" "le a b" "le b c" for a b c
      by (rule Cons.prems(2) [OF _ that(2,3)]) (use that(1) in auto)
    show "sorted_wrt le ys" using Cons.prems(3) by simp
  qed
  show ?case
  proof (cases "le x y")
    case True
    have "le x z" if "z \<in> set ys" for z
      using Cons.prems(2) [of x y z] True that Cons.prems(3) by auto
    then show ?thesis using True Cons.prems(3) by simp
  next
    case False
    then have "le y x" using Cons.prems(1) [of x y] by auto
    then show ?thesis using False IH Cons.prems(3) by simp
  qed
qed

lemma sorted_sort_by:
  assumes "\<And>a b. a \<in> set xs \<Longrightarrow> b \<in> set xs \<Longrightarrow> le a b \<or> le b a"
    and "\<And>a b c. {a, b, c} \<subseteq> set xs \<Longrightarrow> le a b \<Longrightarrow> le b c \<Longrightarrow> le a c"
  shows "sorted_wrt le (sort_by le xs)"
  using assms
proof (induction xs)
  case Nil
  show ?case by simp
next
  case (Cons x xs)
  have IH: "sorted_wrt le (sort_by le xs)"
  proof (rule Cons.IH)
    show "le a b \<or> le b a" if "a \<in> set xs" "b \<in> set xs" for a b
      using that by (intro Cons.prems(1)) auto
    show "le a c" if "{a, b, c} \<subseteq> set xs" "le a b" "le b c" for a b c
      by (rule Cons.prems(2) [OF _ that(2,3)]) (use that(1) in auto)
  qed
  show ?case
    unfolding sort_by.simps
  proof (rule sorted_insort_by [OF _ _ IH])
    show "le a b \<or> le b a" if "a \<in> insert x (set (sort_by le xs))"
      "b \<in> insert x (set (sort_by le xs))" for a b
      using that by (intro Cons.prems(1)) auto
    show "le a c" if "{a, b, c} \<subseteq> insert x (set (sort_by le xs))" "le a b" "le b c" for a b c
      by (rule Cons.prems(2) [OF _ that(2,3)]) (use that(1) in auto)
  qed
qed

text \<open>\<open>min_by\<close>: the first of the least elements; \<open>None\<close> of an empty list.\<close>

fun min_by :: "('a \<Rightarrow> 'a \<Rightarrow> bool) \<Rightarrow> 'a list \<Rightarrow> 'a option" where
  "min_by le [] = None"
| "min_by le (x # xs) =
     (case min_by le xs of None \<Rightarrow> Some x | Some y \<Rightarrow> Some (if le x y then x else y))"

lemma min_by_eq_None [simp]: "min_by le xs = None \<longleftrightarrow> xs = []"
  by (cases xs) (auto split: option.splits)

lemma min_by_mem: "min_by le xs = Some y \<Longrightarrow> y \<in> set xs"
  by (induction xs arbitrary: y) (auto split: option.splits if_splits)

lemma min_by_least:
  assumes "\<And>a b. a \<in> set xs \<Longrightarrow> b \<in> set xs \<Longrightarrow> le a b \<or> le b a"
    and "\<And>a b c. {a, b, c} \<subseteq> set xs \<Longrightarrow> le a b \<Longrightarrow> le b c \<Longrightarrow> le a c"
    and "min_by le xs = Some y" and "x \<in> set xs"
  shows "le y x"
  using assms
proof (induction xs arbitrary: x y)
  case Nil
  from Nil(4) show ?case by simp
next
  case (Cons z zs)
  have tot: "le a b \<or> le b a" if "a \<in> set zs" "b \<in> set zs" for a b
    using that by (intro Cons.prems(1)) auto
  have tr: "le a c" if "{a, b, c} \<subseteq> set zs" "le a b" "le b c" for a b c
    by (rule Cons.prems(2) [OF _ that(2,3)]) (use that(1) in auto)
  have refl: "le z z" using Cons.prems(1) [of z z] by auto
  show ?case
  proof (cases "min_by le zs")
    case None
    with Cons.prems(3,4) refl show ?thesis by simp
  next
    case (Some w)
    have w: "w \<in> set zs" by (rule min_by_mem [OF Some])
    have least: "le w v" if "v \<in> set zs" for v
      by (rule Cons.IH [OF tot tr Some that])
    have y: "y = (if le z w then z else w)" using Cons.prems(3) Some by simp
    have zw: "le z w \<or> le w z" using Cons.prems(1) [of z w] w by auto
    show ?thesis
    proof (cases "x = z")
      case True
      with y zw refl show ?thesis by (cases "le z w") simp_all
    next
      case False
      then have x: "x \<in> set zs" using Cons.prems(4) by simp
      have "le z w \<Longrightarrow> le z x"
        by (rule Cons.prems(2) [of z w x]) (use w x least [OF x] in auto)
      with y least [OF x] show ?thesis by (cases "le z w") simp_all
    qed
  qed
qed

lemma distinct_length_mono: "distinct xs \<Longrightarrow> set xs \<subseteq> set ys \<Longrightarrow> length xs \<le> length ys"
  by (metis card_length card_mono distinct_card finite_set order_trans)

end
