(* ===== verification/Float64.thy ===== *)
theory Float64
  imports Prelude "HOL-Library.Log_Nat"
begin

text \<open>
  The floating point numbers of the source, \<open>f64\<close> and \<open>f32\<close>: rational values
  with the infinities and NaN, and operations that compute the exact result
  and round it to the nearest representable number, ties to even, as IEEE 754
  prescribes for the basic operations. The two zeros are one value, and so are
  the NaNs: no operation the source performs can tell them apart, but for
  \<open>total_cmp\<close>, which it applies to rates that are never a negative zero.
\<close>

section \<open>Rounding\<close>

datatype f64 = NaN | PosInf | NegInf | Fin rat

type_synonym f32 = f64

text \<open>The integer exponent \<open>e\<close> with \<open>2\<^sup>e \<le> x < 2\<^sup>e\<^sup>+\<^sup>1\<close>, for positive \<open>x\<close>.\<close>

definition ilog2 :: "rat \<Rightarrow> int" where
  "ilog2 x = (case quotient_of x of (p, q) \<Rightarrow>
     let e = bitlen p - bitlen q in if 2 powi e \<le> x then e else e - 1)"

text \<open>The nearest integer, the even one of two.\<close>

definition rne :: "rat \<Rightarrow> int" where
  "rne x = (let f = \<lfloor>x\<rfloor>; d = x - of_int f in
     if d < 1/2 then f else if 1/2 < d then f + 1 else if even f then f else f + 1)"

text \<open>
  Rounding of a positive number to \<open>prec\<close> significant bits, none of them below
  \<open>2\<^sup>e\<^sup>m\<^sup>i\<^sup>n\<close>: the spacing of the representable numbers around \<open>x\<close> is \<open>ulp\<close>.
\<close>

definition ulp :: "int \<Rightarrow> int \<Rightarrow> rat \<Rightarrow> rat" where
  "ulp prec emin x = 2 powi (max (ilog2 x - (prec - 1)) emin)"

definition rnd_pos :: "int \<Rightarrow> int \<Rightarrow> rat \<Rightarrow> rat" where
  "rnd_pos prec emin x = of_int (rne (x / ulp prec emin x)) * ulp prec emin x"

definition rnd :: "int \<Rightarrow> int \<Rightarrow> rat \<Rightarrow> rat" where
  "rnd prec emin x =
     (if x = 0 then 0 else if 0 < x then rnd_pos prec emin x else - rnd_pos prec emin (- x))"

definition to_float :: "int \<Rightarrow> int \<Rightarrow> int \<Rightarrow> rat \<Rightarrow> f64" where
  "to_float prec emin emax x =
     (let y = rnd prec emin x in
      if 2 powi emax \<le> y then PosInf else if y \<le> - (2 powi emax) then NegInf else Fin y)"

definition f64_of_rat :: "rat \<Rightarrow> f64" where
  "f64_of_rat = to_float 53 (-1074) 1024"

definition f32_of_rat :: "rat \<Rightarrow> f32" where
  "f32_of_rat = to_float 24 (-149) 128"

lemma ilog2_bounds:
  assumes "0 < x"
  shows "2 powi (ilog2 x) \<le> x" and "x < 2 powi (ilog2 x + 1)"
proof -
  obtain p q where pq: "quotient_of x = (p, q)" by force
  have x: "x = of_int p / of_int q" by (rule quotient_of_div [OF pq])
  have q: "0 < q" by (rule quotient_of_denom_pos [OF pq])
  with assms x have p: "0 < p" by (simp add: zero_less_divide_iff)
  define e where "e = bitlen p - bitlen q"
  have bp: "2 ^ nat (bitlen p - 1) \<le> p" "p < 2 ^ nat (bitlen p)"
    using bitlen_bounds [OF p] by auto
  have bq: "2 ^ nat (bitlen q - 1) \<le> q" "q < 2 ^ nat (bitlen q)"
    using bitlen_bounds [OF q] by auto
  have pos: "1 \<le> bitlen p" "1 \<le> bitlen q"
    using p q by (metis bitlen_le_iff_power bitlen_nonneg int_one_le_iff_zero_less linorder_not_le nat_0 power_0 bitlen_zero zless_imp_add1_zle add_0 bitlen_ge_iff_power nat_1 diff_self)+
  have pp: "(2::rat) powi (bitlen p - 1) \<le> of_int p" "of_int p < (2::rat) powi (bitlen p)"
  proof -
    have "of_int (2 ^ nat (bitlen p - 1)) \<le> (of_int p :: rat)" using bp(1) by (simp only: of_int_le_iff)
    then show "(2::rat) powi (bitlen p - 1) \<le> of_int p" using pos by (simp add: power_int_def)
    have "of_int p < (of_int (2 ^ nat (bitlen p)) :: rat)" using bp(2) by (simp only: of_int_less_iff)
    then show "of_int p < (2::rat) powi (bitlen p)" using pos by (simp add: power_int_def)
  qed
  have qq: "(2::rat) powi (bitlen q - 1) \<le> of_int q" "of_int q < (2::rat) powi (bitlen q)"
  proof -
    have "of_int (2 ^ nat (bitlen q - 1)) \<le> (of_int q :: rat)" using bq(1) by (simp only: of_int_le_iff)
    then show "(2::rat) powi (bitlen q - 1) \<le> of_int q" using pos by (simp add: power_int_def)
    have "of_int q < (of_int (2 ^ nat (bitlen q)) :: rat)" using bq(2) by (simp only: of_int_less_iff)
    then show "of_int q < (2::rat) powi (bitlen q)" using pos by (simp add: power_int_def)
  qed
  have up: "x < 2 powi (e + 1)"
  proof -
    have "x < 2 powi (bitlen p) / 2 powi (bitlen q - 1)"
      unfolding x using pp qq p q by (intro frac_less) auto
    also have "\<dots> = 2 powi (e + 1)" by (simp add: e_def power_int_diff [symmetric] algebra_simps)
    finally show ?thesis .
  qed
  have lo: "2 powi (e - 1) < x"
  proof -
    have "(2::rat) powi (e - 1) = 2 powi (bitlen p - 1) / 2 powi (bitlen q)"
      by (simp add: e_def power_int_diff [symmetric] algebra_simps)
    also have "\<dots> < x" unfolding x using pp qq p q by (intro frac_less2) auto
    finally show ?thesis .
  qed
  have il: "ilog2 x = (if 2 powi e \<le> x then e else e - 1)"
    by (simp add: ilog2_def pq e_def Let_def)
  show "2 powi (ilog2 x) \<le> x" "x < 2 powi (ilog2 x + 1)"
    using il up lo by (auto split: if_splits)
qed

lemma ilog2_mono:
  assumes "0 < x" and "x \<le> y"
  shows "ilog2 x \<le> ilog2 y"
proof (rule ccontr)
  assume "\<not> ilog2 x \<le> ilog2 y"
  then have "(2::rat) powi (ilog2 y + 1) \<le> 2 powi (ilog2 x)"
    by (intro power_int_increasing) auto
  with ilog2_bounds(1) [of x] ilog2_bounds(2) [of y] assms show False by linarith
qed

lemma rne_bounds: "\<lfloor>x\<rfloor> \<le> rne x" "rne x \<le> \<lfloor>x\<rfloor> + 1"
  by (auto simp: rne_def Let_def)

lemma rne_near: "\<bar>of_int (rne x) - x\<bar> \<le> 1 / 2"
  using floor_correct [of x] by (auto simp: rne_def Let_def abs_le_iff field_simps)

lemma rne_of_int [simp]: "rne (of_int z) = z"
  by (simp add: rne_def)

lemma rne_mono:
  assumes "x \<le> y"
  shows "rne x \<le> rne y"
proof (cases "\<lfloor>x\<rfloor> < \<lfloor>y\<rfloor>")
  case True
  then show ?thesis using rne_bounds(2) [of x] rne_bounds(1) [of y] by linarith
next
  case False
  then have eq: "\<lfloor>x\<rfloor> = \<lfloor>y\<rfloor>" using floor_mono [OF assms] by linarith
  show ?thesis using assms by (auto simp: rne_def eq Let_def)
qed

lemma pow2_pos [simp]: "0 < (2::rat) powi k"
  by simp

lemma pow2_multiple:
  "k \<le> j \<Longrightarrow> (2::rat) powi j = of_int (2 ^ nat (j - k)) * 2 powi k"
proof -
  assume "k \<le> j"
  then have "(2::rat) powi (j - k) = of_int (2 ^ nat (j - k))" by (simp add: power_int_def)
  moreover have "(2::rat) powi j = 2 powi (j - k) * 2 powi k" by (simp add: power_int_add [symmetric])
  ultimately show ?thesis by simp
qed

lemma grid_ge: "0 < u \<Longrightarrow> of_int n * u \<le> x \<Longrightarrow> of_int n * u \<le> of_int (rne (x / u)) * (u::rat)"
  using rne_mono [of "of_int n" "x / u"] by (simp add: pos_le_divide_eq)

lemma grid_le: "0 < u \<Longrightarrow> x \<le> of_int n * u \<Longrightarrow> of_int (rne (x / u)) * u \<le> of_int n * (u::rat)"
  using rne_mono [of "x / u" "of_int n"] by (simp add: pos_divide_le_eq)

lemma ulp_pos [simp]: "0 < ulp prec emin x"
  by (simp add: ulp_def)

lemma rnd_pos_nonneg: "0 \<le> x \<Longrightarrow> 0 \<le> rnd_pos prec emin x"
  using grid_ge [OF ulp_pos [of prec emin x], of 0 x] by (simp add: rnd_pos_def)

lemma rnd_pos_mono:
  assumes "1 \<le> prec" "0 < x" "x \<le> y"
  shows "rnd_pos prec emin x \<le> rnd_pos prec emin y"
proof -
  let ?k = "\<lambda>x. max (ilog2 x - (prec - 1)) emin"
  have le: "ilog2 x \<le> ilog2 y" using assms by (intro ilog2_mono)
  show ?thesis
  proof (cases "?k x = ?k y")
    case True
    then have "ulp prec emin x = ulp prec emin y" by (simp add: ulp_def)
    moreover have "rne (x / ulp prec emin y) \<le> rne (y / ulp prec emin y)"
      using assms by (intro rne_mono divide_right_mono) (auto intro: less_imp_le)
    ultimately show ?thesis by (simp add: rnd_pos_def mult_right_mono less_imp_le)
  next
    case False
    with le have lt: "ilog2 x < ilog2 y" "emin < ilog2 y - (prec - 1)" by (auto simp: max_def split: if_splits)
    define z where "z = (2::rat) powi (ilog2 y)"
    have "x \<le> 2 powi (ilog2 x + 1)" using ilog2_bounds(2) [of x] assms by simp
    also have "\<dots> \<le> z" unfolding z_def using lt by (intro power_int_increasing) auto
    finally have xz: "x \<le> z" .
    have zy: "z \<le> y" unfolding z_def using assms by (intro ilog2_bounds) auto
    have "z = of_int (2 ^ nat (ilog2 y - ?k x)) * ulp prec emin x"
      unfolding z_def ulp_def using lt assms(1) by (intro pow2_multiple) auto
    with xz have "rnd_pos prec emin x \<le> z"
      unfolding rnd_pos_def by (metis grid_le ulp_pos)
    moreover have "z = of_int (2 ^ nat (ilog2 y - ?k y)) * ulp prec emin y"
      unfolding z_def ulp_def using lt assms(1) by (intro pow2_multiple) auto
    with zy have "z \<le> rnd_pos prec emin y"
      unfolding rnd_pos_def by (metis grid_ge ulp_pos)
    ultimately show ?thesis by linarith
  qed
qed

lemma rnd_mono:
  assumes "1 \<le> prec" and "x \<le> y"
  shows "rnd prec emin x \<le> rnd prec emin y"
proof -
  consider "0 < x" | "x \<le> 0" "0 \<le> y" | "y < 0" by linarith
  then show ?thesis
  proof cases
    case 1
    with assms show ?thesis by (simp add: rnd_def rnd_pos_mono)
  next
    case 2
    have "rnd prec emin x \<le> 0" using 2 by (simp add: rnd_def rnd_pos_nonneg)
    moreover have "0 \<le> rnd prec emin y" using 2 by (simp add: rnd_def rnd_pos_nonneg)
    ultimately show ?thesis by linarith
  next
    case 3
    with assms rnd_pos_mono [of prec "- y" "- x" emin] show ?thesis by (simp add: rnd_def)
  qed
qed

lemma rnd_minus: "rnd prec emin (- x) = - rnd prec emin x"
  by (simp add: rnd_def)

lemma rnd_0 [simp]: "rnd prec emin 0 = 0"
  by (simp add: rnd_def)

lemma rnd_nonneg: "0 \<le> x \<Longrightarrow> 0 \<le> rnd prec emin x"
  by (simp add: rnd_def rnd_pos_nonneg)

lemma rnd_pos_multiple:
  assumes "0 < x" "x = of_int n * 2 powi k" "max (ilog2 x - (prec - 1)) emin \<le> k"
  shows "rnd_pos prec emin x = x"
proof -
  let ?e = "max (ilog2 x - (prec - 1)) emin"
  have x: "x = of_int (n * 2 ^ nat (k - ?e)) * ulp prec emin x"
    using pow2_multiple [OF assms(3)] assms(2) by (simp add: ulp_def)
  then have "x / ulp prec emin x = of_int (n * 2 ^ nat (k - ?e))"
    by (metis nonzero_mult_div_cancel_right less_irrefl ulp_pos)
  then have "rne (x / ulp prec emin x) = n * 2 ^ nat (k - ?e)"
    by (metis rne_of_int)
  with x show ?thesis by (simp add: rnd_pos_def)
qed

text \<open>Numbers of at most \<open>prec\<close> bits above \<open>2\<^sup>e\<^sup>m\<^sup>i\<^sup>n\<close> are not rounded.\<close>

lemma rnd_exact:
  assumes "1 \<le> prec" "emin \<le> k" "\<bar>n\<bar> \<le> 2 ^ nat prec" "x = of_int n * 2 powi k"
  shows "rnd prec emin x = x"
proof -
  have pos: "rnd_pos prec emin y = y"
    if y: "0 < y" "y = of_int m * 2 powi k" "m \<le> 2 ^ nat prec" for y m
  proof (cases "m = 2 ^ nat prec")
    case True
    have y': "y = of_int 1 * 2 powi (k + prec)"
      using assms(1) y(2) True by (simp add: power_int_add) (simp add: power_int_def)
    have "\<not> k + prec < ilog2 y"
    proof
      assume "k + prec < ilog2 y"
      then have "(2::rat) powi (k + prec) < 2 powi (ilog2 y)" by (intro power_int_strict_increasing) auto
      with ilog2_bounds(1) [OF y(1)] y' show False by simp
    qed
    then show ?thesis
      by (intro rnd_pos_multiple [OF y(1) y']) (use assms(1,2) in auto)
  next
    case False
    with y(3) have "m < 2 ^ nat prec" by simp
    then have "of_int m < (of_int (2 ^ nat prec) :: rat)" by (simp only: of_int_less_iff)
    then have "of_int m < (2::rat) powi prec" using assms(1) by (simp add: power_int_def)
    then have "y < 2 powi (prec + k)"
      unfolding y(2) by (simp add: power_int_add)
    then have "\<not> prec + k \<le> ilog2 y"
      using ilog2_bounds(1) [OF y(1)] power_int_increasing [of "prec + k" "ilog2 y" "2::rat"] by auto
    then show ?thesis
      by (intro rnd_pos_multiple [OF y(1,2)]) (use assms(2) in auto)
  qed
  consider "x = 0" | "0 < x" | "x < 0" by linarith
  then show ?thesis
  proof cases
    case 2
    with pos [OF 2 assms(4)] assms(3) show ?thesis by (simp add: rnd_def)
  next
    case 3
    with pos [of "- x" "- n"] assms(3,4) show ?thesis by (simp add: rnd_def)
  qed simp
qed

lemma rnd_pos_form:
  assumes "1 \<le> prec" "0 < x"
  shows "\<exists>n k. emin \<le> k \<and> \<bar>n\<bar> \<le> 2 ^ nat prec \<and> rnd_pos prec emin x = of_int n * 2 powi k"
proof -
  let ?k = "max (ilog2 x - (prec - 1)) emin"
  let ?n = "rne (x / ulp prec emin x)"
  have "x < 2 powi (ilog2 x + 1)" by (rule ilog2_bounds(2) [OF assms(2)])
  also have "\<dots> \<le> 2 powi (prec + ?k)" by (intro power_int_increasing) auto
  also have "\<dots> = of_int (2 ^ nat prec) * ulp prec emin x"
    using assms(1) by (simp add: ulp_def power_int_add) (simp add: power_int_def)
  finally have "of_int ?n * ulp prec emin x \<le> of_int (2 ^ nat prec) * ulp prec emin x"
    by (intro grid_le) auto
  then have "?n \<le> 2 ^ nat prec"
    by (metis mult_le_cancel_right_pos of_int_le_iff ulp_pos)
  moreover have "0 \<le> ?n"
    using rne_mono [of 0 "x / ulp prec emin x"] assms(2) ulp_pos [of prec emin x]
    by (simp add: divide_nonneg_pos less_imp_le rne_def)
  ultimately show ?thesis
    by (intro exI [of _ ?n] exI [of _ ?k]) (auto simp: rnd_pos_def ulp_def)
qed

lemma rnd_idem: "1 \<le> prec \<Longrightarrow> rnd prec emin (rnd prec emin x) = rnd prec emin x"
proof -
  assume prec: "1 \<le> prec"
  have pos: "rnd prec emin (rnd_pos prec emin y) = rnd_pos prec emin y" if "0 < y" for y
    using rnd_pos_form [OF prec that, of emin] rnd_exact [OF prec] by blast
  consider "x = 0" | "0 < x" | "x < 0" by linarith
  then show ?thesis
    by cases (use pos [of x] pos [of "- x"] rnd_minus in \<open>auto simp: rnd_def\<close>)
qed

lemma rnd_of_int: "\<bar>z\<bar> \<le> 2 ^ 53 \<Longrightarrow> rnd 53 (-1074) (of_int z) = of_int z"
  using rnd_exact [of 53 "-1074" 0 z "of_int z"] by simp

section \<open>Operations\<close>

definition is_finite :: "f64 \<Rightarrow> bool" where
  "is_finite x = (case x of Fin _ \<Rightarrow> True | _ \<Rightarrow> False)"

definition f_inf :: "bool \<Rightarrow> f64" where
  "f_inf neg = (if neg then NegInf else PosInf)"

definition f_neg :: "f64 \<Rightarrow> bool" where
  "f_neg x = (case x of Fin r \<Rightarrow> r < 0 | NegInf \<Rightarrow> True | _ \<Rightarrow> False)"

definition f_zero :: "f64 \<Rightarrow> bool" where
  "f_zero x = (x = Fin 0)"

fun f_uminus :: "f64 \<Rightarrow> f64" where
  "f_uminus (Fin r) = Fin (- r)"
| "f_uminus PosInf = NegInf"
| "f_uminus NegInf = PosInf"
| "f_uminus NaN = NaN"

fun f_add :: "f64 \<Rightarrow> f64 \<Rightarrow> f64" where
  "f_add (Fin a) (Fin b) = f64_of_rat (a + b)"
| "f_add NaN y = NaN"
| "f_add x NaN = NaN"
| "f_add PosInf NegInf = NaN"
| "f_add NegInf PosInf = NaN"
| "f_add PosInf y = PosInf"
| "f_add NegInf y = NegInf"
| "f_add x y = y"

definition f_mul :: "f64 \<Rightarrow> f64 \<Rightarrow> f64" where
  "f_mul x y = (case (x, y) of
     (Fin a, Fin b) \<Rightarrow> f64_of_rat (a * b)
   | (NaN, _) \<Rightarrow> NaN
   | (_, NaN) \<Rightarrow> NaN
   | _ \<Rightarrow> if f_zero x \<or> f_zero y then NaN else f_inf (f_neg x \<noteq> f_neg y))"

text \<open>
  Division by the one zero gives the infinity of the dividend's sign, as by
  the positive zero; the source divides by sizes, intervals and sums that are
  never a negative zero.
\<close>

definition f_div :: "f64 \<Rightarrow> f64 \<Rightarrow> f64" where
  "f_div x y = (case (x, y) of
     (NaN, _) \<Rightarrow> NaN
   | (_, NaN) \<Rightarrow> NaN
   | (Fin a, Fin b) \<Rightarrow> if b = 0 then (if a = 0 then NaN else f_inf (a < 0)) else f64_of_rat (a / b)
   | (Fin a, _) \<Rightarrow> Fin 0
   | (_, Fin b) \<Rightarrow> f_inf (f_neg x \<noteq> f_neg y)
   | _ \<Rightarrow> NaN)"

fun f_less :: "f64 \<Rightarrow> f64 \<Rightarrow> bool" where
  "f_less (Fin a) (Fin b) = (a < b)"
| "f_less NegInf (Fin b) = True"
| "f_less NegInf PosInf = True"
| "f_less (Fin a) PosInf = True"
| "f_less _ _ = False"

instantiation f64 :: "{zero, one, plus, minus, uminus, times, inverse, ord}"
begin

definition zero_f64 :: f64 where "0 = Fin 0"
definition one_f64 :: f64 where "1 = Fin 1"
definition plus_f64 :: "f64 \<Rightarrow> f64 \<Rightarrow> f64" where "x + y = f_add x y"
definition uminus_f64 :: "f64 \<Rightarrow> f64" where "- x = f_uminus x"
definition minus_f64 :: "f64 \<Rightarrow> f64 \<Rightarrow> f64" where "x - y = f_add x (f_uminus y)"
definition times_f64 :: "f64 \<Rightarrow> f64 \<Rightarrow> f64" where "x * y = f_mul x y"
definition divide_f64 :: "f64 \<Rightarrow> f64 \<Rightarrow> f64" where "x div y = f_div x y"
definition inverse_f64 :: "f64 \<Rightarrow> f64" where "inverse x = f_div (Fin 1) x"
definition less_f64 :: "f64 \<Rightarrow> f64 \<Rightarrow> bool" where "x < y = f_less x y"
definition less_eq_f64 :: "f64 \<Rightarrow> f64 \<Rightarrow> bool" where "x \<le> y = (f_less x y \<or> (x = y \<and> x \<noteq> NaN))"

instance ..

end

lemmas f64_ops = zero_f64_def one_f64_def plus_f64_def minus_f64_def uminus_f64_def times_f64_def
  divide_f64_def less_f64_def less_eq_f64_def

lemma Fin_ops [simp]:
  "Fin a + Fin b = f64_of_rat (a + b)"
  "Fin a - Fin b = f64_of_rat (a - b)"
  "Fin a * Fin b = f64_of_rat (a * b)"
  "b \<noteq> 0 \<Longrightarrow> Fin a / Fin b = f64_of_rat (a / b)"
  "- Fin a = Fin (- a)"
  by (simp_all add: f64_ops f_mul_def f_div_def)

lemma Fin_order [simp]:
  "Fin a < Fin b \<longleftrightarrow> a < b" "Fin a \<le> Fin b \<longleftrightarrow> a \<le> b"
  "(0::f64) = Fin 0" "(1::f64) = Fin 1"
  by (auto simp: f64_ops)

text \<open>\<open>total_cmp\<close>, NaN last: \<open>total_le a b\<close> for "not \<open>Greater\<close>".\<close>

fun total_le :: "f64 \<Rightarrow> f64 \<Rightarrow> bool" where
  "total_le _ NaN = True"
| "total_le NaN _ = False"
| "total_le NegInf _ = True"
| "total_le _ NegInf = False"
| "total_le _ PosInf = True"
| "total_le PosInf _ = False"
| "total_le (Fin a) (Fin b) = (a \<le> b)"

lemma total_le_linear: "total_le a b \<or> total_le b a"
  by (cases a; cases b) auto

lemma total_le_trans: "total_le a b \<Longrightarrow> total_le b c \<Longrightarrow> total_le a c"
  by (cases a; cases b; cases c) auto

lemma total_le_antisym: "total_le a b \<Longrightarrow> total_le b a \<Longrightarrow> a = b"
  by (cases a; cases b) auto

text \<open>\<open>f64::min\<close> and \<open>f64::max\<close>: the other operand where one is NaN.\<close>

definition f64_min :: "f64 \<Rightarrow> f64 \<Rightarrow> f64" where
  "f64_min x y = (if x = NaN then y else if y = NaN then x else if y < x then y else x)"

definition f64_max :: "f64 \<Rightarrow> f64 \<Rightarrow> f64" where
  "f64_max x y = (if x = NaN then y else if y = NaN then x else if x < y then y else x)"

text \<open>\<open>ceil\<close>, and \<open>round\<close>, which takes halves away from zero.\<close>

definition f64_ceil :: "f64 \<Rightarrow> f64" where
  "f64_ceil x = (case x of Fin r \<Rightarrow> Fin (of_int \<lceil>r\<rceil>) | _ \<Rightarrow> x)"

definition f64_round :: "f64 \<Rightarrow> f64" where
  "f64_round x = (case x of
     Fin r \<Rightarrow> Fin (of_int (if 0 \<le> r then \<lfloor>r + 1/2\<rfloor> else - \<lfloor>1/2 - r\<rfloor>)) | _ \<Rightarrow> x)"

text \<open>The casts \<open>as f64\<close> from integers, and the saturating \<open>as u64\<close>, \<open>as u32\<close>.\<close>

definition f64_of_word :: "'a::len word \<Rightarrow> f64" where
  "f64_of_word w = f64_of_rat (of_nat (unat w))"

definition f64_of_nat :: "nat \<Rightarrow> f64" where
  "f64_of_nat n = f64_of_rat (of_nat n)"

definition word_of_f64 :: "f64 \<Rightarrow> 'a::len word" where
  "word_of_f64 x = (case x of
     Fin r \<Rightarrow> if r \<le> 0 then 0 else if 2 ^ LENGTH('a) \<le> r then - 1 else of_int \<lfloor>r\<rfloor>
   | PosInf \<Rightarrow> - 1 | _ \<Rightarrow> 0)"

text \<open>\<open>as f32\<close>; the way back, \<open>as f64\<close>, is exact.\<close>

definition f32_of_f64 :: "f64 \<Rightarrow> f32" where
  "f32_of_f64 x = (case x of Fin r \<Rightarrow> f32_of_rat r | _ \<Rightarrow> x)"

definition f64_of_f32 :: "f32 \<Rightarrow> f64" where
  "f64_of_f32 x = x"

section \<open>Values that do not overflow\<close>

lemma rnd_pow2: "1 \<le> prec \<Longrightarrow> emin \<le> k \<Longrightarrow> rnd prec emin (2 powi k) = 2 powi k"
  using rnd_exact [of prec emin k 1 "2 powi k"] by simp

lemma f64_of_rat_Fin:
  assumes "\<bar>x\<bar> \<le> 2 ^ 1023"
  shows "f64_of_rat x = Fin (rnd 53 (-1074) x)"
proof -
  have p: "rnd 53 (-1074) (2 ^ 1023) = 2 ^ 1023"
    using rnd_pow2 [of 53 "-1074" 1023] by simp
  have "x \<le> 2 ^ 1023" "- x \<le> 2 ^ 1023" using assms by (simp_all add: abs_le_iff)
  then have "rnd 53 (-1074) x \<le> 2 ^ 1023" "rnd 53 (-1074) (- x) \<le> 2 ^ 1023"
    using rnd_mono [of 53 x "2 ^ 1023" "-1074"] rnd_mono [of 53 "- x" "2 ^ 1023" "-1074"] p by simp_all
  moreover have "(2::rat) ^ 1023 < 2 powi 1024" by simp
  ultimately have "rnd 53 (-1074) x < 2 powi 1024" "- (2 powi 1024) < rnd 53 (-1074) x"
    unfolding rnd_minus by linarith+
  then show ?thesis
    by (simp only: f64_of_rat_def to_float_def Let_def if_not_P not_le)
qed

lemma f64_of_rat_0 [simp]: "f64_of_rat 0 = Fin 0"
  by (simp add: f64_of_rat_Fin)

lemma f64_of_word_Fin:
  assumes "LENGTH('a::len) \<le> 64"
  shows "\<exists>r. f64_of_word (w :: 'a word) = Fin r \<and> 0 \<le> r \<and> r \<le> 2 ^ 64 \<and> (0 < unat w \<longrightarrow> 1 \<le> r)"
proof -
  let ?x = "of_nat (unat w) :: rat"
  have "unat w < 2 ^ LENGTH('a)" by (rule unat_lt_2p)
  also have "(2::nat) ^ LENGTH('a) \<le> 2 ^ 64" using assms by (intro power_increasing) auto
  finally have "unat w \<le> 2 ^ 64" by simp
  then have le: "?x \<le> 2 ^ 64" by (metis of_nat_le_iff of_nat_numeral of_nat_power)
  have "(2::rat) ^ 64 \<le> 2 ^ 1023" by (intro power_increasing) auto
  then have f: "f64_of_word w = Fin (rnd 53 (-1074) ?x)"
    using le by (simp only: f64_of_word_def) (intro f64_of_rat_Fin, linarith)
  have "rnd 53 (-1074) ?x \<le> 2 ^ 64"
    using rnd_mono [of 53 ?x "2 ^ 64" "-1074"] rnd_pow2 [of 53 "-1074" 64] le by simp
  moreover have "1 \<le> rnd 53 (-1074) ?x" if "0 < unat w"
  proof -
    have "1 \<le> ?x" using that by (metis of_nat_1 of_nat_le_iff Suc_leI One_nat_def)
    then show ?thesis using rnd_mono [of 53 1 ?x "-1074"] rnd_of_int [of 1] by simp
  qed
  moreover have "0 \<le> rnd 53 (-1074) ?x" by (rule rnd_nonneg) (rule of_nat_0_le_iff)
  ultimately show ?thesis using f by simp
qed

lemma f64_of_rat_multiple:
  assumes "n \<le> 2 ^ 53" "- 1074 \<le> k" "k \<le> 0"
  shows "f64_of_rat (of_nat n * 2 powi k) = Fin (of_nat n * 2 powi k)"
proof -
  have "(2::rat) powi k \<le> 2 powi 0" using assms(3) by (intro power_int_increasing) auto
  then have "of_nat n * 2 powi k \<le> (of_nat n :: rat) * 1" by (intro mult_left_mono) auto
  moreover have "(of_nat n :: rat) \<le> 2 ^ 53" using assms(1) by (metis of_nat_le_iff of_nat_numeral of_nat_power)
  moreover have "(2::rat) ^ 53 \<le> 2 ^ 1023" by (intro power_increasing) auto
  ultimately have le: "of_nat n * 2 powi k \<le> (2::rat) ^ 1023" by linarith
  have "rnd 53 (-1074) (of_nat n * 2 powi k) = of_nat n * 2 powi k"
    by (rule rnd_exact [of _ _ k "int n"]) (use assms in \<open>auto simp: nat_le_iff\<close>)
  moreover have "0 \<le> of_nat n * (2::rat) powi k" by simp
  ultimately show ?thesis using le by (subst f64_of_rat_Fin) (auto simp: abs_of_nonneg)
qed

section \<open>The error of one rounding\<close>

lemma rnd_error:
  assumes "0 \<le> x"
  shows "\<bar>rnd 53 (-1074) x - x\<bar> \<le> x * 2 powi (-53) + 2 powi (-1075)"
proof (cases "x = 0")
  case False
  then have pos: "0 < x" using assms by simp
  let ?u = "ulp 53 (-1074) x"
  have u: "?u \<le> x * 2 powi (-52) + 2 powi (-1074)"
  proof -
    have "2 powi (ilog2 x - 52) = 2 powi ilog2 x * (2 :: rat) powi (-52)"
      by (metis add_uminus_conv_diff power_int_add zero_neq_numeral)
    also have "\<dots> \<le> x * 2 powi (-52)" using ilog2_bounds(1) [OF pos] by (intro mult_right_mono) auto
    finally have 1: "(2 :: rat) powi (ilog2 x - 52) \<le> x * 2 powi (-52)" .
    show ?thesis
    proof (cases "ilog2 x - 52 \<le> -1074")
      case True
      then have "?u = 2 powi (-1074)" by (simp add: ulp_def)
      moreover have "0 \<le> x * 2 powi (-52)" using pos by simp
      ultimately show ?thesis by linarith
    next
      case False
      then have "?u = 2 powi (ilog2 x - 52)" by (simp add: ulp_def)
      moreover have "(0 :: rat) \<le> 2 powi (-1074)" by simp
      ultimately show ?thesis using 1 by linarith
    qed
  qed
  have "rnd 53 (-1074) x - x = (of_int (rne (x / ?u)) - x / ?u) * ?u"
    using pos less_imp_neq [OF ulp_pos [of 53 "-1074" x]] by (simp add: rnd_def rnd_pos_def left_diff_distrib)
  then have "\<bar>rnd 53 (-1074) x - x\<bar> = \<bar>of_int (rne (x / ?u)) - x / ?u\<bar> * ?u"
    by (simp add: abs_mult less_imp_le)
  also have "\<dots> \<le> 1 / 2 * ?u" by (intro mult_right_mono rne_near) (simp add: less_imp_le)
  also have "\<dots> \<le> 1 / 2 * (x * 2 powi (-52) + 2 powi (-1074))" using u by simp
  also have "\<dots> = x * 2 powi (-53) + 2 powi (-1075)" by (simp add: power_int_def field_simps)
  finally show ?thesis .
qed (simp add: power_int_def)

abbreviation R :: "rat \<Rightarrow> rat" where
  "R x \<equiv> rnd 53 (-1074) x"

lemma R_between:
  assumes "0 \<le> x" "x \<le> 2 ^ k" "k \<le> 1023"
  shows "0 \<le> R x" "R x \<le> 2 ^ k" "f64_of_rat x = Fin (R x)"
proof -
  show "0 \<le> R x" by (rule rnd_nonneg [OF assms(1)])
  have "R x \<le> R (2 powi int k)" using assms(2) by (intro rnd_mono) auto
  also have "R (2 powi int k) = 2 powi int k" by (rule rnd_pow2) auto
  finally show "R x \<le> 2 ^ k" by simp
  have "(2 :: rat) ^ k \<le> 2 ^ 1023" using assms(3) by (intro power_increasing) auto
  then show "f64_of_rat x = Fin (R x)" using assms(1,2) by (intro f64_of_rat_Fin) linarith
qed

lemma pow2_less_iff: "(2 :: rat) powi a < 2 powi b \<longleftrightarrow> a < b"
  using power_int_increasing [of b a "2 :: rat"] power_int_strict_increasing [of a b "2 :: rat"] by force

lemma ilog2_eq: "2 powi k \<le> x \<Longrightarrow> x < 2 powi (k + 1) \<Longrightarrow> ilog2 x = k"
proof -
  assume k: "2 powi k \<le> x" "x < 2 powi (k + 1)"
  have "(0 :: rat) < 2 powi k" by simp
  then have pos: "0 < x" using k(1) by linarith
  note b = ilog2_bounds [OF pos]
  have "(2 :: rat) powi k < 2 powi (ilog2 x + 1)" "(2 :: rat) powi ilog2 x < 2 powi (k + 1)" using k b by linarith+
  then have "k < ilog2 x + 1" "ilog2 x < k + 1" by (simp_all only: pow2_less_iff)
  then show ?thesis by simp
qed

lemma just_over: "rnd 53 (-1074) (2 ^ 95 + 2 ^ 41) = 2 ^ 95"
proof -
  have "ilog2 (2 ^ 95 + 2 ^ 41) = 95" by (rule ilog2_eq) (simp_all add: power_int_def)
  then have "ulp 53 (-1074) (2 ^ 95 + 2 ^ 41) = 2 ^ 43" by (simp add: ulp_def)
  moreover have "rne ((2 ^ 95 + 2 ^ 41) / 2 ^ 43) = 2 ^ 52"
  proof -
    have "\<lfloor>18014398509481985 / 4 :: rat\<rfloor> = 4503599627370496" by (simp add: floor_eq_iff)
    then show ?thesis by (simp add: rne_def Let_def)
  qed
  ultimately show ?thesis by (simp add: rnd_def rnd_pos_def)
qed

lemma below_one_error:
  assumes "0 \<le> x" "x \<le> 1"
  shows "rnd 53 (-1074) x \<le> x + 2 powi (-54)"
proof -
  consider "x = 0" | "x = 1" | "0 < x" "x < 1" using assms by linarith
  then show ?thesis
  proof cases
    case 2
    then show ?thesis using rnd_of_int [of 1] by simp
  next
    case 3
    have "(2 :: rat) powi ilog2 x < 2 powi 0" using ilog2_bounds(1) [OF 3(1)] 3(2) by simp
    then have "ilog2 x < 0" by (simp only: pow2_less_iff)
    then have "max (ilog2 x - (53 - 1)) (-1074) \<le> -53" by simp
    then have "ulp 53 (-1074) x \<le> 2 powi (-53)" unfolding ulp_def by (rule power_int_increasing) simp
    moreover have "rnd 53 (-1074) x - x = (of_int (rne (x / ulp 53 (-1074) x)) - x / ulp 53 (-1074) x) * ulp 53 (-1074) x"
      using 3 less_imp_neq [OF ulp_pos [of 53 "-1074" x]] by (simp add: rnd_def rnd_pos_def left_diff_distrib)
    moreover have "(of_int (rne (x / ulp 53 (-1074) x)) - x / ulp 53 (-1074) x) * ulp 53 (-1074) x \<le> 1 / 2 * ulp 53 (-1074) x"
      using rne_near [of "x / ulp 53 (-1074) x", unfolded abs_le_iff] by (intro mult_right_mono) (simp_all add: less_imp_le)
    moreover have "1 / 2 * 2 powi (-53) = (2 :: rat) powi (-54)" by (simp add: power_int_def power_divide)
    ultimately show ?thesis by linarith
  qed simp
qed

lemma rnd_scale:
  assumes "0 \<le> y"
  shows "rnd 53 (-1074) (rnd 53 (-1074) y * 2 ^ k) = rnd 53 (-1074) y * 2 ^ k"
proof (cases "y = 0")
  case False
  then obtain n j where nj: "- 1074 \<le> j" "\<bar>n\<bar> \<le> 2 ^ nat 53" "rnd 53 (-1074) y = of_int n * 2 powi j"
    using rnd_pos_form [of 53 y "-1074"] assms by (auto simp: rnd_def)
  have "rnd 53 (-1074) y * 2 ^ k = of_int n * 2 powi (j + int k)" by (simp add: nj(3) power_int_add)
  then show ?thesis using nj by (intro rnd_exact [of 53 "-1074" "j + int k" n]) auto
qed simp

end
