(* ===== verification/Gcra.thy ===== *)
theory Gcra
  imports Float64
begin

text \<open>
  \<open>rateguard-core/src/gcra.rs\<close>: the Generic Cell Rate Algorithm. \<open>quota\<close> is a
  rate kept as an emission interval and a burst, packed into one 64-bit word;
  \<open>gcra\<close> is the single-threaded limiter, \<open>atomic_gcra\<close> the one whose state is
  two atomic words and \<open>shadow_gcra\<close> the one that only counts. The operations
  here are the methods run without interference; the compare-and-swap loops
  under interference are in \<open>Gcra_Atomic\<close>.
\<close>

unbundle bit_operations_syntax

section \<open>Quotas\<close>

definition ONE_SEC :: nanos where "ONE_SEC = 1000000000"
definition INTERVAL_BITS :: nat where "INTERVAL_BITS = 40"
definition UNIT_BITS :: nat where "UNIT_BITS = 2"
definition BURST_BITS :: nat where "BURST_BITS = 64 - INTERVAL_BITS - UNIT_BITS"
definition UNIT_SHIFT :: nat where "UNIT_SHIFT = BURST_BITS"
definition INTERVAL_SHIFT :: nat where "INTERVAL_SHIFT = BURST_BITS + UNIT_BITS"
definition UNIT_NANOS :: "u64 list" where "UNIT_NANOS = [1, 1000, 1000000]"
definition MAX_INTERVAL :: nanos where "MAX_INTERVAL = (2 ^ INTERVAL_BITS - 1) * 1000000"
definition MAX_BURST :: u32 where "MAX_BURST = 2 ^ BURST_BITS - 1"

record quota =
  q_interval :: nanos
  q_burst :: u32

text \<open>\<open>Quota::encode_interval\<close>: the loop over the units; its end is \<open>unreachable!\<close>.\<close>

fun encode_loop :: "nat \<Rightarrow> u64 list \<Rightarrow> u64 \<Rightarrow> (u64 \<times> nat) option" where
  "encode_loop unit [] interval = None"
| "encode_loop unit (n # ns) interval =
     (let value = div_ceil interval n in
      if value < 2 ^ INTERVAL_BITS then Some (value, unit)
      else encode_loop (Suc unit) ns interval)"

definition encode_interval :: "nanos \<Rightarrow> (u64 \<times> nat) option" where
  "encode_interval interval = encode_loop 0 UNIT_NANOS interval"

definition with_interval :: "nanos \<Rightarrow> u32 \<Rightarrow> quota option" where
  "with_interval interval burst = do {
     ensure (0 < burst);
     ensure (burst \<le> MAX_BURST);
     (value, unit) \<leftarrow> encode_interval (min (max interval 1) MAX_INTERVAL);
     Some \<lparr>q_interval = value * UNIT_NANOS ! unit, q_burst = burst\<rparr>
   }"

definition quota_new :: "u32 \<Rightarrow> u32 \<Rightarrow> quota option" where
  "quota_new rate_per_sec burst = do {
     ensure (0 < rate_per_sec);
     with_interval (div_ceil ONE_SEC (ucast rate_per_sec)) burst
   }"

definition interval_of_rate :: "f64 \<Rightarrow> nanos" where
  "interval_of_rate rate =
     (let interval = f64_ceil (f64_of_word ONE_SEC / rate) in
      if is_finite interval \<and> 1 \<le> interval then min (word_of_f64 interval) MAX_INTERVAL
      else if is_finite interval \<and> 0 < interval then 1
      else MAX_INTERVAL)"

definition per_second :: "f64 \<Rightarrow> u32 \<Rightarrow> quota option" where
  "per_second rate burst = with_interval (interval_of_rate rate) burst"

definition rate_per_sec :: "quota \<Rightarrow> f64" where
  "rate_per_sec q = f64_of_word ONE_SEC / f64_of_word (q_interval q)"

definition pack :: "quota \<Rightarrow> u64 option" where
  "pack q = do {
     (value, unit) \<leftarrow> encode_interval (q_interval q);
     Some (push_bit INTERVAL_SHIFT value OR push_bit UNIT_SHIFT (of_nat unit) OR ucast (q_burst q))
   }"

definition unpack :: "u64 \<Rightarrow> quota option" where
  "unpack packed = (let unit = unat (drop_bit UNIT_SHIFT packed AND (2 ^ UNIT_BITS - 1)) in do {
     ensure (unit < length UNIT_NANOS);
     with_interval (saturating_mul (drop_bit INTERVAL_SHIFT packed) (UNIT_NANOS ! unit))
       (ucast (packed AND ucast MAX_BURST))
   })"

text \<open>The longest burst tolerance, \<open>u64::MAX / 2\<close>.\<close>

definition MAX_TAU :: nanos where "MAX_TAU = (- 1) div 2"

definition tau :: "nanos \<Rightarrow> u64 \<Rightarrow> nanos" where
  "tau interval burst = min (saturating_mul interval (saturating_sub burst 1)) MAX_TAU"

definition t_nanos :: "quota \<Rightarrow> nanos" where
  "t_nanos q = q_interval q"

definition tau_nanos :: "quota \<Rightarrow> nanos" where
  "tau_nanos q = tau (q_interval q) (ucast (q_burst q))"

definition DECODE_UNIT_NANOS :: "u64 list" where
  "DECODE_UNIT_NANOS = [UNIT_NANOS ! 0, UNIT_NANOS ! 1, UNIT_NANOS ! 2, UNIT_NANOS ! 2]"

definition decode_quota :: "u64 \<Rightarrow> nanos \<times> nanos" where
  "decode_quota packed =
     (let unit = drop_bit UNIT_SHIFT packed AND (2 ^ UNIT_BITS - 1);
          n = DECODE_UNIT_NANOS ! unat unit;
          t = drop_bit INTERVAL_SHIFT packed * n
      in (t, tau t (packed AND ucast MAX_BURST)))"

section \<open>The single-threaded limiter\<close>

record gcra =
  g_quota :: quota
  g_tat :: "nanos option"

datatype decision = Allow | Deny nanos

definition gcra_new :: "quota \<Rightarrow> gcra" where
  "gcra_new q = \<lparr>g_quota = q, g_tat = None\<rparr>"

definition gcra_check :: "gcra \<Rightarrow> nanos \<Rightarrow> decision \<times> gcra" where
  "gcra_check g now =
     (let t = t_nanos (g_quota g);
          tu = tau_nanos (g_quota g);
          tat = (case g_tat g of None \<Rightarrow> now | Some x \<Rightarrow> x);
          earliest = saturating_sub tat tu
      in if now < earliest then (Deny earliest, g)
         else (Allow, g\<lparr>g_tat := Some (saturating_add (max tat now) t)\<rparr>))"

definition carry_tat :: "nanos \<Rightarrow> quota \<Rightarrow> quota \<Rightarrow> nanos \<Rightarrow> nanos" where
  "carry_tat tat old new now =
     (let computed = f64_of_word (saturating_sub tat now) / f64_of_word (t_nanos old);
          debt_slots =
            (if tat = - 1
             then f64_max (f64_max computed (f64_of_word (q_burst old))) (f64_of_word (q_burst new))
             else computed)
      in saturating_add now (word_of_f64 (f64_round (debt_slots * f64_of_word (t_nanos new)))))"

definition gcra_set_quota :: "gcra \<Rightarrow> quota \<Rightarrow> nanos \<Rightarrow> gcra" where
  "gcra_set_quota g q now =
     (if q = g_quota g then g
      else case g_tat g of
        Some old_tat \<Rightarrow> g\<lparr>g_tat := Some (carry_tat old_tat (g_quota g) q now), g_quota := q\<rparr>
      | None \<Rightarrow> g\<lparr>g_quota := q\<rparr>)"

definition gcra_has_debt :: "gcra \<Rightarrow> nanos \<Rightarrow> bool" where
  "gcra_has_debt g now = (case g_tat g of None \<Rightarrow> False | Some tat \<Rightarrow> now < tat)"

definition gcra_retry_after :: "gcra \<Rightarrow> nanos \<Rightarrow> nanos option" where
  "gcra_retry_after g now = (case g_tat g of None \<Rightarrow> None
   | Some tat \<Rightarrow>
       let earliest = saturating_sub tat (tau_nanos (g_quota g)) in
       if now < earliest then Some (earliest - now) else None)"

section \<open>The limiter in two words\<close>

record atomic_gcra =
  a_quota :: u64
  a_tat :: u64

text \<open>\<open>step\<close>, where the compare-and-swap succeeds at once.\<close>

definition gcra_step :: "nanos \<Rightarrow> u64 \<Rightarrow> nanos \<Rightarrow> decision \<times> nanos" where
  "gcra_step tat quota now =
     (let (t, tu) = decode_quota quota;
          earliest = saturating_sub tat tu
      in if now < earliest then (Deny earliest, tat)
         else (Allow, saturating_add (max tat now) t))"

definition rescale :: "nanos \<Rightarrow> quota \<Rightarrow> quota \<Rightarrow> nanos \<Rightarrow> nanos" where
  "rescale tat old new now = (if old = new then tat else carry_tat tat old new now)"

definition atomic_new :: "quota \<Rightarrow> atomic_gcra option" where
  "atomic_new q = do { w \<leftarrow> pack q; Some \<lparr>a_quota = w, a_tat = 0\<rparr> }"

definition atomic_check :: "atomic_gcra \<Rightarrow> nanos \<Rightarrow> decision \<times> atomic_gcra" where
  "atomic_check a now =
     (let (d, tat) = gcra_step (a_tat a) (a_quota a) now in (d, a\<lparr>a_tat := tat\<rparr>))"

definition atomic_set_quota :: "atomic_gcra \<Rightarrow> quota \<Rightarrow> nanos \<Rightarrow> atomic_gcra option" where
  "atomic_set_quota a q now = do {
     w \<leftarrow> pack q;
     if a_quota a = w then Some a
     else do {
       old \<leftarrow> unpack (a_quota a);
       Some (a\<lparr>a_quota := w, a_tat := rescale (a_tat a) old q now\<rparr>)
     }
   }"

definition atomic_has_debt :: "atomic_gcra \<Rightarrow> nanos \<Rightarrow> bool" where
  "atomic_has_debt a now = (now < a_tat a)"

definition atomic_reset :: "atomic_gcra \<Rightarrow> quota \<Rightarrow> atomic_gcra option" where
  "atomic_reset a q = do { w \<leftarrow> pack q; Some (a\<lparr>a_quota := w, a_tat := 0\<rparr>) }"

section \<open>The limiter that only counts\<close>

record shadow_gcra =
  s_quota :: u64
  s_tat :: u64

definition shadow_new :: shadow_gcra where
  "shadow_new = \<lparr>s_quota = 0, s_tat = 0\<rparr>"

definition shadow_set :: "shadow_gcra \<Rightarrow> quota option \<Rightarrow> nanos \<Rightarrow> shadow_gcra option" where
  "shadow_set s q now = do {
     packed \<leftarrow> (case q of None \<Rightarrow> Some 0 | Some new \<Rightarrow> pack new);
     if s_quota s = packed then Some s
     else case q of
       Some new \<Rightarrow>
         if s_quota s \<noteq> 0 then do {
           old \<leftarrow> unpack (s_quota s);
           Some (s\<lparr>s_quota := packed, s_tat := rescale (s_tat s) old new now\<rparr>)
         } else Some (s\<lparr>s_quota := packed, s_tat := 0\<rparr>)
     | None \<Rightarrow> Some (s\<lparr>s_quota := packed, s_tat := 0\<rparr>)
   }"

definition shadow_check :: "shadow_gcra \<Rightarrow> nanos \<Rightarrow> decision option \<times> shadow_gcra" where
  "shadow_check s now =
     (if s_quota s = 0 then (None, s)
      else let (d, tat) = gcra_step (s_tat s) (s_quota s) now in (Some d, s\<lparr>s_tat := tat\<rparr>))"

definition shadow_reset :: "shadow_gcra \<Rightarrow> shadow_gcra" where
  "shadow_reset s = s\<lparr>s_quota := 0, s_tat := 0\<rparr>"

section \<open>Quotas and their packed words\<close>

lemmas gcra_consts = ONE_SEC_def INTERVAL_BITS_def UNIT_BITS_def BURST_BITS_def UNIT_SHIFT_def
  INTERVAL_SHIFT_def UNIT_NANOS_def MAX_INTERVAL_def MAX_BURST_def DECODE_UNIT_NANOS_def

lemma MAX_TAU_eq: "MAX_TAU = 9223372036854775807"
  by (simp add: MAX_TAU_def)

lemma MAX_INTERVAL_eq: "MAX_INTERVAL = 1099511627775000000"
  by (simp add: MAX_INTERVAL_def INTERVAL_BITS_def)

lemma unat_MAX_INTERVAL: "unat MAX_INTERVAL = 1099511627775000000"
  by (simp add: MAX_INTERVAL_eq)

lemma encode_interval_eq:
  "encode_interval i =
     (if i < 1099511627776 then Some (i, 0)
      else if div_ceil i 1000 < 1099511627776 then Some (div_ceil i 1000, 1)
      else if div_ceil i 1000000 < 1099511627776 then Some (div_ceil i 1000000, 2)
      else None)"
proof -
  have "div_ceil i 1 = i" by (simp add: div_ceil_def)
  then show ?thesis by (simp add: encode_interval_def UNIT_NANOS_def INTERVAL_BITS_def Let_def)
qed

definition quota_wf :: "quota \<Rightarrow> bool" where
  "quota_wf q = (0 < q_interval q \<and> q_interval q \<le> MAX_INTERVAL \<and> 0 < q_burst q \<and> q_burst q \<le> MAX_BURST \<and>
     (case encode_interval (q_interval q) of None \<Rightarrow> False
      | Some (value, unit) \<Rightarrow> value * UNIT_NANOS ! unit = q_interval q))"

text \<open>The rounding of an interval to its unit, on natural numbers.\<close>

definition round_interval :: "nat \<Rightarrow> nat" where
  "round_interval i =
     (if i < 1099511627776 then i
      else if (i + 999) div 1000 < 1099511627776 then (i + 999) div 1000 * 1000
      else (i + 999999) div 1000000 * 1000000)"

lemma round_interval_bounds:
  assumes "i \<le> 1099511627775000000"
  shows "i \<le> round_interval i" "round_interval i \<le> 1099511627775000000"
    "(round_interval i - i) * 1000000000 \<le> i"
  using assms by (auto simp: round_interval_def)

lemma round_interval_idem:
  assumes "i \<le> 1099511627775000000"
  shows "round_interval (round_interval i) = round_interval i"
  using assms by (auto simp: round_interval_def)

lemma encode_interval_round:
  assumes "unat i \<le> 1099511627775000000"
  shows "\<exists>v u. encode_interval i = Some (v, u) \<and> u < 3 \<and> v < 1099511627776 \<and>
     unat (v * UNIT_NANOS ! u) = round_interval (unat i)"
proof -
  have c: "unat (div_ceil i 1000) = (unat i + 999) div 1000"
    "unat (div_ceil i 1000000) = (unat i + 999999) div 1000000"
    by (simp_all add: unat_div_ceil)
  consider (ns) "unat i < 1099511627776"
    | (us) "\<not> unat i < 1099511627776" "(unat i + 999) div 1000 < 1099511627776"
    | (ms) "\<not> unat i < 1099511627776" "\<not> (unat i + 999) div 1000 < 1099511627776"
      "(unat i + 999999) div 1000000 < 1099511627776"
    using assms by linarith
  then show ?thesis
  proof cases
    case ns
    then show ?thesis
      by (auto simp: encode_interval_eq word_less_nat_alt UNIT_NANOS_def round_interval_def)
  next
    case us
    then show ?thesis
      by (auto simp: encode_interval_eq word_less_nat_alt UNIT_NANOS_def round_interval_def c
          unat_mult_small)
  next
    case ms
    then show ?thesis
      by (auto simp: encode_interval_eq word_less_nat_alt UNIT_NANOS_def round_interval_def c
          unat_mult_small)
  qed
qed

lemma fields_of_packed:
  fixes v u b :: u64
  assumes v: "v < 2 ^ 40" and u: "u < 2 ^ 2" and b: "b < 2 ^ 22"
  defines "w \<equiv> push_bit 24 v OR push_bit 22 u OR b"
  shows "drop_bit 24 w = v" and "drop_bit 22 w AND 3 = u" and "w AND 4194303 = b"
proof -
  have nv: "\<And>k. bit v k \<Longrightarrow> k < 40" using bit_below [of v 40] v by (simp add: word_less_nat_alt)
  have nu: "\<And>k. bit u k \<Longrightarrow> k < 2" using bit_below [of u 2] u by (simp add: word_less_nat_alt)
  have nb: "\<And>k. bit b k \<Longrightarrow> k < 22" using bit_below [of b 22] b by (simp add: word_less_nat_alt)
  have m3: "(3::u64) = mask 2" and mb: "(4194303::u64) = mask 22"
    by (simp_all add: mask_eq_exp_minus_1)
  show "drop_bit 24 w = v"
    by (rule bit_eqI) (auto simp: w_def bit_simps dest: nv nu nb)
  show "drop_bit 22 w AND 3 = u"
    by (rule bit_eqI) (auto simp: w_def m3 bit_simps dest: nv nu nb)
  show "w AND 4194303 = b"
    by (rule bit_eqI) (auto simp: w_def mb bit_simps dest: nv nu nb)
qed

lemma unit_cases: "u < (3::nat) \<Longrightarrow> u = 0 \<or> u = 1 \<or> u = 2"
  by linarith

lemma quota_wf_D:
  assumes "quota_wf q"
  obtains v u where "encode_interval (q_interval q) = Some (v, u)" "u < 3" "v < 2 ^ 40"
    "v * UNIT_NANOS ! u = q_interval q"
    "unat v * unat (UNIT_NANOS ! u) = unat (q_interval q)"
proof -
  from assms have le: "unat (q_interval q) \<le> 1099511627775000000"
    by (simp add: quota_wf_def MAX_INTERVAL_eq word_le_nat_alt)
  obtain v u where e: "encode_interval (q_interval q) = Some (v, u)" "u < 3" "v < 1099511627776"
    using encode_interval_round [OF le] by blast
  with assms have eq: "v * UNIT_NANOS ! u = q_interval q"
    by (simp add: quota_wf_def)
  have "unat v * unat (UNIT_NANOS ! u) < 2 ^ 64"
  proof -
    have "unat v < 1099511627776" using e(3) by (simp add: word_less_nat_alt)
    moreover have "unat (UNIT_NANOS ! u) \<le> 1000000"
      using unit_cases [OF e(2)] by (elim disjE) (simp_all add: UNIT_NANOS_def)
    ultimately have "unat v * unat (UNIT_NANOS ! u) \<le> 1099511627775 * 1000000"
      by (intro mult_le_mono) auto
    then show ?thesis by simp
  qed
  then have "unat v * unat (UNIT_NANOS ! u) = unat (q_interval q)"
    by (simp add: unat_mult_small flip: eq)
  with e eq that show ?thesis by simp
qed

lemma with_interval_Some:
  assumes "0 < burst" "burst \<le> MAX_BURST"
  shows "\<exists>q. with_interval i burst = Some q \<and> q_burst q = burst \<and>
     unat (q_interval q) = round_interval (min (max (unat i) 1) 1099511627775000000)"
proof -
  let ?i = "min (max i 1) MAX_INTERVAL"
  have un: "unat ?i = min (max (unat i) 1) 1099511627775000000"
    by (simp add: min_def max_def word_le_nat_alt MAX_INTERVAL_eq)
  then have "unat ?i \<le> 1099511627775000000" by simp
  from encode_interval_round [OF this] un assms show ?thesis
    by (auto simp: with_interval_def)
qed

lemma with_interval_wf:
  assumes "with_interval i burst = Some q"
  shows "quota_wf q"
proof -
  from assms have b: "0 < burst" "burst \<le> MAX_BURST"
    by (auto simp: with_interval_def split: option.splits bind_splits)
  let ?j = "min (max (unat i) 1) 1099511627775000000"
  from with_interval_Some [OF b, of i] assms
  have q: "q_burst q = burst" "unat (q_interval q) = round_interval ?j" by auto
  have j: "?j \<le> 1099511627775000000" "1 \<le> ?j" by auto
  have le: "unat (q_interval q) \<le> 1099511627775000000" "1 \<le> unat (q_interval q)"
    using round_interval_bounds(1,2) [OF j(1)] q(2) j(2) by linarith+
  obtain v u where e: "encode_interval (q_interval q) = Some (v, u)"
    "unat (v * UNIT_NANOS ! u) = round_interval (unat (q_interval q))"
    using encode_interval_round [OF le(1)] by blast
  have "unat (v * UNIT_NANOS ! u) = unat (q_interval q)"
    using e(2) q(2) round_interval_idem [OF j(1)] by simp
  then have "v * UNIT_NANOS ! u = q_interval q" by (simp only: word_unat_eq_iff)
  with e(1) b q(1) le show ?thesis
    by (simp add: quota_wf_def MAX_INTERVAL_eq word_le_nat_alt word_less_nat_alt)
qed

lemma pack_parts:
  assumes wf: "quota_wf q"
  obtains v u w where "pack q = Some w" "encode_interval (q_interval q) = Some (v, u)" "u < 3"
    "drop_bit INTERVAL_SHIFT w = v" "unat (drop_bit UNIT_SHIFT w AND (2 ^ UNIT_BITS - 1)) = u"
    "w AND ucast MAX_BURST = ucast (q_burst q)"
    "v * UNIT_NANOS ! u = q_interval q" "unat v * unat (UNIT_NANOS ! u) = unat (q_interval q)"
proof -
  obtain v u where e: "encode_interval (q_interval q) = Some (v, u)" "u < 3" "v < 2 ^ 40"
    "v * UNIT_NANOS ! u = q_interval q" "unat v * unat (UNIT_NANOS ! u) = unat (q_interval q)"
    using quota_wf_D [OF wf] by blast
  define w where "w = push_bit 24 v OR push_bit 22 (of_nat u) OR (ucast (q_burst q) :: u64)"
  have p: "pack q = Some w"
    by (simp add: pack_def e(1) w_def gcra_consts)
  have u: "(of_nat u :: u64) < 2 ^ 2"
    using unit_cases [OF e(2)] by (elim disjE) simp_all
  have "unat (ucast (q_burst q) :: u64) = unat (q_burst q)"
    by (simp add: unat_ucast_up)
  moreover have "unat (q_burst q) < 2 ^ 22"
    using wf by (simp add: quota_wf_def MAX_BURST_def BURST_BITS_def INTERVAL_BITS_def UNIT_BITS_def
        word_le_nat_alt)
  ultimately have b: "(ucast (q_burst q) :: u64) < 2 ^ 22" by (simp add: word_less_nat_alt)
  note f = fields_of_packed [OF e(3) u b, folded w_def]
  have un: "unat (of_nat u :: u64) = u"
    using unit_cases [OF e(2)] by (elim disjE) simp_all
  show ?thesis
    by (rule that [OF p e(1,2)]) (use f un e in \<open>simp_all add: gcra_consts\<close>)
qed

lemma unpack_pack_wf:
  assumes "quota_wf q"
  shows "\<exists>w. pack q = Some w \<and> unpack w = Some q"
proof -
  obtain v u w where w: "pack q = Some w" "encode_interval (q_interval q) = Some (v, u)" "u < 3"
    "drop_bit INTERVAL_SHIFT w = v" "unat (drop_bit UNIT_SHIFT w AND (2 ^ UNIT_BITS - 1)) = u"
    "w AND ucast MAX_BURST = ucast (q_burst q)"
    "v * UNIT_NANOS ! u = q_interval q" "unat v * unat (UNIT_NANOS ! u) = unat (q_interval q)"
    using pack_parts [OF assms] by blast
  have sm: "saturating_mul v (UNIT_NANOS ! u) = q_interval q"
    using w(7,8) unat_lt_2p [of "q_interval q"] by (simp add: saturating_mul_def)
  have bb: "ucast (ucast (q_burst q) :: u64) = q_burst q" by (rule ucast_ucast_up) simp
  have cl: "min (max (q_interval q) 1) MAX_INTERVAL = q_interval q"
  proof -
    have "1 \<le> q_interval q" using assms by (simp add: quota_wf_def word_le_nat_alt word_less_nat_alt)
    then show ?thesis using assms by (simp add: quota_wf_def min_absorb1 max_absorb1)
  qed
  have "with_interval (q_interval q) (q_burst q) = Some q"
    using assms w(2,7) by (simp add: with_interval_def cl quota_wf_def)
  then have "unpack w = Some q"
    by (simp add: unpack_def w(4,5,6) sm bb) (use w(3) in \<open>simp add: UNIT_NANOS_def\<close>)
  with w(1) show ?thesis by blast
qed

lemma decode_pack_wf:
  assumes "quota_wf q" and "pack q = Some w"
  shows "decode_quota w = (t_nanos q, tau_nanos q)"
proof -
  obtain v u w' where w': "pack q = Some w'" "u < 3"
    "drop_bit INTERVAL_SHIFT w' = v" "unat (drop_bit UNIT_SHIFT w' AND (2 ^ UNIT_BITS - 1)) = u"
    "w' AND ucast MAX_BURST = ucast (q_burst q)"
    "v * UNIT_NANOS ! u = q_interval q"
    using pack_parts [OF assms(1)] by blast
  moreover have "w' = w" using w'(1) assms(2) by simp
  ultimately have w: "u < 3"
    "drop_bit INTERVAL_SHIFT w = v" "unat (drop_bit UNIT_SHIFT w AND (2 ^ UNIT_BITS - 1)) = u"
    "w AND ucast MAX_BURST = ucast (q_burst q)"
    "v * UNIT_NANOS ! u = q_interval q" by simp_all
  have "DECODE_UNIT_NANOS ! u = UNIT_NANOS ! u"
    using unit_cases [OF w(1)] by (elim disjE) (simp_all add: DECODE_UNIT_NANOS_def)
  with w show ?thesis
    by (simp add: decode_quota_def t_nanos_def tau_nanos_def Let_def)
qed

end
