(* ===== verification/Gcra_Admission.thy ===== *)
theory Gcra_Admission
  imports Gcra
begin

text \<open>
  What a limiter admits. \<open>rate_limiter\<close> is the contract the callers of \<open>check\<close> rely
  on, over the theoretical arrival time read as a natural number; \<open>gcra\<close> and
  \<open>atomic_gcra\<close> both provide it, and the bounds on what they admit in a window, at
  one instant and at a conforming pace are proved once from the contract.
\<close>

section \<open>Runs of checks\<close>

fun run_checks :: "('s \<Rightarrow> nanos \<Rightarrow> decision \<times> 's) \<Rightarrow> 's \<Rightarrow> nanos list \<Rightarrow> decision list \<times> 's" where
  "run_checks check s [] = ([], s)"
| "run_checks check s (now # later) =
     (let (d, s') = check s now; (ds, s'') = run_checks check s' later in (d # ds, s''))"

definition admitted :: "('s \<Rightarrow> nanos \<Rightarrow> decision \<times> 's) \<Rightarrow> 's \<Rightarrow> nanos list \<Rightarrow> nat" where
  "admitted check s reqs = count_list (fst (run_checks check s reqs)) Allow"

lemma admitted_simps [simp]:
  "admitted check s [] = 0"
  "admitted check s (now # later) =
     (if fst (check s now) = Allow then 1 else 0) + admitted check (snd (check s now)) later"
  by (auto simp: admitted_def split: prod.splits)

section \<open>The contract\<close>

locale rate_limiter =
  fixes check :: "'s \<Rightarrow> nanos \<Rightarrow> decision \<times> 's"
    and arrival :: "'s \<Rightarrow> nat"
    and period :: "'s \<Rightarrow> nat"
    and tolerance :: "'s \<Rightarrow> nat"
  assumes allow: "arrival s - tolerance s \<le> unat now \<Longrightarrow>
      \<exists>s'. check s now = (Allow, s') \<and> period s' = period s \<and> tolerance s' = tolerance s \<and>
        arrival s' = min (max (arrival s) (unat now) + period s) u64_max"
    and deny: "unat now < arrival s - tolerance s \<Longrightarrow>
      check s now = (Deny (of_nat (arrival s - tolerance s)), s)"
    and arrival_word: "arrival s \<le> u64_max"
begin

lemma allow_iff: "fst (check s now) = Allow \<longleftrightarrow> arrival s \<le> unat now + tolerance s"
proof (cases "arrival s - tolerance s \<le> unat now")
  case True
  then show ?thesis using allow [OF True] by auto
next
  case False
  then show ?thesis using deny [of now s] by auto
qed

lemma check_cases:
  obtains (Allow) s' where "arrival s \<le> unat now + tolerance s" "check s now = (Allow, s')"
      "period s' = period s" "tolerance s' = tolerance s"
      "arrival s' = min (max (arrival s) (unat now) + period s) u64_max"
  | (Deny) "unat now + tolerance s < arrival s"
      "check s now = (Deny (of_nat (arrival s - tolerance s)), s)"
proof (cases "arrival s - tolerance s \<le> unat now")
  case True
  then show ?thesis using allow [OF True] that(1) by auto
next
  case False
  then show ?thesis using deny [of now s] that(2) by auto
qed

text \<open>
  What \<open>n\<close> requests admitted since \<open>lo\<close> have left of debt. A check at any time keeps it, and one admitted in the window
  adds to it.
\<close>

definition debt :: "nat \<Rightarrow> nat \<Rightarrow> 's \<Rightarrow> bool" where
  "debt lo n s = (min (lo + n * period s) u64_max \<le> arrival s \<or> n = 0)"

lemma check_keeps: "period (snd (check s now)) = period s" "tolerance (snd (check s now)) = tolerance s"
  "arrival s \<le> arrival (snd (check s now))"
  using arrival_word [of s] by (cases rule: check_cases [of s now]; simp)+

lemma debt_kept: "debt lo n s \<Longrightarrow> debt lo n (snd (check s now))"
  using check_keeps [of s now] by (auto simp: debt_def)

lemma debt_grown:
  assumes "debt lo n s" "fst (check s now) = Allow" "lo \<le> unat now" "unat now \<le> hi" "hi + tolerance s < u64_max"
  shows "debt lo (Suc n) (snd (check s now)) \<and> lo + n * period s \<le> hi + tolerance s"
proof (cases rule: check_cases [of s now])
  case (Allow s')
  have n: "lo + n * period s \<le> max (arrival s) (unat now)"
    using Allow(1) assms(1,3-5) by (auto simp: debt_def min_def split: if_splits)
  have "min (lo + Suc n * period s') u64_max \<le> arrival s'" using n by (simp add: Allow(3,5))
  then show ?thesis using n Allow(1,2) assms(4) by (simp add: debt_def)
next
  case Deny
  then show ?thesis using assms(2) by simp
qed

text \<open>At most so many, however many that are not counted come between.\<close>

definition within_window :: "nat \<Rightarrow> nat \<Rightarrow> 's \<Rightarrow> nat \<Rightarrow> nat \<Rightarrow> bool" where
  "within_window lo hi s n m = (m = 0 \<or> lo + (n + m - 1) * period s \<le> hi + tolerance s)"

lemma within_step:
  assumes "debt lo n s" "hi + tolerance s < u64_max" "lo \<le> unat now" "unat now \<le> hi"
    and "within_window lo hi (snd (check s now)) (if fst (check s now) = Allow then Suc n else n) m"
  shows "within_window lo hi s n ((if fst (check s now) = Allow then 1 else 0) + m)"
  using assms(5) debt_grown [OF assms(1) _ assms(3,4,2)] check_keeps [of s now]
  by (auto simp: within_window_def split: if_splits)

lemma within_other: "within_window lo hi (snd (check s now)) n m = within_window lo hi s n m"
  by (simp add: within_window_def check_keeps)

lemma window_debt:
  assumes "\<forall>now \<in> set reqs. lo \<le> unat now \<and> unat now \<le> hi" "hi + tolerance s < u64_max" "debt lo n s"
  shows "within_window lo hi s n (admitted check s reqs)"
  using assms
proof (induction reqs arbitrary: s n)
  case Nil
  show ?case by (simp add: within_window_def)
next
  case (Cons now later)
  have "debt lo (if fst (check s now) = Allow then Suc n else n) (snd (check s now))"
    using debt_kept [OF Cons.prems(3)] debt_grown [OF Cons.prems(3)] Cons.prems(1,2) by auto
  then have "within_window lo hi (snd (check s now)) (if fst (check s now) = Allow then Suc n else n)
      (admitted check (snd (check s now)) later)"
    using Cons.prems(1,2) by (intro Cons.IH) (simp_all add: check_keeps)
  then show ?case using within_step [OF Cons.prems(3,2)] Cons.prems(1) by simp
qed

text \<open>A tolerance of one period for each request of the burst but one.\<close>

lemma within_count:
  assumes "within_window lo hi s 0 m"
    and "tolerance s \<le> (burst - 1) * period s" "0 < burst" "0 < period s" "lo \<le> hi"
  shows "m \<le> burst + (hi - lo) div period s"
proof (cases "m \<le> burst")
  case False
  have "(m - 1) * period s \<le> (hi - lo) + (burst - 1) * period s"
    using assms(1,2,5) False by (auto simp: within_window_def)
  moreover have "(m - 1) * period s = (m - burst) * period s + (burst - 1) * period s"
    using False assms(3) by (simp flip: add_mult_distrib)
  ultimately have "(m - burst) * period s \<le> hi - lo" by simp
  then have "m - burst \<le> (hi - lo) div period s"
    using assms(4) by (simp add: less_eq_div_iff_mult_less_eq)
  then show ?thesis by simp
qed simp

lemma window_count:
  assumes "\<forall>now \<in> set reqs. lo \<le> unat now \<and> unat now \<le> hi" "hi + tolerance s < u64_max"
    and "tolerance s \<le> (burst - 1) * period s" "0 < burst" "0 < period s" "lo \<le> hi"
  shows "admitted check s reqs \<le> burst + (hi - lo) div period s"
  by (rule within_count [OF window_debt [OF assms(1,2)] assms(3-6)]) (simp add: debt_def)

lemma instant_count:
  assumes "arrival s = unat now + k * period s" "k \<le> K"
    and "K * period s \<le> tolerance s + period s" "tolerance s < K * period s"
    and "unat now + K * period s \<le> u64_max" "0 < period s"
  shows "admitted check s (replicate n now) = min n (K - k)"
  using assms
proof (induction n arbitrary: s k)
  case 0
  show ?case by simp
next
  case (Suc n)
  show ?case
  proof (cases rule: check_cases [of s now])
    case (Allow s')
    have "k < K"
    proof (rule ccontr)
      assume "\<not> k < K"
      then have "k = K" using Suc.prems(2) by simp
      with Allow(1) Suc.prems(1,4) show False by simp
    qed
    have "Suc k * period s \<le> K * period s" using \<open>k < K\<close> by (intro mult_le_mono1) simp
    then have "arrival s' = unat now + Suc k * period s'"
      using Allow(3,5) Suc.prems(1,5) by simp
    then have "admitted check s' (replicate n now) = min n (K - Suc k)"
      using Suc.IH [of s' "Suc k"] Suc.prems \<open>k < K\<close> Allow(3,4) by simp
    then show ?thesis using \<open>k < K\<close> by (simp add: Allow(2))
  next
    case Deny
    have "k = K"
    proof (rule ccontr)
      assume "k \<noteq> K"
      then have "Suc k * period s \<le> K * period s" using Suc.prems(2) by (intro mult_le_mono1) simp
      with Deny(1) Suc.prems(1,3) show False by simp
    qed
    with Suc.IH [of s k] Suc.prems show ?thesis by (simp add: Deny(2))
  qed
qed

text \<open>From no debt, one instant admits exactly the burst.\<close>

lemma burst_exact:
  assumes "arrival s \<le> unat now" "tolerance s = (burst - 1) * period s" "0 < burst" "0 < period s"
    and "unat now + burst * period s \<le> u64_max"
  shows "admitted check s (replicate n now) = min n burst"
proof (cases n)
  case (Suc m)
  obtain s' where s': "check s now = (Allow, s')" "period s' = period s"
    "tolerance s' = tolerance s" "arrival s' = unat now + 1 * period s'"
  proof (cases rule: check_cases [of s now])
    case (Allow s')
    have "1 * period s \<le> burst * period s" using assms(3) by (intro mult_le_mono1) simp
    then have "unat now + period s \<le> u64_max" using assms(5) by linarith
    then have "arrival s' = unat now + 1 * period s'"
      using Allow(3,5) assms(1) by (simp add: max_absorb2)
    with Allow that show ?thesis by blast
  next
    case Deny
    with assms(1) show ?thesis by simp
  qed
  have b: "burst * period s = (burst - 1) * period s + period s"
    using assms(3) by (cases burst) simp_all
  have "admitted check s' (replicate m now) = min m (burst - 1)"
    by (rule instant_count [OF s'(4)]) (use assms s'(2,3) b in \<open>auto\<close>)
  then show ?thesis using Suc s'(1) assms(3) by simp
qed simp

text \<open>
  Requests a period apart are never denied for one another: each is answered as the limiter
  would have answered it had it been the only one.
\<close>

lemma conforming_allowed:
  assumes "sorted_wrt (\<lambda>a b. unat a + period s \<le> unat b) reqs"
    and "reqs \<noteq> [] \<longrightarrow> arrival s \<le> unat (hd reqs) + tolerance s"
  shows "fst (run_checks check s reqs) = replicate (length reqs) Allow"
  using assms
proof (induction reqs arbitrary: s)
  case Nil
  show ?case by simp
next
  case (Cons now later)
  show ?case
  proof (cases rule: check_cases [of s now])
    case (Allow s')
    have "arrival s' \<le> unat (hd later) + tolerance s'" if "later \<noteq> []"
      using that Cons.prems Allow by (cases later) auto
    then show ?thesis using Cons.IH [of s'] Cons.prems(1) Allow(2,3) by (simp add: split_beta)
  next
    case Deny
    with Cons.prems show ?thesis by simp
  qed
qed

lemma conforming:
  assumes "sorted_wrt (\<lambda>a b. unat a + period s \<le> unat b) reqs"
  shows "fst (run_checks check s reqs) = map (\<lambda>now. fst (check s now)) reqs"
  using assms
proof (induction reqs)
  case Nil
  show ?case by simp
next
  case (Cons now later)
  show ?case
  proof (cases rule: check_cases [of s now])
    case (Allow s')
    have "map (\<lambda>now. fst (check s now)) (now # later) = map (\<lambda>_. Allow) (now # later)"
      using Cons.prems Allow(1) by (intro map_cong) (auto simp: allow_iff)
    with conforming_allowed [OF Cons.prems] Allow(1) show ?thesis
      by (simp add: map_replicate_const)
  next
    case Deny
    with Cons show ?thesis by (simp add: split_beta)
  qed
qed

text \<open>The time in a denial is the first at which the request would pass.\<close>

lemma retry_exact:
  assumes "check s now = (Deny retry_at, s')"
  shows "s' = s" "now < retry_at" "retry_at \<le> later \<longleftrightarrow> fst (check s' later) = Allow"
    "later < retry_at \<Longrightarrow> check s' later = (Deny retry_at, s')"
proof -
  have d: "unat now + tolerance s < arrival s" "s' = s"
    "retry_at = of_nat (arrival s - tolerance s)"
    using assms by (cases rule: check_cases [of s now]; simp)+
  have "unat retry_at = arrival s - tolerance s"
    using d(3) arrival_word [of s] by (simp add: unat_of_nat)
  note r = d(1,2) this
  show "s' = s" "now < retry_at" using r by (simp_all add: word_less_nat_alt)
  show "retry_at \<le> later \<longleftrightarrow> fst (check s' later) = Allow"
    using r by (auto simp: allow_iff word_le_nat_alt)
  show "check s' later = (Deny retry_at, s')" if "later < retry_at"
    using deny [of later s] r that d(3) by (simp add: word_less_nat_alt)
qed

end

section \<open>The limiters provide it\<close>

definition gcra_arrival :: "gcra \<Rightarrow> nat" where
  "gcra_arrival g = (case g_tat g of None \<Rightarrow> 0 | Some tat \<Rightarrow> unat tat)"

lemma unat_max: "unat (max a b) = max (unat a) (unat b)" for a b :: "'a::len word"
  by (simp add: max_def word_le_nat_alt)

interpretation single: rate_limiter gcra_check gcra_arrival
  "\<lambda>g. unat (t_nanos (g_quota g))" "\<lambda>g. unat (tau_nanos (g_quota g))"
proof
  fix s :: gcra and now :: nanos
  show "\<exists>s'. gcra_check s now = (Allow, s') \<and> unat (t_nanos (g_quota s')) = unat (t_nanos (g_quota s)) \<and>
      unat (tau_nanos (g_quota s')) = unat (tau_nanos (g_quota s)) \<and>
      gcra_arrival s' = min (max (gcra_arrival s) (unat now) + unat (t_nanos (g_quota s))) u64_max"
    if "gcra_arrival s - unat (tau_nanos (g_quota s)) \<le> unat now"
    using that by (auto simp: gcra_check_def gcra_arrival_def Let_def word_less_nat_alt unat_max
        unat_arith_simps split: option.splits)
  show "gcra_check s now = (Deny (of_nat (gcra_arrival s - unat (tau_nanos (g_quota s)))), s)"
    if "unat now < gcra_arrival s - unat (tau_nanos (g_quota s))"
  proof (cases "g_tat s")
    case (Some tat)
    have "of_nat (unat tat - unat (tau_nanos (g_quota s))) = saturating_sub tat (tau_nanos (g_quota s))"
      by (simp flip: unat_saturating_sub)
    with Some that show ?thesis
      by (auto simp: gcra_check_def gcra_arrival_def Let_def word_less_nat_alt unat_arith_simps)
  qed (use that in \<open>simp add: gcra_arrival_def\<close>)
  show "gcra_arrival s \<le> u64_max"
    using unat_lt_2p [of "the (g_tat s)"] by (auto simp: gcra_arrival_def split: option.splits)
qed

interpretation packed: rate_limiter atomic_check "\<lambda>a. unat (a_tat a)"
  "\<lambda>a. unat (fst (decode_quota (a_quota a)))" "\<lambda>a. unat (snd (decode_quota (a_quota a)))"
proof
  fix s :: atomic_gcra and now :: nanos
  obtain t tu where q: "decode_quota (a_quota s) = (t, tu)" by force
  show "\<exists>s'. atomic_check s now = (Allow, s') \<and>
      unat (fst (decode_quota (a_quota s'))) = unat (fst (decode_quota (a_quota s))) \<and>
      unat (snd (decode_quota (a_quota s'))) = unat (snd (decode_quota (a_quota s))) \<and>
      unat (a_tat s') = min (max (unat (a_tat s)) (unat now) + unat (fst (decode_quota (a_quota s)))) u64_max"
    if "unat (a_tat s) - unat (snd (decode_quota (a_quota s))) \<le> unat now"
    using that q by (auto simp: atomic_check_def gcra_step_def Let_def word_less_nat_alt unat_max
        unat_arith_simps)
  show "atomic_check s now = (Deny (of_nat (unat (a_tat s) - unat (snd (decode_quota (a_quota s))))), s)"
    if "unat now < unat (a_tat s) - unat (snd (decode_quota (a_quota s)))"
  proof -
    have "of_nat (unat (a_tat s) - unat tu) = saturating_sub (a_tat s) tu"
      by (simp flip: unat_saturating_sub)
    with q that show ?thesis
      by (auto simp: atomic_check_def gcra_step_def Let_def word_less_nat_alt unat_arith_simps)
  qed
  show "unat (a_tat s) \<le> u64_max"
    using unat_lt_2p [of "a_tat s"] by simp
qed

section \<open>The tolerance of a quota\<close>

lemma unat_tau_nanos:
  "unat (tau_nanos q) =
     min (unat (q_interval q) * (unat (q_burst q) - 1)) 9223372036854775807"
proof -
  have "unat (ucast (q_burst q) :: u64) = unat (q_burst q)" by (simp add: unat_ucast_up)
  moreover have "unat (min a b) = min (unat a) (unat b)" for a b :: u64
    by (simp add: min_def word_le_nat_alt)
  ultimately show ?thesis
    by (simp add: tau_nanos_def tau_def unat_arith_simps MAX_TAU_eq)
qed

lemma tau_nanos_le: "unat (tau_nanos q) \<le> (unat (q_burst q) - 1) * unat (q_interval q)"
  by (simp add: unat_tau_nanos mult.commute)

lemma quota_wf_pos: "quota_wf q \<Longrightarrow> 0 < unat (q_interval q) \<and> 0 < unat (q_burst q)"
  by (simp add: quota_wf_def word_less_nat_alt)

lemma decode_of_pack:
  "quota_wf q \<Longrightarrow> pack q = Some w \<Longrightarrow>
     fst (decode_quota w) = q_interval q \<and> snd (decode_quota w) = tau_nanos q"
  by (simp add: decode_pack_wf t_nanos_def)

section \<open>The packed limiter refines the single-threaded one\<close>

text \<open>
  The operations both limiters have, with the answer of each. The first \<open>tat\<close> of the
  packed limiter is 0, that of the other is absent: until the first request, the two
  agree only that there is no debt at the time of the last operation.
\<close>

datatype limiter_op = Check | SetQuota quota | HasDebt

datatype limiter_answer = Decided decision | Debt bool | Done

fun gcra_op :: "gcra \<Rightarrow> nanos \<Rightarrow> limiter_op \<Rightarrow> limiter_answer \<times> gcra" where
  "gcra_op g now Check = (let (d, g') = gcra_check g now in (Decided d, g'))"
| "gcra_op g now (SetQuota q) = (Done, gcra_set_quota g q now)"
| "gcra_op g now HasDebt = (Debt (gcra_has_debt g now), g)"

fun atomic_op :: "atomic_gcra \<Rightarrow> nanos \<Rightarrow> limiter_op \<Rightarrow> (limiter_answer \<times> atomic_gcra) option" where
  "atomic_op a now Check = (let (d, a') = atomic_check a now in Some (Decided d, a'))"
| "atomic_op a now (SetQuota q) = do { a' \<leftarrow> atomic_set_quota a q now; Some (Done, a') }"
| "atomic_op a now HasDebt = Some (Debt (atomic_has_debt a now), a)"

fun gcra_run :: "gcra \<Rightarrow> (nanos \<times> limiter_op) list \<Rightarrow> limiter_answer list" where
  "gcra_run g [] = []"
| "gcra_run g ((now, x) # later) = (let (r, g') = gcra_op g now x in r # gcra_run g' later)"

fun atomic_run :: "atomic_gcra \<Rightarrow> (nanos \<times> limiter_op) list \<Rightarrow> limiter_answer list option" where
  "atomic_run a [] = Some []"
| "atomic_run a ((now, x) # later) = do {
     (r, a') \<leftarrow> atomic_op a now x;
     rs \<leftarrow> atomic_run a' later;
     Some (r # rs)
   }"

definition op_wf :: "limiter_op \<Rightarrow> bool" where
  "op_wf x = (case x of SetQuota q \<Rightarrow> quota_wf q | _ \<Rightarrow> True)"

definition refines :: "nanos \<Rightarrow> gcra \<Rightarrow> atomic_gcra \<Rightarrow> bool" where
  "refines now g a = (quota_wf (g_quota g) \<and> pack (g_quota g) = Some (a_quota a) \<and>
     (case g_tat g of None \<Rightarrow> a_tat a \<le> now | Some tat \<Rightarrow> a_tat a = tat))"

lemma refines_check:
  assumes "refines before g a" "before \<le> now"
  shows "fst (atomic_check a now) = fst (gcra_check g now)"
    "refines now (snd (gcra_check g now)) (snd (atomic_check a now))"
proof -
  have q: "decode_quota (a_quota a) = (t_nanos (g_quota g), tau_nanos (g_quota g))"
    using assms(1) by (simp add: refines_def decode_pack_wf)
  have le: "saturating_sub x y \<le> x" for x y :: nanos
    by (simp add: word_le_nat_alt unat_arith_simps)
  have none: "\<not> now < saturating_sub x y" if "x \<le> now" for x y :: nanos
    using le [of x y] that by simp
  have "fst (atomic_check a now) = fst (gcra_check g now) \<and>
    refines now (snd (gcra_check g now)) (snd (atomic_check a now))"
  proof (cases "g_tat g")
    case None
    with assms have "a_tat a \<le> now" by (auto simp: refines_def)
    then show ?thesis using assms(1) None
      by (simp add: atomic_check_def gcra_check_def gcra_step_def q Let_def none refines_def max_absorb2)
  next
    case (Some tat)
    then show ?thesis using assms(1)
      by (simp add: atomic_check_def gcra_check_def gcra_step_def q Let_def refines_def)
  qed
  then show "fst (atomic_check a now) = fst (gcra_check g now)"
    "refines now (snd (gcra_check g now)) (snd (atomic_check a now))" by blast+
qed

lemma pack_inject:
  "quota_wf q \<Longrightarrow> quota_wf r \<Longrightarrow> pack q = pack r \<Longrightarrow> q = r"
  using unpack_pack_wf [of q] unpack_pack_wf [of r] by auto

lemma carry_no_debt:
  assumes "tat \<le> now" "quota_wf old"
  shows "carry_tat tat old new now = now"
proof (cases "tat = - 1")
  case True
  then have "unat now = u64_max"
    using assms(1) unat_lt_2p [of now] by (simp add: word_le_nat_alt unat_max_word)
  then have "saturating_add now x = now" for x
    by (simp add: word_unat_eq_iff unat_arith_simps)
  then show ?thesis by (simp add: carry_tat_def Let_def)
next
  case False
  have z: "saturating_sub tat now = 0"
    using assms(1) by (simp add: word_unat_eq_iff unat_arith_simps word_le_nat_alt)
  obtain t where "f64_of_word (t_nanos old) = Fin t" "0 < unat (t_nanos old) \<longrightarrow> 1 \<le> t"
    using f64_of_word_Fin [where w = "t_nanos old"] by auto
  moreover obtain t' where "f64_of_word (t_nanos new) = Fin t'"
    using f64_of_word_Fin [where w = "t_nanos new"] by auto
  moreover have "0 < unat (t_nanos old)"
    using quota_wf_pos [OF assms(2)] by (simp add: t_nanos_def)
  ultimately have t: "f64_of_word (t_nanos old) = Fin t" "t \<noteq> 0" "f64_of_word (t_nanos new) = Fin t'"
    by auto
  have "f64_of_word (0 :: u64) = Fin 0" by (simp add: f64_of_word_def)
  then have "carry_tat tat old new now = saturating_add now (word_of_f64 (f64_round (Fin 0)))"
    using False t by (simp add: carry_tat_def z Let_def)
  also have "\<dots> = now"
    using unat_lt_2p [of now] by (simp add: f64_round_def word_of_f64_def saturating_add_def)
  finally show ?thesis .
qed

lemma refines_set_quota:
  assumes "refines before g a" "before \<le> now" "quota_wf q"
  shows "\<exists>a'. atomic_set_quota a q now = Some a' \<and> refines now (gcra_set_quota g q now) a'"
proof -
  obtain w where w: "pack q = Some w" "unpack w = Some q" using unpack_pack_wf [OF assms(3)] by blast
  have old: "quota_wf (g_quota g)" "pack (g_quota g) = Some (a_quota a)" "unpack (a_quota a) = Some (g_quota g)"
    using assms(1) unpack_pack_wf [of "g_quota g"] by (auto simp: refines_def)
  have eq: "a_quota a = w \<longleftrightarrow> q = g_quota g"
    using old w pack_inject [OF assms(3) old(1)] by auto
  have ref: "refines now (g\<lparr>g_quota := q, g_tat := seen\<rparr>) (a\<lparr>a_quota := w, a_tat := x\<rparr>)"
    if "case seen of None \<Rightarrow> x \<le> now | Some tat \<Rightarrow> x = tat" for seen x
    using that assms(3) w(1) by (cases seen) (simp_all add: refines_def)
  show ?thesis
  proof (cases "g_tat g")
    case None
    have "a_tat a \<le> before" using None assms(1) by (simp add: refines_def)
    then have "a_tat a \<le> now" using assms(2) by (rule order_trans)
    then have "rescale (a_tat a) (g_quota g) q now \<le> now"
      using carry_no_debt [OF _ old(1)] by (simp add: rescale_def)
    with None eq ref [where seen = None] assms(1,2) w(1) old(3) show ?thesis
      by (auto simp: atomic_set_quota_def gcra_set_quota_def refines_def)
  next
    case (Some tat)
    then have "a_tat a = tat" using assms(1) by (simp add: refines_def)
    with Some eq ref [where seen = "Some (carry_tat tat (g_quota g) q now)"] assms(1) w(1) old(3) show ?thesis
      by (auto simp: atomic_set_quota_def gcra_set_quota_def refines_def rescale_def)
  qed
qed

lemma refines_debt:
  "refines before g a \<Longrightarrow> before \<le> now \<Longrightarrow> atomic_has_debt a now = gcra_has_debt g now"
  by (auto simp: refines_def atomic_has_debt_def gcra_has_debt_def split: option.splits)

lemma refines_later: "refines before g a \<Longrightarrow> before \<le> now \<Longrightarrow> refines now g a"
  by (auto simp: refines_def split: option.splits)

lemma refines_op:
  assumes "refines before g a" "before \<le> now" "op_wf x"
  shows "\<exists>a'. atomic_op a now x = Some (fst (gcra_op g now x), a') \<and> refines now (snd (gcra_op g now x)) a'"
proof (cases x)
  case Check
  then show ?thesis using refines_check [OF assms(1,2)] by (simp add: split_beta Let_def)
next
  case (SetQuota q)
  then show ?thesis using refines_set_quota [OF assms(1,2), of q] assms(3) by (auto simp: op_wf_def)
next
  case HasDebt
  then show ?thesis using refines_debt refines_later assms(1,2) by simp
qed

lemma refines_run:
  assumes "refines before g a" "\<forall>(now, x) \<in> set script. before \<le> now \<and> op_wf x"
    and "sorted_wrt (\<le>) (map fst script)"
  shows "atomic_run a script = Some (gcra_run g script)"
  using assms
proof (induction script arbitrary: before g a)
  case Nil
  show ?case by simp
next
  case (Cons e later)
  obtain now x where e: "e = (now, x)" by force
  obtain a' where a': "atomic_op a now x = Some (fst (gcra_op g now x), a')"
    "refines now (snd (gcra_op g now x)) a'"
    using refines_op [OF Cons.prems(1), of now x] Cons.prems(2) e by auto
  have "atomic_run a' later = Some (gcra_run (snd (gcra_op g now x)) later)"
    by (rule Cons.IH [OF a'(2)]) (use Cons.prems e in auto)
  then show ?case by (simp add: e a'(1) split_beta Let_def)
qed

lemma refines_new:
  "quota_wf q \<Longrightarrow> atomic_new q = Some a \<Longrightarrow> refines 0 (gcra_new q) a"
  by (auto simp: atomic_new_def gcra_new_def refines_def split: bind_splits)

section \<open>Properties\<close>

text \<open>
  C8. Packing a quota into one word loses nothing: for every quota the constructors can
  make, \<open>unpack\<close> gives the same quota back and \<open>decode_quota\<close>, the hot path that skips
  \<open>unpack\<close>, reads the same emission interval and burst tolerance as the quota's own methods.
\<close>

theorem quota_packing:
  assumes "with_interval interval burst = Some q"
  shows "\<exists>w. pack q = Some w \<and> unpack w = Some q \<and> decode_quota w = (t_nanos q, tau_nanos q)"
  using with_interval_wf [OF assms] unpack_pack_wf decode_pack_wf by blast

lemma no_debt_arrival:
  "\<not> gcra_has_debt g now \<Longrightarrow> gcra_arrival g \<le> unat now"
  "\<not> atomic_has_debt a now \<Longrightarrow> unat (a_tat a) \<le> unat now"
  by (auto simp: gcra_arrival_def gcra_has_debt_def atomic_has_debt_def not_less word_le_nat_alt
      split: option.splits)

text \<open>A quota of 10 per second with a burst of 5.\<close>

definition example_quota :: quota where
  "example_quota = \<lparr>q_interval = 100000000, q_burst = 5\<rparr>"

lemma example_quota_made: "with_interval 100000000 5 = Some example_quota"
  by (simp add: with_interval_def example_quota_def encode_interval_eq MAX_BURST_def BURST_BITS_def
      INTERVAL_BITS_def UNIT_BITS_def MAX_INTERVAL_eq UNIT_NANOS_def)

theorem quota_packing_witness:
  "\<exists>w. pack example_quota = Some w \<and> unpack w = Some example_quota \<and>
     decode_quota w = (t_nanos example_quota, tau_nanos example_quota)"
  by (rule quota_packing [OF example_quota_made])

text \<open>
  \<open>with_interval\<close> panics exactly on a burst of 0 or above \<open>MAX_BURST\<close>; otherwise it keeps
  the burst and only ever rounds the (clamped) interval up, by at most one part in
  \<open>10\<^sup>9\<close>, so that a quota never admits more than was asked.
\<close>

theorem quota_interval:
  "case with_interval interval burst of
     None \<Rightarrow> burst = 0 \<or> MAX_BURST < burst
   | Some q \<Rightarrow> 0 < burst \<and> burst \<le> MAX_BURST \<and> q_burst q = burst \<and>
     (let asked = min (max (unat interval) 1) (unat MAX_INTERVAL) in
        asked \<le> unat (q_interval q) \<and> q_interval q \<le> MAX_INTERVAL \<and>
        (unat (q_interval q) - asked) * 1000000000 \<le> asked)"
proof -
  let ?asked = "min (max (unat interval) 1) 1099511627775000000"
  show ?thesis
  proof (cases "with_interval interval burst")
    case None
    then show ?thesis using with_interval_Some [of burst interval]
      by (cases "0 < burst \<and> burst \<le> MAX_BURST") (auto simp: word_gt_0)
  next
    case (Some q)
    then have b: "0 < burst \<and> burst \<le> MAX_BURST"
      by (auto simp: with_interval_def split: bind_splits)
    moreover have "q_burst q = burst" "unat (q_interval q) = round_interval ?asked"
      using with_interval_Some [of burst interval] b Some by auto
    moreover have "q_interval q \<le> MAX_INTERVAL"
      using with_interval_wf [OF Some] by (simp add: quota_wf_def)
    ultimately show ?thesis
      using round_interval_bounds [of ?asked] Some by (simp add: unat_MAX_INTERVAL Let_def)
  qed
qed

text \<open>
  C1. The rate limit. Whatever the state a limiter starts from and in whatever order the
  requests of a window \<open>[lo, hi]\<close> arrive, it admits at most the burst and one more for
  each emission interval of the window. Both limiters keep the bound.
\<close>

theorem rate_limit:
  assumes "quota_wf q" "\<forall>now \<in> set reqs. lo \<le> unat now \<and> unat now \<le> hi" "lo \<le> hi" "hi < 2 ^ 63"
  shows "(g_quota g = q \<longrightarrow>
      admitted gcra_check g reqs \<le> unat (q_burst q) + (hi - lo) div unat (q_interval q)) \<and>
    (pack q = Some (a_quota a) \<longrightarrow>
      admitted atomic_check a reqs \<le> unat (q_burst q) + (hi - lo) div unat (q_interval q))"
proof (intro conjI impI)
  have tol: "hi + unat (tau_nanos q) < u64_max" using assms(4) by (simp add: unat_tau_nanos)
  note bound = tau_nanos_le [of q] quota_wf_pos [OF assms(1)]
  show "admitted gcra_check g reqs \<le> unat (q_burst q) + (hi - lo) div unat (q_interval q)"
    if "g_quota g = q"
    using single.window_count [OF assms(2), of g "unat (q_burst q)"] that tol bound assms(3)
    by (simp add: t_nanos_def)
  show "admitted atomic_check a reqs \<le> unat (q_burst q) + (hi - lo) div unat (q_interval q)"
    if "pack q = Some (a_quota a)"
    using packed.window_count [OF assms(2), of a "unat (q_burst q)"] that tol bound assms(3)
    by (simp add: decode_of_pack [OF assms(1) that])
qed

lemma example_quota_wf: "quota_wf example_quota"
  by (rule with_interval_wf [OF example_quota_made])

theorem rate_limit_witness:
  "admitted gcra_check (gcra_new example_quota) [5, 7, 7, 9, 300000000, 9, 9, 9, 9] \<le> 5 + 299999995 div 100000000"
  using rate_limit [OF example_quota_wf, of "[5, 7, 7, 9, 300000000, 9, 9, 9, 9]" 5 300000000 "gcra_new example_quota"]
  by (simp add: gcra_new_def example_quota_def)

text \<open>
  C5. The burst. A limiter with no debt admits, of \<open>n\<close> requests at one instant, exactly the
  first \<open>burst\<close>, as long as the burst's debt fits in 63 bits of nanoseconds.
\<close>

theorem burst_admitted:
  assumes "quota_wf q" "unat (q_burst q) * unat (q_interval q) < 2 ^ 63" "unat now < 2 ^ 63"
  shows "(g_quota g = q \<and> \<not> gcra_has_debt g now \<longrightarrow>
      admitted gcra_check g (replicate n now) = min n (unat (q_burst q))) \<and>
    (pack q = Some (a_quota a) \<and> \<not> atomic_has_debt a now \<longrightarrow>
      admitted atomic_check a (replicate n now) = min n (unat (q_burst q)))"
proof (intro conjI impI; elim conjE)
  note pos = quota_wf_pos [OF assms(1)]
  have less: "(unat (q_burst q) - 1) * unat (q_interval q) \<le> unat (q_burst q) * unat (q_interval q)"
    by (intro mult_le_mono1) simp
  have "(unat (q_burst q) - 1) * unat (q_interval q) \<le> 9223372036854775807"
  proof -
    have "(2::nat) ^ 63 = 9223372036854775808" by simp
    with less assms(2) show ?thesis by linarith
  qed
  then have tol: "unat (tau_nanos q) = (unat (q_burst q) - 1) * unat (q_interval q)"
    unfolding unat_tau_nanos mult.commute [of "unat (q_interval q)"] by (rule min_absorb1)
  have fits: "unat now + unat (q_burst q) * unat (q_interval q) \<le> u64_max" using assms(2,3) by simp
  show "admitted gcra_check g (replicate n now) = min n (unat (q_burst q))"
    if "g_quota g = q" "\<not> gcra_has_debt g now"
    using single.burst_exact [of g now "unat (q_burst q)"] no_debt_arrival(1) [OF that(2)] that(1)
      tol pos fits by (simp add: t_nanos_def)
  show "admitted atomic_check a (replicate n now) = min n (unat (q_burst q))"
    if "pack q = Some (a_quota a)" "\<not> atomic_has_debt a now"
    using packed.burst_exact [of a now "unat (q_burst q)"] no_debt_arrival(2) [OF that(2)] tol pos fits
    by (simp add: decode_of_pack [OF assms(1) that(1)])
qed

theorem burst_admitted_witness:
  "admitted gcra_check (gcra_new example_quota) (replicate 9 1000) = min 9 5"
  using burst_admitted [OF example_quota_wf, of 1000 "gcra_new example_quota" 9]
  by (simp add: gcra_new_def example_quota_def gcra_has_debt_def)

text \<open>
  C6. The time a denial carries is exact: it lies in the future, the denial changes nothing, and
  asked again without other traffic the limiter denies with the same time until then and
  admits from then on.
\<close>

theorem retry_time_exact:
  "(gcra_check g now = (Deny retry_at, g') \<longrightarrow> g' = g \<and> now < retry_at \<and>
     (\<forall>later. gcra_check g' later = (Deny retry_at, g') \<longleftrightarrow> later < retry_at) \<and>
     (\<forall>later. fst (gcra_check g' later) = Allow \<longleftrightarrow> retry_at \<le> later)) \<and>
   (atomic_check a now = (Deny retry_at, a') \<longrightarrow> a' = a \<and> now < retry_at \<and>
     (\<forall>later. atomic_check a' later = (Deny retry_at, a') \<longleftrightarrow> later < retry_at) \<and>
     (\<forall>later. fst (atomic_check a' later) = Allow \<longleftrightarrow> retry_at \<le> later))"
proof (intro conjI [OF impI impI])
  show "g' = g \<and> now < retry_at \<and>
     (\<forall>later. gcra_check g' later = (Deny retry_at, g') \<longleftrightarrow> later < retry_at) \<and>
     (\<forall>later. fst (gcra_check g' later) = Allow \<longleftrightarrow> retry_at \<le> later)"
    if "gcra_check g now = (Deny retry_at, g')"
    using single.retry_exact [OF that] by (metis decision.distinct(1) fst_conv not_less)
  show "a' = a \<and> now < retry_at \<and>
     (\<forall>later. atomic_check a' later = (Deny retry_at, a') \<longleftrightarrow> later < retry_at) \<and>
     (\<forall>later. fst (atomic_check a' later) = Allow \<longleftrightarrow> retry_at \<le> later)"
    if "atomic_check a now = (Deny retry_at, a')"
    using packed.retry_exact [OF that] by (metis decision.distinct(1) fst_conv not_less)
qed

text \<open>A limiter whose burst of one is spent until 100.\<close>

theorem retry_time_exact_witness:
  "let g = \<lparr>g_quota = \<lparr>q_interval = 100, q_burst = 1\<rparr>, g_tat = Some 100\<rparr> in
   gcra_check g 3 = (Deny 100, g) \<and> gcra_check g 99 = (Deny 100, g) \<and> fst (gcra_check g 100) = Allow"
proof -
  let ?g = "\<lparr>g_quota = \<lparr>q_interval = 100, q_burst = 1\<rparr>, g_tat = Some 100\<rparr>"
  have "gcra_check ?g 3 = (Deny 100, ?g)"
    by (simp add: gcra_check_def tau_nanos_def tau_def saturating_sub_def saturating_mul_def MAX_TAU_eq)
  then show ?thesis using retry_time_exact [of ?g 3 100 ?g] by simp
qed

text \<open>
  C7. Traffic that keeps to the rate is never denied for itself. Whatever the state a limiter
  starts from, of requests at least an emission interval apart each is answered exactly as the
  starting state answers it: none is denied but by the debt there was before the first, and
  from a state without debt at the first all pass. Both limiters keep it.
\<close>

theorem conforming_admitted:
  assumes "quota_wf q" "sorted_wrt (\<lambda>a b. unat a + unat (q_interval q) \<le> unat b) reqs"
  shows "(g_quota g = q \<longrightarrow>
      fst (run_checks gcra_check g reqs) = map (\<lambda>now. fst (gcra_check g now)) reqs \<and>
      (reqs \<noteq> [] \<and> gcra_has_debt g (hd reqs) \<or>
        fst (run_checks gcra_check g reqs) = replicate (length reqs) Allow)) \<and>
    (pack q = Some (a_quota a) \<longrightarrow>
      fst (run_checks atomic_check a reqs) = map (\<lambda>now. fst (atomic_check a now)) reqs \<and>
      (reqs \<noteq> [] \<and> atomic_has_debt a (hd reqs) \<or>
        fst (run_checks atomic_check a reqs) = replicate (length reqs) Allow))"
proof (intro conjI impI)
  show "fst (run_checks gcra_check g reqs) = map (\<lambda>now. fst (gcra_check g now)) reqs"
    if "g_quota g = q"
    using single.conforming [of g reqs] that assms(2) by (simp add: t_nanos_def)
  show "reqs \<noteq> [] \<and> gcra_has_debt g (hd reqs) \<or>
      fst (run_checks gcra_check g reqs) = replicate (length reqs) Allow" if "g_quota g = q"
    using single.conforming_allowed [of g reqs] no_debt_arrival(1) [of g "hd reqs"] that assms(2)
    by (auto simp: t_nanos_def intro: trans_le_add1)
  show "fst (run_checks atomic_check a reqs) = map (\<lambda>now. fst (atomic_check a now)) reqs"
    if "pack q = Some (a_quota a)"
    using packed.conforming [of a reqs] assms(2) by (simp add: decode_of_pack [OF assms(1) that])
  show "reqs \<noteq> [] \<and> atomic_has_debt a (hd reqs) \<or>
      fst (run_checks atomic_check a reqs) = replicate (length reqs) Allow"
    if "pack q = Some (a_quota a)"
    using packed.conforming_allowed [of a reqs] no_debt_arrival(2) [of a "hd reqs"] assms(2)
    by (auto simp: decode_of_pack [OF assms(1) that] intro: trans_le_add1)
qed

text \<open>A limiter whose burst of one is spent until 250, and one with no debt.\<close>

theorem conforming_admitted_witness:
  "let g = \<lparr>g_quota = example_quota\<lparr>q_burst := 1\<rparr>, g_tat = Some 250000000\<rparr> in
   fst (run_checks gcra_check g [0, 100000000, 200000001, 400000000, 500000000]) =
     [Deny 250000000, Deny 250000000, Deny 250000000, Allow, Allow] \<and>
   fst (run_checks gcra_check (gcra_new example_quota) [0, 100000000]) = [Allow, Allow]"
proof -
  let ?q = "example_quota\<lparr>q_burst := 1\<rparr>"
  let ?g = "\<lparr>g_quota = ?q, g_tat = Some 250000000\<rparr>"
  have "quota_wf ?q"
    using example_quota_wf by (simp add: quota_wf_def example_quota_def MAX_BURST_def BURST_BITS_def
        INTERVAL_BITS_def UNIT_BITS_def split: option.splits prod.splits)
  moreover have "tau_nanos ?q = 0"
    by (simp flip: unat_eq_zero add: unat_tau_nanos)
  then have "fst (gcra_check ?g now) = (if now < 250000000 then Deny 250000000 else Allow)" for now
    by (simp add: gcra_check_def Let_def saturating_sub_def)
  ultimately have "fst (run_checks gcra_check ?g [0, 100000000, 200000001, 400000000, 500000000]) =
     [Deny 250000000, Deny 250000000, Deny 250000000, Allow, Allow]"
    using conforming_admitted [of ?q "[0, 100000000, 200000001, 400000000, 500000000]" ?g]
    by (simp add: example_quota_def del: run_checks.simps)
  moreover have "fst (run_checks gcra_check (gcra_new example_quota) [0, 100000000]) = [Allow, Allow]"
    using conforming_admitted [OF example_quota_wf, of "[0, 100000000]" "gcra_new example_quota" "\<lparr>a_quota = 0, a_tat = 0\<rparr>"]
    by (auto simp: gcra_new_def example_quota_def gcra_has_debt_def simp del: run_checks.simps)
  ultimately show ?thesis by (simp only: Let_def simp_thms)
qed

text \<open>
  C4. \<open>AtomicGcra\<close> is a packed \<open>Gcra\<close>: over any sequence of checks, changes of quota and
  questions about debt whose times do not decrease, the two give the same answers and neither
  panics.
\<close>

theorem atomic_refines_gcra:
  assumes "quota_wf q" "\<forall>(now, x) \<in> set script. op_wf x" "sorted_wrt (\<le>) (map fst script)"
    and "atomic_new q = Some a"
  shows "atomic_run a script = Some (gcra_run (gcra_new q) script)"
  using refines_run [OF refines_new [OF assms(1,4)] _ assms(3)] assms(2) by auto

theorem atomic_refines_gcra_witness:
  "\<exists>a. atomic_new example_quota = Some a \<and>
     atomic_run a [(0, Check), (5, SetQuota \<lparr>q_interval = 7, q_burst = 1\<rparr>), (5, HasDebt), (9, Check)] =
       Some (gcra_run (gcra_new example_quota)
         [(0, Check), (5, SetQuota \<lparr>q_interval = 7, q_burst = 1\<rparr>), (5, HasDebt), (9, Check)])"
proof -
  have q: "quota_wf \<lparr>q_interval = 7, q_burst = 1\<rparr>"
    by (simp add: quota_wf_def encode_interval_eq MAX_INTERVAL_eq MAX_BURST_def BURST_BITS_def
        INTERVAL_BITS_def UNIT_BITS_def UNIT_NANOS_def)
  obtain w where "pack example_quota = Some w" using unpack_pack_wf [OF example_quota_wf] by blast
  then obtain a where "atomic_new example_quota = Some a" by (simp add: atomic_new_def)
  with atomic_refines_gcra [OF example_quota_wf, of
      "[(0, Check), (5, SetQuota \<lparr>q_interval = 7, q_burst = 1\<rparr>), (5, HasDebt), (9, Check)]" a] q
  show ?thesis by (simp add: op_wf_def)
qed

end
