(* ===== verification/Gcra_Atomic.thy ===== *)
theory Gcra_Atomic
  imports Gcra_Admission
begin

text \<open>
  \<open>rateguard-core/src/gcra.rs\<close>, the compare-and-swap loops of \<open>AtomicGcra\<close> under
  interference: any number of calls of \<open>check\<close>, \<open>set_quota\<close> and \<open>reset\<close> in progress, each
  step of the relation one atomic access of one call. A load may return any value its word
  has held, so that the \<open>Relaxed\<close> and \<open>Acquire\<close> loads of the source are covered on a machine
  that delays them; a swap and a successful compare-and-swap act on the word's last value,
  and a compare-and-swap may fail for no reason, as the weak one may.
\<close>

section \<open>The steps\<close>

datatype call_state =
    CheckQuota nanos
  | CheckTat nanos u64
  | CheckCas nanos u64 u64
  | SetLoad quota nanos
  | SetSwap quota nanos
  | RescaleTat quota quota nanos
  | RescaleCas quota quota nanos u64
  | ResetQuota quota
  | ResetTat
  | Answered decision
  | Finished

text \<open>What a step does to the TAT or answers: its events are the trace of a run.\<close>

datatype atomic_event =
    Silent
  | Admitted nanos u64
  | Denied nanos u64 nanos
  | Rescaled quota quota nanos
  | Cleared

text \<open>The values each word has held, the last one first, and the calls.\<close>

record shared =
  y_quota :: "u64 list"
  y_tat :: "u64 list"
  y_calls :: "nat \<Rightarrow> call_state"

abbreviation goto :: "shared \<Rightarrow> nat \<Rightarrow> call_state \<Rightarrow> shared" where
  "goto s i c \<equiv> s\<lparr>y_calls := (y_calls s)(i := c)\<rparr>"

inductive astep :: "shared \<Rightarrow> atomic_event \<Rightarrow> shared \<Rightarrow> bool" where
  check_load_quota: "y_calls s i = CheckQuota now \<Longrightarrow> q \<in> set (y_quota s) \<Longrightarrow>
    astep s Silent (goto s i (CheckTat now q))"
| check_load_tat: "y_calls s i = CheckTat now q \<Longrightarrow> seen \<in> set (y_tat s) \<Longrightarrow>
    astep s Silent (goto s i (CheckCas now q seen))"
| check_deny: "y_calls s i = CheckCas now q seen \<Longrightarrow> gcra_step seen q now = (Deny r, unchanged) \<Longrightarrow>
    astep s (Denied now q r) (goto s i (Answered (Deny r)))"
| check_admit: "y_calls s i = CheckCas now q seen \<Longrightarrow> gcra_step seen q now = (Allow, upd) \<Longrightarrow>
    y_tat s = seen # past \<Longrightarrow>
    astep s (Admitted now q) (goto (s\<lparr>y_tat := upd # y_tat s\<rparr>) i (Answered Allow))"
| check_retry: "y_calls s i = CheckCas now q seen \<Longrightarrow> gcra_step seen q now = (Allow, upd) \<Longrightarrow>
    current \<in> set (y_tat s) \<Longrightarrow>
    astep s Silent (goto s i (CheckCas now q current))"
| set_same: "y_calls s i = SetLoad q now \<Longrightarrow> pack q = Some w \<Longrightarrow> w \<in> set (y_quota s) \<Longrightarrow>
    astep s Silent (goto s i Finished)"
| set_differs: "y_calls s i = SetLoad q now \<Longrightarrow> v \<in> set (y_quota s) \<Longrightarrow> pack q \<noteq> Some v \<Longrightarrow>
    astep s Silent (goto s i (SetSwap q now))"
| set_swap: "y_calls s i = SetSwap q now \<Longrightarrow> pack q = Some w \<Longrightarrow> y_quota s = v # past \<Longrightarrow>
    unpack v = Some old \<Longrightarrow>
    astep s Silent (goto (s\<lparr>y_quota := w # y_quota s\<rparr>) i
      (if old = q then Finished else RescaleTat old q now))"
| rescale_load: "y_calls s i = RescaleTat old q now \<Longrightarrow> seen \<in> set (y_tat s) \<Longrightarrow>
    astep s Silent (goto s i (RescaleCas old q now seen))"
| rescale_swap: "y_calls s i = RescaleCas old q now seen \<Longrightarrow> y_tat s = seen # past \<Longrightarrow>
    astep s (Rescaled old q now)
      (goto (s\<lparr>y_tat := carry_tat seen old q now # y_tat s\<rparr>) i Finished)"
| rescale_retry: "y_calls s i = RescaleCas old q now seen \<Longrightarrow> current \<in> set (y_tat s) \<Longrightarrow>
    astep s Silent (goto s i (RescaleCas old q now current))"
| reset_quota: "y_calls s i = ResetQuota q \<Longrightarrow> pack q = Some w \<Longrightarrow>
    astep s Silent (goto (s\<lparr>y_quota := w # y_quota s\<rparr>) i ResetTat)"
| reset_tat: "y_calls s i = ResetTat \<Longrightarrow>
    astep s Cleared (goto (s\<lparr>y_tat := 0 # y_tat s\<rparr>) i Finished)"

inductive aruns :: "shared \<Rightarrow> atomic_event list \<Rightarrow> shared \<Rightarrow> bool" where
  aruns_refl: "aruns s [] s"
| aruns_step: "aruns s es s' \<Longrightarrow> astep s' e s'' \<Longrightarrow> aruns s (es @ [e]) s''"

inductive_cases astep_cases: "astep s e s'"
inductive_cases astep_deny_cases: "astep s (Denied now q r) s'"
inductive_cases astep_admit_cases: "astep s (Admitted now q) s'"
inductive_simps aruns_Nil [simp]: "aruns s [] s'"

section \<open>Every update acts on the last value\<close>

text \<open>The trace run by one thread, without interference: \<open>None\<close> if an admission in it would be denied.\<close>

fun replay :: "u64 \<Rightarrow> atomic_event list \<Rightarrow> u64 option" where
  "replay tat [] = Some tat"
| "replay tat (Admitted now q # es) =
     (case gcra_step tat q now of (Allow, tat') \<Rightarrow> replay tat' es | (Deny _, _) \<Rightarrow> None)"
| "replay tat (Rescaled old q now # es) = replay (carry_tat tat old q now) es"
| "replay tat (Cleared # es) = replay 0 es"
| "replay tat (e # es) = replay tat es"

lemma replay_append: "replay tat (es @ es') = replay tat es \<bind> (\<lambda>tat'. replay tat' es')"
  by (induction tat es rule: replay.induct) (auto split: decision.split prod.split)

lemma astep_replay:
  assumes "astep s e s'" "y_tat s \<noteq> []"
  shows "y_tat s' \<noteq> [] \<and> replay (hd (y_tat s)) [e] = Some (hd (y_tat s'))"
  using assms by (cases rule: astep.cases) auto

lemma aruns_replay:
  assumes "aruns s es s'" "y_tat s \<noteq> []"
  shows "y_tat s' \<noteq> [] \<and> replay (hd (y_tat s)) es = Some (hd (y_tat s'))"
  using assms
proof (induction rule: aruns.induct)
  case (aruns_step s es s' e s'')
  then show ?case using astep_replay [of s' e s''] by (simp add: replay_append)
qed simp

section \<open>Checks alone, at one quota\<close>

text \<open>
  Without changes of quota the TAT only grows, so a denial from an old value of the word is
  one the last value gives too: every decision is the sequential limiter's at the step that
  takes it.
\<close>

definition call_checks :: "u64 \<Rightarrow> u64 list \<Rightarrow> call_state \<Rightarrow> bool" where
  "call_checks w tats c = (case c of
     CheckQuota now \<Rightarrow> True
   | CheckTat now q \<Rightarrow> q = w
   | CheckCas now q seen \<Rightarrow> q = w \<and> seen \<in> set tats
   | Answered d \<Rightarrow> True
   | _ \<Rightarrow> False)"

definition checks_only :: "u64 \<Rightarrow> shared \<Rightarrow> bool" where
  "checks_only w s = (y_quota s = [w] \<and> y_tat s \<noteq> [] \<and> (\<forall>v \<in> set (y_tat s). v \<le> hd (y_tat s)) \<and>
     (\<forall>i. call_checks w (y_tat s) (y_calls s i)))"

lemma call_checks_simps [simp]:
  "call_checks w tats (CheckQuota now)"
  "call_checks w tats (CheckTat now q) = (q = w)"
  "call_checks w tats (CheckCas now q seen) = (q = w \<and> seen \<in> set tats)"
  "call_checks w tats (Answered d)"
  "\<not> call_checks w tats (SetLoad p now)" "\<not> call_checks w tats (SetSwap p now)"
  "\<not> call_checks w tats (RescaleTat old p now)" "\<not> call_checks w tats (RescaleCas old p now seen)"
  "\<not> call_checks w tats (ResetQuota p)" "\<not> call_checks w tats ResetTat"
  "\<not> call_checks w tats Finished"
  by (simp_all add: call_checks_def)

lemma call_checks_mono: "call_checks w tats c \<Longrightarrow> set tats \<subseteq> set tats' \<Longrightarrow> call_checks w tats' c"
  by (auto simp: call_checks_def split: call_state.splits)

lemma checks_only_call: "checks_only w s \<Longrightarrow> y_calls s i = c \<Longrightarrow> call_checks w (y_tat s) c"
  by (auto simp: checks_only_def)

lemma checks_only_goto:
  "checks_only w s \<Longrightarrow> call_checks w (y_tat s) c \<Longrightarrow> checks_only w (goto s i c)"
  by (simp add: checks_only_def)

lemma checks_only_tat:
  assumes "checks_only w s" "hd (y_tat s) \<le> upd" "call_checks w (y_tat s) c"
  shows "checks_only w (goto (s\<lparr>y_tat := upd # y_tat s\<rparr>) i c)"
proof -
  have "v \<le> upd" if "v \<in> set (y_tat s)" for v
    using assms(1,2) that by (auto simp: checks_only_def intro: order_trans)
  moreover have "call_checks w (upd # y_tat s) d" if "call_checks w (y_tat s) d" for d
    using that by (rule call_checks_mono) auto
  ultimately show ?thesis using assms(1,3) by (simp add: checks_only_def)
qed

lemma saturating_add_ge: "a \<le> saturating_add a b" for a b :: "'a::len word"
proof -
  have "unat a \<le> 2 ^ LENGTH('a) - 1" using unat_lt_2p [of a] by linarith
  then show ?thesis by (simp only: word_le_nat_alt unat_saturating_add min.bounded_iff) simp
qed

lemma gcra_step_grows: "tat \<le> snd (gcra_step tat q now)"
  using order_trans [OF max.cobounded1 saturating_add_ge]
  by (auto simp: gcra_step_def split_beta Let_def)

lemma gcra_step_deny_mono:
  assumes "fst (gcra_step seen q now) \<noteq> Allow" "seen \<le> tat"
  obtains r r' where "gcra_step seen q now = (Deny r, seen)" "gcra_step tat q now = (Deny r', tat)"
    "r \<le> r'"
proof -
  obtain t tu where d: "decode_quota q = (t, tu)" by force
  have le: "saturating_sub seen tu \<le> saturating_sub tat tu"
    using assms(2) by (simp add: word_le_nat_alt unat_saturating_sub diff_le_mono)
  moreover have now: "now < saturating_sub seen tu"
    using assms(1) by (auto simp: gcra_step_def d Let_def split: if_splits)
  moreover have "now < saturating_sub tat tu" using now le by (rule less_le_trans)
  ultimately show ?thesis using that by (simp add: gcra_step_def d Let_def)
qed

lemma checks_only_step:
  assumes c: "checks_only w s" and "astep s e s'"
  shows "checks_only w s'"
  using assms(2)
proof (cases rule: astep.cases)
  case (check_admit i now q seen upd past)
  have "hd (y_tat s) \<le> upd" using gcra_step_grows [of seen q now] check_admit by simp
  then show ?thesis unfolding check_admit(2) by (rule checks_only_tat [OF c]) simp
next
  case (check_load_quota i now q)
  with c show ?thesis by (simp add: checks_only_goto, simp add: checks_only_def)
qed (auto dest!: checks_only_call [OF c] intro!: checks_only_goto [OF c])

text \<open>The decisions of a trace, and the requests they answer, in the order they were taken.\<close>

fun requests :: "atomic_event list \<Rightarrow> nanos list" where
  "requests [] = []"
| "requests (Admitted now q # es) = now # requests es"
| "requests (Denied now q r # es) = now # requests es"
| "requests (e # es) = requests es"

fun decisions :: "atomic_event list \<Rightarrow> decision list" where
  "decisions [] = []"
| "decisions (Admitted now q # es) = Allow # decisions es"
| "decisions (Denied now q r # es) = Deny r # decisions es"
| "decisions (e # es) = decisions es"

text \<open>As good as: the same answer, but that a denial may name an earlier time to retry.\<close>

fun no_later :: "decision \<Rightarrow> decision \<Rightarrow> bool" where
  "no_later Allow d = (d = Allow)"
| "no_later (Deny r) d = (\<exists>r'. d = Deny r' \<and> r \<le> r')"

lemma decisions_append [simp]: "decisions (es @ es') = decisions es @ decisions es'"
  by (induction es rule: decisions.induct) auto

lemma requests_append [simp]: "requests (es @ es') = requests es @ requests es'"
  by (induction es rule: requests.induct) auto

lemma run_checks_append:
  "run_checks check s (xs @ ys) =
     (let (ds, s') = run_checks check s xs; (ds', s'') = run_checks check s' ys in (ds @ ds', s''))"
  by (induction xs arbitrary: s) (auto split: prod.split)

lemma astep_sequential:
  assumes c: "checks_only w s" and "astep s e s'"
  defines "a \<equiv> \<lparr>a_quota = w, a_tat = hd (y_tat s)\<rparr>"
  shows "list_all2 no_later (decisions [e]) (fst (run_checks atomic_check a (requests [e]))) \<and>
    snd (run_checks atomic_check a (requests [e])) = a\<lparr>a_tat := hd (y_tat s')\<rparr>"
  using assms(2)
proof (cases rule: astep.cases)
  case (check_deny i now q seen r unchanged)
  then have q: "q = w" "seen \<in> set (y_tat s)" using checks_only_call [OF c, of i] by auto
  then have "seen \<le> hd (y_tat s)" using c by (simp add: checks_only_def)
  then obtain r' where "gcra_step (hd (y_tat s)) w now = (Deny r', hd (y_tat s))" "r \<le> r'"
    using gcra_step_deny_mono [of seen w now] check_deny q(1) by (metis Pair_inject decision.distinct(1) decision.inject fst_conv)
  with check_deny show ?thesis by (simp add: a_def atomic_check_def)
next
  case (check_admit i now q seen upd past)
  then have "q = w" using checks_only_call [OF c, of i] by auto
  with check_admit show ?thesis by (simp add: a_def atomic_check_def)
qed (auto simp: a_def dest!: checks_only_call [OF c])

lemma aruns_sequential:
  assumes "aruns s es s'" "checks_only w s"
  defines "a \<equiv> \<lparr>a_quota = w, a_tat = hd (y_tat s)\<rparr>"
  shows "checks_only w s' \<and>
    list_all2 no_later (decisions es) (fst (run_checks atomic_check a (requests es))) \<and>
    snd (run_checks atomic_check a (requests es)) = a\<lparr>a_tat := hd (y_tat s')\<rparr>"
  using assms(1,2) unfolding a_def
proof (induction rule: aruns.induct)
  case (aruns_refl s)
  then show ?case by simp
next
  case (aruns_step s es s' e s'')
  then have c: "checks_only w s'" by blast
  show ?case
    using aruns_step.IH [OF aruns_step.prems] astep_sequential [OF c aruns_step.hyps(2)]
      checks_only_step [OF c aruns_step.hyps(2)]
    by (auto simp: run_checks_append split: prod.splits intro: list_all2_appendI)
qed

lemma no_later_count:
  "list_all2 no_later ds ds' \<Longrightarrow> count_list ds Allow = count_list ds' Allow"
proof (induction rule: list_all2_induct)
  case (Cons d ds d' ds')
  then show ?case by (cases d) auto
qed simp

section \<open>Properties\<close>

text \<open>
  C3. No update is lost: in every interleaving of checks, changes of quota and resets, with
  stale loads and spurious failures, the TAT is what the updates of the trace give one after
  the other without interference, and every admission in it is one that \<open>gcra_step\<close> makes
  of the TAT it replaced.
\<close>

theorem no_update_lost:
  assumes "aruns s es s'" "y_tat s = [tat]"
  shows "replay tat es = Some (hd (y_tat s'))"
  using aruns_replay [OF assms(1)] assms(2) by simp

text \<open>Two calls of \<open>check\<close> at once, on a quota of one request per 100 ns, of which one loses the race.\<close>

definition example_race :: shared where
  "example_race = \<lparr>y_quota = [1677721601], y_tat = [0], y_calls = (\<lambda>i. CheckQuota 7)\<rparr>"

definition example_trace :: "atomic_event list" where
  "example_trace = [Silent, Silent, Silent, Silent, Admitted 7 1677721601, Silent, Denied 7 1677721601 107]"

lemma example_quota_word: "decode_quota 1677721601 = (100, 0)"
  by (simp add: decode_quota_def gcra_consts tau_def saturating_sub_def saturating_mul_def MAX_TAU_eq)

lemma example_steps:
  "gcra_step 0 1677721601 7 = (Allow, 107)" "gcra_step 107 1677721601 7 = (Deny 107, 107)"
  by (simp_all add: gcra_step_def example_quota_word saturating_sub_def saturating_add_def)

lemma example_race_runs:
  "\<exists>s'. aruns example_race example_trace s' \<and> hd (y_tat s') = 107"
proof -
  let ?w = "1677721601 :: u64"
  define s1 where "s1 = goto example_race 0 (CheckTat 7 ?w)"
  define s2 where "s2 = goto s1 0 (CheckCas 7 ?w 0)"
  define s3 where "s3 = goto s2 1 (CheckTat 7 ?w)"
  define s4 where "s4 = goto s3 1 (CheckCas 7 ?w 0)"
  define s5 where "s5 = goto (s4\<lparr>y_tat := 107 # y_tat s4\<rparr>) 0 (Answered Allow)"
  define s6 where "s6 = goto s5 1 (CheckCas 7 ?w 107)"
  define s7 where "s7 = goto s6 1 (Answered (Deny 107))"
  note defs = example_race_def s1_def s2_def s3_def s4_def s5_def s6_def s7_def
  have "astep example_race Silent s1" unfolding s1_def
    by (rule check_load_quota) (simp_all add: defs)
  moreover have "astep s1 Silent s2" unfolding s2_def by (rule check_load_tat) (simp_all add: defs)
  moreover have "astep s2 Silent s3" unfolding s3_def by (rule check_load_quota) (simp_all add: defs)
  moreover have "astep s3 Silent s4" unfolding s4_def by (rule check_load_tat) (simp_all add: defs)
  moreover have "astep s4 (Admitted 7 ?w) s5" unfolding s5_def
    by (rule check_admit [OF _ example_steps(1)]) (simp_all add: defs)
  moreover have "astep s5 Silent s6" unfolding s6_def
    by (rule check_retry [OF _ example_steps(1)]) (simp_all add: defs)
  moreover have "astep s6 (Denied 7 ?w 107) s7" unfolding s7_def
    by (rule check_deny [OF _ example_steps(2)]) (simp_all add: defs)
  ultimately have "aruns example_race
      ([] @ [Silent] @ [Silent] @ [Silent] @ [Silent] @ [Admitted 7 ?w] @ [Silent] @ [Denied 7 ?w 107]) s7"
    unfolding append_assoc [symmetric] by (intro aruns_step) simp_all
  moreover have "hd (y_tat s7) = 107" by (simp add: defs)
  ultimately show ?thesis by (auto simp: example_trace_def)
qed

theorem no_update_lost_witness: "replay 0 example_trace = Some 107"
proof -
  obtain s' where "aruns example_race example_trace s'" "hd (y_tat s') = 107"
    using example_race_runs by blast
  with no_update_lost [of example_race example_trace s' 0] show ?thesis
    by (simp add: example_race_def)
qed

text \<open>
  C2. Linearizability: checks running at once at one quota decide as one thread checking in the
  order the decisions were taken would, but that a denial may name an earlier time to retry;
  and so they together keep the rate limit.
\<close>

theorem concurrent_rate_limit:
  assumes "aruns \<lparr>y_quota = [w], y_tat = [tat], y_calls = (\<lambda>i. CheckQuota (at_time i))\<rparr> es s'"
    and "quota_wf q" "pack q = Some w" "lo \<le> hi" "hi < 2 ^ 63"
    and "\<forall>now \<in> set (requests es). lo \<le> unat now \<and> unat now \<le> hi"
  shows "list_all2 no_later (decisions es)
      (fst (run_checks atomic_check \<lparr>a_quota = w, a_tat = tat\<rparr> (requests es))) \<and>
    count_list (decisions es) Allow \<le> unat (q_burst q) + (hi - lo) div unat (q_interval q)"
proof -
  let ?a = "\<lparr>a_quota = w, a_tat = tat\<rparr>"
  have seq: "list_all2 no_later (decisions es) (fst (run_checks atomic_check ?a (requests es)))"
    using aruns_sequential [OF assms(1), of w] by (simp add: checks_only_def)
  moreover have "hi + unat (tau_nanos q) < u64_max" using assms(5) by (simp add: unat_tau_nanos)
  then have "admitted atomic_check ?a (requests es) \<le> unat (q_burst q) + (hi - lo) div unat (q_interval q)"
    using packed.window_count [OF assms(6), of ?a "unat (q_burst q)"] tau_nanos_le [of q]
      quota_wf_pos [OF assms(2)] assms(4)
    by (simp add: decode_of_pack [OF assms(2,3)])
  ultimately show ?thesis by (simp add: admitted_def no_later_count)
qed

lemma example_race_quota:
  "quota_wf \<lparr>q_interval = 100, q_burst = 1\<rparr>" "pack \<lparr>q_interval = 100, q_burst = 1\<rparr> = Some 1677721601"
  by (simp_all add: quota_wf_def pack_def encode_interval_eq gcra_consts)

theorem concurrent_rate_limit_witness:
  "count_list (decisions example_trace) Allow \<le> 1 + (7 - 7) div 100"
proof -
  obtain s' where "aruns example_race example_trace s'" using example_race_runs by blast
  with concurrent_rate_limit [of 1677721601 0 "\<lambda>i. 7" example_trace s' "\<lparr>q_interval = 100, q_burst = 1\<rparr>" 7 7]
  show ?thesis using example_race_quota by (simp add: example_race_def example_trace_def)
qed

end
