(* ===== verification/Auth.thy ===== *)
theory Auth
  imports Prelude
begin

text \<open>
  \<open>rateguard-proto/src/auth.rs\<close>: signed frames around encoded messages. The
  keyed hash is the \<open>hmac\<close> and \<open>sha2\<close> crates', a parameter \<open>hmac key data\<close>:
  \<open>finalize\<close> gives its bytes and \<open>verify_truncated_left\<close> compares a tag with
  the first bytes of it.
\<close>

definition MARKER :: u8 where "MARKER = 0xA6"
definition VERSION :: u8 where "VERSION = 1"
definition TAG_LEN :: nat where "TAG_LEN = 16"
definition MIN_SECRET :: nat where "MIN_SECRET = 32"
definition MAX_SECRETS :: nat where "MAX_SECRETS = 2"
definition FRAME_OVERHEAD :: nat where "FRAME_OVERHEAD = 2 + TAG_LEN"

datatype gossip_auth = Off | Transitional | Required

datatype auth_error = ShortSecret nat | TooManySecrets nat | NoSecrets

datatype rejected = Unsigned | BadTag | Malformed

type_synonym secret = "u8 list"

definition secret_new :: "u8 list \<Rightarrow> auth_error + secret" where
  "secret_new bytes = (if length bytes < MIN_SECRET then Inl (ShortSecret (length bytes)) else Inr bytes)"

record auth =
  au_mode :: gossip_auth
  au_macs :: "secret list"

definition auth_off :: auth where
  "auth_off = \<lparr>au_mode = Off, au_macs = []\<rparr>"

definition auth_new :: "gossip_auth \<Rightarrow> secret list \<Rightarrow> auth_error + auth" where
  "auth_new mode secrets =
     (if MAX_SECRETS < length secrets then Inl (TooManySecrets (length secrets))
      else if mode = Off then Inr auth_off
      else if secrets = [] then Inl NoSecrets
      else Inr \<lparr>au_mode = mode, au_macs = secrets\<rparr>)"

definition seal :: "(secret \<Rightarrow> u8 list \<Rightarrow> u8 list) \<Rightarrow> auth \<Rightarrow> u8 list \<Rightarrow> u8 list" where
  "seal hmac a message =
     (case au_macs a of
        [] \<Rightarrow> message
      | mac # _ \<Rightarrow>
          let frame = [MARKER, VERSION] @ message in frame @ take TAG_LEN (hmac mac frame))"

definition verify_truncated_left :: "(secret \<Rightarrow> u8 list \<Rightarrow> u8 list) \<Rightarrow> secret \<Rightarrow> u8 list \<Rightarrow> u8 list \<Rightarrow> bool" where
  "verify_truncated_left hmac mac data tag = (take (length tag) (hmac mac data) = tag)"

definition open_frame :: "(secret \<Rightarrow> u8 list \<Rightarrow> u8 list) \<Rightarrow> auth \<Rightarrow> u8 list \<Rightarrow> rejected + u8 list" where
  "open_frame hmac a datagram =
     (if \<not> (datagram \<noteq> [] \<and> hd datagram = MARKER) then
        (case au_mode a of Required \<Rightarrow> Inl Unsigned | _ \<Rightarrow> Inr datagram)
      else if length datagram < FRAME_OVERHEAD \<or> datagram ! 1 \<noteq> VERSION then Inl Malformed
      else
        let signed_part = take (length datagram - TAG_LEN) datagram;
            tag = drop (length datagram - TAG_LEN) datagram;
            message = drop 2 signed_part
        in if au_mode a = Off then Inr message
           else if list_ex (\<lambda>mac. verify_truncated_left hmac mac signed_part tag) (au_macs a) then Inr message
           else Inl BadTag)"

section \<open>Frames\<close>

lemma length_tag: "16 \<le> length t \<Longrightarrow> length (take TAG_LEN t) = 16"
  by (simp add: TAG_LEN_def)

lemma open_signed:
  assumes "length tag = TAG_LEN"
  shows "open_frame hmac a ([MARKER, VERSION] @ m @ tag) =
    (if au_mode a = Off \<or> (\<exists>mac \<in> set (au_macs a). take TAG_LEN (hmac mac ([MARKER, VERSION] @ m)) = tag)
     then Inr m else Inl BadTag)"
  using assms
  by (auto simp: open_frame_def FRAME_OVERHEAD_def Let_def list_ex_iff verify_truncated_left_def)

lemma open_Inr_shape:
  assumes "open_frame hmac a datagram = Inr m" "datagram \<noteq> []" "hd datagram = MARKER"
  obtains tag where "datagram = [MARKER, VERSION] @ m @ tag" "length tag = TAG_LEN"
proof -
  have len: "FRAME_OVERHEAD \<le> length datagram" "datagram ! 1 = VERSION"
    using assms by (auto simp: open_frame_def split: if_splits)
  obtain x y rest where d: "datagram = x # y # rest"
    using len(1) by (cases datagram; cases "tl datagram") (auto simp: FRAME_OVERHEAD_def TAG_LEN_def)
  let ?k = "length datagram - TAG_LEN"
  have m: "m = drop 2 (take ?k datagram)"
    using assms len by (auto simp: open_frame_def Let_def split: if_splits)
  have k: "2 \<le> ?k" using len(1) by (simp add: FRAME_OVERHEAD_def)
  then have "take 2 (take ?k datagram) = [MARKER, VERSION]"
    using d assms(3) len(2) by (simp add: min_absorb1 numeral_2_eq_2)
  then have "take ?k datagram = [MARKER, VERSION] @ m"
    using m by (metis append_take_drop_id)
  then have "datagram = [MARKER, VERSION] @ m @ drop ?k datagram"
    by (metis append_take_drop_id append_assoc)
  moreover have "length (drop ?k datagram) = TAG_LEN" using len(1) by (simp add: FRAME_OVERHEAD_def)
  ultimately show ?thesis using that by blast
qed

section \<open>Properties\<close>

text \<open>
  A sealed message opens, also while the secret is rotated: whatever the receiver's mode, it
  recovers the message if it is off or lists the sender's signing secret anywhere among its
  secrets. The keyed hash is only asked to give the 16 bytes of a tag.
\<close>

theorem sealed_message_opens:
  assumes "\<forall>k data. TAG_LEN \<le> length (hmac k data)"
    and "auth_new mode (signing # others) = Inr sender" "mode \<noteq> Off"
    and "au_mode receiver = Off \<or> signing \<in> set (au_macs receiver)"
  shows "open_frame hmac receiver (seal hmac sender m) = Inr m"
proof -
  have s: "au_macs sender = signing # others"
    using assms(2,3) by (auto simp: auth_new_def split: if_splits)
  let ?tag = "take TAG_LEN (hmac signing ([MARKER, VERSION] @ m))"
  have "length ?tag = TAG_LEN" using assms(1) by simp
  then have "open_frame hmac receiver ([MARKER, VERSION] @ m @ ?tag) = Inr m"
    using assms(4) by (subst open_signed) auto
  then show ?thesis by (simp add: seal_def s)
qed

theorem sealed_message_opens_witness:
  "let hmac = (\<lambda>k data. k @ data @ replicate 16 0); k1 = replicate 32 1; k2 = replicate 32 2 in
   open_frame hmac \<lparr>au_mode = Required, au_macs = [k2, k1]\<rparr>
     (seal hmac \<lparr>au_mode = Transitional, au_macs = [k1]\<rparr> [7, 8]) = Inr [7, 8]"
  using sealed_message_opens [of "\<lambda>k data. k @ data @ replicate 16 0" Transitional "replicate 32 1" "[]"
      "\<lparr>au_mode = Transitional, au_macs = [replicate 32 1]\<rparr>"
      "\<lparr>au_mode = Required, au_macs = [replicate 32 2, replicate 32 1]\<rparr>" "[7, 8]"]
  by (simp add: TAG_LEN_def auth_new_def MAX_SECRETS_def)

text \<open>
  C13. In the mode \<open>Required\<close> only signed messages pass: a datagram is opened exactly when it is
  a frame of the current version whose tag is the truncated keyed hash, under one of the
  listed secrets, of everything before it; anything unmarked is refused as unsigned.
\<close>

theorem required_only_signed:
  assumes "au_mode a = Required"
  shows "open_frame hmac a datagram = Inr m \<longleftrightarrow>
    (\<exists>mac \<in> set (au_macs a). \<exists>tag. length tag = TAG_LEN \<and> datagram = [MARKER, VERSION] @ m @ tag \<and>
       tag = take TAG_LEN (hmac mac ([MARKER, VERSION] @ m)))"
proof
  assume o: "open_frame hmac a datagram = Inr m"
  then have "datagram \<noteq> []" "hd datagram = MARKER"
    using assms by (auto simp: open_frame_def split: if_splits)
  with o obtain tag where t: "datagram = [MARKER, VERSION] @ m @ tag" "length tag = TAG_LEN"
    using open_Inr_shape by blast
  from o show "\<exists>mac \<in> set (au_macs a). \<exists>tag. length tag = TAG_LEN \<and> datagram = [MARKER, VERSION] @ m @ tag \<and>
       tag = take TAG_LEN (hmac mac ([MARKER, VERSION] @ m))"
    unfolding t(1) open_signed [OF t(2)] using assms t(2) by (auto split: if_splits)
next
  assume "\<exists>mac \<in> set (au_macs a). \<exists>tag. length tag = TAG_LEN \<and> datagram = [MARKER, VERSION] @ m @ tag \<and>
       tag = take TAG_LEN (hmac mac ([MARKER, VERSION] @ m))"
  then obtain mac tag where t: "mac \<in> set (au_macs a)" "length tag = TAG_LEN"
    "datagram = [MARKER, VERSION] @ m @ tag" "tag = take TAG_LEN (hmac mac ([MARKER, VERSION] @ m))"
    by blast
  show "open_frame hmac a datagram = Inr m"
    unfolding t(3) open_signed [OF t(2)] using t(1,4) by auto
qed

theorem required_only_signed_witness:
  "open_frame (\<lambda>k data. k) \<lparr>au_mode = Required, au_macs = [replicate 32 1]\<rparr>
     ([MARKER, VERSION] @ [9] @ replicate 16 1) = Inr [9]"
  using required_only_signed [of "\<lparr>au_mode = Required, au_macs = [replicate 32 1]\<rparr>" "\<lambda>k data. k"
      "[MARKER, VERSION] @ [9] @ replicate 16 1" "[9]"]
  by (simp add: TAG_LEN_def)

end
