(* ===== verification/Demand.thy ===== *)
theory Demand
  imports Float64
begin

text \<open>
  \<open>rateguard-core/src/demand.rs\<close>: a key's demand as an exponentially weighted
  moving average. The exponential function of the standard library, whose
  precision Rust leaves open, is the parameter \<open>ex\<close>.
\<close>

record demand =
  d_rate :: f64
  d_attempts :: u64
  d_last_tick :: "nanos option"
  d_since :: "nanos option"
  d_time_constant :: nanos

definition demand_new :: "nanos \<Rightarrow> demand" where
  "demand_new tc = \<lparr>d_rate = Fin 0, d_attempts = 0, d_last_tick = None, d_since = None,
     d_time_constant = tc\<rparr>"

definition starting_at :: "nanos \<Rightarrow> nanos \<Rightarrow> demand" where
  "starting_at tc now = (demand_new tc)\<lparr>d_last_tick := Some now, d_since := Some now\<rparr>"

definition record_attempt :: "demand \<Rightarrow> demand" where
  "record_attempt d = d\<lparr>d_attempts := d_attempts d + 1\<rparr>"

definition record_attempts :: "demand \<Rightarrow> u64 \<Rightarrow> demand" where
  "record_attempts d n = d\<lparr>d_attempts := d_attempts d + n\<rparr>"

definition demand_tick :: "(f64 \<Rightarrow> f64) \<Rightarrow> demand \<Rightarrow> nanos \<Rightarrow> demand" where
  "demand_tick ex d now =
     (case d_last_tick d of
        None \<Rightarrow> d\<lparr>d_last_tick := Some now, d_since := Some now\<rparr>
      | Some prev \<Rightarrow>
          let elapsed = saturating_sub now prev in
          if elapsed = 0 then d
          else
            let elapsed_secs = f64_of_word elapsed / Fin 1000000000;
                instantaneous_rate = f64_of_word (d_attempts d) / elapsed_secs;
                alpha = 1 - ex (- f64_of_word elapsed / f64_of_word (d_time_constant d))
            in d\<lparr>d_rate := alpha * instantaneous_rate + (1 - alpha) * d_rate d,
                 d_attempts := 0, d_last_tick := Some now\<rparr>)"

definition has_pending :: "demand \<Rightarrow> bool" where
  "has_pending d = (0 < d_attempts d)"

definition unbiased_rate :: "(f64 \<Rightarrow> f64) \<Rightarrow> demand \<Rightarrow> f64" where
  "unbiased_rate ex d =
     (case (d_since d, d_last_tick d) of
        (Some since, Some latest) \<Rightarrow>
          let measured = saturating_sub latest since in
          if measured = 0 then Fin 0
          else
            let weight = 1 - ex (- f64_of_word measured / f64_of_word (d_time_constant d))
            in d_rate d / weight
      | _ \<Rightarrow> Fin 0)"

section \<open>The average stays a rate\<close>

text \<open>The exponential of the standard library, as far as it is relied on: a number in the unit interval
  for every argument that is not positive, minus infinity included.\<close>

definition exp_ok :: "(f64 \<Rightarrow> f64) \<Rightarrow> bool" where
  "exp_ok ex = (\<forall>x. x \<le> 0 \<longrightarrow> (\<exists>e. ex x = Fin e \<and> 0 \<le> e \<and> e \<le> 1))"

lemma exp_okD:
  assumes "exp_ok ex" "x \<le> 0"
  obtains e where "ex x = Fin e" "0 \<le> e" "e \<le> 1"
  using assms by (auto simp: exp_ok_def)

text \<open>Rounding keeps to bounds that are powers of two, or multiples of one.\<close>

lemma f64_of_rat_between:
  assumes "0 \<le> x" "x \<le> of_nat n * 2 ^ k" "n \<le> 2 ^ 53" "k \<le> 900"
  shows "\<exists>y. f64_of_rat x = Fin y \<and> 0 \<le> y \<and> y \<le> of_nat n * 2 ^ k"
proof -
  have "(of_nat n :: rat) \<le> 2 ^ 53" using assms(3) by (metis of_nat_le_iff of_nat_numeral of_nat_power)
  moreover have "(2::rat) ^ k \<le> 2 ^ 900" using assms(4) by (intro power_increasing) auto
  ultimately have "of_nat n * 2 ^ k \<le> (2::rat) ^ 53 * 2 ^ 900" by (intro mult_mono) auto
  also have "\<dots> \<le> 2 ^ 1023" by (simp only: power_add [symmetric]) (rule power_increasing, simp_all)
  finally have f: "f64_of_rat x = Fin (rnd 53 (-1074) x)"
    using assms(1,2) by (intro f64_of_rat_Fin) (unfold abs_le_iff, intro conjI; linarith)
  have "rnd 53 (-1074) (of_nat n * 2 ^ k) = of_nat n * 2 ^ k"
    using rnd_exact [of 53 "-1074" "int k" "int n" "of_nat n * 2 ^ k"] assms(3) by (simp add: nat_le_iff)
  moreover have "rnd 53 (-1074) x \<le> rnd 53 (-1074) (of_nat n * 2 ^ k)" by (rule rnd_mono [OF _ assms(2)]) simp
  moreover have "0 \<le> rnd 53 (-1074) x" by (rule rnd_nonneg [OF assms(1)])
  ultimately show ?thesis using f by auto
qed

lemma f64_of_rat_at_least:
  assumes "2 powi (- int k) \<le> x" "k \<le> 900" "x \<le> 2 ^ 900"
  shows "\<exists>y. f64_of_rat x = Fin y \<and> 2 powi (- int k) \<le> y"
proof -
  have pos: "(0::rat) < 2 powi (- int k)" by simp
  have "(2::rat) ^ 900 \<le> 2 ^ 1023" by (rule power_increasing) simp_all
  then have f: "f64_of_rat x = Fin (rnd 53 (-1074) x)"
    using assms(1,3) pos by (intro f64_of_rat_Fin) (unfold abs_le_iff, intro conjI; linarith)
  have "rnd 53 (-1074) (2 powi (- int k)) = 2 powi (- int k)" using assms(2) by (intro rnd_pow2) auto
  then show ?thesis using f rnd_mono [OF _ assms(1), of 53 "-1074"] by auto
qed

text \<open>The measured rate of one interval: at most \<open>u64::MAX\<close> attempts in a nanosecond, under \<open>2\<^sup>9\<^sup>4\<close> a second.\<close>

lemma instantaneous_bounds:
  assumes "elapsed \<noteq> (0 :: u64)"
  shows "\<exists>i. f64_of_word (attempts :: u64) / (f64_of_word elapsed / Fin 1000000000) = Fin i \<and>
    0 \<le> i \<and> i \<le> 2 ^ 94 \<and> (attempts = 0 \<longrightarrow> i = 0)"
proof -
  obtain e where e: "f64_of_word elapsed = Fin e" "1 \<le> e" "e \<le> 2 ^ 64"
    using f64_of_word_Fin [where w = elapsed] assms by (auto simp: word_neq_0_conv word_less_nat_alt)
  obtain n where n: "f64_of_word attempts = Fin n" "0 \<le> n" "n \<le> 2 ^ 64" "attempts = 0 \<longrightarrow> n = 0"
  proof (cases "attempts = 0")
    case True
    then have "f64_of_word attempts = Fin 0" by (simp add: f64_of_word_def)
    then show ?thesis using that by simp
  next
    case False
    then show ?thesis using f64_of_word_Fin [where w = attempts] that by auto
  qed
  have "(2::rat) powi (- int 30) \<le> 1 / 1000000000" by (simp add: power_int_minus)
  also have "\<dots> \<le> e / 1000000000" using e(2) by simp
  finally have lo: "2 powi (- int 30) \<le> e / 1000000000" .
  have "e / 1000000000 \<le> 2 ^ 64" using e(2,3) by simp
  also have "(2::rat) ^ 64 \<le> 2 ^ 900" by (rule power_increasing) simp_all
  finally obtain s where s: "f64_of_rat (e / 1000000000) = Fin s" "2 powi (- int 30) \<le> s"
    using f64_of_rat_at_least [OF lo] by auto
  have pos: "0 < s" using s(2) by (rule less_le_trans [rotated]) simp
  have "n / s \<le> 2 ^ 64 / 2 powi (- int 30)" using n s(2) by (intro frac_le) auto
  also have "\<dots> = 2 ^ 94" by (simp add: power_int_minus)
  finally have "\<exists>i. f64_of_rat (n / s) = Fin i \<and> 0 \<le> i \<and> i \<le> 2 ^ 94"
    using f64_of_rat_between [of "n / s" 1 94] n(2) pos by simp
  then obtain i where i: "f64_of_rat (n / s) = Fin i" "0 \<le> i" "i \<le> 2 ^ 94" by blast
  have "Fin e / Fin 1000000000 = Fin s" using s(1) by simp
  then have "f64_of_word attempts / (f64_of_word elapsed / Fin 1000000000) = Fin i"
    using i(1) pos by (simp add: e(1) n(1))
  moreover have "i = 0" if "attempts = 0" using i(1) n(4) that by simp
  ultimately show ?thesis using i(2,3) by blast
qed

text \<open>A weighted mean of a rate up to \<open>2\<^sup>9\<^sup>5\<close> and one up to \<open>2\<^sup>9\<^sup>4\<close> stays under \<open>2\<^sup>9\<^sup>5\<close>, as rounded.\<close>

lemma mean_bound:
  assumes a: "0 \<le> a" "a \<le> 1" "rnd 53 (-1074) a = a" and i: "0 \<le> i" "i \<le> 2 ^ 94" and r: "0 \<le> r" "r \<le> 2 ^ 95"
  shows "rnd 53 (-1074) (rnd 53 (-1074) (a * i) + rnd 53 (-1074) (rnd 53 (-1074) (1 - a) * r)) \<le> 2 ^ 95"
proof -
  let ?R = "rnd 53 (-1074)" and ?b = "rnd 53 (-1074) (1 - a)"
  have b: "0 \<le> ?b" "?b \<le> 1 - a + 2 powi (-54)" "?b \<le> 1"
    using a below_one_error [of "1 - a"] rnd_nonneg [of "1 - a"] rnd_mono [of 53 "1 - a" 1 "-1074"] rnd_of_int [of 1] by auto
  have "?R (a * i) \<le> ?R (a * 2 ^ 94)" using a i by (intro rnd_mono mult_left_mono) auto
  also have "\<dots> = a * 2 ^ 94" using rnd_scale [OF a(1), of 94] a(3) by simp
  finally have x: "?R (a * i) \<le> a * 2 ^ 94" .
  have "?R (?b * r) \<le> ?R (?b * 2 ^ 95)" using b r by (intro rnd_mono mult_left_mono) auto
  also have "\<dots> = ?b * 2 ^ 95" using rnd_scale [of "1 - a" 95] a by simp
  finally have y: "?R (?b * r) \<le> ?b * 2 ^ 95" .
  have "a * 2 ^ 94 + ?b * 2 ^ 95 \<le> 2 ^ 95 + 2 ^ 41"
  proof (cases "2 powi (-53) \<le> a")
    case True
    have "?b * 2 ^ 95 \<le> (1 - a + 2 powi (-54)) * 2 ^ 95" using b(2) by (rule mult_right_mono) simp
    then show ?thesis using True by (simp add: power_int_def power_divide)
  next
    case False
    then have "a * 2 ^ 94 \<le> 2 powi (-53) * 2 ^ 94" by (intro mult_right_mono) auto
    moreover have "?b * 2 ^ 95 \<le> 1 * 2 ^ 95" using b(3) by (rule mult_right_mono) simp
    ultimately show ?thesis by (simp add: power_int_def power_divide)
  qed
  then have "?R (?R (a * i) + ?R (?b * r)) \<le> ?R (2 ^ 95 + 2 ^ 41)" using x y by (intro rnd_mono) auto
  then show ?thesis by (simp only: just_over)
qed

text \<open>The weight of a tick, the part of the average it leaves, and how they round; a time constant of zero included.\<close>

lemma weight_bounds:
  assumes "exp_ok ex" "elapsed \<noteq> (0 :: u64)"
  shows "\<exists>a. 1 - ex (- f64_of_word elapsed / f64_of_word (tc :: u64)) = Fin a \<and> 0 \<le> a \<and> a \<le> 1 \<and>
    rnd 53 (-1074) a = a \<and> 1 - Fin a = Fin (rnd 53 (-1074) (1 - a))"
proof -
  obtain e where e: "f64_of_word elapsed = Fin e" "1 \<le> e" "e \<le> 2 ^ 64"
    using f64_of_word_Fin [where w = elapsed] assms(2) by (auto simp: word_neq_0_conv word_less_nat_alt)
  have "- f64_of_word elapsed / f64_of_word tc \<le> 0"
  proof (cases "tc = 0")
    case True
    then have "f64_of_word tc = Fin 0" by (simp add: f64_of_word_def)
    then show ?thesis using e by (simp add: f64_ops f_div_def f_inf_def)
  next
    case False
    obtain t where t: "f64_of_word tc = Fin t" "1 \<le> t"
      using f64_of_word_Fin [where w = tc] False by (auto simp: word_neq_0_conv word_less_nat_alt)
    have "e / t \<le> e" using e(2) t(2) by (simp add: divide_le_eq mult_le_cancel_left1)
    moreover have "(2::rat) ^ 64 \<le> 2 ^ 1023" by (rule power_increasing) simp_all
    ultimately have "\<bar>- (e / t)\<bar> \<le> 2 ^ 1023" using e t by (simp only: abs_minus_cancel abs_of_nonneg divide_nonneg_nonneg)
    then have "f64_of_rat (- (e / t)) = Fin (rnd 53 (-1074) (- (e / t)))" by (rule f64_of_rat_Fin)
    moreover have "rnd 53 (-1074) (- (e / t)) \<le> 0" using e t rnd_nonneg [of "e / t"] by (simp add: rnd_minus)
    ultimately show ?thesis using t by (simp add: e(1) t(1))
  qed
  then obtain x where x: "ex (- f64_of_word elapsed / f64_of_word tc) = Fin x" "0 \<le> x" "x \<le> 1"
    using exp_okD [OF assms(1)] by blast
  have unit: "f64_of_rat y = Fin (rnd 53 (-1074) y)" if "0 \<le> y" "y \<le> 1" for y
    using R_between(3) [of y 0] that by simp
  let ?a = "rnd 53 (-1074) (1 - x)"
  have a: "0 \<le> ?a" "?a \<le> 1" using R_between(1,2) [of "1 - x" 0] x by simp_all
  have "1 - Fin x = Fin ?a" using unit [of "1 - x"] x by simp
  moreover have "1 - Fin ?a = Fin (rnd 53 (-1074) (1 - ?a))" using unit [of "1 - ?a"] a by simp
  ultimately show ?thesis using x a by (intro exI [of _ ?a]) (simp add: rnd_idem)
qed

lemma demand_tick_bounds:
  assumes ex: "exp_ok ex" and r: "d_rate d = Fin r" "0 \<le> r" "r \<le> 2 ^ 95"
  shows "\<exists>r'. d_rate (demand_tick ex d now) = Fin r' \<and> 0 \<le> r' \<and> r' \<le> 2 ^ 95"
proof (cases "d_last_tick d = None \<or> (\<exists>prev. d_last_tick d = Some prev \<and> saturating_sub now prev = 0)")
  case True
  then show ?thesis using r by (auto simp: demand_tick_def Let_def)
next
  case False
  then obtain prev where prev: "d_last_tick d = Some prev" "saturating_sub now prev \<noteq> 0" by auto
  define elapsed where "elapsed = saturating_sub now prev"
  obtain i where i: "f64_of_word (d_attempts d) / (f64_of_word elapsed / Fin 1000000000) = Fin i" "0 \<le> i" "i \<le> 2 ^ 94"
    using instantaneous_bounds [OF prev(2), of "d_attempts d"] by (auto simp: elapsed_def)
  obtain a where a: "1 - ex (- f64_of_word elapsed / f64_of_word (d_time_constant d)) = Fin a" "0 \<le> a" "a \<le> 1"
    "rnd 53 (-1074) a = a" "1 - Fin a = Fin (rnd 53 (-1074) (1 - a))"
    using weight_bounds [OF ex prev(2), of "d_time_constant d"] by (auto simp: elapsed_def)
  let ?b = "rnd 53 (-1074) (1 - a)"
  have b: "0 \<le> ?b" "?b \<le> 1" using R_between(1,2) [of "1 - a" 0] a by simp_all
  have "a * i \<le> 1 * 2 ^ 94" "?b * r \<le> 1 * 2 ^ 95" using a i b r by (intro mult_mono; simp)+
  then have fin: "f64_of_rat (a * i) = Fin (rnd 53 (-1074) (a * i))" "f64_of_rat (?b * r) = Fin (rnd 53 (-1074) (?b * r))"
    "0 \<le> rnd 53 (-1074) (a * i)" "0 \<le> rnd 53 (-1074) (?b * r)"
    "rnd 53 (-1074) (a * i) \<le> 2 ^ 94" "rnd 53 (-1074) (?b * r) \<le> 2 ^ 95"
    using R_between [of "a * i" 94] R_between [of "?b * r" 95] a i b r by simp_all
  let ?z = "rnd 53 (-1074) (a * i) + rnd 53 (-1074) (?b * r)"
  have "?z \<le> 2 ^ 94 + 2 ^ 95" using fin(5,6) by (rule add_mono)
  then have z: "f64_of_rat ?z = Fin (rnd 53 (-1074) ?z)" "0 \<le> rnd 53 (-1074) ?z"
    using R_between [of ?z 96] fin by simp_all
  have "d_rate (demand_tick ex d now) = Fin (rnd 53 (-1074) ?z)"
    using prev fin(1,2) z(1)
    by (simp add: demand_tick_def elapsed_def [symmetric] Let_def i(1) a(1,5) r(1) del: Fin_order(4))
  then show ?thesis using z(2) mean_bound [OF a(2-4) i(2,3) r(2,3)] by auto
qed

section \<open>Histories\<close>

text \<open>What a key's average goes through: attempts, counted or recorded, and ticks.\<close>

datatype demand_op = Attempt | Attempts u64 | TickAt nanos

fun demand_step :: "(f64 \<Rightarrow> f64) \<Rightarrow> demand \<Rightarrow> demand_op \<Rightarrow> demand" where
  "demand_step ex d Attempt = record_attempt d"
| "demand_step ex d (Attempts n) = record_attempts d n"
| "demand_step ex d (TickAt now) = demand_tick ex d now"

lemma demand_ops_bounds:
  assumes "exp_ok ex" "d_rate d = Fin r" "0 \<le> r" "r \<le> 2 ^ 95"
  shows "\<exists>r'. d_rate (foldl (demand_step ex) d ops) = Fin r' \<and> 0 \<le> r' \<and> r' \<le> 2 ^ 95"
  using assms(2-)
proof (induction ops arbitrary: d r)
  case (Cons x ops)
  have "\<exists>r'. d_rate (demand_step ex d x) = Fin r' \<and> 0 \<le> r' \<and> r' \<le> 2 ^ 95"
    using demand_tick_bounds [OF assms(1) Cons.prems] Cons.prems
    by (cases x) (simp_all add: record_attempt_def record_attempts_def)
  then show ?case using Cons.IH by auto
qed auto

section \<open>Properties\<close>

text \<open>
  A key's average is always a rate that can be reported: whatever is counted, however the clock moves and for however
  long, ticks of zero length and a time constant of zero included, it stays finite, not negative and at most \<open>2\<^sup>9\<^sup>5\<close>
  a second.
\<close>

theorem demand_is_a_rate:
  assumes "exp_ok ex"
  shows "\<exists>r. d_rate (foldl (demand_step ex) (starting_at time_constant now) ops) = Fin r \<and> 0 \<le> r \<and> r \<le> 2 ^ 95"
  using demand_ops_bounds [OF assms, of "starting_at time_constant now" 0 ops] by (simp add: starting_at_def demand_new_def)

theorem demand_is_a_rate_witness:
  "\<exists>r. d_rate (foldl (demand_step (\<lambda>x. Fin 0)) (starting_at 5 7) [Attempt, Attempts 4, TickAt 7, TickAt 9]) = Fin r \<and>
    0 \<le> r"
proof -
  have "exp_ok (\<lambda>x. Fin 0)" by (simp add: exp_ok_def)
  from demand_is_a_rate [OF this, of 5 7] show ?thesis by blast
qed

text \<open>
  A tick of no length loses nothing: the attempts counted so far are kept for the next one; any other
  tick but the first takes them all into the average and starts the count again.
\<close>

theorem demand_tick_keeps_attempts:
  "demand_tick ex d now =
     (case d_last_tick d of
        None \<Rightarrow> d\<lparr>d_last_tick := Some now, d_since := Some now\<rparr>
      | Some prev \<Rightarrow> if now \<le> prev then d
          else d\<lparr>d_rate := d_rate (demand_tick ex d now), d_attempts := 0, d_last_tick := Some now\<rparr>)"
proof -
  have "saturating_sub now prev = 0 \<longleftrightarrow> now \<le> prev" for prev
    by (simp add: word_unat_eq_iff unat_saturating_sub word_le_nat_alt)
  then show ?thesis by (auto simp: demand_tick_def Let_def split: option.split)
qed

end
