(* ===== verification/Hot_Set.thy ===== *)
theory Hot_Set
  imports Float64
begin

text \<open>
  \<open>rateguard-core/src/hot_set.rs\<close>: the keys of one node that need coordination,
  bounded in number. A hash map is an ordered map here: nothing below depends
  on the order of its iteration, ties between demands being broken by key.
\<close>

definition EVICTION_MARGIN :: f64 where
  "EVICTION_MARGIN = f64_of_rat (11 / 10)"

record hot_entry =
  he_cooling_since :: "nanos option"
  he_demand :: f64
  he_primary :: bool
  he_since :: nanos

record hot_set =
  hs_cooldown :: nanos
  hs_max_size :: nat
  hs_hot :: "(u64, hot_entry) omap"

definition hot_new :: "nanos \<Rightarrow> nat \<Rightarrow> hot_set option" where
  "hot_new cooldown max_size = do {
     ensure (0 < max_size);
     Some \<lparr>hs_cooldown = cooldown, hs_max_size = max_size, hs_hot = []\<rparr>
   }"

definition is_hot :: "hot_set \<Rightarrow> u64 \<Rightarrow> bool" where
  "is_hot hs key = om_has (hs_hot hs) key"

definition hot_since :: "hot_set \<Rightarrow> u64 \<Rightarrow> nanos option" where
  "hot_since hs key = map_option he_since (om_get (hs_hot hs) key)"

definition is_primary :: "hot_set \<Rightarrow> u64 \<Rightarrow> bool" where
  "is_primary hs key = (case om_get (hs_hot hs) key of None \<Rightarrow> False | Some e \<Rightarrow> he_primary e)"

definition hot_len :: "hot_set \<Rightarrow> nat" where
  "hot_len hs = length (hs_hot hs)"

definition hot_is_empty :: "hot_set \<Rightarrow> bool" where
  "hot_is_empty hs = (hs_hot hs = [])"

definition hot_insert :: "hot_set \<Rightarrow> u64 \<Rightarrow> f64 \<Rightarrow> bool \<Rightarrow> nanos \<Rightarrow> hot_set" where
  "hot_insert hs key demand_rate primary now =
     hs\<lparr>hs_hot := om_put key \<lparr>he_cooling_since = None, he_demand = demand_rate,
          he_primary = primary, he_since = now\<rparr> (hs_hot hs)\<rparr>"

definition weaker :: "u64 \<times> hot_entry \<Rightarrow> u64 \<times> hot_entry \<Rightarrow> bool" where
  "weaker a b = (total_le (he_demand (snd a)) (he_demand (snd b)) \<and>
     (he_demand (snd a) = he_demand (snd b) \<longrightarrow> fst a \<le> fst b))"

definition weakest :: "hot_set \<Rightarrow> (u64 \<times> f64) option" where
  "weakest hs = map_option (\<lambda>(key, e). (key, he_demand e)) (min_by weaker (hs_hot hs))"

definition promote :: "hot_set \<Rightarrow> u64 \<Rightarrow> f64 \<Rightarrow> bool \<Rightarrow> nanos \<Rightarrow> (bool \<times> hot_set) option" where
  "promote hs key demand_rate primary now =
     (case om_get (hs_hot hs) key of
        Some e \<Rightarrow> Some (True, hs\<lparr>hs_hot := om_put key
          (e\<lparr>he_demand := demand_rate, he_cooling_since := None, he_primary := primary\<rparr>) (hs_hot hs)\<rparr>)
      | None \<Rightarrow>
          if hot_len hs < hs_max_size hs then Some (True, hot_insert hs key demand_rate primary now)
          else do {
            (weakest_key, weakest_demand) \<leftarrow> weakest hs;
            if weakest_demand * EVICTION_MARGIN < demand_rate
            then Some (True, hot_insert (hs\<lparr>hs_hot := om_del weakest_key (hs_hot hs)\<rparr>)
                               key demand_rate primary now)
            else Some (False, hs)
          })"

definition cool :: "hot_set \<Rightarrow> u64 \<Rightarrow> f64 \<Rightarrow> nanos \<Rightarrow> bool \<times> hot_set" where
  "cool hs key demand_rate now =
     (case om_get (hs_hot hs) key of
        None \<Rightarrow> (True, hs)
      | Some e0 \<Rightarrow>
          let e = e0\<lparr>he_demand := demand_rate\<rparr> in
          if \<not> he_primary e then (True, hs\<lparr>hs_hot := om_put key e (hs_hot hs)\<rparr>)
          else
            let (expired, e1) = (case he_cooling_since e of
                  None \<Rightarrow> (False, e\<lparr>he_cooling_since := Some now\<rparr>)
                | Some since \<Rightarrow> (hs_cooldown hs \<le> saturating_sub now since, e));
                e2 = (if expired then e1\<lparr>he_primary := False, he_cooling_since := None\<rparr> else e1)
            in (True, hs\<lparr>hs_hot := om_put key e2 (hs_hot hs)\<rparr>))"

definition update_with ::
  "hot_set \<Rightarrow> u64 \<Rightarrow> f64 \<Rightarrow> f64 \<Rightarrow> nanos \<Rightarrow> bool \<Rightarrow> (bool \<times> hot_set) option" where
  "update_with hs key demand_rate threshold now hot_elsewhere =
     (if threshold < demand_rate then promote hs key demand_rate True now
      else
        let (ok, hs') = cool hs key demand_rate now in
        if \<not> ok then Some (False, hs')
        else case om_get (hs_hot hs') key of
          Some e \<Rightarrow>
            if he_primary e then Some (True, hs')
            else if hot_elsewhere then Some (True, hs')
            else Some (False, hs'\<lparr>hs_hot := om_del key (hs_hot hs')\<rparr>)
        | None \<Rightarrow>
            if hot_elsewhere then promote hs' key demand_rate False now else Some (False, hs'))"

definition hot_update :: "hot_set \<Rightarrow> u64 \<Rightarrow> f64 \<Rightarrow> f64 \<Rightarrow> nanos \<Rightarrow> (bool \<times> hot_set) option" where
  "hot_update hs key demand_rate threshold now = update_with hs key demand_rate threshold now False"

section \<open>Invariant\<close>

definition hot_wf :: "hot_set \<Rightarrow> bool" where
  "hot_wf hs = (om_wf (hs_hot hs) \<and> 0 < hs_max_size hs \<and> hot_len hs \<le> hs_max_size hs)"

lemma hot_new_wf: "hot_new cooldown n = Some hs \<Longrightarrow> hot_wf hs"
  by (auto simp: hot_new_def hot_wf_def hot_len_def)

text \<open>\<open>cool\<close> answers the same for a key in the set and for one that is not.\<close>

lemma cool_always_true: "fst (cool hs key demand_rate now) = True"
  by (auto simp: cool_def Let_def split: option.splits)

text \<open>The entry of a key after \<open>cool\<close>.\<close>

definition cooled :: "hot_set \<Rightarrow> hot_entry \<Rightarrow> f64 \<Rightarrow> nanos \<Rightarrow> hot_entry" where
  "cooled hs e demand_rate now =
     (let e1 = e\<lparr>he_demand := demand_rate\<rparr> in
      if \<not> he_primary e then e1
      else case he_cooling_since e of
        None \<Rightarrow> e1\<lparr>he_cooling_since := Some now\<rparr>
      | Some since \<Rightarrow> if hs_cooldown hs \<le> saturating_sub now since
          then e1\<lparr>he_primary := False, he_cooling_since := None\<rparr> else e1)"

lemma cool_eq:
  "cool hs key demand_rate now = (True, case om_get (hs_hot hs) key of None \<Rightarrow> hs
     | Some e \<Rightarrow> hs\<lparr>hs_hot := om_put key (cooled hs e demand_rate now) (hs_hot hs)\<rparr>)"
  by (auto simp: cool_def cooled_def Let_def split: option.splits)

lemma weaker_total: "weaker a b \<or> weaker b a"
proof -
  have "total_le x x" for x using total_le_linear [of x x] by blast
  then show ?thesis using total_le_linear [of "he_demand (snd a)" "he_demand (snd b)"]
    by (cases "he_demand (snd a) = he_demand (snd b)") (auto simp: weaker_def)
qed

lemma weaker_trans: "weaker a b \<Longrightarrow> weaker b c \<Longrightarrow> weaker a c"
  by (auto simp: weaker_def intro: total_le_trans dest: total_le_antisym)

lemma weakest_Some:
  assumes "hot_wf hs" "\<not> hot_len hs < hs_max_size hs"
  obtains k e where "weakest hs = Some (k, he_demand e)" "om_get (hs_hot hs) k = Some e"
    "\<And>j d. om_get (hs_hot hs) j = Some d \<Longrightarrow> weaker (k, e) (j, d)"
proof -
  have "hs_hot hs \<noteq> []" using assms by (auto simp: hot_wf_def hot_len_def)
  then obtain k e where m: "min_by weaker (hs_hot hs) = Some (k, e)"
    by (metis min_by_eq_None option.exhaust prod.exhaust)
  have "(k, e) \<in> set (hs_hot hs)" by (rule min_by_mem [OF m])
  then have "om_get (hs_hot hs) k = Some e"
    using assms(1) by (simp add: hot_wf_def om_wf_distinct)
  moreover have "weaker (k, e) (j, d)" if "om_get (hs_hot hs) j = Some d" for j d
    by (rule min_by_least [OF _ _ m map_of_SomeD [OF that]]) (auto simp: weaker_total intro: weaker_trans)
  ultimately show ?thesis using that [of k e] m by (simp add: weakest_def)
qed

section \<open>Promotion\<close>

lemma promote_cases:
  assumes wf: "hot_wf hs"
  obtains (Refreshed) e where "om_get (hs_hot hs) key = Some e"
      "promote hs key d primary now = Some (True, hs\<lparr>hs_hot := om_put key
         (e\<lparr>he_demand := d, he_cooling_since := None, he_primary := primary\<rparr>) (hs_hot hs)\<rparr>)"
  | (Inserted) "om_get (hs_hot hs) key = None" "hot_len hs < hs_max_size hs"
      "promote hs key d primary now = Some (True, hot_insert hs key d primary now)"
  | (Evicted) k e where "om_get (hs_hot hs) key = None" "\<not> hot_len hs < hs_max_size hs"
      "om_get (hs_hot hs) k = Some e" "he_demand e * EVICTION_MARGIN < d"
      "\<And>j e'. om_get (hs_hot hs) j = Some e' \<Longrightarrow> weaker (k, e) (j, e')"
      "promote hs key d primary now =
         Some (True, hot_insert (hs\<lparr>hs_hot := om_del k (hs_hot hs)\<rparr>) key d primary now)"
  | (NoRoom) "om_get (hs_hot hs) key = None" "\<not> hot_len hs < hs_max_size hs"
      "promote hs key d primary now = Some (False, hs)"
proof (cases "om_get (hs_hot hs) key")
  case (Some e)
  show ?thesis by (rule that(1) [OF Some]) (simp add: promote_def Some)
next
  case None
  show ?thesis
  proof (cases "hot_len hs < hs_max_size hs")
    case True
    show ?thesis by (rule that(2) [OF None True]) (simp add: promote_def None True)
  next
    case False
    obtain k e where w: "weakest hs = Some (k, he_demand e)" "om_get (hs_hot hs) k = Some e"
      "\<And>j d. om_get (hs_hot hs) j = Some d \<Longrightarrow> weaker (k, e) (j, d)"
      using weakest_Some [OF wf False] by blast
    show ?thesis
    proof (cases "he_demand e * EVICTION_MARGIN < d")
      case True
      show ?thesis by (rule that(3) [OF None False w(2) True w(3)]) (simp_all add: promote_def None False w(1) True)
    next
      case weak: False
      show ?thesis by (rule that(4) [OF None False]) (simp add: promote_def None False w(1) weak)
    qed
  qed
qed

lemma hot_len_put:
  "om_wf m \<Longrightarrow> length (om_put k v m) = (if om_get m k = None then Suc (length m) else length m)"
  by (simp add: length_om_put om_has_def)

lemma promote_wf:
  assumes wf: "hot_wf hs" and p: "promote hs key d primary now = Some (b, hs')"
  shows "hot_wf hs' \<and> (b \<longleftrightarrow> is_hot hs' key) \<and> hs_cooldown hs' = hs_cooldown hs \<and> hs_max_size hs' = hs_max_size hs"
proof -
  have o: "om_wf (hs_hot hs)" and len: "length (hs_hot hs) \<le> hs_max_size hs" "0 < hs_max_size hs"
    using wf by (simp_all add: hot_wf_def hot_len_def)
  show ?thesis using wf
  proof (cases rule: promote_cases [where key = key and d = d and primary = primary and now = now])
    case (Refreshed e)
    then show ?thesis using p o len by (auto simp: hot_wf_def hot_len_def hot_len_put is_hot_def om_has_def)
  next
    case Inserted
    then show ?thesis using p o len
      by (auto simp: hot_wf_def hot_len_def hot_len_put hot_insert_def is_hot_def om_has_def)
  next
    case (Evicted k e)
    have "length (om_del k (hs_hot hs)) = length (hs_hot hs) - 1" "om_has (hs_hot hs) k"
      using Evicted(3) o by (simp_all add: length_om_del om_has_def)
    moreover have "0 < length (hs_hot hs)" using Evicted(3) by (cases "hs_hot hs") auto
    ultimately show ?thesis using p o len Evicted
      by (auto simp: hot_wf_def hot_len_def hot_len_put hot_insert_def is_hot_def om_has_def)
  next
    case NoRoom
    then show ?thesis using p wf by (auto simp: is_hot_def om_has_def)
  qed
qed

lemma cool_wf:
  assumes "hot_wf hs"
  shows "hot_wf (snd (cool hs key d now)) \<and> hs_cooldown (snd (cool hs key d now)) = hs_cooldown hs \<and>
    hs_max_size (snd (cool hs key d now)) = hs_max_size hs \<and>
    hot_len (snd (cool hs key d now)) = hot_len hs"
  using assms by (auto simp: cool_eq hot_wf_def hot_len_def hot_len_put split: option.splits)

lemma update_with_total:
  assumes wf: "hot_wf hs"
  shows "\<exists>b hs'. update_with hs key d threshold now elsewhere = Some (b, hs') \<and> hot_wf hs' \<and>
    (b \<longleftrightarrow> is_hot hs' key) \<and> hs_cooldown hs' = hs_cooldown hs \<and> hs_max_size hs' = hs_max_size hs"
proof -
  have prom: "\<exists>b hs'. promote s key d primary now = Some (b, hs')" if "hot_wf s" for s primary
    using that by (cases rule: promote_cases [where key = key and d = d and primary = primary and now = now]) auto
  let ?c = "snd (cool hs key d now)"
  note c = cool_wf [OF wf, of key d now]
  have del: "hot_wf (?c\<lparr>hs_hot := om_del key (hs_hot ?c)\<rparr>)"
    using c by (auto simp: hot_wf_def hot_len_def length_om_del)
  consider (rise) "threshold < d" | (same) e where "\<not> threshold < d" "om_get (hs_hot ?c) key = Some e"
    | (out) "\<not> threshold < d" "om_get (hs_hot ?c) key = None" "\<not> elsewhere"
    | (secondary) "\<not> threshold < d" "om_get (hs_hot ?c) key = None" "elsewhere" by fastforce
  then show ?thesis
  proof cases
    case rise
    then show ?thesis using prom [OF wf, of True] promote_wf [OF wf] by (fastforce simp: update_with_def)
  next
    case (same e)
    then have "is_hot ?c key" by (simp add: is_hot_def om_has_def)
    with same c del show ?thesis
      by (auto simp: update_with_def split_beta Let_def cool_always_true is_hot_def om_has_def)
  next
    case out
    with c show ?thesis by (auto simp: update_with_def split_beta Let_def cool_always_true is_hot_def om_has_def)
  next
    case secondary
    obtain b hs' where p: "promote ?c key d False now = Some (b, hs')" using prom [of ?c False] c by blast
    with secondary promote_wf [OF _ p] c show ?thesis
      by (auto simp: update_with_def split_beta Let_def cool_always_true)
  qed
qed

section \<open>Properties\<close>

text \<open>
  The hot set stays within its size whatever happens: \<open>update\<close> never panics, its answer is
  whether the key is in the set afterwards, and the set holds at most \<open>max_size\<close> keys again.
\<close>

theorem hot_set_bounded:
  assumes "hot_wf hs"
  shows "\<exists>hot hs'. update_with hs key demand_rate threshold now elsewhere = Some (hot, hs') \<and>
    (hot \<longleftrightarrow> is_hot hs' key) \<and> hot_len hs' \<le> hs_max_size hs \<and> hot_wf hs'"
  using update_with_total [OF assms, of key demand_rate threshold now elsewhere]
  by (auto simp: hot_wf_def)

theorem hot_set_bounded_witness:
  "\<exists>hot hs'. update_with \<lparr>hs_cooldown = 5, hs_max_size = 1, hs_hot = []\<rparr> 9 (Fin 7) (Fin 3) 2 False = Some (hot, hs') \<and>
     hot_len hs' \<le> 1"
  using hot_set_bounded [of "\<lparr>hs_cooldown = 5, hs_max_size = 1, hs_hot = []\<rparr>" 9 "Fin 7" "Fin 3" 2 False]
  by (auto simp: hot_wf_def hot_len_def)

lemma promote_others:
  assumes wf: "hot_wf hs" and p: "promote hs key d primary now = Some (b, hs')"
    and k: "k \<noteq> key" "om_get (hs_hot hs') k \<noteq> om_get (hs_hot hs) k"
  shows "\<exists>e. om_get (hs_hot hs) k = Some e \<and> om_get (hs_hot hs') k = None \<and> \<not> hot_len hs < hs_max_size hs \<and>
    om_get (hs_hot hs) key = None \<and> he_demand e * EVICTION_MARGIN < d \<and>
    (\<forall>j e'. om_get (hs_hot hs) j = Some e' \<longrightarrow> weaker (k, e) (j, e'))"
  using wf
proof (cases rule: promote_cases [where key = key and d = d and primary = primary and now = now])
  case (Evicted v e)
  then have "k = v" using p k by (auto simp: hot_insert_def split: if_splits)
  with Evicted p k(1) show ?thesis by (auto simp: hot_insert_def)
qed (use p k in \<open>auto simp: hot_insert_def\<close>)

text \<open>What an update does to another key.\<close>

lemma update_with_others:
  assumes wf: "hot_wf hs" and up: "update_with hs key demand_rate threshold now elsewhere = Some (hot, hs')"
    and k: "k \<noteq> key" "om_get (hs_hot hs') k \<noteq> om_get (hs_hot hs) k"
  shows "\<exists>e. om_get (hs_hot hs) k = Some e \<and> om_get (hs_hot hs') k = None \<and>
    hot_len hs = hs_max_size hs \<and> \<not> is_hot hs key \<and> he_demand e * EVICTION_MARGIN < demand_rate \<and>
    (\<forall>j e'. om_get (hs_hot hs) j = Some e' \<longrightarrow> weaker (k, e) (j, e')) \<and>
    (\<forall>j. j \<noteq> key \<and> j \<noteq> k \<longrightarrow> om_get (hs_hot hs') j = om_get (hs_hot hs) j)"
proof -
  let ?c = "snd (cool hs key demand_rate now)"
  have c: "om_get (hs_hot ?c) j = om_get (hs_hot hs) j" if "j \<noteq> key" for j
    using that by (simp add: cool_eq split: option.splits)
  have "\<exists>s primary b. promote s key demand_rate primary now = Some (b, hs') \<and> s = hs"
  proof (cases "threshold < demand_rate")
    case True
    with up show ?thesis by (auto simp: update_with_def)
  next
    case False
    show ?thesis
    proof (cases "om_get (hs_hot hs) key")
      case None
      then have "?c = hs" by (simp add: cool_eq)
      with None up False k show ?thesis
        by (auto simp: update_with_def split_beta Let_def cool_always_true split: if_splits)
    next
      case (Some e)
      then obtain e' where "om_get (hs_hot ?c) key = Some e'" by (simp add: cool_eq)
      with up False k c [OF k(1)] show ?thesis
        by (auto simp: update_with_def split_beta Let_def cool_always_true split: if_splits)
    qed
  qed
  then obtain primary b where p: "promote hs key demand_rate primary now = Some (b, hs')" by blast
  obtain e where e: "om_get (hs_hot hs) k = Some e" "om_get (hs_hot hs') k = None" "\<not> hot_len hs < hs_max_size hs"
    "om_get (hs_hot hs) key = None" "he_demand e * EVICTION_MARGIN < demand_rate"
    "\<And>j e'. om_get (hs_hot hs) j = Some e' \<Longrightarrow> weaker (k, e) (j, e')"
    using promote_others [OF wf p k] by blast
  have "j = k" if j: "j \<noteq> key" "om_get (hs_hot hs') j \<noteq> om_get (hs_hot hs) j" for j
  proof -
    obtain e2 where "om_get (hs_hot hs) j = Some e2" "weaker (j, e2) (k, e)"
      using promote_others [OF wf p j] e(1) by blast
    moreover have "weaker (k, e) (j, e2)" by (rule e(6)) (rule calculation)
    ultimately show ?thesis by (auto simp: weaker_def dest: total_le_antisym)
  qed
  moreover have "hot_len hs = hs_max_size hs" using e(3) wf by (simp add: hot_wf_def)
  moreover have "\<not> is_hot hs key" using e(4) by (simp add: is_hot_def om_has_def)
  ultimately show ?thesis using e by blast
qed

text \<open>
  C14. Eviction is fair and sticky: an update touches no other key, except that a new key may take the
  place of one in a full set, which is then the one of least demand (the least key of those) and
  is beaten by the whole eviction margin; no update evicts two.
\<close>

theorem eviction_is_fair:
  assumes wf: "hot_wf hs" and up: "update_with hs key demand_rate threshold now elsewhere = Some (hot, hs')"
    and k: "k \<noteq> key" "om_get (hs_hot hs') k \<noteq> om_get (hs_hot hs) k"
  shows "\<exists>e. om_get (hs_hot hs) k = Some e \<and> om_get (hs_hot hs') k = None \<and>
    hot_len hs = hs_max_size hs \<and> \<not> is_hot hs key \<and> he_demand e * EVICTION_MARGIN < demand_rate \<and>
    (\<forall>j e'. om_get (hs_hot hs) j = Some e' \<longrightarrow> weaker (k, e) (j, e')) \<and>
    (\<forall>j. j \<noteq> key \<and> j \<noteq> k \<longrightarrow> om_get (hs_hot hs') j = om_get (hs_hot hs) j)"
  by (rule update_with_others [OF assms])

definition one_hot :: hot_set where
  "one_hot = \<lparr>hs_cooldown = 5, hs_max_size = 1,
     hs_hot = [(4, \<lparr>he_cooling_since = None, he_demand = Fin 0, he_primary = True, he_since = 1\<rparr>)]\<rparr>"

lemma margin_zero: "Fin 0 * EVICTION_MARGIN = Fin 0"
proof -
  have "\<bar>11 / 10 :: rat\<bar> \<le> 2 ^ 1" by simp
  also have "(2::rat) ^ 1 \<le> 2 ^ 1023" by (rule power_increasing) simp_all
  finally have m: "EVICTION_MARGIN = Fin (rnd 53 (-1074) (11 / 10))"
    unfolding EVICTION_MARGIN_def by (rule f64_of_rat_Fin)
  have "Fin 0 * Fin r = Fin 0" for r by (simp only: Fin_ops mult_zero_left f64_of_rat_0)
  then show ?thesis unfolding m .
qed

theorem eviction_is_fair_witness:
  "\<exists>hs'. update_with one_hot 9 (Fin 7) (Fin 3) 2 False = Some (True, hs') \<and> \<not> is_hot hs' 4 \<and>
     hot_len one_hot = hs_max_size one_hot"
proof -
  have up: "update_with one_hot 9 (Fin 7) (Fin 3) 2 False = Some (True, hot_insert (one_hot\<lparr>hs_hot := []\<rparr>) 9 (Fin 7) True 2)"
    by (simp add: update_with_def promote_def one_hot_def hot_len_def weakest_def margin_zero om_del_def)
  have wf: "hot_wf one_hot" by (simp add: hot_wf_def one_hot_def hot_len_def om_wf_def)
  from eviction_is_fair [OF wf up, of 4] up show ?thesis
    by (auto simp: one_hot_def hot_insert_def is_hot_def om_has_def)
qed

text \<open>
  The cooldown: a primary key whose demand is at or under its threshold stays hot, starting to
  cool or going on cooling, until it has cooled for the whole cooldown; then it leaves, or stays
  as a secondary key while a peer holds it hot.
\<close>

theorem cooldown_exact:
  assumes "om_get (hs_hot hs) key = Some e" "he_primary e" "\<not> threshold < demand_rate"
  shows "\<exists>hot hs'. update_with hs key demand_rate threshold now elsewhere = Some (hot, hs') \<and>
    (let done_cooling = (case he_cooling_since e of None \<Rightarrow> False
         | Some since \<Rightarrow> hs_cooldown hs \<le> saturating_sub now since) in
     om_get (hs_hot hs') key =
       (if \<not> done_cooling then Some (e\<lparr>he_demand := demand_rate,
            he_cooling_since := Some (case he_cooling_since e of None \<Rightarrow> now | Some since \<Rightarrow> since)\<rparr>)
        else if elsewhere then Some (e\<lparr>he_demand := demand_rate, he_primary := False, he_cooling_since := None\<rparr>)
        else None))"
  using assms
  by (cases "he_cooling_since e") (auto simp: update_with_def cool_eq cooled_def Let_def)

theorem cooldown_exact_witness:
  "\<exists>hot hs'. update_with one_hot 4 (Fin 2) (Fin 3) 8 False = Some (hot, hs') \<and> is_hot hs' 4"
proof -
  have "om_get (hs_hot one_hot) 4 = Some \<lparr>he_cooling_since = None, he_demand = Fin 0,
      he_primary = True, he_since = 1\<rparr>"
    by (simp add: one_hot_def)
  from cooldown_exact [OF this, of "Fin 3" "Fin 2" 8 False] show ?thesis
    by (auto simp: is_hot_def om_has_def)
qed

end
