(* ===== verification/Limiter.thy ===== *)
theory Limiter
  imports Gcra Demand Hot_Set
begin

text \<open>
  \<open>rateguard-core/src/limiter.rs\<close>: enforcement on one node, a GCRA per key on a
  share of the limit. The state is the record \<open>limiter\<close>; a panic is \<open>None\<close>.
  Three things are arguments: \<open>ex\<close>, the exponential function of the standard
  library; \<open>ord\<close>, the order in which a hash map is iterated, a permutation of
  the list of keys it is given; and the closures of \<open>tick_with_shares\<close>, of which
  \<open>share\<close> may keep a state of its own (\<open>FnMut\<close>).
\<close>

definition SILENT_DEMAND :: f64 where
  "SILENT_DEMAND = f64_of_rat (1 / 1000)"

definition DENIAL_TIME_CONSTANT :: nanos where
  "DENIAL_TIME_CONSTANT = 10000000000"

text \<open>\<open>rateguard_proto::MAX_DEMAND_KEYS\<close>, as the configuration checks it.\<close>

definition MAX_HOT_KEYS :: nat where
  "MAX_HOT_KEYS = 64"

record limit =
  l_rate :: f64
  l_burst :: u32

definition limit_validate :: "limit \<Rightarrow> unit option" where
  "limit_validate l = do {
     ensure (is_finite (l_rate l) \<and> 0 < l_rate l);
     ensure (0 < l_burst l \<and> l_burst l \<le> MAX_BURST)
   }"

record config =
  c_limit :: limit
  c_alpha :: f64
  c_floor_factor :: f64
  c_cooldown :: nanos
  c_hot_set_size :: nat
  c_max_tracked_keys :: nat
  c_demand_time_constant :: nanos

definition config_validate :: "config \<Rightarrow> unit option" where
  "config_validate c = do {
     ensure (is_finite (l_rate (c_limit c)) \<and> 0 < l_rate (c_limit c));
     ensure (0 < l_burst (c_limit c));
     ensure (l_burst (c_limit c) \<le> MAX_BURST);
     ensure (0 < c_alpha c \<and> c_alpha c \<le> 1);
     ensure (0 \<le> c_floor_factor c \<and> c_floor_factor c \<le> 1);
     ensure (0 < c_hot_set_size c);
     ensure (c_hot_set_size c \<le> MAX_HOT_KEYS);
     ensure (c_hot_set_size c \<le> c_max_tracked_keys c)
   }"

record tally =
  t_attempts :: u64
  t_denials :: u64
  t_shadow_denials :: u64

record key_rates =
  requests_per_sec :: f64
  denied_per_sec :: f64
  shadow_denied_per_sec :: f64

record key_state =
  ks_limit :: limit
  ks_demand :: demand
  ks_requests :: demand
  ks_denials :: demand
  ks_shadow_denials :: demand
  ks_gcra :: gcra
  ks_applied :: quota

definition rates :: "(f64 \<Rightarrow> f64) \<Rightarrow> key_state \<Rightarrow> key_rates" where
  "rates ex st =
     \<lparr>requests_per_sec = unbiased_rate ex (ks_requests st),
      denied_per_sec = unbiased_rate ex (ks_denials st),
      shadow_denied_per_sec = unbiased_rate ex (ks_shadow_denials st)\<rparr>"

record limiter =
  lm_config :: config
  lm_hot_set :: hot_set
  lm_keys :: "(u64, key_state) omap"
  lm_shadows :: "(u64, gcra) omap"
  lm_cap :: "f64 option"
  lm_last_tick :: "nanos option"

definition quota_for :: "f64 \<Rightarrow> u32 \<Rightarrow> quota option" where
  "quota_for rate burst = per_second rate burst"

definition limiter_new :: "config \<Rightarrow> limiter option" where
  "limiter_new c = do {
     config_validate c;
     hs \<leftarrow> hot_new (c_cooldown c) (c_hot_set_size c);
     Some \<lparr>lm_config = c, lm_hot_set = hs, lm_keys = [], lm_shadows = [], lm_cap = None,
           lm_last_tick = None\<rparr>
   }"

definition set_cap :: "limiter \<Rightarrow> f64 option \<Rightarrow> limiter" where
  "set_cap lm cap = lm\<lparr>lm_cap := cap\<rparr>"

definition unwrap_or :: "'a option \<Rightarrow> 'a \<Rightarrow> 'a" where
  "unwrap_or x d = (case x of None \<Rightarrow> d | Some y \<Rightarrow> y)"

definition new_key_factor :: "limiter \<Rightarrow> nat \<Rightarrow> f64" where
  "new_key_factor lm cluster_size =
     f64_min (c_alpha (lm_config lm) / f64_of_nat cluster_size) (unwrap_or (lm_cap lm) PosInf)"

definition cold_quota :: "limiter \<Rightarrow> limit \<Rightarrow> nat \<Rightarrow> quota option" where
  "cold_quota lm l cluster_size = do {
     ensure (0 < cluster_size);
     quota_for (l_rate l * new_key_factor lm cluster_size) (l_burst l)
   }"

definition new_key_quota :: "limiter \<Rightarrow> limit \<Rightarrow> nat \<Rightarrow> quota option" where
  "new_key_quota lm l cluster_size = cold_quota lm l cluster_size"

section \<open>Requests\<close>

text \<open>\<open>entry\<close>: the key's state, made on its first request, with the limit it came with.\<close>

definition entry :: "limiter \<Rightarrow> u64 \<Rightarrow> limit \<Rightarrow> nanos \<Rightarrow> nat \<Rightarrow> (key_state \<times> limiter) option" where
  "entry lm key l now cluster_size = do {
     limit_validate l;
     cold \<leftarrow> cold_quota lm l cluster_size;
     let tc = c_demand_time_constant (lm_config lm);
     let since = unwrap_or (lm_last_tick lm) now;
     let st = (case om_get (lm_keys lm) key of
        Some st \<Rightarrow> st
      | None \<Rightarrow> \<lparr>ks_limit = l, ks_demand = starting_at tc since,
                 ks_requests = starting_at DENIAL_TIME_CONSTANT since,
                 ks_denials = starting_at DENIAL_TIME_CONSTANT since,
                 ks_shadow_denials = starting_at DENIAL_TIME_CONSTANT since,
                 ks_gcra = gcra_new cold, ks_applied = cold\<rparr>);
     let st' = st\<lparr>ks_limit := l\<rparr>;
     Some (st', lm\<lparr>lm_keys := om_put key st' (lm_keys lm)\<rparr>)
   }"

definition put_key :: "limiter \<Rightarrow> u64 \<Rightarrow> key_state \<Rightarrow> limiter" where
  "put_key lm key st = lm\<lparr>lm_keys := om_put key st (lm_keys lm)\<rparr>"

definition check_in ::
  "limiter \<Rightarrow> u64 \<Rightarrow> limit \<Rightarrow> nanos \<Rightarrow> nat \<Rightarrow> (decision \<times> limiter) option" where
  "check_in lm key l now cluster_size = do {
     (st0, lm') \<leftarrow> entry lm key l now cluster_size;
     let st1 = st0\<lparr>ks_demand := record_attempt (ks_demand st0),
                   ks_requests := record_attempt (ks_requests st0)\<rparr>;
     let (d, g) = gcra_check (ks_gcra st1) now;
     let st2 = st1\<lparr>ks_gcra := g\<rparr>;
     let st3 = (if d \<noteq> Allow then st2\<lparr>ks_denials := record_attempt (ks_denials st2)\<rparr> else st2);
     Some (d, put_key lm' key st3)
   }"

definition limiter_check :: "limiter \<Rightarrow> u64 \<Rightarrow> nanos \<Rightarrow> nat \<Rightarrow> (decision \<times> limiter) option" where
  "limiter_check lm key now cluster_size = check_in lm key (c_limit (lm_config lm)) now cluster_size"

definition check_in_traced ::
  "limiter \<Rightarrow> u64 \<Rightarrow> limit \<Rightarrow> limit option \<Rightarrow> nanos \<Rightarrow> nat \<Rightarrow>
     ((decision \<times> decision option) \<times> limiter) option" where
  "check_in_traced lm key l shadow now cluster_size = do {
     (d, lm1) \<leftarrow> check_in lm key l now cluster_size;
     case shadow of
       None \<Rightarrow> Some ((d, None), lm1\<lparr>lm_shadows := om_del key (lm_shadows lm1)\<rparr>)
     | Some sh \<Rightarrow> do {
         limit_validate sh;
         st \<leftarrow> om_get (lm_keys lm1) key;
         wanted \<leftarrow> quota_for (rate_per_sec (ks_applied st) * l_rate sh / l_rate l) (l_burst sh);
         let g0 = unwrap_or (om_get (lm_shadows lm1) key) (gcra_new wanted);
         let g1 = (if g_quota g0 \<noteq> wanted then gcra_set_quota g0 wanted now else g0);
         let (traced, g2) = gcra_check g1 now;
         let lm2 = lm1\<lparr>lm_shadows := om_put key g2 (lm_shadows lm1)\<rparr>;
         let lm3 = (if traced \<noteq> Allow
                    then put_key lm2 key (st\<lparr>ks_shadow_denials := record_attempt (ks_shadow_denials st)\<rparr>)
                    else lm2);
         Some ((d, Some traced), lm3)
       }
   }"

definition record_tally ::
  "limiter \<Rightarrow> u64 \<Rightarrow> tally \<Rightarrow> limit \<Rightarrow> nanos \<Rightarrow> nat \<Rightarrow> limiter option" where
  "record_tally lm key ty l now cluster_size = do {
     (st, lm') \<leftarrow> entry lm key l now cluster_size;
     Some (put_key lm' key
       (st\<lparr>ks_demand := record_attempts (ks_demand st) (t_attempts ty),
           ks_requests := record_attempts (ks_requests st) (t_attempts ty),
           ks_denials := record_attempts (ks_denials st) (t_denials ty),
           ks_shadow_denials := record_attempts (ks_shadow_denials st) (t_shadow_denials ty)\<rparr>))
   }"

section \<open>Queries\<close>

definition key_rates_of :: "(f64 \<Rightarrow> f64) \<Rightarrow> limiter \<Rightarrow> u64 \<Rightarrow> key_rates option" where
  "key_rates_of ex lm key = map_option (rates ex) (om_get (lm_keys lm) key)"

definition quota_of :: "limiter \<Rightarrow> u64 \<Rightarrow> quota option" where
  "quota_of lm key = map_option ks_applied (om_get (lm_keys lm) key)"

definition limit_of :: "limiter \<Rightarrow> u64 \<Rightarrow> limit option" where
  "limit_of lm key = map_option ks_limit (om_get (lm_keys lm) key)"

definition tracked :: "limiter \<Rightarrow> u64 \<Rightarrow> bool" where
  "tracked lm key = om_has (lm_keys lm) key"

definition tracked_keys :: "limiter \<Rightarrow> nat" where
  "tracked_keys lm = length (lm_keys lm)"

definition hot_keys :: "limiter \<Rightarrow> nat" where
  "hot_keys lm = hot_len (lm_hot_set lm)"

definition limiter_hot_since :: "limiter \<Rightarrow> u64 \<Rightarrow> nanos option" where
  "limiter_hot_since lm key = hot_since (lm_hot_set lm) key"

definition limiter_is_hot :: "limiter \<Rightarrow> u64 \<Rightarrow> bool" where
  "limiter_is_hot lm key = is_hot (lm_hot_set lm) key"

text \<open>Busiest first, ties by key.\<close>

definition busier :: "u64 \<times> f64 \<times> 'a \<Rightarrow> u64 \<times> f64 \<times> 'a \<Rightarrow> bool" where
  "busier a b = (total_le (fst (snd b)) (fst (snd a)) \<and>
     (fst (snd a) = fst (snd b) \<longrightarrow> fst a \<le> fst b))"

definition hot_demand :: "limiter \<Rightarrow> (u64 \<times> f64 \<times> bool) list" where
  "hot_demand lm = sort_by busier
     (map (\<lambda>(key, st). (key, d_rate (ks_demand st), is_primary (lm_hot_set lm) key))
       (filter (\<lambda>(key, st). is_hot (lm_hot_set lm) key) (lm_keys lm)))"

text \<open>
  \<open>most_by\<close>: selecting the first \<open>k\<close> in linear time and sorting only them gives
  the first \<open>k\<close> of the sorted list, the order having no ties.
\<close>

definition most_by :: "(f64 \<Rightarrow> f64) \<Rightarrow> limiter \<Rightarrow> nat \<Rightarrow> (key_state \<Rightarrow> f64) \<Rightarrow> (u64 \<times> key_rates) list" where
  "most_by ex lm k by_rank =
     (if k = 0 then []
      else map (\<lambda>(key, rank, st). (key, rates ex st))
        (take k (sort_by busier
          (filter (\<lambda>(key, rank, st). SILENT_DEMAND \<le> rank)
            (map (\<lambda>(key, st). (key, by_rank st, st)) (lm_keys lm))))))"

definition most_denied :: "(f64 \<Rightarrow> f64) \<Rightarrow> limiter \<Rightarrow> nat \<Rightarrow> (u64 \<times> key_rates) list" where
  "most_denied ex lm k = most_by ex lm k (\<lambda>st. d_rate (ks_denials st))"

definition most_shadow_denied :: "(f64 \<Rightarrow> f64) \<Rightarrow> limiter \<Rightarrow> nat \<Rightarrow> (u64 \<times> key_rates) list" where
  "most_shadow_denied ex lm k = most_by ex lm k (\<lambda>st. d_rate (ks_shadow_denials st))"

section \<open>The tick\<close>

definition tick_key :: "(f64 \<Rightarrow> f64) \<Rightarrow> nanos \<Rightarrow> key_state \<Rightarrow> key_state" where
  "tick_key ex now st =
     st\<lparr>ks_demand := demand_tick ex (ks_demand st) now,
        ks_requests := demand_tick ex (ks_requests st) now,
        ks_denials := demand_tick ex (ks_denials st) now,
        ks_shadow_denials := demand_tick ex (ks_shadow_denials st) now\<rparr>"

definition elsewhere :: "(u64 \<Rightarrow> bool) \<Rightarrow> u64 \<Rightarrow> key_state \<Rightarrow> bool" where
  "elsewhere hot_elsewhere key st = (SILENT_DEMAND \<le> d_rate (ks_demand st) \<and> hot_elsewhere key)"

text \<open>
  The first pass, \<open>keys.retain\<close>: every key's demand ticks and the key moves
  between cold and hot, in the order the map is iterated.
\<close>

fun tick_retain ::
  "(f64 \<Rightarrow> f64) \<Rightarrow> nanos \<Rightarrow> f64 \<Rightarrow> f64 \<Rightarrow> (u64 \<Rightarrow> bool) \<Rightarrow> u64 list \<Rightarrow>
   (u64, key_state) omap \<Rightarrow> hot_set \<Rightarrow> ((u64, key_state) omap \<times> hot_set) option" where
  "tick_retain ex now n alpha hot_elsewhere [] keys hs = Some (keys, hs)"
| "tick_retain ex now n alpha hot_elsewhere (key # ks) keys hs =
     (case om_get keys key of
        None \<Rightarrow> tick_retain ex now n alpha hot_elsewhere ks keys hs
      | Some st0 \<Rightarrow>
          let st = tick_key ex now st0;
              rate = d_rate (ks_demand st);
              threshold = l_rate (ks_limit st) / n * alpha
          in do {
            (hot, hs') \<leftarrow> update_with hs key rate threshold now (elsewhere hot_elsewhere key st);
            let keys' =
              (if hot \<or> gcra_has_debt (ks_gcra st) now \<or> SILENT_DEMAND \<le> rate \<or>
                  has_pending (ks_demand st)
               then om_put key st keys else om_del key keys);
            tick_retain ex now n alpha hot_elsewhere ks keys' hs'
          })"

text \<open>The quota one key is wanted at, and the state of the share closure after it.\<close>

definition wanted_quota ::
  "nat \<Rightarrow> f64 \<Rightarrow> f64 \<Rightarrow> f64 \<Rightarrow> (u64 \<Rightarrow> bool) \<Rightarrow> ('c \<Rightarrow> u64 \<Rightarrow> f64 \<Rightarrow> f64 \<Rightarrow> f64 \<times> 'c) \<Rightarrow>
   hot_set \<Rightarrow> 'c \<Rightarrow> u64 \<Rightarrow> key_state \<Rightarrow> (quota \<times> 'c) option" where
  "wanted_quota cluster_size alpha beta cap hot_elsewhere share hs c key st =
     (let n = f64_of_nat cluster_size; lmt = l_rate (ks_limit st); burst = l_burst (ks_limit st) in
      if is_hot hs key then
        (let (s, c') = share c key (d_rate (ks_demand st)) lmt in do {
           q \<leftarrow> quota_for (f64_min s (lmt * cap)) burst;
           Some (q, c')
         })
      else if elsewhere hot_elsewhere key st then
        (let least = lmt * beta / n in do {
           q \<leftarrow> quota_for (f64_min (f64_min least (lmt / n * alpha)) (lmt * cap)) burst;
           Some (q, c)
         })
      else do {
        q \<leftarrow> quota_for (f64_min (lmt / n * alpha) (lmt * cap)) burst;
        Some (q, c)
      })"

definition apply_quota :: "key_state \<Rightarrow> quota \<Rightarrow> nanos \<Rightarrow> key_state" where
  "apply_quota st wanted now =
     (if ks_applied st \<noteq> wanted
      then st\<lparr>ks_gcra := gcra_set_quota (ks_gcra st) wanted now, ks_applied := wanted\<rparr>
      else st)"

fun tick_quotas ::
  "nat \<Rightarrow> nanos \<Rightarrow> f64 \<Rightarrow> f64 \<Rightarrow> f64 \<Rightarrow> (u64 \<Rightarrow> bool) \<Rightarrow> ('c \<Rightarrow> u64 \<Rightarrow> f64 \<Rightarrow> f64 \<Rightarrow> f64 \<times> 'c) \<Rightarrow>
   hot_set \<Rightarrow> u64 list \<Rightarrow> (u64, key_state) omap \<Rightarrow> 'c \<Rightarrow> ((u64, key_state) omap \<times> 'c) option" where
  "tick_quotas cluster_size now alpha beta cap hot_elsewhere share hs [] keys c = Some (keys, c)"
| "tick_quotas cluster_size now alpha beta cap hot_elsewhere share hs (key # ks) keys c =
     (case om_get keys key of
        None \<Rightarrow> tick_quotas cluster_size now alpha beta cap hot_elsewhere share hs ks keys c
      | Some st \<Rightarrow> do {
          (wanted, c') \<leftarrow>
            wanted_quota cluster_size alpha beta cap hot_elsewhere share hs c key st;
          tick_quotas cluster_size now alpha beta cap hot_elsewhere share hs ks
            (om_put key (apply_quota st wanted now) keys) c'
        })"

definition quieter :: "u64 \<times> f64 \<Rightarrow> u64 \<times> f64 \<Rightarrow> bool" where
  "quieter a b = (total_le (snd a) (snd b) \<and> (snd a = snd b \<longrightarrow> fst a \<le> fst b))"

definition enforce_cap :: "(f64 \<Rightarrow> f64) \<Rightarrow> limiter \<Rightarrow> limiter" where
  "enforce_cap ex lm =
     (if length (lm_keys lm) \<le> c_max_tracked_keys (lm_config lm) then lm
      else
        let excess = length (lm_keys lm) - c_max_tracked_keys (lm_config lm);
            victims = sort_by quieter
              (map (\<lambda>(key, st). (key, unbiased_rate ex (ks_demand st)))
                (filter (\<lambda>(key, st). \<not> is_hot (lm_hot_set lm) key) (lm_keys lm)))
        in lm\<lparr>lm_keys := fold om_del (map fst (take excess victims)) (lm_keys lm)\<rparr>)"

definition tick_with_shares ::
  "(f64 \<Rightarrow> f64) \<Rightarrow> (u64 list \<Rightarrow> u64 list) \<Rightarrow> limiter \<Rightarrow> nanos \<Rightarrow> nat \<Rightarrow> (u64 \<Rightarrow> bool) \<Rightarrow>
   ('c \<Rightarrow> u64 \<Rightarrow> f64 \<Rightarrow> f64 \<Rightarrow> f64 \<times> 'c) \<Rightarrow> 'c \<Rightarrow> (limiter \<times> 'c) option" where
  "tick_with_shares ex ord lm now cluster_size hot_elsewhere share c = do {
     ensure (0 < cluster_size);
     let n = f64_of_nat cluster_size;
     let alpha = c_alpha (lm_config lm);
     let beta = c_floor_factor (lm_config lm);
     let cap = unwrap_or (lm_cap lm) PosInf;
     (keys, hs) \<leftarrow> tick_retain ex now n alpha hot_elsewhere (ord (om_keys (lm_keys lm)))
                     (lm_keys lm) (lm_hot_set lm);
     (keys', c') \<leftarrow> tick_quotas cluster_size now alpha beta cap hot_elsewhere share hs
                     (ord (om_keys keys)) keys c;
     let lm1 = enforce_cap ex (lm\<lparr>lm_keys := keys', lm_hot_set := hs, lm_last_tick := Some now\<rparr>);
     let lm2 = (if lm_shadows lm1 \<noteq> []
                then lm1\<lparr>lm_shadows := om_retain (\<lambda>key g. om_has (lm_keys lm1) key) (lm_shadows lm1)\<rparr>
                else lm1);
     Some (lm2, c')
   }"

definition limiter_tick ::
  "(f64 \<Rightarrow> f64) \<Rightarrow> (u64 list \<Rightarrow> u64 list) \<Rightarrow> limiter \<Rightarrow> nanos \<Rightarrow> nat \<Rightarrow> limiter option" where
  "limiter_tick ex ord lm now cluster_size = do {
     let n = f64_of_nat cluster_size;
     (lm', u) \<leftarrow> tick_with_shares ex ord lm now cluster_size (\<lambda>_. False)
                   (\<lambda>u _ _ l. (l / n, u)) ();
     Some lm'
   }"

end
