(* ===== verification/Limiter_Invariant.thy ===== *)
theory Limiter_Invariant
  imports Limiter Gcra_Admission
begin

text \<open>
  The invariant of \<open>limiter.rs\<close> and its preservation: what \<open>entry\<close> and \<open>check_in\<close> do to
  a key, the two passes of the tick over the keys, the cap of tracked keys, and every
  call a limiter takes as a step of \<open>limiter_reaches\<close>.
\<close>

section \<open>Invariant\<close>

definition limit_ok :: "limit \<Rightarrow> bool" where
  "limit_ok l = (limit_validate l = Some ())"

lemma limit_ok_burst: "limit_ok l \<Longrightarrow> 0 < l_burst l \<and> l_burst l \<le> MAX_BURST"
  by (auto simp: limit_ok_def limit_validate_def)

lemma limit_validate_cases: "limit_validate l = (if limit_ok l then Some () else None)"
  by (cases "limit_validate l") (auto simp: limit_ok_def)

lemma quota_for_total:
  assumes "0 < burst" "burst \<le> MAX_BURST"
  shows "\<exists>q. quota_for r burst = Some q \<and> quota_wf q \<and> q_burst q = burst"
  using with_interval_Some [OF assms, of "interval_of_rate r"] with_interval_wf
  by (auto simp: quota_for_def per_second_def)

lemma quota_for_wf: "quota_for r burst = Some q \<Longrightarrow> quota_wf q"
  by (auto simp: quota_for_def per_second_def intro: with_interval_wf)

lemma quota_for_limit: "limit_ok l \<Longrightarrow> \<exists>q. quota_for r (l_burst l) = Some q"
  using quota_for_total [of "l_burst l" r] limit_ok_burst by blast

text \<open>A key's state: its limit is valid, and its limiter enforces the quota last applied.\<close>

definition ks_wf :: "key_state \<Rightarrow> bool" where
  "ks_wf st = (limit_ok (ks_limit st) \<and> quota_wf (ks_applied st) \<and> g_quota (ks_gcra st) = ks_applied st)"

definition keys_wf :: "(u64, key_state) omap \<Rightarrow> bool" where
  "keys_wf m = (om_wf m \<and> (\<forall>k st. om_get m k = Some st \<longrightarrow> ks_wf st))"

lemma keys_wf_put: "keys_wf m \<Longrightarrow> ks_wf st \<Longrightarrow> keys_wf (om_put k st m)"
  by (auto simp: keys_wf_def)

lemma keys_wf_del: "keys_wf m \<Longrightarrow> keys_wf (om_del k m)"
  by (auto simp: keys_wf_def split: if_splits)

lemma keys_wf_get: "keys_wf m \<Longrightarrow> om_get m k = Some st \<Longrightarrow> ks_wf st"
  by (auto simp: keys_wf_def)

text \<open>Every hot key is tracked.\<close>

definition hot_tracked :: "hot_set \<Rightarrow> (u64, key_state) omap \<Rightarrow> bool" where
  "hot_tracked hs m = (\<forall>k. is_hot hs k \<longrightarrow> om_has m k)"

definition limiter_wf :: "limiter \<Rightarrow> bool" where
  "limiter_wf lm = (config_validate (lm_config lm) = Some () \<and> keys_wf (lm_keys lm) \<and> hot_wf (lm_hot_set lm) \<and>
     hs_max_size (lm_hot_set lm) = c_hot_set_size (lm_config lm) \<and> hot_tracked (lm_hot_set lm) (lm_keys lm) \<and>
     om_wf (lm_shadows lm) \<and> (\<forall>k g. om_get (lm_shadows lm) k = Some g \<longrightarrow> quota_wf (g_quota g)))"

lemma limiter_wfD:
  assumes "limiter_wf lm"
  shows "config_validate (lm_config lm) = Some ()" "keys_wf (lm_keys lm)" "hot_wf (lm_hot_set lm)"
    "hs_max_size (lm_hot_set lm) = c_hot_set_size (lm_config lm)" "hot_tracked (lm_hot_set lm) (lm_keys lm)"
    "om_wf (lm_shadows lm)"
  using assms by (simp_all add: limiter_wf_def)

lemma limiter_new_wf: "limiter_new c = Some lm \<Longrightarrow> limiter_wf lm"
  by (auto simp: limiter_new_def limiter_wf_def keys_wf_def hot_tracked_def hot_new_def hot_wf_def hot_len_def
      is_hot_def split: bind_splits)

section \<open>Requests\<close>

lemma cold_quota_total:
  "limit_ok l \<Longrightarrow> 0 < n \<Longrightarrow> \<exists>q. cold_quota lm l n = Some q \<and> quota_wf q"
  using quota_for_total [of "l_burst l"] limit_ok_burst [of l] by (fastforce simp: cold_quota_def)

text \<open>What \<open>entry\<close> returns: the state the key has, or a new one on the cold quota, with the limit of the call.\<close>

definition entered :: "limiter \<Rightarrow> u64 \<Rightarrow> limit \<Rightarrow> nanos \<Rightarrow> quota \<Rightarrow> key_state" where
  "entered lm key l now cold = (case om_get (lm_keys lm) key of
     Some st \<Rightarrow> st\<lparr>ks_limit := l\<rparr>
   | None \<Rightarrow> let since = unwrap_or (lm_last_tick lm) now; d = starting_at DENIAL_TIME_CONSTANT since in
       \<lparr>ks_limit = l, ks_demand = starting_at (c_demand_time_constant (lm_config lm)) since,
        ks_requests = d, ks_denials = d, ks_shadow_denials = d, ks_gcra = gcra_new cold, ks_applied = cold\<rparr>)"

lemma entry_spec:
  assumes "limit_ok l" "0 < n"
  obtains cold where "cold_quota lm l n = Some cold" "quota_wf cold"
    "entry lm key l now n = Some (entered lm key l now cold, put_key lm key (entered lm key l now cold))"
proof -
  obtain cold where c: "cold_quota lm l n = Some cold" "quota_wf cold"
    using cold_quota_total [OF assms] by blast
  then have "entry lm key l now n = Some (entered lm key l now cold, put_key lm key (entered lm key l now cold))"
    using assms(1) by (auto simp: entry_def limit_validate_cases entered_def put_key_def Let_def split: option.split)
  with c that show ?thesis by blast
qed

lemma entered_wf:
  assumes "limiter_wf lm" "limit_ok l" "quota_wf cold"
  shows "ks_wf (entered lm key l now cold)"
  using assms keys_wf_get [OF limiter_wfD(2) [OF assms(1)], of key]
  by (auto simp: entered_def ks_wf_def gcra_new_def Let_def split: option.split)

lemma put_key_simps [simp]:
  "lm_config (put_key lm k st) = lm_config lm" "lm_hot_set (put_key lm k st) = lm_hot_set lm"
  "lm_shadows (put_key lm k st) = lm_shadows lm" "lm_cap (put_key lm k st) = lm_cap lm"
  "lm_last_tick (put_key lm k st) = lm_last_tick lm"
  "om_get (lm_keys (put_key lm k st)) j = (if j = k then Some st else om_get (lm_keys lm) j)"
  by (simp_all add: put_key_def)

lemma put_key_wf: "limiter_wf lm \<Longrightarrow> ks_wf st \<Longrightarrow> limiter_wf (put_key lm k st)"
  by (auto simp: limiter_wf_def put_key_def keys_wf_put hot_tracked_def om_has_def)

lemma put_key_put_key [simp]: "put_key (put_key lm k st) k st' = put_key lm k st'"
proof -
  have "om_put k st' (om_put k st m) = om_put k st' m" for m :: "(u64, key_state) omap"
    by (induction k st m rule: om_put.induct) auto
  then show ?thesis by (simp add: put_key_def)
qed

lemma gcra_check_quota [simp]: "g_quota (snd (gcra_check g now)) = g_quota g"
  by (auto simp: gcra_check_def Let_def)

definition after_check :: "key_state \<Rightarrow> nanos \<Rightarrow> key_state" where
  "after_check st now =
     st\<lparr>ks_demand := record_attempt (ks_demand st), ks_requests := record_attempt (ks_requests st),
        ks_gcra := snd (gcra_check (ks_gcra st) now),
        ks_denials := (if fst (gcra_check (ks_gcra st) now) = Allow then ks_denials st
                       else record_attempt (ks_denials st))\<rparr>"

lemma check_in_spec:
  assumes "limit_ok l" "0 < n"
  obtains cold where "cold_quota lm l n = Some cold" "quota_wf cold"
    "check_in lm key l now n = Some (fst (gcra_check (ks_gcra (entered lm key l now cold)) now),
       put_key lm key (after_check (entered lm key l now cold) now))"
proof -
  obtain cold where c: "cold_quota lm l n = Some cold" "quota_wf cold"
    "entry lm key l now n = Some (entered lm key l now cold, put_key lm key (entered lm key l now cold))"
    using entry_spec [OF assms] by blast
  show ?thesis
    by (rule that [OF c(1,2)]) (simp add: check_in_def c(3) after_check_def split_beta Let_def)
qed

lemma after_check_wf: "ks_wf st \<Longrightarrow> ks_wf (after_check st now)"
  by (simp add: ks_wf_def after_check_def)

lemma check_in_wf:
  assumes "limiter_wf lm" "check_in lm key l now n = Some (d, lm')"
  shows "limiter_wf lm' \<and> limit_ok l \<and> 0 < n"
proof -
  have ok: "limit_ok l" "0 < n"
    using assms(2) by (auto simp: check_in_def entry_def limit_validate_cases cold_quota_def split: if_splits bind_splits)
  obtain cold where "quota_wf cold" "lm' = put_key lm key (after_check (entered lm key l now cold) now)"
    using check_in_spec [OF ok, of lm key now] assms(2) by auto
  then show ?thesis using ok assms(1) by (simp add: put_key_wf after_check_wf entered_wf)
qed

section \<open>The tick\<close>

lemma update_with_hot:
  assumes wf: "hot_wf hs" and up: "update_with hs key d threshold now at_peers = Some (b, hs')"
    and j: "is_hot hs' j" "j \<noteq> key"
  shows "is_hot hs j"
proof (rule ccontr)
  assume "\<not> is_hot hs j"
  then have n: "om_get (hs_hot hs) j = None" by (simp add: is_hot_def om_has_def)
  then have "om_get (hs_hot hs') j \<noteq> om_get (hs_hot hs) j" using j(1) by (simp add: is_hot_def om_has_def)
  from update_with_others [OF wf up j(2) this] n show False by simp
qed

lemma tick_key_simps [simp]:
  "ks_limit (tick_key ex now st) = ks_limit st" "ks_gcra (tick_key ex now st) = ks_gcra st"
  "ks_applied (tick_key ex now st) = ks_applied st" "ks_wf (tick_key ex now st) = ks_wf st"
  by (simp_all add: tick_key_def ks_wf_def)

text \<open>The state a key keeps through the first pass, but for its averages.\<close>

definition same_key :: "key_state \<Rightarrow> key_state \<Rightarrow> bool" where
  "same_key st st' = (ks_limit st' = ks_limit st \<and> ks_gcra st' = ks_gcra st \<and> ks_applied st' = ks_applied st)"

lemma same_key_refl [simp]: "same_key st st"
  by (simp add: same_key_def)

lemma same_key_trans: "same_key a b \<Longrightarrow> same_key b c \<Longrightarrow> same_key a c"
  by (simp add: same_key_def)

definition sub_keys :: "(u64, key_state) omap \<Rightarrow> (u64, key_state) omap \<Rightarrow> bool" where
  "sub_keys m m' = (\<forall>k st'. om_get m' k = Some st' \<longrightarrow> (\<exists>st. om_get m k = Some st \<and> same_key st st'))"

lemma sub_keys_refl: "sub_keys m m"
  by (auto simp: sub_keys_def)

lemma sub_keys_trans: "sub_keys a b \<Longrightarrow> sub_keys b c \<Longrightarrow> sub_keys a c"
  unfolding sub_keys_def by (meson same_key_trans)

lemma tick_retain_spec:
  assumes "keys_wf m" "hot_wf hs" "hot_tracked hs m"
  shows "\<exists>m' hs'. tick_retain ex now n alpha at_peers ks m hs = Some (m', hs') \<and> keys_wf m' \<and> hot_wf hs' \<and>
    hot_tracked hs' m' \<and> hs_max_size hs' = hs_max_size hs \<and> sub_keys m m'"
  using assms
proof (induction ks arbitrary: m hs)
  case Nil
  then show ?case by (simp add: sub_keys_refl)
next
  case (Cons key ks)
  show ?case
  proof (cases "om_get m key")
    case None
    then show ?thesis using Cons.IH [OF Cons.prems] by simp
  next
    case (Some st0)
    define st where "st = tick_key ex now st0"
    define threshold where "threshold = l_rate (ks_limit st) / n * alpha"
    obtain hot hs1 where u: "update_with hs key (d_rate (ks_demand st)) threshold now
        (elsewhere at_peers key st) = Some (hot, hs1)" "hot_wf hs1" "hot \<longleftrightarrow> is_hot hs1 key"
        "hs_max_size hs1 = hs_max_size hs"
      using update_with_total [OF Cons.prems(2)] by blast
    define m1 where "m1 = (if hot \<or> gcra_has_debt (ks_gcra st) now \<or> SILENT_DEMAND \<le> d_rate (ks_demand st) \<or>
        has_pending (ks_demand st) then om_put key st m else om_del key m)"
    have wf: "ks_wf st" using keys_wf_get [OF Cons.prems(1) Some] by (simp add: st_def)
    then have "keys_wf m1" using Cons.prems(1) by (simp add: m1_def keys_wf_put keys_wf_del)
    moreover have "hot_tracked hs1 m1"
      unfolding hot_tracked_def
    proof (intro allI impI)
      fix j assume j: "is_hot hs1 j"
      show "om_has m1 j"
      proof (cases "j = key")
        case True
        then show ?thesis using j u(3) by (simp add: m1_def om_has_def)
      next
        case False
        then have "om_has m j" using update_with_hot [OF Cons.prems(2) u(1) j] Cons.prems(3)
          by (simp add: hot_tracked_def)
        then show ?thesis using False by (simp add: m1_def om_has_def)
      qed
    qed
    moreover have "sub_keys m m1"
      using Some by (auto simp: sub_keys_def m1_def st_def same_key_def split: if_splits)
    moreover have "tick_retain ex now n alpha at_peers (key # ks) m hs = tick_retain ex now n alpha at_peers ks m1 hs1"
      using Some u(1) by (simp add: Let_def st_def [symmetric] threshold_def [symmetric] m1_def)
    ultimately show ?thesis
      using Cons.IH [of m1 hs1] u(2,4) sub_keys_trans [of m m1] by auto
  qed
qed

lemma f64_min_not_above: "\<not> y < f64_min x y"
  by (cases x; cases y) (auto simp: f64_min_def f64_ops)

lemma wanted_quota_total:
  assumes "ks_wf st"
  shows "\<exists>q c'. wanted_quota n alpha beta cap at_peers share hs c key st = Some (q, c') \<and>
    (\<exists>r. quota_for r (l_burst (ks_limit st)) = Some q \<and> \<not> l_rate (ks_limit st) * cap < r)"
proof -
  have ok: "limit_ok (ks_limit st)" using assms by (simp add: ks_wf_def)
  have fits: "\<exists>q. quota_for (f64_min x (l_rate (ks_limit st) * cap)) (l_burst (ks_limit st)) = Some q \<and>
      \<not> l_rate (ks_limit st) * cap < f64_min x (l_rate (ks_limit st) * cap)" for x
    using quota_for_limit [OF ok] f64_min_not_above by blast
  obtain s c' where s: "share c key (d_rate (ks_demand st)) (l_rate (ks_limit st)) = (s, c')" by force
  let ?n = "f64_of_nat n" and ?l = "l_rate (ks_limit st)"
  consider "is_hot hs key" | "\<not> is_hot hs key" "elsewhere at_peers key st"
    | "\<not> is_hot hs key" "\<not> elsewhere at_peers key st" by blast
  then show ?thesis
  proof cases
    case 1
    then show ?thesis using fits [of s] by (auto simp: wanted_quota_def Let_def s)
  next
    case 2
    then show ?thesis using fits [of "f64_min (?l * beta / ?n) (?l / ?n * alpha)"] by (auto simp: wanted_quota_def Let_def)
  next
    case 3
    then show ?thesis using fits [of "?l / ?n * alpha"] by (auto simp: wanted_quota_def Let_def)
  qed
qed

lemma apply_quota_wf:
  assumes "ks_wf st" "quota_wf q"
  shows "ks_wf (apply_quota st q now) \<and> ks_applied (apply_quota st q now) = q \<and>
    ks_limit (apply_quota st q now) = ks_limit st"
  using assms by (auto simp: apply_quota_def ks_wf_def gcra_set_quota_def split: option.split)

text \<open>The quota of a key is one the cap allows it.\<close>

definition under_cap :: "f64 \<Rightarrow> key_state \<Rightarrow> bool" where
  "under_cap cap st = (\<exists>r. quota_for r (l_burst (ks_limit st)) = Some (ks_applied st) \<and>
     \<not> l_rate (ks_limit st) * cap < r)"

lemma tick_quotas_spec:
  assumes "keys_wf m"
  shows "\<exists>m' c'. tick_quotas n now alpha beta cap at_peers share hs ks m c = Some (m', c') \<and> keys_wf m' \<and>
    (\<forall>k. om_has m' k = om_has m k) \<and> length m' = length m \<and>
    (\<forall>k st'. om_get m' k = Some st' \<longrightarrow> k \<in> set ks \<or> (\<exists>st. om_get m k = Some st \<and> under_cap cap st) \<longrightarrow> under_cap cap st')"
  using assms
proof (induction ks arbitrary: m c)
  case Nil
  then show ?case by auto
next
  case (Cons key ks)
  show ?case
  proof (cases "om_get m key")
    case None
    obtain m' c' where m: "tick_quotas n now alpha beta cap at_peers share hs ks m c = Some (m', c')" "keys_wf m'"
      "\<forall>k. om_has m' k = om_has m k" "length m' = length m"
      "\<forall>k st'. om_get m' k = Some st' \<longrightarrow> k \<in> set ks \<or> (\<exists>st. om_get m k = Some st \<and> under_cap cap st) \<longrightarrow> under_cap cap st'"
      using Cons.IH [OF Cons.prems] by blast
    moreover have "om_get m' key = None" using m(3) None by (metis om_has_def)
    ultimately show ?thesis using None by (intro exI [of _ m'] exI [of _ c']) auto
  next
    case (Some st)
    have wf: "ks_wf st" by (rule keys_wf_get [OF Cons.prems Some])
    obtain q c1 r where q: "wanted_quota n alpha beta cap at_peers share hs c key st = Some (q, c1)"
      "quota_for r (l_burst (ks_limit st)) = Some q" "\<not> l_rate (ks_limit st) * cap < r"
      using wanted_quota_total [OF wf] by metis
    define st1 where "st1 = apply_quota st q now"
    note a = apply_quota_wf [OF wf quota_for_wf [OF q(2)], of now, folded st1_def]
    define m1 where "m1 = om_put key st1 m"
    have m1: "keys_wf m1" "\<And>k. om_has m1 k = om_has m k" "length m1 = length m"
      using Cons.prems a Some by (auto simp: m1_def keys_wf_put om_has_def length_om_put keys_wf_def)
    have cap1: "under_cap cap st1" using q(2,3) a by (auto simp: under_cap_def)
    obtain m' c' where m: "tick_quotas n now alpha beta cap at_peers share hs ks m1 c1 = Some (m', c')" "keys_wf m'"
      "\<forall>k. om_has m' k = om_has m1 k" "length m' = length m1"
      "\<forall>k st'. om_get m' k = Some st' \<longrightarrow> k \<in> set ks \<or> (\<exists>st. om_get m1 k = Some st \<and> under_cap cap st) \<longrightarrow> under_cap cap st'"
      using Cons.IH [OF m1(1)] by blast
    have "under_cap cap st'" if "om_get m' k = Some st'"
      "k \<in> set (key # ks) \<or> (\<exists>st. om_get m k = Some st \<and> under_cap cap st)" for k st'
    proof (cases "k = key")
      case True
      then have "om_get m1 k = Some st1" by (simp add: m1_def)
      then show ?thesis using m(5) that(1) cap1 by blast
    next
      case False
      then have "om_get m1 k = om_get m k" by (simp add: m1_def)
      then show ?thesis using m(5) that False by auto
    qed
    moreover have "tick_quotas n now alpha beta cap at_peers share hs (key # ks) m c = Some (m', c')"
      using Some q(1) m(1) by (simp add: m1_def st1_def)
    moreover have "\<forall>k. om_has m' k = om_has m k" "length m' = length m" using m(3,4) m1(2,3) by simp_all
    ultimately show ?thesis using m(2) by blast
  qed
qed

section \<open>The cap of tracked keys\<close>

lemma om_get_fold_del: "om_get (fold om_del ks m) j = (if j \<in> set ks then None else om_get m j)"
  by (induction ks arbitrary: m) auto

lemma om_wf_fold_del: "om_wf m \<Longrightarrow> om_wf (fold om_del ks m)"
  by (induction ks arbitrary: m) auto

lemma length_fold_del:
  "om_wf m \<Longrightarrow> distinct ks \<Longrightarrow> set ks \<subseteq> fst ` set m \<Longrightarrow> length (fold om_del ks m) = length m - length ks"
proof (induction ks arbitrary: m)
  case (Cons k ks)
  have "om_has m k" using Cons.prems(3) by (simp add: om_has_keys)
  moreover have "set ks \<subseteq> fst ` set (om_del k m)" using Cons.prems(2,3) by auto
  moreover have "length ks + 1 \<le> length m"
  proof -
    have "card (set (k # ks)) \<le> card (fst ` set m)" using Cons.prems(3) by (intro card_mono) auto
    also have "\<dots> \<le> length m" by (metis card_image_le card_length finite_set order_trans)
    finally show ?thesis using Cons.prems(2) by (simp add: distinct_card)
  qed
  ultimately show ?case using Cons.IH [of "om_del k m"] Cons.prems(1,2) by (simp add: length_om_del om_wf_del)
qed simp

lemma enforce_cap_spec:
  assumes keys: "keys_wf (lm_keys lm)" and hot: "hot_wf (lm_hot_set lm)"
    and room: "hs_max_size (lm_hot_set lm) \<le> c_max_tracked_keys (lm_config lm)"
    and tracked: "hot_tracked (lm_hot_set lm) (lm_keys lm)"
  shows "keys_wf (lm_keys (enforce_cap ex lm)) \<and> hot_tracked (lm_hot_set lm) (lm_keys (enforce_cap ex lm)) \<and>
    length (lm_keys (enforce_cap ex lm)) \<le> c_max_tracked_keys (lm_config lm) \<and>
    (\<exists>ks. lm_keys (enforce_cap ex lm) = fold om_del ks (lm_keys lm)) \<and>
    enforce_cap ex lm = lm\<lparr>lm_keys := lm_keys (enforce_cap ex lm)\<rparr>"
proof (cases "length (lm_keys lm) \<le> c_max_tracked_keys (lm_config lm)")
  case True
  then show ?thesis using assms by (simp add: enforce_cap_def) (metis fold_simps(1))
next
  case False
  let ?m = "lm_keys lm" and ?hs = "lm_hot_set lm" and ?max = "c_max_tracked_keys (lm_config lm)"
  let ?cold = "filter (\<lambda>(key, st). \<not> is_hot ?hs key) ?m"
  define victims where "victims = sort_by quieter (map (\<lambda>(key, st). (key, unbiased_rate ex (ks_demand st))) ?cold)"
  define gone where "gone = map fst (take (length ?m - ?max) victims)"
  have om: "om_wf ?m" using keys by (simp add: keys_wf_def)
  have e: "enforce_cap ex lm = lm\<lparr>lm_keys := fold om_del gone ?m\<rparr>"
    using False by (simp add: enforce_cap_def Let_def gone_def victims_def)
  have fst_cold: "map fst (map (\<lambda>(key, st). (key, unbiased_rate ex (ks_demand st))) ?cold) = map fst ?cold"
    by (simp add: comp_def case_prod_beta)
  have mset_v: "mset (map fst victims) = mset (map fst ?cold)"
    by (simp add: victims_def multiset.map_comp comp_def case_prod_beta)
  then have set_v: "set (map fst victims) = set (map fst ?cold)" by (metis set_mset_mset)
  have "distinct (map fst ?cold)" by (intro distinct_map_filter om_wf_distinct om)
  then have dist: "distinct gone"
    using mset_v by (metis gone_def take_map distinct_take mset_eq_imp_distinct_iff)
  have sub: "set gone \<subseteq> set (map fst ?cold)"
    using set_v by (metis gone_def take_map set_take_subset)
  have "length (filter (\<lambda>(key, st). is_hot ?hs key) ?m) \<le> hs_max_size ?hs"
  proof -
    let ?h = "map fst (filter (\<lambda>(key, st). is_hot ?hs key) ?m)"
    have "distinct ?h" by (intro distinct_map_filter om_wf_distinct om)
    moreover have "set ?h \<subseteq> set (om_keys (hs_hot ?hs))" by (force simp: is_hot_def om_has_keys)
    ultimately have "length ?h \<le> length (om_keys (hs_hot ?hs))" by (rule distinct_length_mono)
    then show ?thesis using hot by (simp add: hot_wf_def hot_len_def)
  qed
  moreover have "length ?m = length (filter (\<lambda>(key, st). is_hot ?hs key) ?m) + length ?cold"
    using sum_length_filter_compl [of "\<lambda>(key, st). is_hot ?hs key" ?m] by (simp add: case_prod_unfold)
  moreover have "length victims = length ?cold" by (simp add: victims_def)
  ultimately have "length gone = length ?m - ?max" using room by (simp add: gone_def)
  moreover have "set gone \<subseteq> fst ` set ?m" using sub by auto
  ultimately have "length (fold om_del gone ?m) = ?max" using length_fold_del [OF om dist] False by simp
  moreover have "keys_wf (fold om_del gone ?m)"
    using keys by (auto simp: keys_wf_def om_get_fold_del om_wf_fold_del split: if_splits)
  moreover have "hot_tracked ?hs (fold om_del gone ?m)"
    using tracked sub by (auto simp: hot_tracked_def om_has_def om_get_fold_del)
  ultimately show ?thesis unfolding e by auto
qed

lemma config_validate_room: "config_validate c = Some () \<Longrightarrow> c_hot_set_size c \<le> c_max_tracked_keys c"
  by (auto simp: config_validate_def)

lemma tick_with_shares_spec:
  assumes wf: "limiter_wf lm" and n: "0 < n" and ord: "\<forall>xs. set (ord xs) = set xs"
  shows "\<exists>lm' c'. tick_with_shares ex ord lm now n at_peers share c = Some (lm', c') \<and> limiter_wf lm' \<and>
    lm_config lm' = lm_config lm \<and> lm_cap lm' = lm_cap lm \<and> lm_last_tick lm' = Some now \<and>
    tracked_keys lm' \<le> c_max_tracked_keys (lm_config lm) \<and>
    (\<forall>k st. om_get (lm_keys lm') k = Some st \<longrightarrow> under_cap (unwrap_or (lm_cap lm) PosInf) st \<and> om_has (lm_keys lm) k) \<and>
    (\<forall>k. om_has (lm_shadows lm') k \<longrightarrow> tracked lm' k)"
proof -
  note d = limiter_wfD [OF wf]
  let ?alpha = "c_alpha (lm_config lm)" and ?beta = "c_floor_factor (lm_config lm)"
    and ?cap = "unwrap_or (lm_cap lm) PosInf"
  obtain m hs where r: "tick_retain ex now (f64_of_nat n) ?alpha at_peers (ord (om_keys (lm_keys lm)))
      (lm_keys lm) (lm_hot_set lm) = Some (m, hs)" "keys_wf m" "hot_wf hs" "hot_tracked hs m"
      "hs_max_size hs = hs_max_size (lm_hot_set lm)" "sub_keys (lm_keys lm) m"
    using tick_retain_spec [OF d(2,3,5)] by blast
  obtain m' c' where q: "tick_quotas n now ?alpha ?beta ?cap at_peers share hs (ord (om_keys m)) m c = Some (m', c')"
      "keys_wf m'" "\<And>k. om_has m' k = om_has m k"
      "\<And>k st'. om_get m' k = Some st' \<Longrightarrow> k \<in> set (ord (om_keys m)) \<Longrightarrow> under_cap ?cap st'"
    using tick_quotas_spec [OF r(2), of n now ?alpha ?beta ?cap at_peers share hs "ord (om_keys m)" c] by blast
  let ?lm0 = "lm\<lparr>lm_keys := m', lm_hot_set := hs, lm_last_tick := Some now\<rparr>"
  have "hot_tracked hs m'" using r(4) q(3) by (simp add: hot_tracked_def)
  then obtain m2 ks where e: "enforce_cap ex ?lm0 = ?lm0\<lparr>lm_keys := m2\<rparr>" "keys_wf m2" "hot_tracked hs m2"
      "length m2 \<le> c_max_tracked_keys (lm_config lm)" "m2 = fold om_del ks m'"
    using enforce_cap_spec [of ?lm0 ex] q(2) r(3,5) d(4) config_validate_room [OF d(1)] by auto
  define sh where "sh = (if lm_shadows lm \<noteq> [] then om_retain (\<lambda>key g. om_has m2 key) (lm_shadows lm) else [])"
  define lm' where "lm' = ?lm0\<lparr>lm_keys := m2, lm_shadows := sh\<rparr>"
  have t: "tick_with_shares ex ord lm now n at_peers share c = Some (lm', c')"
    using n by (simp add: tick_with_shares_def Let_def r(1) q(1) e(1) lm'_def sh_def)
  have get2: "under_cap ?cap st \<and> om_has (lm_keys lm) k" if "om_get m2 k = Some st" for k st
  proof -
    have m': "om_get m' k = Some st" using that by (simp add: e(5) om_get_fold_del split: if_splits)
    then have "om_has m k" using q(3) [of k] by (simp add: om_has_def)
    then have "k \<in> set (ord (om_keys m))" using ord by (simp add: om_has_keys)
    moreover have "om_has (lm_keys lm) k"
      using \<open>om_has m k\<close> r(6) by (auto simp: sub_keys_def om_has_def)
    ultimately show ?thesis using q(4) [OF m'] by simp
  qed
  have shget: "om_get sh k = Some g \<Longrightarrow> om_has m2 k \<and> om_get (lm_shadows lm) k = Some g" for k g
    using d(6) by (auto simp: sh_def om_get_retain split: if_splits option.splits)
  have "limiter_wf lm'"
  proof -
    have "om_wf sh" using d(6) by (simp add: sh_def om_wf_retain)
    moreover have "quota_wf (g_quota g)" if "om_get sh k = Some g" for k g
      using shget [OF that] wf by (auto simp: limiter_wf_def)
    ultimately show ?thesis using d(1,4) e(2,3) r(3,5) by (simp add: limiter_wf_def lm'_def)
  qed
  moreover have "om_has m2 k" if "om_has sh k" for k using that shget [of k] by (cases "om_get sh k") (auto simp: om_has_def)
  moreover have "lm_config lm' = lm_config lm" "lm_cap lm' = lm_cap lm" "lm_last_tick lm' = Some now"
    "lm_keys lm' = m2" "lm_shadows lm' = sh" by (simp_all add: lm'_def)
  ultimately show ?thesis
    using t e(4) get2 by (intro exI [of _ lm'] exI [of _ c']) (simp add: tracked_keys_def tracked_def)
qed

section \<open>Every call\<close>

lemma record_tally_wf:
  assumes "limiter_wf lm" "record_tally lm key ty l now n = Some lm'"
  shows "limiter_wf lm'"
proof -
  have ok: "limit_ok l" "0 < n"
    using assms(2) by (auto simp: record_tally_def entry_def limit_validate_cases cold_quota_def split: if_splits bind_splits)
  obtain cold where c: "quota_wf cold"
    "entry lm key l now n = Some (entered lm key l now cold, put_key lm key (entered lm key l now cold))"
    using entry_spec [OF ok] by blast
  have "ks_wf (st\<lparr>ks_demand := a, ks_requests := b, ks_denials := d, ks_shadow_denials := e\<rparr>) = ks_wf st" for st a b d e
    by (simp add: ks_wf_def)
  then show ?thesis
    using assms(2) entered_wf [OF assms(1) ok(1) c(1), of key now] by (auto simp: record_tally_def c(2) put_key_wf assms(1))
qed

lemma shadows_wf:
  "limiter_wf lm \<Longrightarrow> limiter_wf (lm\<lparr>lm_shadows := om_del key (lm_shadows lm)\<rparr>)"
  "limiter_wf lm \<Longrightarrow> quota_wf (g_quota g) \<Longrightarrow> limiter_wf (lm\<lparr>lm_shadows := om_put key g (lm_shadows lm)\<rparr>)"
  by (auto simp: limiter_wf_def split: if_splits)

lemma gcra_set_quota_quota [simp]: "g_quota (gcra_set_quota g q now) = q"
  by (auto simp: gcra_set_quota_def split: option.split)

lemma check_in_traced_wf:
  assumes wf: "limiter_wf lm" and run: "check_in_traced lm key l shadow now n = Some (r, lm')"
  shows "limiter_wf lm'"
proof -
  obtain d lm1 where c: "check_in lm key l now n = Some (d, lm1)"
    using run by (auto simp: check_in_traced_def split: bind_splits)
  have wf1: "limiter_wf lm1" using check_in_wf [OF wf c] by blast
  show ?thesis
  proof (cases shadow)
    case None
    then show ?thesis using run shadows_wf(1) [OF wf1] by (auto simp: check_in_traced_def c)
  next
    case (Some sh)
    obtain st wanted where s: "limit_validate sh = Some ()" "om_get (lm_keys lm1) key = Some st"
      "quota_for (rate_per_sec (ks_applied st) * l_rate sh / l_rate l) (l_burst sh) = Some wanted"
      using run Some by (auto simp: check_in_traced_def c split: bind_splits)
    define g0 where "g0 = unwrap_or (om_get (lm_shadows lm1) key) (gcra_new wanted)"
    define g1 where "g1 = (if g_quota g0 \<noteq> wanted then gcra_set_quota g0 wanted now else g0)"
    obtain traced g2 where g2: "gcra_check g1 now = (traced, g2)" by force
    have "g_quota g1 = wanted" by (simp add: g1_def)
    then have "g_quota g2 = wanted" using gcra_check_quota [of g1 now] by (simp add: g2 del: gcra_check_quota)
    then have "quota_wf (g_quota g2)" using quota_for_wf [OF s(3)] by simp
    note wf2 = shadows_wf(2) [OF wf1 this, of key]
    have "ks_wf st" using keys_wf_get [OF limiter_wfD(2) [OF wf1] s(2)] .
    then have "ks_wf (st\<lparr>ks_shadow_denials := record_attempt (ks_shadow_denials st)\<rparr>)" by (simp add: ks_wf_def)
    note wf3 = put_key_wf [OF wf2 this, of key]
    have "lm' = (if traced \<noteq> Allow then put_key (lm1\<lparr>lm_shadows := om_put key g2 (lm_shadows lm1)\<rparr>) key
        (st\<lparr>ks_shadow_denials := record_attempt (ks_shadow_denials st)\<rparr>)
      else lm1\<lparr>lm_shadows := om_put key g2 (lm_shadows lm1)\<rparr>)"
      using run g2 unfolding g1_def g0_def by (auto simp: check_in_traced_def Some c s Let_def)
    then show ?thesis using wf2 wf3 by simp
  qed
qed

lemma set_cap_wf: "limiter_wf lm \<Longrightarrow> limiter_wf (set_cap lm cap)"
  by (simp add: limiter_wf_def set_cap_def)

text \<open>The limiters a configuration can get to: any sequence of calls, in any order and at any times.
  The share closure of a tick is any function, with a state of any type \<open>'c\<close>.\<close>

inductive limiter_reaches :: "'c itself \<Rightarrow> config \<Rightarrow> limiter \<Rightarrow> bool" for shares :: "'c itself" and conf where
  Reach_new: "limiter_new conf = Some lm \<Longrightarrow> limiter_reaches shares conf lm"
| Reach_cap: "limiter_reaches shares conf lm \<Longrightarrow> limiter_reaches shares conf (set_cap lm cap)"
| Reach_check: "limiter_reaches shares conf lm \<Longrightarrow> check_in lm key l now n = Some (d, lm') \<Longrightarrow> limiter_reaches shares conf lm'"
| Reach_traced: "limiter_reaches shares conf lm \<Longrightarrow> check_in_traced lm key l shadow now n = Some (r, lm') \<Longrightarrow>
    limiter_reaches shares conf lm'"
| Reach_tally: "limiter_reaches shares conf lm \<Longrightarrow> record_tally lm key ty l now n = Some lm' \<Longrightarrow> limiter_reaches shares conf lm'"
| Reach_tick: "limiter_reaches shares conf lm \<Longrightarrow> \<forall>xs. set (ord xs) = set xs \<Longrightarrow>
    tick_with_shares ex ord lm now n hot_elsewhere share (c :: 'c) = Some (lm', c') \<Longrightarrow> limiter_reaches shares conf lm'"

lemma check_in_config: "check_in lm key l now n = Some (d, lm') \<Longrightarrow> lm_config lm' = lm_config lm"
  by (auto simp: check_in_def entry_def Let_def split: bind_splits prod.splits)

lemma check_in_traced_config: "check_in_traced lm key l sh now n = Some (r, lm') \<Longrightarrow> lm_config lm' = lm_config lm"
  using check_in_config
  by (fastforce simp: check_in_traced_def Let_def split: bind_splits prod.splits option.splits)

lemma record_tally_config: "record_tally lm key ty l now n = Some lm' \<Longrightarrow> lm_config lm' = lm_config lm"
  by (auto simp: record_tally_def entry_def Let_def split: bind_splits prod.splits)

lemma tick_needs_cluster: "tick_with_shares ex ord lm now n hot_elsewhere share c = Some r \<Longrightarrow> 0 < n"
  by (auto simp: tick_with_shares_def split: bind_splits)

lemma reaches_wf: "limiter_reaches shares conf lm \<Longrightarrow> limiter_wf lm \<and> lm_config lm = conf"
proof (induction rule: limiter_reaches.induct)
  case (Reach_new lm)
  then show ?case using limiter_new_wf by (auto simp: limiter_new_def split: bind_splits)
next
  case (Reach_tick lm ord ex now n hot_elsewhere share c lm' c')
  then show ?case
    using tick_with_shares_spec [of lm n ord ex now hot_elsewhere share c] tick_needs_cluster [OF Reach_tick(3)] by auto
next
  case (Reach_cap lm cap)
  then show ?case using set_cap_wf [of lm cap] by (simp add: set_cap_def)
qed (auto simp: check_in_config check_in_traced_config record_tally_config
  intro: record_tally_wf check_in_traced_wf dest: check_in_wf)

end
