(* ===== verification/Limiter_Requests.thy ===== *)
theory Limiter_Requests
  imports Limiter_Invariant
begin

text \<open>
  What the limiter of \<open>limiter.rs\<close> promises: the invariant of every limiter that can be
  reached, what a tick bounds, what one request does, and the rate each key is held to
  by a run of requests for many keys.
\<close>

section \<open>Runs of requests\<close>

type_synonym request = "u64 \<times> limit \<times> nanos \<times> nat"

fun check_all :: "limiter \<Rightarrow> request list \<Rightarrow> (decision list \<times> limiter) option" where
  "check_all lm [] = Some ([], lm)"
| "check_all lm ((key, l, now, n) # later) = do {
     (d, lm') \<leftarrow> check_in lm key l now n;
     (ds, lm'') \<leftarrow> check_all lm' later;
     Some (d # ds, lm'')
   }"

text \<open>The decisions of one key, and the times of its requests.\<close>

definition decisions_of :: "u64 \<Rightarrow> request list \<Rightarrow> decision list \<Rightarrow> decision list" where
  "decisions_of key reqs ds = map snd (filter (\<lambda>(r, d). fst r = key) (zip reqs ds))"

definition times_of :: "u64 \<Rightarrow> request list \<Rightarrow> nanos list" where
  "times_of key reqs = map (\<lambda>(k, l, now, n). now) (filter (\<lambda>r. fst r = key) reqs)"

lemma check_in_other:
  assumes "check_in lm key l now n = Some (d, lm')" "k \<noteq> key"
  shows "om_get (lm_keys lm') k = om_get (lm_keys lm) k"
  using assms by (auto simp: check_in_def entry_def Let_def split: bind_splits prod.splits)

lemma check_in_tracked:
  assumes "check_in lm key l now n = Some (d, lm')" "om_get (lm_keys lm) key = Some st"
  shows "\<exists>st'. om_get (lm_keys lm') key = Some st' \<and> gcra_check (ks_gcra st) now = (d, ks_gcra st') \<and>
    ks_applied st' = ks_applied st"
proof -
  have ok: "limit_ok l" "0 < n"
    using assms(1) by (auto simp: check_in_def entry_def limit_validate_cases cold_quota_def split: if_splits bind_splits)
  obtain cold where "check_in lm key l now n = Some (fst (gcra_check (ks_gcra (entered lm key l now cold)) now),
      put_key lm key (after_check (entered lm key l now cold) now))"
    using check_in_spec [OF ok] by blast
  then show ?thesis using assms by (simp add: entered_def after_check_def prod_eq_iff)
qed

lemma check_all_key:
  assumes "check_all lm reqs = Some (ds, lm')" "om_get (lm_keys lm) key = Some st"
  shows "decisions_of key reqs ds = fst (run_checks gcra_check (ks_gcra st) (times_of key reqs)) \<and>
    (\<exists>st'. om_get (lm_keys lm') key = Some st' \<and>
      ks_gcra st' = snd (run_checks gcra_check (ks_gcra st) (times_of key reqs)) \<and> ks_applied st' = ks_applied st)"
  using assms
proof (induction lm reqs arbitrary: ds st rule: check_all.induct)
  case (1 lm)
  then show ?case by (simp add: decisions_of_def times_of_def)
next
  case (2 lm k l now n later)
  obtain d lm1 ds' where c: "check_in lm k l now n = Some (d, lm1)" "check_all lm1 later = Some (ds', lm')" "ds = d # ds'"
    using 2(2) by (auto split: bind_splits)
  show ?case
  proof (cases "k = key")
    case True
    obtain st1 where st1: "om_get (lm_keys lm1) key = Some st1" "gcra_check (ks_gcra st) now = (d, ks_gcra st1)"
      "ks_applied st1 = ks_applied st"
      using check_in_tracked c(1) 2(3) True by blast
    obtain rs g where rs: "run_checks gcra_check (ks_gcra st1) (times_of key later) = (rs, g)" by force
    from 2(1) [OF c(1) refl c(2) st1(1)] have "decisions_of key later ds' = rs"
      "\<exists>st'. om_get (lm_keys lm') key = Some st' \<and> ks_gcra st' = g \<and> ks_applied st' = ks_applied st"
      using st1(3) by (simp_all add: rs)
    moreover have "times_of key ((k, l, now, n) # later) = now # times_of key later"
      "decisions_of key ((k, l, now, n) # later) ds = d # decisions_of key later ds'"
      using True by (simp_all add: c(3) decisions_of_def times_of_def)
    ultimately show ?thesis using st1(2) rs by simp
  next
    case False
    then have "om_get (lm_keys lm1) key = Some st" using check_in_other [OF c(1)] 2(3) by simp
    from 2(1) [OF c(1) refl c(2) this] show ?thesis
      using False by (simp add: c(3) decisions_of_def times_of_def)
  qed
qed

lemma check_all_total:
  "\<forall>(key, l, now, n) \<in> set reqs. limit_ok l \<and> 0 < n \<Longrightarrow> \<exists>ds lm'. check_all lm reqs = Some (ds, lm')"
proof (induction lm reqs rule: check_all.induct)
  case (2 lm k l now n later)
  have ok: "limit_ok l" "0 < n" using 2(2) by simp_all
  obtain d lm1 where "check_in lm k l now n = Some (d, lm1)" by (rule check_in_spec [OF ok, of lm k now]) blast
  with 2 show ?case by fastforce
qed simp

section \<open>Properties\<close>

definition example_config :: config where
  "example_config = \<lparr>c_limit = \<lparr>l_rate = Fin 10, l_burst = 5\<rparr>, c_alpha = 1, c_floor_factor = 0, c_cooldown = 1000,
     c_hot_set_size = 2, c_max_tracked_keys = 3, c_demand_time_constant = 1000\<rparr>"

definition example_state :: key_state where
  "example_state = \<lparr>ks_limit = \<lparr>l_rate = Fin 10, l_burst = 5\<rparr>, ks_demand = starting_at 1000 0, ks_requests = starting_at 1000 0,
     ks_denials = starting_at 1000 0, ks_shadow_denials = starting_at 1000 0, ks_gcra = gcra_new example_quota,
     ks_applied = example_quota\<rparr>"

definition example_limiter :: "(u64, key_state) omap \<Rightarrow> limiter" where
  "example_limiter keys = \<lparr>lm_config = example_config,
     lm_hot_set = \<lparr>hs_cooldown = 1000, hs_max_size = 2, hs_hot = []\<rparr>, lm_keys = keys, lm_shadows = [], lm_cap = None,
     lm_last_tick = None\<rparr>"

lemma example_new: "limiter_new example_config = Some (example_limiter [])"
  by (simp add: limiter_new_def example_config_def example_limiter_def config_validate_def hot_new_def f64_ops
      is_finite_def gcra_consts MAX_HOT_KEYS_def)

lemma example_reaches: "limiter_reaches shares example_config (example_limiter [])"
  by (rule Reach_new [OF example_new])

lemma example_limit_ok: "limit_ok \<lparr>l_rate = Fin 10, l_burst = 5\<rparr>"
  by (simp add: limit_ok_def limit_validate_def f64_ops is_finite_def gcra_consts)

lemma example_tracked_wf: "limiter_wf (example_limiter [(7, example_state)])"
  using limiter_new_wf [OF example_new] example_limit_ok example_quota_wf
  by (auto simp: limiter_wf_def example_limiter_def keys_wf_def ks_wf_def example_state_def gcra_new_def hot_tracked_def
      is_hot_def om_has_def om_wf_def split: if_splits)

text \<open>
  C26. The invariant. Whatever calls are made on a limiter, at whatever times, its hot keys are at most the
  configured number and all of them tracked, every tracked key has a valid limit, and its GCRA runs on the quota
  last applied to it.
\<close>

theorem limiter_invariant:
  assumes "limiter_reaches shares conf lm"
  shows "limiter_wf lm \<and> lm_config lm = conf \<and> hot_keys lm \<le> c_hot_set_size conf \<and>
    (\<forall>key. limiter_is_hot lm key \<longrightarrow> tracked lm key) \<and>
    (\<forall>key st. om_get (lm_keys lm) key = Some st \<longrightarrow>
      limit_validate (ks_limit st) = Some () \<and> g_quota (ks_gcra st) = ks_applied st)"
proof -
  have wf: "limiter_wf lm" "lm_config lm = conf" using reaches_wf [OF assms] by auto
  note d = limiter_wfD [OF wf(1)]
  have "hot_keys lm \<le> c_hot_set_size conf" using d(3,4) wf(2) by (simp add: hot_keys_def hot_wf_def)
  moreover have "tracked lm key" if "limiter_is_hot lm key" for key
    using d(5) that by (simp add: hot_tracked_def limiter_is_hot_def tracked_def)
  moreover have "limit_validate (ks_limit st) = Some () \<and> g_quota (ks_gcra st) = ks_applied st"
    if "om_get (lm_keys lm) key = Some st" for key st
    using keys_wf_get [OF d(2) that] by (simp add: ks_wf_def limit_ok_def)
  ultimately show ?thesis using wf by blast
qed

theorem limiter_invariant_witness:
  "hot_keys (example_limiter []) \<le> 2"
  using limiter_invariant [OF example_reaches] by (auto simp: example_config_def)

text \<open>
  A tick never panics on a cluster of at least one node, whatever the shares it is given. After it no more keys
  are tracked than configured, none that was not before, every hot key among them; each key's quota is one the cap
  on its limit allows; and only tracked keys have a shadow.
\<close>

theorem tick_bounds_keys:
  assumes "limiter_reaches TYPE('c) conf lm" "0 < n" "\<forall>xs. set (ord xs) = set xs"
  shows "\<exists>lm' c'. tick_with_shares ex ord lm now n hot_elsewhere share (c :: 'c) = Some (lm', c') \<and>
    tracked_keys lm' \<le> c_max_tracked_keys conf \<and>
    (\<forall>key. limiter_is_hot lm' key \<longrightarrow> tracked lm' key) \<and>
    (\<forall>key st. om_get (lm_keys lm') key = Some st \<longrightarrow>
      tracked lm key \<and> under_cap (unwrap_or (lm_cap lm) PosInf) st) \<and>
    (\<forall>key. om_has (lm_shadows lm') key \<longrightarrow> tracked lm' key)"
proof -
  have wf: "limiter_wf lm" "lm_config lm = conf" using reaches_wf [OF assms(1)] by auto
  obtain lm' c' where t: "tick_with_shares ex ord lm now n hot_elsewhere share c = Some (lm', c')" "limiter_wf lm'"
    "tracked_keys lm' \<le> c_max_tracked_keys (lm_config lm)"
    "\<forall>k st. om_get (lm_keys lm') k = Some st \<longrightarrow> under_cap (unwrap_or (lm_cap lm) PosInf) st \<and> om_has (lm_keys lm) k"
    "\<forall>k. om_has (lm_shadows lm') k \<longrightarrow> tracked lm' k"
    using tick_with_shares_spec [OF wf(1) assms(2,3), of ex now hot_elsewhere share c] by blast
  moreover have "\<forall>key. limiter_is_hot lm' key \<longrightarrow> tracked lm' key"
    using limiter_wfD(5) [OF t(2)] by (simp add: hot_tracked_def limiter_is_hot_def tracked_def)
  ultimately show ?thesis unfolding wf(2) tracked_def by blast
qed

theorem tick_bounds_keys_witness:
  "\<exists>lm' c'. tick_with_shares (\<lambda>x. 0) rev (example_limiter []) 5 3 (\<lambda>k. True) (\<lambda>c k d l. (l, c)) () = Some (lm', c') \<and>
    tracked_keys lm' \<le> 3"
proof -
  have "(0 :: nat) < 3" "\<forall>xs :: u64 list. set (rev xs) = set xs" by simp_all
  from tick_bounds_keys [OF example_reaches this, of "\<lambda>x. 0" 5 "\<lambda>k. True" "\<lambda>c k d l. (l, c)" "()"]
  show ?thesis by (auto simp: example_config_def)
qed

text \<open>
  One request. \<open>check_in\<close> panics exactly on an invalid limit or an empty cluster. Else it decides as the key's
  GCRA does, made on the quota of a new key if the key is new; counts one attempt, and one denial if it denied; and
  touches no other key, no shadow and no hot key.
\<close>

theorem check_in_decides:
  "case check_in lm key l now n of
     None \<Rightarrow> limit_validate l = None \<or> n = 0
   | Some (d, lm') \<Rightarrow> limit_validate l = Some () \<and> 0 < n \<and>
       lm_hot_set lm' = lm_hot_set lm \<and> lm_shadows lm' = lm_shadows lm \<and>
       (\<forall>k. k \<noteq> key \<longrightarrow> om_get (lm_keys lm') k = om_get (lm_keys lm) k) \<and>
       (\<exists>st st'. om_get (lm_keys lm') key = Some st' \<and>
         (om_get (lm_keys lm) key = Some st \<or>
          om_get (lm_keys lm) key = None \<and> new_key_quota lm l n = Some (ks_applied st) \<and>
          ks_gcra st = gcra_new (ks_applied st) \<and> d_attempts (ks_demand st) = 0 \<and> d_attempts (ks_denials st) = 0) \<and>
         gcra_check (ks_gcra st) now = (d, ks_gcra st') \<and> ks_limit st' = l \<and>
         ks_applied st' = ks_applied st \<and>
         d_attempts (ks_demand st') = d_attempts (ks_demand st) + 1 \<and>
         d_attempts (ks_denials st') = d_attempts (ks_denials st) + (if d = Allow then 0 else 1))"
proof (cases "limit_ok l \<and> 0 < n")
  case False
  then have "check_in lm key l now n = None" by (auto simp: check_in_def entry_def limit_validate_cases cold_quota_def)
  then show ?thesis using False by (auto simp: limit_validate_cases)
next
  case True
  then have ok: "limit_ok l" "0 < n" by simp_all
  obtain cold where c: "cold_quota lm l n = Some cold"
    "check_in lm key l now n = Some (fst (gcra_check (ks_gcra (entered lm key l now cold)) now),
       put_key lm key (after_check (entered lm key l now cold) now))"
    using check_in_spec [OF ok] by blast
  show ?thesis
  proof (cases "om_get (lm_keys lm) key")
    case (Some st)
    show ?thesis unfolding c(2) prod.case option.case
      by (intro conjI exI [of _ st] exI [of _ "after_check (entered lm key l now cold) now"])
        (use ok Some in \<open>auto simp: limit_ok_def after_check_def entered_def record_attempt_def prod_eq_iff\<close>)
  next
    case None
    show ?thesis unfolding c(2) prod.case option.case
      by (intro conjI exI [of _ "entered lm key l now cold"] exI [of _ "after_check (entered lm key l now cold) now"])
        (use ok None c(1) in \<open>auto simp: limit_ok_def after_check_def entered_def record_attempt_def prod_eq_iff
          new_key_quota_def starting_at_def demand_new_def Let_def\<close>)
  qed
qed

theorem check_in_decides_witness:
  "\<exists>d lm'. check_in (example_limiter [(7, example_state)]) 8 \<lparr>l_rate = Fin 10, l_burst = 5\<rparr> 100 1 = Some (d, lm') \<and>
    om_get (lm_keys lm') 7 = Some example_state"
proof (cases "check_in (example_limiter [(7, example_state)]) 8 \<lparr>l_rate = Fin 10, l_burst = 5\<rparr> 100 1")
  case None
  then show ?thesis
    using check_in_decides [where lm = "example_limiter [(7, example_state)]" and key = 8 and l = "\<lparr>l_rate = Fin 10, l_burst = 5\<rparr>" and now = 100 and n = 1] example_limit_ok
    by (simp add: limit_ok_def)
next
  case (Some res)
  moreover have "om_get (lm_keys (example_limiter [(7, example_state)])) 7 = Some example_state" by (simp add: example_limiter_def)
  ultimately show ?thesis
    using check_in_decides [where lm = "example_limiter [(7, example_state)]" and key = 8 and l = "\<lparr>l_rate = Fin 10, l_burst = 5\<rparr>" and now = 100 and n = 1]
    by (cases res) auto
qed

text \<open>
  C27. Keys are isolated, and each is held to its quota. Between two ticks, in any run of requests for any keys, a
  tracked key is answered as if its requests were alone; and in a window \<open>[lo, hi]\<close> it is admitted at most the burst
  of its quota and one more for each interval of the window.
\<close>

theorem keys_isolated_and_limited:
  assumes "limiter_wf lm" "om_get (lm_keys lm) key = Some st"
    and "\<forall>(k, l, now, n) \<in> set reqs. limit_validate l = Some () \<and> 0 < n"
    and "\<forall>now \<in> set (times_of key reqs). lo \<le> unat now \<and> unat now \<le> hi" "lo \<le> hi" "hi < 2 ^ 63"
  shows "\<exists>ds lm'. check_all lm reqs = Some (ds, lm') \<and>
    decisions_of key reqs ds = fst (run_checks gcra_check (ks_gcra st) (times_of key reqs)) \<and>
    count_list (decisions_of key reqs ds) Allow \<le>
      unat (q_burst (ks_applied st)) + (hi - lo) div unat (q_interval (ks_applied st))"
proof -
  obtain ds lm' where c: "check_all lm reqs = Some (ds, lm')"
    using check_all_total [of reqs lm] assms(3) by (auto simp: limit_ok_def)
  have same: "decisions_of key reqs ds = fst (run_checks gcra_check (ks_gcra st) (times_of key reqs))"
    using check_all_key [OF c assms(2)] by blast
  have wf: "quota_wf (ks_applied st)" "g_quota (ks_gcra st) = ks_applied st"
    using keys_wf_get [OF limiter_wfD(2) [OF assms(1)] assms(2)] by (simp_all add: ks_wf_def)
  have tol: "hi + unat (tau_nanos (ks_applied st)) < u64_max" using assms(6) by (simp add: unat_tau_nanos)
  have "admitted gcra_check (ks_gcra st) (times_of key reqs) \<le>
      unat (q_burst (ks_applied st)) + (hi - lo) div unat (q_interval (ks_applied st))"
    using single.window_count [OF assms(4), of "ks_gcra st" "unat (q_burst (ks_applied st))"] tol assms(5) wf
      tau_nanos_le [of "ks_applied st"] quota_wf_pos [OF wf(1)] by (simp add: t_nanos_def)
  then show ?thesis using c same by (auto simp: admitted_def)
qed

theorem keys_isolated_and_limited_witness:
  "\<exists>ds lm'. check_all (example_limiter [(7, example_state)])
      [(7, \<lparr>l_rate = Fin 10, l_burst = 5\<rparr>, 100, 1), (8, \<lparr>l_rate = Fin 10, l_burst = 5\<rparr>, 101, 1),
       (7, \<lparr>l_rate = Fin 10, l_burst = 5\<rparr>, 300, 2)] = Some (ds, lm') \<and>
    decisions_of 7 [(7, \<lparr>l_rate = Fin 10, l_burst = 5\<rparr>, 100, 1), (8, \<lparr>l_rate = Fin 10, l_burst = 5\<rparr>, 101, 1),
       (7, \<lparr>l_rate = Fin 10, l_burst = 5\<rparr>, 300, 2)] ds = [Allow, Allow]"
proof -
  let ?l = "\<lparr>l_rate = Fin 10, l_burst = 5 :: u32\<rparr>"
  let ?reqs = "[(7 :: u64, ?l, 100 :: u64, 1 :: nat), (8, ?l, 101, 1), (7, ?l, 300, 2)]"
  have tracked: "om_get (lm_keys (example_limiter [(7, example_state)])) 7 = Some example_state"
    by (simp add: example_limiter_def)
  have valid: "\<forall>(k, l, now, n) \<in> set ?reqs. limit_validate l = Some () \<and> 0 < n"
    using example_limit_ok by (simp add: limit_ok_def)
  have at: "times_of 7 ?reqs = [100, 300]" by (simp add: times_of_def)
  then have within: "\<forall>now \<in> set (times_of 7 ?reqs). 100 \<le> unat now \<and> unat now \<le> 300" by simp
  have "fst (run_checks gcra_check (ks_gcra example_state) [100, 300]) = [Allow, Allow]"
    by (simp add: example_state_def gcra_new_def gcra_check_def example_quota_def t_nanos_def tau_nanos_def tau_def Let_def
        saturating_sub_def saturating_add_def saturating_mul_def MAX_TAU_def)
  moreover have "(100::nat) \<le> 300" "300 < (2::nat) ^ 63" by simp_all
  ultimately show ?thesis using keys_isolated_and_limited [OF example_tracked_wf tracked valid within] unfolding at by auto
qed

end
