(* ===== verification/Wire.thy ===== *)
theory Wire
  imports Float64
begin

text \<open>
  \<open>rateguard-proto/src/lib.rs\<close>: the messages of the protocol and the checks
  around their encoding. The byte format itself is the \<open>postcard\<close> crate's, which
  is a parameter: a serialiser \<open>message \<Rightarrow> u8 list option\<close> and a parser
  \<open>u8 list \<Rightarrow> (message \<times> u8 list) option\<close> that returns the bytes it left.
\<close>

definition MAX_DATAGRAM :: nat where "MAX_DATAGRAM = 1400"
definition MAX_UPDATES :: nat where "MAX_UPDATES = 12"
definition MAX_REPORTS :: nat where "MAX_REPORTS = 1"
definition MAX_DEMAND_KEYS :: nat where "MAX_DEMAND_KEYS = 64"

type_synonym peer_id = u64
type_synonym bytes = "u8 list"

section \<open>News\<close>

datatype status = Alive | Suspect | Dead

fun status_rank :: "status \<Rightarrow> nat" where
  "status_rank Alive = 0"
| "status_rank Suspect = 1"
| "status_rank Dead = 2"

lemma status_rank_inj [simp]: "status_rank a = status_rank b \<longleftrightarrow> a = b"
  by (cases a; cases b) simp_all

text \<open>The derived order of \<open>Status\<close> is the order of its declaration.\<close>

instantiation status :: linorder
begin

definition less_eq_status :: "status \<Rightarrow> status \<Rightarrow> bool" where
  "a \<le> b = (status_rank a \<le> status_rank b)"

definition less_status :: "status \<Rightarrow> status \<Rightarrow> bool" where
  "a < b = (status_rank a < status_rank b)"

instance
  by standard (auto simp: less_eq_status_def less_status_def)

end

datatype address = V4 "u8 list" u16 | V6 "u8 list" u16

text \<open>\<open>SocketAddr\<close> of the standard library; IPv6 carries flow info and a scope.\<close>

datatype socket_addr = SocketV4 "u8 list" u16 | SocketV6 "u8 list" u16 u32 u32

fun address_of_socket :: "socket_addr \<Rightarrow> address" where
  "address_of_socket (SocketV4 ip port) = V4 ip port"
| "address_of_socket (SocketV6 ip port flowinfo scope) = V6 ip port"

fun socket_of_address :: "address \<Rightarrow> socket_addr" where
  "socket_of_address (V4 ip port) = SocketV4 ip port"
| "socket_of_address (V6 ip port) = SocketV6 ip port 0 0"

record update =
  u_member :: peer_id
  u_addr :: address
  u_incarnation :: u32
  u_status :: status

text \<open>\<open>Update::supersedes\<close>; comparing news of two members panics.\<close>

definition supersedes :: "update \<Rightarrow> update \<Rightarrow> bool option" where
  "supersedes a b = do {
     ensure (u_member a = u_member b);
     Some (u_incarnation b < u_incarnation a \<or>
           u_incarnation a = u_incarnation b \<and> u_status b < u_status a)
   }"

section \<open>Messages\<close>

record key_demand =
  kd_key :: u64
  kd_demand :: f32
  kd_primary :: bool

record demand_report =
  dr_origin :: u64
  dr_epoch :: u32
  dr_round :: u16
  dr_keys :: "key_demand list"

datatype message =
    Ping (msg_seq: u32) (msg_updates: "update list") (msg_demand: "demand_report list")
  | Ack (msg_seq: u32) (msg_updates: "update list") (msg_demand: "demand_report list")
  | PingReq (msg_seq: u32) (msg_target: u64) (msg_updates: "update list") (msg_demand: "demand_report list")
  | Leave (msg_updates: "update list")

fun seq_of :: "message \<Rightarrow> u32 option" where
  "seq_of (Ping seq updates demand) = Some seq"
| "seq_of (Ack seq updates demand) = Some seq"
| "seq_of (PingReq seq target updates demand) = Some seq"
| "seq_of (Leave updates) = None"

fun updates_of :: "message \<Rightarrow> update list" where
  "updates_of (Ping seq updates demand) = updates"
| "updates_of (Ack seq updates demand) = updates"
| "updates_of (PingReq seq target updates demand) = updates"
| "updates_of (Leave updates) = updates"

fun demand_of :: "message \<Rightarrow> demand_report list" where
  "demand_of (Ping seq updates demand) = demand"
| "demand_of (Ack seq updates demand) = demand"
| "demand_of (PingReq seq target updates demand) = demand"
| "demand_of (Leave updates) = []"

datatype proto_error =
    TooManyUpdates nat
  | TooManyReports nat
  | TooManyDemandKeys nat
  | InvalidDemand
  | TooLarge nat
  | MalformedMessage
  | TrailingBytes nat

definition is_rate :: "f32 \<Rightarrow> bool" where
  "is_rate d = (is_finite d \<and> 0 \<le> d)"

definition check_limits :: "message \<Rightarrow> proto_error + unit" where
  "check_limits m =
     (let n = length (updates_of m); reports = demand_of m;
          keys = sum_list (map (length \<circ> dr_keys) reports)
      in if MAX_UPDATES < n then Inl (TooManyUpdates n)
         else if MAX_REPORTS < length reports then Inl (TooManyReports (length reports))
         else if MAX_DEMAND_KEYS < keys then Inl (TooManyDemandKeys keys)
         else if \<not> list_all (is_rate \<circ> kd_demand) (concat (map dr_keys reports)) then Inl InvalidDemand
         else Inr ())"

text \<open>\<open>encode\<close>: \<open>None\<close> where serialising fails, which the source takes for a panic.\<close>

definition encode :: "(message \<Rightarrow> bytes option) \<Rightarrow> message \<Rightarrow> (proto_error + bytes) option" where
  "encode to_allocvec m =
     (case check_limits m of
        Inl e \<Rightarrow> Some (Inl e)
      | Inr _ \<Rightarrow> do {
          bytes \<leftarrow> to_allocvec m;
          Some (if MAX_DATAGRAM < length bytes then Inl (TooLarge (length bytes)) else Inr bytes)
        })"

definition decode :: "(bytes \<Rightarrow> (message \<times> bytes) option) \<Rightarrow> bytes \<Rightarrow> proto_error + message" where
  "decode take_from_bytes bytes =
     (if MAX_DATAGRAM < length bytes then Inl (TooLarge (length bytes))
      else case take_from_bytes bytes of
        None \<Rightarrow> Inl MalformedMessage
      | Some (m, rest) \<Rightarrow>
          if rest \<noteq> [] then Inl (TrailingBytes (length rest))
          else case check_limits m of Inl e \<Rightarrow> Inl e | Inr _ \<Rightarrow> Inr m)"

section \<open>The order of news\<close>

text \<open>
  News about one member is ordered by incarnation, then by status; the rank of what is
  held about a member is 0 where nothing is. A store of news keeps, of each member it tracks, the
  news of the greatest rank: \<open>news_store\<close> is that contract, which the member table and the
  gossip buffer provide.
\<close>

definition news_rank :: "update \<Rightarrow> nat" where
  "news_rank u = 1 + 3 * unat (u_incarnation u) + status_rank (u_status u)"

definition held_rank :: "update option \<Rightarrow> nat" where
  "held_rank h = (case h of None \<Rightarrow> 0 | Some u \<Rightarrow> news_rank u)"

lemma held_rank_simps [simp]: "held_rank None = 0" "held_rank (Some u) = news_rank u"
  by (simp_all add: held_rank_def)

lemma status_rank_less_3: "status_rank st < 3"
  by (cases st) simp_all

lemma news_rank_less:
  "news_rank b < news_rank a \<longleftrightarrow>
     u_incarnation b < u_incarnation a \<or> u_incarnation a = u_incarnation b \<and> u_status b < u_status a"
proof -
  have "status_rank (u_status a) < 3" "status_rank (u_status b) < 3" by (rule status_rank_less_3)+
  then show ?thesis
    by (auto simp: news_rank_def less_status_def word_less_nat_alt word_unat_eq_iff)
qed

lemma news_rank_eq:
  "news_rank a = news_rank b \<longleftrightarrow> u_incarnation a = u_incarnation b \<and> u_status a = u_status b"
proof -
  have "status_rank (u_status a) < 3" "status_rank (u_status b) < 3" by (rule status_rank_less_3)+
  then have "news_rank a = news_rank b \<longleftrightarrow> unat (u_incarnation a) = unat (u_incarnation b) \<and>
      status_rank (u_status a) = status_rank (u_status b)"
    unfolding news_rank_def by presburger
  then show ?thesis by (simp add: word_unat_eq_iff)
qed

lemma supersedes_rank:
  "supersedes a b = (if u_member a = u_member b then Some (news_rank b < news_rank a) else None)"
  by (simp add: supersedes_def news_rank_less)

locale news_store =
  fixes offer :: "'s \<Rightarrow> 'n \<Rightarrow> 's option"
    and news_of :: "'n \<Rightarrow> update"
    and held :: "'s \<Rightarrow> peer_id \<Rightarrow> update option"
    and tracks :: "'s \<Rightarrow> peer_id \<Rightarrow> bool"
    and valid :: "'s \<Rightarrow> bool"
  assumes offer_valid: "valid s \<Longrightarrow> offer s u = Some s' \<Longrightarrow> valid s' \<and> tracks s' = tracks s"
    and offer_rank: "valid s \<Longrightarrow> offer s u = Some s' \<Longrightarrow> tracks s p \<Longrightarrow>
      held_rank (held s' p) =
        (if p = u_member (news_of u) then max (held_rank (held s p)) (news_rank (news_of u))
         else held_rank (held s p))"
begin

fun offer_all :: "'s \<Rightarrow> 'n list \<Rightarrow> 's option" where
  "offer_all s [] = Some s"
| "offer_all s (u # us) = (case offer s u of None \<Rightarrow> None | Some s' \<Rightarrow> offer_all s' us)"

lemma offer_all_valid:
  "valid s \<Longrightarrow> offer_all s us = Some s' \<Longrightarrow> valid s' \<and> tracks s' = tracks s"
proof (induction us arbitrary: s)
  case (Cons u us)
  then obtain s1 where "offer s u = Some s1" "offer_all s1 us = Some s'"
    by (auto split: option.splits)
  with Cons.IH [of s1] offer_valid [OF Cons.prems(1)] show ?case by auto
qed simp

lemma offer_all_rank:
  assumes "valid s" "offer_all s us = Some s'" "tracks s p"
  shows "held_rank (held s' p) =
    fold max (map news_rank (filter (\<lambda>u. u_member u = p) (map news_of us))) (held_rank (held s p))"
  using assms
proof (induction us arbitrary: s)
  case (Cons u us)
  then obtain s1 where s1: "offer s u = Some s1" "offer_all s1 us = Some s'"
    by (auto split: option.splits)
  have "valid s1" "tracks s1 p" using offer_valid [OF Cons.prems(1) s1(1)] Cons.prems(3) by auto
  then show ?case
    using Cons.IH [OF _ s1(2)] offer_rank [OF Cons.prems(1) s1(1) Cons.prems(3)]
    by (auto simp: max.commute)
qed simp

lemma never_older:
  assumes "valid s" "offer_all s us = Some s'" "tracks s p"
  shows "held_rank (held s p) \<le> held_rank (held s' p)"
proof -
  have "x \<le> fold max ns x" for ns and x :: nat
    by (induction ns arbitrary: x) (auto intro: order_trans [OF max.cobounded2])
  with offer_all_rank [OF assms] show ?thesis by simp
qed

text \<open>The order of the news does not matter.\<close>

lemma any_order:
  assumes "valid s" "valid t" "tracks s p" "tracks t p" "held_rank (held s p) = held_rank (held t p)"
    and "mset (map news_of us) = mset (map news_of vs)" "offer_all s us = Some s'" "offer_all t vs = Some t'"
  shows "held_rank (held s' p) = held_rank (held t' p)"
proof -
  let ?ns = "\<lambda>us. map news_rank (filter (\<lambda>u. u_member u = p) (map news_of us))"
  have max: "fold max ns x = Max (insert x (set ns))" for ns and x :: nat
    by (simp flip: Max.set_eq_fold)
  have "set (map news_of us) = set (map news_of vs)" using assms(6) by (metis set_mset_mset)
  then have "set (?ns us) = set (?ns vs)" by auto
  then show ?thesis
    using offer_all_rank [OF assms(1,7,3)] offer_all_rank [OF assms(2,8,4)] assms(5) by (simp add: max)
qed

end

section \<open>Properties\<close>

text \<open>
  News about one member is strictly and linearly ordered by \<open>supersedes\<close>, up to
  incarnation and status; comparing news of two members is the one case that panics.
\<close>

theorem news_order:
  "(supersedes a b = None \<longleftrightarrow> u_member a \<noteq> u_member b) \<and>
   (u_member a = u_member b \<longrightarrow>
      (supersedes a b = Some True \<and> supersedes b a = Some False) \<or>
      (supersedes a b = Some False \<and> supersedes b a = Some True) \<or>
      (supersedes a b = Some False \<and> supersedes b a = Some False \<and>
         u_incarnation a = u_incarnation b \<and> u_status a = u_status b)) \<and>
   (supersedes a b = Some True \<and> supersedes b c = Some True \<longrightarrow> supersedes a c = Some True)"
proof (intro conjI)
  show "supersedes a b = None \<longleftrightarrow> u_member a \<noteq> u_member b" by (simp add: supersedes_rank)
  show "u_member a = u_member b \<longrightarrow>
      (supersedes a b = Some True \<and> supersedes b a = Some False) \<or>
      (supersedes a b = Some False \<and> supersedes b a = Some True) \<or>
      (supersedes a b = Some False \<and> supersedes b a = Some False \<and>
         u_incarnation a = u_incarnation b \<and> u_status a = u_status b)"
    using news_rank_eq [of a b] by (auto simp: supersedes_rank)
  show "supersedes a b = Some True \<and> supersedes b c = Some True \<longrightarrow> supersedes a c = Some True"
    by (auto simp: supersedes_rank split: if_splits)
qed

theorem news_order_witness:
  "let a = \<lparr>u_member = 1, u_addr = V4 [] 0, u_incarnation = 3, u_status = Suspect\<rparr> in
   supersedes a (a\<lparr>u_status := Alive\<rparr>) = Some True \<and> supersedes (a\<lparr>u_status := Alive\<rparr>) a = Some False"
  using news_order [of "\<lparr>u_member = 1, u_addr = V4 [] 0, u_incarnation = 3, u_status = Suspect\<rparr>"
      "\<lparr>u_member = 1, u_addr = V4 [] 0, u_incarnation = 3, u_status = Alive\<rparr>"
      "\<lparr>u_member = 1, u_addr = V4 [] 0, u_incarnation = 3, u_status = Alive\<rparr>"]
  by (auto simp: supersedes_def less_status_def)

text \<open>
  C12. Whatever \<open>encode\<close> lets out, \<open>decode\<close> gives back; and whatever arrives, \<open>decode\<close> lets in
  only a message that keeps every limit \<open>encode\<close> enforces, parsed from a whole datagram of at
  most 1,400 bytes. The parser is only asked to return what the serialiser wrote.
\<close>

theorem wire_roundtrip:
  assumes "\<forall>m b. to_allocvec m = Some b \<longrightarrow> take_from_bytes b = Some (m, [])"
  shows "(encode to_allocvec m = Some (Inr b) \<longrightarrow> decode take_from_bytes b = Inr m) \<and>
    (decode take_from_bytes b' = Inr m' \<longrightarrow>
       length (updates_of m') \<le> 12 \<and> length (demand_of m') \<le> 1 \<and> length b' \<le> 1400 \<and>
       sum_list (map (length \<circ> dr_keys) (demand_of m')) \<le> 64 \<and>
       (\<forall>r \<in> set (demand_of m'). \<forall>k \<in> set (dr_keys r). is_finite (kd_demand k) \<and> 0 \<le> kd_demand k) \<and>
       take_from_bytes b' = Some (m', []))"
proof (intro conjI impI)
  assume e: "encode to_allocvec m = Some (Inr b)"
  then have "check_limits m = Inr ()" "to_allocvec m = Some b" "length b \<le> MAX_DATAGRAM"
    by (auto simp: encode_def split: sum.splits option.splits bind_splits if_splits)
  then show "decode take_from_bytes b = Inr m" using assms by (simp add: decode_def)
next
  assume d: "decode take_from_bytes b' = Inr m'"
  then have c: "check_limits m' = Inr ()" and t: "take_from_bytes b' = Some (m', [])"
    and l: "length b' \<le> MAX_DATAGRAM"
    by (auto simp: decode_def split: sum.splits option.splits if_splits)
  show "take_from_bytes b' = Some (m', [])" by (rule t)
  show "length b' \<le> 1400" using l by (simp add: MAX_DATAGRAM_def)
  show "length (updates_of m') \<le> 12" "length (demand_of m') \<le> 1"
    "sum_list (map (length \<circ> dr_keys) (demand_of m')) \<le> 64"
    "\<forall>r \<in> set (demand_of m'). \<forall>k \<in> set (dr_keys r). is_finite (kd_demand k) \<and> 0 \<le> kd_demand k"
    using c by (auto simp: check_limits_def Let_def MAX_UPDATES_def MAX_REPORTS_def MAX_DEMAND_KEYS_def
        list_all_iff is_rate_def split: if_splits)
qed

theorem wire_roundtrip_witness:
  "decode (\<lambda>b. if b = [3, 0] then Some (Leave [], []) else None) [3, 0] = Inr (Leave [])"
proof -
  let ?to = "\<lambda>m. if m = Leave [] then Some [3, 0 :: u8] else None"
  let ?from = "\<lambda>b. if b = [3, 0 :: u8] then Some (Leave [], []) else None"
  have e: "encode ?to (Leave []) = Some (Inr [3, 0])"
    by (simp add: encode_def check_limits_def MAX_DATAGRAM_def)
  have "\<forall>m b. ?to m = Some b \<longrightarrow> ?from b = Some (m, [])" by simp
  from wire_roundtrip [OF this] e show ?thesis by blast
qed

end
