(* ===== verification/Peer_Demand.thy ===== *)
theory Peer_Demand
  imports Wire
begin

text \<open>
  \<open>rateguard-core/src/peer_demand.rs\<close>: what the peers told us about their
  demand, per peer a snapshot and the contested entries. \<open>ord\<close> is the order in
  which the hash map of the peers is iterated, which the sum of \<open>total\<close> shows.
\<close>

record heard =
  h_demand :: f32
  h_primary :: bool
  h_round :: u16
  h_heard_at :: nanos

definition round_is_newer :: "u16 \<Rightarrow> u16 \<Rightarrow> bool" where
  "round_is_newer a b = (a \<noteq> b \<and> a - b < 0x8000)"

definition stale_after_rounds :: "nat \<Rightarrow> u64" where
  "stale_after_rounds cluster_size = max (3 * of_nat cluster_size) 10"

definition PAST_EPOCHS :: nat where "PAST_EPOCHS = 4"
definition MAX_CONTESTED :: nat where "MAX_CONTESTED = 4 * MAX_DEMAND_KEYS"
definition IMPLAUSIBLE_JUMP :: u16 where "IMPLAUSIBLE_JUMP = 0x4000"

type_synonym reported_keys = "(u64, f32 \<times> bool) omap"

record snapshot =
  sn_epoch :: u32
  sn_past_epochs :: "u32 list"
  sn_round :: u16
  sn_heard_at :: nanos
  sn_keys :: reported_keys

record contested =
  ct_demand :: f32
  ct_primary :: bool
  ct_round :: u16
  ct_heard_at :: nanos

record peer =
  pe_snapshot :: "snapshot option"
  pe_contested :: "(u64, contested) omap"
  pe_held_until :: "nanos option"

definition peer_default :: peer where
  "peer_default = \<lparr>pe_snapshot = None, pe_contested = [], pe_held_until = None\<rparr>"

section \<open>Contested entries\<close>

definition contest_key ::
  "u16 \<Rightarrow> nanos \<Rightarrow> u64 \<times> f32 \<times> bool \<Rightarrow> (u64, contested) omap \<Rightarrow> (u64, contested) omap" where
  "contest_key round_no heard_at e m =
     (case e of (key, demand, primary) \<Rightarrow>
        om_put key
          (case om_get m key of
             Some ct \<Rightarrow>
               let ct' = (if ct_demand ct < demand then ct\<lparr>ct_demand := demand, ct_round := round_no\<rparr> else ct)
               in ct'\<lparr>ct_primary := (ct_primary ct \<or> primary), ct_heard_at := max (ct_heard_at ct) heard_at\<rparr>
           | None \<Rightarrow> \<lparr>ct_demand = demand, ct_primary = primary, ct_round = round_no, ct_heard_at = heard_at\<rparr>)
          m)"

definition older :: "u64 \<times> contested \<Rightarrow> u64 \<times> contested \<Rightarrow> bool" where
  "older a b = (ct_heard_at (snd a) < ct_heard_at (snd b) \<or>
     ct_heard_at (snd a) = ct_heard_at (snd b) \<and> fst a \<le> fst b)"

text \<open>The loop that removes the entry heard longest ago while there are too many.\<close>

lemma oldest_length_less: "min_by le m = Some (key, ct) \<Longrightarrow> length (om_del key m) < length m"
  using min_by_mem [of le m "(key, ct)"] by (auto simp: om_del_def intro: length_filter_less)

function drop_oldest :: "(u64, contested) omap \<Rightarrow> (u64, contested) omap" where
  "drop_oldest m =
     (if MAX_CONTESTED < length m then
        (case min_by older m of
           None \<Rightarrow> m
         | Some (oldest, _) \<Rightarrow> drop_oldest (om_del oldest m))
      else m)"
  by pat_completeness auto
termination
  by (relation "measure length") (auto dest: oldest_length_less)

declare drop_oldest.simps [simp del]

definition contest :: "peer \<Rightarrow> reported_keys \<Rightarrow> u16 \<Rightarrow> nanos \<Rightarrow> peer" where
  "contest p keys round_no heard_at =
     p\<lparr>pe_contested := drop_oldest (fold (contest_key round_no heard_at) keys (pe_contested p))\<rparr>"

definition peer_heard :: "peer \<Rightarrow> u64 \<Rightarrow> heard option" where
  "peer_heard p key =
     (let taken = (case pe_snapshot p of
            None \<Rightarrow> None
          | Some sn \<Rightarrow> map_option (\<lambda>(demand, primary). \<lparr>h_demand = demand, h_primary = primary,
              h_round = sn_round sn, h_heard_at = sn_heard_at sn\<rparr>) (om_get (sn_keys sn) key));
          cont = map_option (\<lambda>ct. \<lparr>h_demand = ct_demand ct, h_primary = ct_primary ct,
              h_round = ct_round ct, h_heard_at = ct_heard_at ct\<rparr>) (om_get (pe_contested p) key)
      in case (taken, cont) of
           (Some t, Some c) \<Rightarrow>
             Some ((if h_demand t < h_demand c then c else t)\<lparr>h_primary := (h_primary t \<or> h_primary c)\<rparr>)
         | (Some t, None) \<Rightarrow> Some t
         | (None, c) \<Rightarrow> c)"

definition peer_len :: "peer \<Rightarrow> nat" where
  "peer_len p =
     (let taken = map_option sn_keys (pe_snapshot p);
          only_contested = length (filter
            (\<lambda>key. \<not> (case taken of None \<Rightarrow> False | Some keys \<Rightarrow> om_has keys key)) (om_keys (pe_contested p)))
      in (case taken of None \<Rightarrow> 0 | Some keys \<Rightarrow> length keys) + only_contested)"

section \<open>All peers\<close>

type_synonym peer_demand = "(peer_id, peer) omap"

definition peer_demand_new :: peer_demand where "peer_demand_new = []"

definition f32_eq :: "f32 \<Rightarrow> f32 \<Rightarrow> bool" where
  "f32_eq a b = (a = b \<and> a \<noteq> NaN)"

definition same_keys :: "reported_keys \<Rightarrow> reported_keys \<Rightarrow> bool" where
  "same_keys a b = (length a = length b \<and>
     list_all (\<lambda>(key, demand, primary). case om_get b key of
        None \<Rightarrow> False | Some (d, pr) \<Rightarrow> f32_eq demand d \<and> primary = pr) a)"

definition keys_of_report :: "demand_report \<Rightarrow> reported_keys" where
  "keys_of_report r = fold (\<lambda>k. om_put (kd_key k) (kd_demand k, kd_primary k)) (dr_keys r) []"

text \<open>What a report that is taken does to the peer; \<open>old\<close> is the snapshot it replaces.\<close>

definition take_report :: "peer \<Rightarrow> demand_report \<Rightarrow> nanos \<Rightarrow> peer" where
  "take_report p r now =
     (let (past, keep_replaced) = (case pe_snapshot p of
            None \<Rightarrow> ([], False)
          | Some old \<Rightarrow>
              if sn_epoch old = dr_epoch r
              then (sn_past_epochs old, IMPLAUSIBLE_JUMP \<le> dr_round r - sn_round old)
              else (sn_epoch old # take (PAST_EPOCHS - 1) (sn_past_epochs old), True));
          taken = \<lparr>sn_epoch = dr_epoch r, sn_past_epochs = past, sn_round = dr_round r,
                   sn_heard_at = now, sn_keys = keys_of_report r\<rparr>;
          p1 = p\<lparr>pe_snapshot := Some taken\<rparr>;
          p2 = (case pe_snapshot p of
                  Some replaced \<Rightarrow>
                    if keep_replaced
                    then contest p1 (sn_keys replaced) (sn_round replaced) (sn_heard_at replaced)
                    else p1
                | None \<Rightarrow> p1)
      in p2\<lparr>pe_held_until := None\<rparr>)"

definition is_taken :: "snapshot \<Rightarrow> demand_report \<Rightarrow> bool" where
  "is_taken old r = (dr_epoch r \<notin> set (sn_past_epochs old) \<and>
     (sn_epoch old \<noteq> dr_epoch r \<or> round_is_newer (dr_round r) (sn_round old)))"

definition is_duplicate :: "snapshot \<Rightarrow> demand_report \<Rightarrow> bool" where
  "is_duplicate old r = (sn_epoch old = dr_epoch r \<and> sn_round old = dr_round r \<and>
     same_keys (sn_keys old) (keys_of_report r))"

definition apply_to_peer :: "peer \<Rightarrow> demand_report \<Rightarrow> nanos \<Rightarrow> peer" where
  "apply_to_peer p r now =
     (case pe_snapshot p of
        Some old \<Rightarrow>
          if is_taken old r then take_report p r now
          else if is_duplicate old r then p
          else contest p (keys_of_report r) (dr_round r) now
      | None \<Rightarrow> take_report p r now)"

definition apply_report :: "peer_demand \<Rightarrow> peer_id \<Rightarrow> demand_report \<Rightarrow> nanos \<Rightarrow> peer_demand" where
  "apply_report pd sender r now =
     (if dr_origin r \<noteq> sender then pd
      else
        let p = (case om_get pd sender of None \<Rightarrow> peer_default | Some p \<Rightarrow> p)
        in om_put sender (apply_to_peer p r now) pd)"

definition forget_peer :: "peer_demand \<Rightarrow> peer_id \<Rightarrow> peer_demand" where
  "forget_peer pd pid = om_del pid pd"

definition peer_leave :: "peer_demand \<Rightarrow> peer_id \<Rightarrow> nanos \<Rightarrow> nanos \<Rightarrow> peer_demand" where
  "peer_leave pd pid now hold =
     (if hold = 0 then forget_peer pd pid
      else case om_get pd pid of
        None \<Rightarrow> pd
      | Some p \<Rightarrow> om_put pid (p\<lparr>pe_held_until := Some (saturating_add now hold)\<rparr>) pd)"

definition fresh :: "nanos \<Rightarrow> nanos \<Rightarrow> nanos \<Rightarrow> bool" where
  "fresh now max_age heard_at = (now < saturating_add heard_at max_age)"

text \<open>\<open>expire\<close> on one peer: \<open>None\<close> where the peer is dropped.\<close>

definition expire_peer :: "nanos \<Rightarrow> nanos \<Rightarrow> peer \<Rightarrow> peer option" where
  "expire_peer now max_age p =
     (case pe_held_until p of
        Some until \<Rightarrow> if now < until then Some p else None
      | None \<Rightarrow>
          let p1 = (case pe_snapshot p of
                      Some sn \<Rightarrow> if \<not> fresh now max_age (sn_heard_at sn) then p\<lparr>pe_snapshot := None\<rparr> else p
                    | None \<Rightarrow> p);
              p2 = p1\<lparr>pe_contested :=
                om_retain (\<lambda>key ct. fresh now max_age (ct_heard_at ct)) (pe_contested p1)\<rparr>
          in if pe_snapshot p2 \<noteq> None \<or> pe_contested p2 \<noteq> [] then Some p2 else None)"

definition expire_reports :: "peer_demand \<Rightarrow> nanos \<Rightarrow> nanos \<Rightarrow> peer_demand" where
  "expire_reports pd now max_age =
     List.map_filter (\<lambda>(pid, p). map_option (Pair pid) (expire_peer now max_age p)) pd"

definition heard_from :: "peer_demand \<Rightarrow> peer_id \<Rightarrow> u64 \<Rightarrow> heard option" where
  "heard_from pd pid key = (case om_get pd pid of None \<Rightarrow> None | Some p \<Rightarrow> peer_heard p key)"

definition total :: "(peer_id list \<Rightarrow> peer_id list) \<Rightarrow> peer_demand \<Rightarrow> u64 \<Rightarrow> f64" where
  "total ord pd key =
     foldl (+) (Fin 0)
       (map (\<lambda>h. f64_of_f32 (h_demand h))
         (List.map_filter (\<lambda>pid. heard_from pd pid key) (ord (om_keys pd))))"

definition hot_at_peers :: "peer_demand \<Rightarrow> u64 \<Rightarrow> bool" where
  "hot_at_peers pd key =
     list_ex (\<lambda>(pid, p). case peer_heard p key of None \<Rightarrow> False | Some h \<Rightarrow> h_primary h) pd"

definition reported_len :: "peer_demand \<Rightarrow> nat" where
  "reported_len pd = sum_list (map (peer_len \<circ> snd) pd)"

definition reported_is_empty :: "peer_demand \<Rightarrow> bool" where
  "reported_is_empty pd = (reported_len pd = 0)"

section \<open>What a report does to the contested entries\<close>

definition merged :: "u16 \<Rightarrow> nanos \<Rightarrow> f32 \<times> bool \<Rightarrow> contested option \<Rightarrow> contested" where
  "merged round_no heard_at e held = (case held of
     None \<Rightarrow> \<lparr>ct_demand = fst e, ct_primary = snd e, ct_round = round_no, ct_heard_at = heard_at\<rparr>
   | Some ct \<Rightarrow> (if ct_demand ct < fst e then ct\<lparr>ct_demand := fst e, ct_round := round_no\<rparr> else ct)
       \<lparr>ct_primary := (ct_primary ct \<or> snd e), ct_heard_at := max (ct_heard_at ct) heard_at\<rparr>)"

lemma contest_key_put:
  "contest_key round_no heard_at e m = om_put (fst e) (merged round_no heard_at (snd e) (om_get m (fst e))) m"
  by (simp add: contest_key_def merged_def split_beta Let_def split: option.split)

lemma om_get_contest:
  assumes "distinct (om_keys keys)"
  shows "om_get (fold (contest_key round_no heard_at) keys m) k =
    (case om_get keys k of None \<Rightarrow> om_get m k | Some e \<Rightarrow> Some (merged round_no heard_at e (om_get m k)))"
  using assms
proof (induction keys arbitrary: m)
  case (Cons ke keys)
  obtain key e where ke: "ke = (key, e)" by (rule prod.exhaust)
  have no: "om_get keys key = None" using Cons.prems by (simp add: ke map_of_eq_None_iff)
  have "om_get (fold (contest_key round_no heard_at) (ke # keys) m) k =
      om_get (fold (contest_key round_no heard_at) keys (om_put key (merged round_no heard_at e (om_get m key)) m)) k"
    by (simp add: ke contest_key_put)
  also have "\<dots> = (case om_get (ke # keys) k of None \<Rightarrow> om_get m k | Some e \<Rightarrow> Some (merged round_no heard_at e (om_get m k)))"
    using Cons.IH Cons.prems no by (simp add: ke split: option.split)
  finally show ?case .
qed simp

lemma om_wf_contest: "om_wf m \<Longrightarrow> om_wf (fold (contest_key round_no heard_at) keys m)"
  by (induction keys arbitrary: m) (auto simp: contest_key_put)

lemma keys_contest: "fst ` set (fold (contest_key round_no heard_at) keys m) = fst ` set m \<union> fst ` set keys"
proof (induction keys arbitrary: m)
  case (Cons e keys)
  have "fst ` set (fold (contest_key round_no heard_at) (e # keys) m) =
      fst ` set (om_put (fst e) (merged round_no heard_at (snd e) (om_get m (fst e))) m) \<union> fst ` set keys"
    by (simp add: Cons.IH contest_key_put)
  then show ?case by (simp only: set_keys_om_put) auto
qed simp

text \<open>Dropping the oldest entries: at most \<open>MAX_CONTESTED\<close> stay, and none is dropped while there is room.\<close>

lemma drop_oldest_spec:
  assumes "om_wf m"
  shows "om_wf (drop_oldest m) \<and> length (drop_oldest m) \<le> MAX_CONTESTED \<and> set (drop_oldest m) \<subseteq> set m"
  using assms
proof (induction m rule: drop_oldest.induct)
  case (1 m)
  show ?case
  proof (cases "MAX_CONTESTED < length m")
    case True
    then obtain k ct where k: "min_by older m = Some (k, ct)" by (cases "min_by older m") auto
    have "drop_oldest m = drop_oldest (om_del k m)"
      using True k by (subst drop_oldest.simps) simp
    moreover have "set (om_del k m) \<subseteq> set m" by (auto simp: om_del_def)
    ultimately show ?thesis using 1(1) [OF True k refl] 1(2) by auto
  next
    case False
    then show ?thesis using 1(2) by (subst (1 2 3) drop_oldest.simps) simp
  qed
qed

lemma drop_oldest_room: "length m \<le> MAX_CONTESTED \<Longrightarrow> drop_oldest m = m"
  by (subst drop_oldest.simps) simp

lemma om_get_sub: "om_wf m \<Longrightarrow> om_wf m' \<Longrightarrow> set m' \<subseteq> set m \<Longrightarrow> om_get m' k = Some v \<Longrightarrow> om_get m k = Some v"
  by (metis map_of_SomeD map_of_is_SomeI om_wf_distinct subsetD)

section \<open>Invariant\<close>

text \<open>What the wire format lets through as a report.\<close>

definition report_ok :: "demand_report \<Rightarrow> bool" where
  "report_ok r = (length (dr_keys r) \<le> MAX_DEMAND_KEYS \<and> list_all (is_rate \<circ> kd_demand) (dr_keys r))"

definition reported_wf :: "reported_keys \<Rightarrow> bool" where
  "reported_wf keys = (om_wf keys \<and> length keys \<le> MAX_DEMAND_KEYS \<and>
     (\<forall>k d pr. om_get keys k = Some (d, pr) \<longrightarrow> is_rate d))"

definition contested_wf :: "(u64, contested) omap \<Rightarrow> bool" where
  "contested_wf m = (om_wf m \<and> (\<forall>k ct. om_get m k = Some ct \<longrightarrow> is_rate (ct_demand ct)))"

definition peer_wf :: "peer \<Rightarrow> bool" where
  "peer_wf p = (contested_wf (pe_contested p) \<and> length (pe_contested p) \<le> MAX_CONTESTED \<and>
     (\<forall>sn. pe_snapshot p = Some sn \<longrightarrow> reported_wf (sn_keys sn) \<and> length (sn_past_epochs sn) \<le> PAST_EPOCHS))"

lemma peer_default_wf: "peer_wf peer_default"
  by (simp add: peer_wf_def peer_default_def contested_wf_def)

lemma keys_of_report_wf: "report_ok r \<Longrightarrow> reported_wf (keys_of_report r)"
proof -
  let ?put = "\<lambda>k. om_put (kd_key k) (kd_demand k, kd_primary k)"
  have wf: "om_wf m \<Longrightarrow> om_wf (fold ?put ks m)" for ks and m :: reported_keys
    by (induction ks arbitrary: m) auto
  have len: "om_wf m \<Longrightarrow> length (fold ?put ks m) \<le> length m + length ks" for ks and m :: reported_keys
  proof (induction ks arbitrary: m)
    case (Cons x ks)
    have "om_wf (?put x m)" using Cons.prems by auto
    from Cons.IH [OF this] show ?case using Cons.prems by (simp add: length_om_put split: if_splits)
  qed simp
  have rate: "is_rate d" if "om_get (fold ?put ks m) k = Some (d, pr)" "list_all (is_rate \<circ> kd_demand) ks"
      "\<forall>k d pr. om_get m k = Some (d, pr) \<longrightarrow> is_rate d" for ks and m :: reported_keys and k d pr
    using that
  proof (induction ks arbitrary: m)
    case (Cons x ks)
    show ?case by (rule Cons.IH [of "?put x m"]) (use Cons.prems in \<open>auto split: if_splits\<close>)
  qed auto
  assume ok: "report_ok r"
  then have "length (keys_of_report r) \<le> MAX_DEMAND_KEYS"
    using len [of "[]" "dr_keys r"] by (simp add: keys_of_report_def report_ok_def)
  moreover have "is_rate d" if "om_get (keys_of_report r) k = Some (d, pr)" for k d pr
    using rate [of "dr_keys r" "[]" k d pr] that ok by (simp add: keys_of_report_def report_ok_def)
  moreover have "om_wf (keys_of_report r)" using wf [of "[]"] by (simp add: keys_of_report_def)
  ultimately show "reported_wf (keys_of_report r)" unfolding reported_wf_def by blast
qed

lemma merged_rate:
  "is_rate (fst e) \<Longrightarrow> (\<forall>ct. held = Some ct \<longrightarrow> is_rate (ct_demand ct)) \<Longrightarrow> is_rate (ct_demand (merged rn t e held))"
  by (auto simp: merged_def split: option.split)

lemma contest_wf:
  assumes "peer_wf p" "reported_wf keys"
  shows "peer_wf (contest p keys rn t) \<and> pe_snapshot (contest p keys rn t) = pe_snapshot p"
proof -
  let ?m = "fold (contest_key rn t) keys (pe_contested p)"
  have wf: "om_wf ?m" using assms(1) by (simp add: om_wf_contest peer_wf_def contested_wf_def)
  have rate: "is_rate (ct_demand ct)" if "om_get ?m k = Some ct" for k ct
  proof -
    have "distinct (om_keys keys)" using assms(2) by (simp add: reported_wf_def om_wf_distinct)
    note get = om_get_contest [OF this, of rn t "pe_contested p" k]
    have held: "\<forall>ct. om_get (pe_contested p) k = Some ct \<longrightarrow> is_rate (ct_demand ct)"
      using assms(1) by (simp add: peer_wf_def contested_wf_def)
    show ?thesis
    proof (cases "om_get keys k")
      case None
      then show ?thesis using get held that by simp
    next
      case (Some e)
      then have "is_rate (fst e)" using assms(2) by (cases e) (auto simp: reported_wf_def)
      then show ?thesis using get held that Some merged_rate by auto
    qed
  qed
  note d = drop_oldest_spec [OF wf]
  have "contested_wf (drop_oldest ?m)"
    unfolding contested_wf_def using d rate om_get_sub [OF wf, of "drop_oldest ?m"] by blast
  then show ?thesis using assms(1) d by (simp add: contest_def peer_wf_def)
qed

lemma contest_wf': "peer_wf p \<Longrightarrow> reported_wf keys \<Longrightarrow> peer_wf (contest p keys rn t)"
  using contest_wf by blast

lemma take_report_wf:
  assumes "peer_wf p" "report_ok r"
  shows "peer_wf (take_report p r now)"
proof -
  have held: "peer_wf (q\<lparr>pe_held_until := None\<rparr>) = peer_wf q" for q by (simp add: peer_wf_def)
  have snap: "peer_wf (p\<lparr>pe_snapshot := Some \<lparr>sn_epoch = e, sn_past_epochs = past, sn_round = dr_round r,
      sn_heard_at = now, sn_keys = keys_of_report r\<rparr>\<rparr>)" if "length past \<le> PAST_EPOCHS" for e past
    using assms that keys_of_report_wf by (simp add: peer_wf_def)
  show ?thesis
  proof (cases "pe_snapshot p")
    case None
    then show ?thesis using snap [of "[]"] by (simp add: take_report_def held)
  next
    case (Some old)
    have old: "reported_wf (sn_keys old)" "length (sn_past_epochs old) \<le> PAST_EPOCHS"
      using assms(1) Some by (simp_all add: peer_wf_def)
    then have "length (sn_epoch old # take (PAST_EPOCHS - 1) (sn_past_epochs old)) \<le> PAST_EPOCHS"
      by (simp add: PAST_EPOCHS_def)
    then show ?thesis
      using Some old snap by (auto simp: take_report_def held Let_def intro!: contest_wf')
  qed
qed

lemma apply_to_peer_wf: "peer_wf p \<Longrightarrow> report_ok r \<Longrightarrow> peer_wf (apply_to_peer p r now)"
  by (auto simp: apply_to_peer_def intro: take_report_wf contest_wf' keys_of_report_wf split: option.split)

definition peers_wf :: "peer_demand \<Rightarrow> bool" where
  "peers_wf pd = (om_wf pd \<and> (\<forall>pid p. om_get pd pid = Some p \<longrightarrow> peer_wf p))"

lemma apply_report_wf: "peers_wf pd \<Longrightarrow> report_ok r \<Longrightarrow> peers_wf (apply_report pd sender r now)"
  by (auto simp: peers_wf_def apply_report_def Let_def peer_default_wf intro!: apply_to_peer_wf split: option.splits)

lemma forget_peer_wf: "peers_wf pd \<Longrightarrow> peers_wf (forget_peer pd pid)"
  by (auto simp: peers_wf_def forget_peer_def split: if_splits)

lemma peer_leave_wf: "peers_wf pd \<Longrightarrow> peers_wf (peer_leave pd pid now hold)"
  by (auto simp: peer_leave_def forget_peer_wf) (auto simp: peers_wf_def peer_wf_def split: option.splits)

lemma expire_peer_wf: "peer_wf p \<Longrightarrow> expire_peer now max_age p = Some p' \<Longrightarrow> peer_wf p'"
  using length_om_retain [of "\<lambda>key ct. fresh now max_age (ct_heard_at ct)" "pe_contested p"]
  by (auto simp: expire_peer_def Let_def peer_wf_def contested_wf_def om_get_retain split: option.splits if_splits)

lemma om_keys_expire: "om_keys (expire_reports pd now max_age) =
    filter (\<lambda>pid. True) (om_keys (filter (\<lambda>(pid, p). expire_peer now max_age p \<noteq> None) pd))"
  by (induction pd) (auto simp: expire_reports_def map_filter_simps split: option.splits)

lemma om_get_expire:
  "om_wf pd \<Longrightarrow> om_get (expire_reports pd now max_age) pid =
     (case om_get pd pid of None \<Rightarrow> None | Some p \<Rightarrow> expire_peer now max_age p)"
proof (induction pd)
  case (Cons e pd)
  obtain a p where e: "e = (a, p)" by (rule prod.exhaust)
  have wf: "om_wf pd" and none: "om_get pd a = None"
    using Cons.prems by (auto simp: e om_wf_Cons map_of_eq_None_iff)
  show ?case
    using Cons.IH [OF wf] none by (auto simp: e expire_reports_def map_filter_simps split: option.splits)
qed (simp add: expire_reports_def map_filter_simps)

lemma expire_reports_wf: "peers_wf pd \<Longrightarrow> peers_wf (expire_reports pd now max_age)"
proof -
  assume wf: "peers_wf pd"
  have "om_wf (expire_reports pd now max_age)"
    using wf sorted_wrt_map_filter by (fastforce simp: om_wf_def om_keys_expire peers_wf_def)
  then show ?thesis
    using wf expire_peer_wf by (fastforce simp: peers_wf_def om_get_expire split: option.splits)
qed

end
