(* ===== verification/Peer_Reports.thy ===== *)
theory Peer_Reports
  imports Peer_Demand
begin

text \<open>
  What \<open>peer_demand.rs\<close> promises: the word each report leaves about a key, bounded
  memory whatever is sent, and exact expiry.
\<close>

section \<open>What counts\<close>

text \<open>
  Two words on a key count at their maximum, and as primary if either is: \<open>both\<close>. What is heard of a peer on a key is
  \<open>said\<close>, the demand and the flag of \<open>peer_heard\<close>.
\<close>

fun both :: "(f32 \<times> bool) option \<Rightarrow> (f32 \<times> bool) option \<Rightarrow> (f32 \<times> bool) option" where
  "both None b = b"
| "both a None = a"
| "both (Some (d, pr)) (Some (d', pr')) = Some (if d < d' then d' else d, pr \<or> pr')"

definition said :: "peer \<Rightarrow> u64 \<Rightarrow> (f32 \<times> bool) option" where
  "said p key = map_option (\<lambda>h. (h_demand h, h_primary h)) (peer_heard p key)"

definition taken_word :: "peer \<Rightarrow> u64 \<Rightarrow> (f32 \<times> bool) option" where
  "taken_word p key = (case pe_snapshot p of None \<Rightarrow> None | Some sn \<Rightarrow> om_get (sn_keys sn) key)"

definition contested_word :: "peer \<Rightarrow> u64 \<Rightarrow> (f32 \<times> bool) option" where
  "contested_word p key = map_option (\<lambda>ct. (ct_demand ct, ct_primary ct)) (om_get (pe_contested p) key)"

lemma both_None [simp]: "both a None = a"
  by (cases a) auto

lemma said_both: "said p key = both (taken_word p key) (contested_word p key)"
  by (auto simp: said_def peer_heard_def taken_word_def contested_word_def Let_def
    option.map_comp comp_def split: option.splits prod.splits)

definition word_ok :: "(f32 \<times> bool) option \<Rightarrow> bool" where
  "word_ok w = (case w of None \<Rightarrow> True | Some (d, pr) \<Rightarrow> is_rate d)"

lemma is_rate_Fin: "is_rate d \<Longrightarrow> \<exists>r. d = Fin r \<and> 0 \<le> r"
  by (cases d) (auto simp: is_rate_def is_finite_def)

lemma word_ok_cases: "word_ok w \<Longrightarrow> w = None \<or> (\<exists>r pr. w = Some (Fin r, pr))"
  by (auto simp: word_ok_def dest: is_rate_Fin split: option.splits)

lemma both_assoc: "word_ok a \<Longrightarrow> word_ok b \<Longrightarrow> word_ok c \<Longrightarrow> both (both a b) c = both a (both b c)"
  using word_ok_cases [of a] word_ok_cases [of b] word_ok_cases [of c] by auto

lemma both_commute: "word_ok a \<Longrightarrow> word_ok b \<Longrightarrow> both a b = both b a"
  using word_ok_cases [of a] word_ok_cases [of b] by auto

lemma both_idem: "word_ok a \<Longrightarrow> both a a = a"
  using word_ok_cases [of a] by auto

lemma both_ok: "word_ok a \<Longrightarrow> word_ok b \<Longrightarrow> word_ok (both a b)"
  by (cases a; cases b) (auto simp: word_ok_def)

lemma words_ok:
  assumes "peer_wf p"
  shows "word_ok (taken_word p key)" "word_ok (contested_word p key)"
  using assms by (auto simp: word_ok_def taken_word_def contested_word_def peer_wf_def reported_wf_def contested_wf_def
    split: option.split)

lemma reported_word_ok: "reported_wf keys \<Longrightarrow> word_ok (om_get keys key)"
  by (auto simp: reported_wf_def word_ok_def split: option.split)

text \<open>Room for a report among the contested entries: with its keys they stay within \<open>MAX_CONTESTED\<close>.\<close>

definition room_for :: "reported_keys \<Rightarrow> peer \<Rightarrow> bool" where
  "room_for keys p = (card (fst ` set (pe_contested p) \<union> fst ` set keys) \<le> MAX_CONTESTED)"

lemma contest_word:
  assumes p: "peer_wf p" and keys: "reported_wf keys" and room: "room_for keys p"
  shows "contested_word (contest p keys rn t) key = both (contested_word p key) (om_get keys key)"
    "taken_word (contest p keys rn t) key = taken_word p key"
proof -
  let ?m = "fold (contest_key rn t) keys (pe_contested p)"
  have wf: "om_wf ?m" using p by (simp add: om_wf_contest contested_wf_def peer_wf_def)
  have "length ?m = card (fst ` set ?m)" using om_wf_distinct [OF wf] by (metis distinct_card length_map list.set_map)
  then have all: "pe_contested (contest p keys rn t) = ?m"
    using room by (simp add: contest_def keys_contest drop_oldest_room room_for_def)
  have "om_get ?m key =
      (case om_get keys key of None \<Rightarrow> om_get (pe_contested p) key | Some e \<Rightarrow> Some (merged rn t e (om_get (pe_contested p) key)))"
    using keys by (intro om_get_contest) (simp add: reported_wf_def om_wf_distinct)
  then show "contested_word (contest p keys rn t) key = both (contested_word p key) (om_get keys key)"
    unfolding contested_word_def all by (auto simp: merged_def split: option.splits)
  show "taken_word (contest p keys rn t) key = taken_word p key" by (simp add: taken_word_def contest_def)
qed

text \<open>The word a taken report leaves of the snapshot it replaces.\<close>

definition kept_word :: "peer \<Rightarrow> demand_report \<Rightarrow> u64 \<Rightarrow> (f32 \<times> bool) option" where
  "kept_word p r key = (case pe_snapshot p of
     None \<Rightarrow> None
   | Some old \<Rightarrow>
       if sn_epoch old = dr_epoch r \<and> dr_round r - sn_round old < IMPLAUSIBLE_JUMP then None else om_get (sn_keys old) key)"

lemma said_held [simp]: "said (p\<lparr>pe_held_until := h\<rparr>) key = said p key"
  by (simp add: said_both taken_word_def contested_word_def)

lemma take_report_said:
  assumes p: "peer_wf p" and r: "report_ok r" and room: "\<forall>old. pe_snapshot p = Some old \<longrightarrow> room_for (sn_keys old) p"
  shows "said (take_report p r now) key =
    both (om_get (keys_of_report r) key) (both (contested_word p key) (kept_word p r key))"
proof -
  have with_keys: "taken_word (p\<lparr>pe_snapshot := Some \<lparr>sn_epoch = e, sn_past_epochs = past, sn_round = rn, sn_heard_at = now,
      sn_keys = keys\<rparr>\<rparr>) key = om_get keys key"
    "contested_word (p\<lparr>pe_snapshot := Some sn\<rparr>) key = contested_word p key"
    "said (p\<lparr>pe_snapshot := Some \<lparr>sn_epoch = e, sn_past_epochs = past, sn_round = rn, sn_heard_at = now,
      sn_keys = keys\<rparr>\<rparr>) key = both (om_get keys key) (contested_word p key)" for e past rn keys sn
    by (simp_all add: taken_word_def contested_word_def said_both)
  show ?thesis
  proof (cases "pe_snapshot p")
    case None
    then show ?thesis by (simp add: take_report_def with_keys kept_word_def)
  next
    case (Some old)
    have old: "reported_wf (sn_keys old)" "length (sn_past_epochs old) \<le> PAST_EPOCHS" "room_for (sn_keys old) p"
      using p Some room by (simp_all add: peer_wf_def)
    have contest: "said (contest (p\<lparr>pe_snapshot := Some \<lparr>sn_epoch = e, sn_past_epochs = past, sn_round = dr_round r,
        sn_heard_at = now, sn_keys = keys_of_report r\<rparr>\<rparr>) (sn_keys old) rn t) key =
        both (om_get (keys_of_report r) key) (both (contested_word p key) (om_get (sn_keys old) key))"
      if "length past \<le> PAST_EPOCHS" for e past rn t
    proof -
      let ?p = "p\<lparr>pe_snapshot := Some \<lparr>sn_epoch = e, sn_past_epochs = past, sn_round = dr_round r,
        sn_heard_at = now, sn_keys = keys_of_report r\<rparr>\<rparr>"
      have "peer_wf ?p" using p r that keys_of_report_wf by (simp add: peer_wf_def)
      moreover have "room_for (sn_keys old) ?p" using old(3) by (simp add: room_for_def)
      ultimately show ?thesis using contest_word [OF _ old(1)] by (simp add: said_both with_keys)
    qed
    have past: "length (sn_epoch old # take (PAST_EPOCHS - 1) (sn_past_epochs old)) \<le> PAST_EPOCHS"
      by (simp add: PAST_EPOCHS_def)
    consider "sn_epoch old = dr_epoch r" "dr_round r - sn_round old < IMPLAUSIBLE_JUMP"
      | "sn_epoch old = dr_epoch r" "IMPLAUSIBLE_JUMP \<le> dr_round r - sn_round old" | "sn_epoch old \<noteq> dr_epoch r"
      by fastforce
    then show ?thesis
    proof cases
      case 1
      then have "\<not> IMPLAUSIBLE_JUMP \<le> dr_round r - sn_round old" by (simp add: not_le)
      then show ?thesis using 1 Some by (simp add: take_report_def with_keys kept_word_def Let_def)
    next
      case 2
      then have "\<not> dr_round r - sn_round old < IMPLAUSIBLE_JUMP" by (simp add: not_less)
      then show ?thesis using 2 Some contest [OF old(2)] by (simp add: take_report_def kept_word_def)
    next
      case 3
      then show ?thesis using Some contest [OF past] by (simp add: take_report_def kept_word_def)
    qed
  qed
qed

text \<open>A report that is not taken, the duplicate of the snapshot included, counts on top of what was said.\<close>

lemma duplicate_word:
  assumes "peer_wf p" "pe_snapshot p = Some old" "is_duplicate old r" "report_ok r"
  shows "om_get (keys_of_report r) key = taken_word p key"
proof -
  have "reported_wf (sn_keys old)" using assms(1,2) by (simp add: peer_wf_def)
  then have wf: "distinct (om_keys (sn_keys old))" "distinct (om_keys (keys_of_report r))"
    using keys_of_report_wf [OF assms(4)] by (simp_all add: reported_wf_def om_wf_distinct)
  have dup: "length (sn_keys old) = length (keys_of_report r)"
    "\<forall>(key, d, pr) \<in> set (sn_keys old). om_get (keys_of_report r) key = Some (d, pr)"
    using assms(3) by (auto simp: is_duplicate_def same_keys_def list_all_iff f32_eq_def split: option.splits)
  have "set (sn_keys old) \<subseteq> set (keys_of_report r)" using dup(2) by (auto dest: map_of_SomeD)
  moreover have "card (set (sn_keys old)) = card (set (keys_of_report r))"
    using dup(1) wf by (simp add: distinct_card distinct_map)
  ultimately have "set (sn_keys old) = set (keys_of_report r)" by (simp add: card_subset_eq)
  then have "om_get (sn_keys old) = om_get (keys_of_report r)" using wf by (simp add: map_of_inject_set)
  then show ?thesis using assms(2) by (simp add: taken_word_def)
qed

lemma untaken_report_said:
  assumes p: "peer_wf p" and r: "report_ok r" and old: "pe_snapshot p = Some old" "\<not> is_taken old r"
    and room: "room_for (keys_of_report r) p"
  shows "said (apply_to_peer p r now) key = both (said p key) (om_get (keys_of_report r) key)"
proof (cases "is_duplicate old r")
  case True
  then have w: "om_get (keys_of_report r) key = taken_word p key" by (rule duplicate_word [OF p old(1) _ r])
  have "both (both a b) a = both a b" if "word_ok a" "word_ok b" for a b
    using that both_commute [OF both_ok [OF that] that(1)] both_assoc [OF that(1) that(1) that(2)] both_idem [OF that(1)]
    by simp
  from this [OF words_ok [OF p]] show ?thesis using True old by (simp add: apply_to_peer_def w said_both)
next
  case False
  note keys = keys_of_report_wf [OF r]
  show ?thesis
    using False old contest_word [OF p keys room]
    by (simp add: apply_to_peer_def said_both both_assoc [OF words_ok [OF p] reported_word_ok [OF keys]])
qed

section \<open>Properties\<close>

text \<open>The calls of \<open>PeerDemand\<close>.\<close>

datatype peer_op = Report peer_id demand_report nanos | Forget peer_id | Left peer_id nanos nanos | Expire nanos nanos

fun peer_step :: "peer_demand \<Rightarrow> peer_op \<Rightarrow> peer_demand" where
  "peer_step pd (Report sender r now) = apply_report pd sender r now"
| "peer_step pd (Forget pid) = forget_peer pd pid"
| "peer_step pd (Left pid now hold) = peer_leave pd pid now hold"
| "peer_step pd (Expire now max_age) = expire_reports pd now max_age"

fun op_ok :: "peer_op \<Rightarrow> bool" where
  "op_ok (Report sender r now) = report_ok r"
| "op_ok _ = True"

lemma peer_step_wf: "peers_wf pd \<Longrightarrow> op_ok op \<Longrightarrow> peers_wf (peer_step pd op)"
  by (cases op) (auto intro: apply_report_wf forget_peer_wf peer_leave_wf expire_reports_wf)

lemma peer_steps_wf: "peers_wf pd \<Longrightarrow> list_all op_ok ops \<Longrightarrow> peers_wf (foldl peer_step pd ops)"
  by (induction ops arbitrary: pd) (auto simp: peer_step_wf)

text \<open>The peers that spoke for themselves.\<close>

definition speakers :: "peer_op list \<Rightarrow> peer_id set" where
  "speakers ops = {sender. \<exists>r now. Report sender r now \<in> set ops \<and> dr_origin r = sender}"

lemma keys_apply_report:
  "fst ` set (apply_report pd sender r now) = fst ` set pd \<union> (if dr_origin r = sender then {sender} else {})"
  by (auto simp: apply_report_def Let_def)

lemma keys_peer_step:
  assumes "peers_wf pd"
  shows "fst ` set (peer_step pd op) \<subseteq> fst ` set pd \<union> speakers [op]"
proof (cases op)
  case (Report sender r now)
  then show ?thesis by (auto simp: keys_apply_report speakers_def)
next
  case (Forget pid)
  then show ?thesis by (auto simp: forget_peer_def om_del_def)
next
  case (Left pid now hold)
  have "om_get pd pid = Some p \<Longrightarrow> pid \<in> fst ` set pd" for p by (force dest: map_of_SomeD)
  then show ?thesis using Left by (auto simp: peer_leave_def forget_peer_def om_del_def split: option.splits)
next
  case (Expire now max_age)
  have "om_has pd pid" if "om_has (expire_reports pd now max_age) pid" for pid
    using that assms by (auto simp: om_has_def om_get_expire peers_wf_def split: option.splits)
  then have "fst ` set (expire_reports pd now max_age) \<subseteq> fst ` set pd" unfolding om_has_keys by blast
  then show ?thesis using Expire by auto
qed

lemma keys_peer_steps:
  "peers_wf pd \<Longrightarrow> list_all op_ok ops \<Longrightarrow> fst ` set (foldl peer_step pd ops) \<subseteq> fst ` set pd \<union> speakers ops"
proof (induction ops arbitrary: pd)
  case (Cons op ops)
  have "peers_wf (peer_step pd op)" using Cons.prems peer_step_wf by simp
  have "fst ` set (foldl peer_step (peer_step pd op) ops) \<subseteq> fst ` set (peer_step pd op) \<union> speakers ops"
    using Cons.IH [OF \<open>peers_wf (peer_step pd op)\<close>] Cons.prems(2) by simp
  then have "fst ` set (foldl peer_step pd (op # ops)) \<subseteq> fst ` set pd \<union> (speakers [op] \<union> speakers ops)"
    using keys_peer_step [OF Cons.prems(1), of op] unfolding foldl.simps by blast
  also have "speakers [op] \<union> speakers ops = speakers (op # ops)" by (auto simp: speakers_def)
  finally show ?case .
qed simp

lemma peer_len_bound: "peer_wf p \<Longrightarrow> peer_len p \<le> MAX_DEMAND_KEYS + MAX_CONTESTED"
proof -
  assume p: "peer_wf p"
  have "(case map_option sn_keys (pe_snapshot p) of None \<Rightarrow> 0 | Some keys \<Rightarrow> length keys) \<le> MAX_DEMAND_KEYS"
    using p by (auto simp: peer_wf_def reported_wf_def split: option.split)
  moreover have "length (filter P (om_keys (pe_contested p))) \<le> MAX_CONTESTED" for P
    using p length_filter_le [of P "om_keys (pe_contested p)"] unfolding peer_wf_def length_map by linarith
  ultimately show ?thesis unfolding peer_len_def Let_def by (rule add_mono)
qed

text \<open>
  C28. Memory is bounded. Whatever the peers send, in any order, and however they come and go, each peer that spoke for
  itself has at most four past epochs, 64 keys in its snapshot and 256 contested ones, all with a demand that is a
  rate; and nothing is kept of anybody else.
\<close>

theorem peer_demand_bounded:
  assumes "list_all op_ok ops"
  shows "fst ` set (foldl peer_step peer_demand_new ops) \<subseteq> speakers ops \<and>
    reported_len (foldl peer_step peer_demand_new ops) \<le> 320 * length (foldl peer_step peer_demand_new ops) \<and>
    (\<forall>pid p. om_get (foldl peer_step peer_demand_new ops) pid = Some p \<longrightarrow> length (pe_contested p) \<le> 256 \<and>
      (\<forall>sn. pe_snapshot p = Some sn \<longrightarrow> length (sn_keys sn) \<le> 64 \<and> length (sn_past_epochs sn) \<le> 4) \<and>
      (\<forall>key h. peer_heard p key = Some h \<longrightarrow> is_rate (h_demand h)))"
proof -
  let ?pd = "foldl peer_step peer_demand_new ops"
  have new: "peers_wf peer_demand_new" by (simp add: peers_wf_def peer_demand_new_def)
  have wf: "peers_wf ?pd" by (rule peer_steps_wf [OF new assms])
  have each: "peer_wf p" if "(pid, p) \<in> set ?pd" for pid p
    using wf that by (simp add: peers_wf_def) (metis map_of_is_SomeI om_wf_distinct)
  have "reported_len ?pd \<le> sum_list (map (\<lambda>_. 320) ?pd)"
    unfolding reported_len_def
  proof (rule sum_list_mono)
    fix e assume "e \<in> set ?pd"
    then have "peer_wf (snd e)" using each [of "fst e" "snd e"] by simp
    then show "(peer_len \<circ> snd) e \<le> 320"
      using peer_len_bound [of "snd e"] by (simp add: MAX_DEMAND_KEYS_def MAX_CONTESTED_def)
  qed
  then have "reported_len ?pd \<le> 320 * length ?pd" by (simp add: sum_list_triv)
  moreover have "length (pe_contested p) \<le> 256 \<and>
      (\<forall>sn. pe_snapshot p = Some sn \<longrightarrow> length (sn_keys sn) \<le> 64 \<and> length (sn_past_epochs sn) \<le> 4) \<and>
      (\<forall>key h. peer_heard p key = Some h \<longrightarrow> is_rate (h_demand h))" if "om_get ?pd pid = Some p" for pid p
  proof -
    have p: "peer_wf p" using wf that by (auto simp: peers_wf_def)
    have "is_rate (h_demand h)" if "peer_heard p key = Some h" for key h
    proof -
      have "word_ok (said p key)" by (simp add: said_both both_ok words_ok [OF p])
      then show ?thesis using that by (simp add: said_def word_ok_def)
    qed
    then show ?thesis
      using p by (auto simp: peer_wf_def reported_wf_def MAX_DEMAND_KEYS_def MAX_CONTESTED_def PAST_EPOCHS_def)
  qed
  moreover have "fst ` set ?pd \<subseteq> speakers ops"
    using keys_peer_steps [OF new assms] by (simp add: peer_demand_new_def)
  ultimately show ?thesis by blast
qed

definition example_report :: demand_report where
  "example_report = \<lparr>dr_origin = 7, dr_epoch = 1, dr_round = 5,
     dr_keys = [\<lparr>kd_key = 9, kd_demand = Fin 3, kd_primary = True\<rparr>]\<rparr>"

lemma example_report_ok: "report_ok example_report"
  by (simp add: report_ok_def example_report_def is_rate_def is_finite_def MAX_DEMAND_KEYS_def)

theorem peer_demand_bounded_witness:
  "reported_len (foldl peer_step peer_demand_new [Report 7 example_report 3, Left 7 4 5, Report 8 example_report 6]) \<le> 320"
proof -
  have "list_all op_ok [Report 7 example_report 3, Left 7 4 5, Report 8 example_report 6]"
    by (simp add: example_report_ok)
  moreover have "length (foldl peer_step peer_demand_new [Report 7 example_report 3, Left 7 4 5, Report 8 example_report 6]) = 1"
    by (simp add: peer_demand_new_def apply_report_def example_report_def peer_leave_def)
  ultimately show ?thesis using peer_demand_bounded [of "[Report 7 example_report 3, Left 7 4 5, Report 8 example_report 6]"]
    by (metis mult.right_neutral)
qed

text \<open>
  What a report counts for. A report that is taken is what is heard of the peer from then on, at the maximum with what
  was contested before and, after a restart or an implausible jump of rounds, with the snapshot it replaced. Any other
  report, new or a replay, raises what is heard to what it says and lowers nothing, and the snapshot stays. In both
  cases as long as the contested entries have room; the hold of a peer that left ends with a report taken.
\<close>

theorem report_counts:
  assumes "peer_wf p" "report_ok r"
  shows "case pe_snapshot p of
      Some old \<Rightarrow>
        if is_taken old r
        then room_for (sn_keys old) p \<longrightarrow> pe_held_until (apply_to_peer p r now) = None \<and>
          said (apply_to_peer p r now) key =
            both (om_get (keys_of_report r) key) (both (contested_word p key) (kept_word p r key))
        else room_for (keys_of_report r) p \<longrightarrow> pe_snapshot (apply_to_peer p r now) = Some old \<and>
          pe_held_until (apply_to_peer p r now) = pe_held_until p \<and>
          said (apply_to_peer p r now) key = both (said p key) (om_get (keys_of_report r) key)
    | None \<Rightarrow> pe_held_until (apply_to_peer p r now) = None \<and>
        said (apply_to_peer p r now) key = both (om_get (keys_of_report r) key) (contested_word p key)"
proof (cases "pe_snapshot p")
  case None
  then show ?thesis
    using take_report_said [OF assms, of now key] by (simp add: apply_to_peer_def kept_word_def take_report_def Let_def)
next
  case (Some old)
  have "pe_held_until (contest q keys rn t) = pe_held_until q" "pe_snapshot (contest q keys rn t) = pe_snapshot q"
    for q keys rn t by (simp_all add: contest_def)
  then show ?thesis
    using Some take_report_said [OF assms, of now key] untaken_report_said [OF assms Some, of now key]
    by (auto simp: apply_to_peer_def take_report_def Let_def split: prod.split)
qed

theorem report_counts_witness:
  "said (apply_to_peer (apply_to_peer peer_default example_report 3) (example_report\<lparr>dr_round := 4, dr_keys := []\<rparr>) 8) 9 =
     Some (Fin 3, True)"
proof -
  let ?p = "apply_to_peer peer_default example_report 3" and ?r = "example_report\<lparr>dr_round := 4, dr_keys := []\<rparr>"
  have p: "peer_wf ?p" by (intro apply_to_peer_wf peer_default_wf example_report_ok)
  have r: "report_ok ?r" by (simp add: report_ok_def)
  have "said ?p 9 = Some (Fin 3, True)"
    by (simp add: apply_to_peer_def take_report_def peer_default_def example_report_def keys_of_report_def said_def peer_heard_def)
  moreover have "pe_snapshot ?p \<noteq> None \<and> \<not> is_taken (the (pe_snapshot ?p)) ?r \<and> room_for (keys_of_report ?r) ?p"
    by (simp add: apply_to_peer_def take_report_def peer_default_def example_report_def keys_of_report_def is_taken_def
        round_is_newer_def room_for_def)
  ultimately show ?thesis using report_counts [OF p r, of 8 9] by (auto simp: keys_of_report_def)
qed

text \<open>
  Expiry. Of a peer that is still there, \<open>expire\<close> keeps exactly what was heard less than \<open>max_age\<close> ago: the snapshot's
  word while the snapshot is fresh, and each contested word while it is; of a peer that left, all it said while its hold
  lasts, and nothing after.
\<close>

theorem expiry_exact:
  assumes "peers_wf pd"
  shows "map_option (\<lambda>h. (h_demand h, h_primary h)) (heard_from (expire_reports pd now max_age) pid key) =
    (case om_get pd pid of
       None \<Rightarrow> None
     | Some p \<Rightarrow> (case pe_held_until p of
         Some until \<Rightarrow> if now < until then said p key else None
       | None \<Rightarrow> both
           (case pe_snapshot p of None \<Rightarrow> None
            | Some sn \<Rightarrow> if now < saturating_add (sn_heard_at sn) max_age then om_get (sn_keys sn) key else None)
           (case om_get (pe_contested p) key of None \<Rightarrow> None
            | Some ct \<Rightarrow> if now < saturating_add (ct_heard_at ct) max_age then Some (ct_demand ct, ct_primary ct) else None)))"
proof (cases "om_get pd pid")
  case None
  then show ?thesis using assms by (simp add: heard_from_def om_get_expire peers_wf_def)
next
  case (Some p)
  have get: "om_get (expire_reports pd now max_age) pid = expire_peer now max_age p"
    using assms Some by (simp add: om_get_expire peers_wf_def)
  have "om_wf (pe_contested p)" using assms Some by (auto simp: peers_wf_def peer_wf_def contested_wf_def)
  note retain = om_get_retain [OF this, of "\<lambda>key ct. fresh now max_age (ct_heard_at ct)" key]
  have none: "om_get (om_retain (\<lambda>key ct. fresh now max_age (ct_heard_at ct)) (pe_contested p)) key = None"
    if "om_retain (\<lambda>key ct. fresh now max_age (ct_heard_at ct)) (pe_contested p) = []" using that by simp
  show ?thesis
  proof (cases "pe_held_until p")
    case (Some until)
    then show ?thesis using \<open>om_get pd pid = Some p\<close>
      by (simp add: heard_from_def get expire_peer_def flip: said_def)
  next
    case None
    show ?thesis
    proof (cases "expire_peer now max_age p")
      case (Some q)
      then have q: "taken_word q key = (case pe_snapshot p of None \<Rightarrow> None
          | Some sn \<Rightarrow> if fresh now max_age (sn_heard_at sn) then om_get (sn_keys sn) key else None)"
        "contested_word q key = (case om_get (pe_contested p) key of None \<Rightarrow> None
          | Some ct \<Rightarrow> if fresh now max_age (ct_heard_at ct) then Some (ct_demand ct, ct_primary ct) else None)"
        using None retain
        by (auto simp: expire_peer_def Let_def taken_word_def contested_word_def split: option.splits if_splits)
      show ?thesis using \<open>om_get pd pid = Some p\<close> None
        by (simp add: heard_from_def get Some q said_both fresh_def cong: option.case_cong flip: said_def)
    next
      case n: None
      then show ?thesis using \<open>om_get pd pid = Some p\<close> None retain none
        by (auto simp: heard_from_def get expire_peer_def Let_def fresh_def split: option.splits if_splits)
    qed
  qed
qed

theorem expiry_exact_witness:
  "map_option h_demand (heard_from (expire_reports [(7, apply_to_peer peer_default example_report 3)] 12 10) 7 9) = Some (Fin 3)"
proof -
  have "peers_wf [(7, apply_to_peer peer_default example_report 3)]"
    using apply_to_peer_wf [OF peer_default_wf example_report_ok] by (simp add: peers_wf_def om_wf_def)
  from expiry_exact [OF this, of 12 10 7 9]
  have "map_option (\<lambda>h. (h_demand h, h_primary h))
      (heard_from (expire_reports [(7, apply_to_peer peer_default example_report 3)] 12 10) 7 9) = Some (Fin 3, True)"
    by (simp add: apply_to_peer_def take_report_def peer_default_def example_report_def keys_of_report_def saturating_add_def)
  then show ?thesis by auto
qed

end
