(* ===== verification/User_Limit.thy ===== *)
theory User_Limit
  imports Limiter_Invariant Wire Auth
begin

text \<open>
  The limits and the names of the \<open>rateguard\<close> crate: \<open>limit.rs\<close>, a limit as the user
  gives it and as the core takes it; \<open>key.rs\<close>, how keys, classes and nodes are
  hashed; the errors of \<open>config.rs\<close>. The hash functions are those of crates: the
  record \<open>hashes\<close>. A Rust string is its bytes.
\<close>

unbundle bit_operations_syntax

datatype guard_error =
    MissingBind
  | BadAddress bytes
  | MissingLimit
  | ZeroLimit
  | ZeroPeriod
  | MissingAdvertise
  | UnspecifiedAdvertise
  | BadSeed bytes
  | TooManyHotKeys nat
  | TooLargeBurst u32
  | TooFewTrackedKeys
  | TooManyTrackedKeys nat
  | AdvertisePortZero
  | NoRuntime
  | NoTimer
  | NoIo
  | Bind
  | EmptyClassName
  | TooManyClasses nat
  | TooManyKeyLimits nat
  | TooLargeMaxKeyLimits nat
  | TooManyMostDenied nat
  | TooLargeMaxMembers nat
  | GossipAuth auth_error
  | ShortSalt nat
  | UnknownClass bytes

section \<open>Limits\<close>

datatype period = Second | Minute | Hour

fun period_seconds :: "period \<Rightarrow> u64" where
  "period_seconds Second = 1"
| "period_seconds Minute = 60"
| "period_seconds Hour = 3600"

record user_limit =
  ul_count :: u32
  ul_period :: period
  ul_burst :: u32

definition user_limit_new :: "u32 \<Rightarrow> period \<Rightarrow> user_limit" where
  "user_limit_new n period =
     \<lparr>ul_count = n, ul_period = period, ul_burst = min (max (n div 20) 1) MAX_BURST\<rparr>"

definition limit_per_second :: "u32 \<Rightarrow> user_limit" where
  "limit_per_second n = user_limit_new n Second"

definition limit_per_minute :: "u32 \<Rightarrow> user_limit" where
  "limit_per_minute n = user_limit_new n Minute"

definition limit_per_hour :: "u32 \<Rightarrow> user_limit" where
  "limit_per_hour n = user_limit_new n Hour"

definition with_burst :: "user_limit \<Rightarrow> u32 \<Rightarrow> user_limit" where
  "with_burst l burst = l\<lparr>ul_burst := max burst 1\<rparr>"

definition limit_rate_per_sec :: "user_limit \<Rightarrow> f64" where
  "limit_rate_per_sec l = f64_of_word (ul_count l) / f64_of_word (period_seconds (ul_period l))"

definition limit_rate :: "user_limit \<Rightarrow> u32" where
  "limit_rate l = word_of_f64 (f64_ceil (limit_rate_per_sec l))"

definition to_core :: "user_limit \<Rightarrow> guard_error + limit" where
  "to_core l =
     (if ul_count l = 0 then Inl ZeroLimit
      else if MAX_BURST < ul_burst l then Inl (TooLargeBurst (ul_burst l))
      else Inr \<lparr>l_rate = limit_rate_per_sec l, l_burst = ul_burst l\<rparr>)"

section \<open>Names\<close>

record hashes =
  h_xxh3 :: "bytes \<Rightarrow> u64"
  h_xxh3_seeded :: "bytes \<Rightarrow> u64 \<Rightarrow> u64"
  h_siphash :: "bytes \<Rightarrow> bytes \<Rightarrow> u64"
  h_sha256 :: "bytes \<Rightarrow> bytes"
  h_address_bytes :: "address \<Rightarrow> bytes"

definition le_bytes :: "u64 \<Rightarrow> bytes" where
  "le_bytes w = map (\<lambda>i. ucast (drop_bit (8 * i) w)) [0..<8]"

definition off_reserved :: "u64 \<Rightarrow> u64" where
  "off_reserved hash = (if hash = 0 then 1 else if hash = - 1 then - 2 else hash)"

definition hash_in :: "hashes \<Rightarrow> u64 \<Rightarrow> bytes \<Rightarrow> u64" where
  "hash_in h class key = off_reserved (h_xxh3_seeded h key class)"

text \<open>The hasher is written to twice, which hashes the two inputs one after the other.\<close>

definition salted_hash_in :: "hashes \<Rightarrow> bytes option \<Rightarrow> u64 \<Rightarrow> bytes \<Rightarrow> u64" where
  "salted_hash_in h salt class key = (case salt of
     None \<Rightarrow> hash_in h class key
   | Some s \<Rightarrow> off_reserved (h_siphash h s (le_bytes class @ key)))"

definition class_hash :: "hashes \<Rightarrow> bytes \<Rightarrow> u64" where
  "class_hash h class = (if class = [] then 0 else max (h_xxh3 h class) 1)"

definition key_hash_in :: "hashes \<Rightarrow> bytes \<Rightarrow> bytes \<Rightarrow> u64" where
  "key_hash_in h class key = hash_in h (class_hash h class) key"

definition key_hash :: "hashes \<Rightarrow> bytes \<Rightarrow> u64" where
  "key_hash h key = key_hash_in h [] key"

definition MIN_SALT :: nat where "MIN_SALT = 16"

definition salt_new :: "hashes \<Rightarrow> bytes \<Rightarrow> guard_error + bytes" where
  "salt_new h bytes =
     (if length bytes < MIN_SALT then Inl (ShortSalt (length bytes))
      else if length bytes = 16 then Inr bytes
      else Inr (take 16 (h_sha256 h bytes)))"

definition peer_id_of :: "hashes \<Rightarrow> address \<Rightarrow> peer_id" where
  "peer_id_of h addr = h_xxh3 h (h_address_bytes h addr)"

section \<open>What the core is given\<close>

lemma off_reserved_free: "off_reserved h \<noteq> 0" "off_reserved h \<noteq> - 1"
  by (auto simp: off_reserved_def)

lemma salted_hash_free: "salted_hash_in h salt class key \<noteq> 0 \<and> salted_hash_in h salt class key \<noteq> - 1"
  by (simp add: salted_hash_in_def hash_in_def off_reserved_free split: option.split)

lemma class_hash_zero: "class_hash h class = 0 \<longleftrightarrow> class = []"
proof -
  have "max x (1 :: u64) \<noteq> 0" for x by (metis max.cobounded2 word_le_0_iff zero_neq_one)
  then show ?thesis by (simp add: class_hash_def)
qed

text \<open>A limit made by the constructors has a burst; then what the core is given is a valid limit.\<close>

definition user_limit_wf :: "user_limit \<Rightarrow> bool" where
  "user_limit_wf l = (0 < ul_burst l)"

lemma user_limit_made: "user_limit_wf (user_limit_new n p)" "user_limit_wf (with_burst l burst)"
proof -
  have "(0 :: u32) < 1" by simp
  then show "user_limit_wf (user_limit_new n p)" "user_limit_wf (with_burst l burst)"
    by (simp_all add: user_limit_wf_def user_limit_new_def with_burst_def less_max_iff_disj gcra_consts)
qed

lemma limit_rate_Fin:
  assumes "ul_count l \<noteq> 0"
  shows "\<exists>r. limit_rate_per_sec l = Fin r \<and> 0 < r"
proof -
  obtain c where c: "f64_of_word (ul_count l) = Fin c" "c \<le> 2 ^ 64" "1 \<le> c"
    using f64_of_word_Fin [of "ul_count l"] assms by (auto simp: unat_gt_0)
  obtain s where s: "f64_of_word (period_seconds (ul_period l)) = Fin s" "1 \<le> s" "s \<le> 3600"
  proof (cases "ul_period l")
    case Second
    then show ?thesis using that [of 1] f64_of_rat_multiple [of 1 0] by (simp add: f64_of_word_def)
  next
    case Minute
    then show ?thesis using that [of 60] f64_of_rat_multiple [of 60 0] by (simp add: f64_of_word_def)
  next
    case Hour
    then show ?thesis using that [of 3600] f64_of_rat_multiple [of 3600 0] by (simp add: f64_of_word_def)
  qed
  have "c / s \<le> c" using c(3) s(2) by (simp add: divide_le_eq mult_le_cancel_left1)
  then have le: "c / s \<le> 2 ^ 64" using c(2) by linarith
  have "1 / 4096 \<le> (1 :: rat) / 3600" by simp
  also have "\<dots> \<le> c / s" using c(3) s(2,3) by (intro frac_le) simp_all
  finally have "1 / 4096 \<le> c / s" .
  moreover have "(2 :: rat) powi (-12) = 1 / 4096" by (simp add: power_int_def power_divide)
  ultimately have ge: "2 powi (-12) \<le> c / s" by (simp only:)
  note b = R_between [OF _ le]
  have "2 powi (-12) = R (2 powi (-12))" by (rule rnd_pow2 [symmetric]) simp_all
  also have "\<dots> \<le> R (c / s)" using ge by (intro rnd_mono) simp_all
  finally have "0 < R (c / s)" using zero_less_power_int [of "2 :: rat" "-12"] by linarith
  moreover have "limit_rate_per_sec l = Fin (R (c / s))"
    using b c(3) s(2) by (simp add: limit_rate_per_sec_def c(1) s(1) Fin_ops)
  ultimately show ?thesis by blast
qed

lemma to_core_ok:
  assumes "user_limit_wf l" "to_core l = Inr c"
  shows "limit_ok c \<and> l_burst c = ul_burst l \<and> l_rate c = limit_rate_per_sec l"
proof -
  have c: "c = \<lparr>l_rate = limit_rate_per_sec l, l_burst = ul_burst l\<rparr>" "ul_count l \<noteq> 0" "\<not> MAX_BURST < ul_burst l"
    using assms(2) by (auto simp: to_core_def split: if_splits)
  obtain r where "limit_rate_per_sec l = Fin r" "0 < r" using limit_rate_Fin [OF c(2)] by blast
  then show ?thesis using c assms(1) by (simp add: limit_ok_def limit_validate_def user_limit_wf_def is_finite_def f64_ops)
qed

text \<open>Functions to evaluate examples with.\<close>

definition example_hashes :: hashes where
  "example_hashes = \<lparr>h_xxh3 = (\<lambda>bs. of_nat (length bs)), h_xxh3_seeded = (\<lambda>bs seed. of_nat (length bs) + seed),
     h_siphash = (\<lambda>key bs. of_nat (length bs)), h_sha256 = (\<lambda>bs. replicate 32 0), h_address_bytes = (\<lambda>addr. [1])\<rparr>"

end
