(* ===== verification/Key_Table.thy ===== *)
theory Key_Table
  imports User_Limit
begin

text \<open>
  \<open>rateguard/src/table.rs\<close>: the key table of the request path, slots of atomics in
  buckets of 8. Here every call is one step; \<open>Key_Table_Race\<close> takes the accesses of
  concurrent calls apart. A slot is named by its index, the overflow slot apart.
\<close>

unbundle bit_operations_syntax

definition BUCKET :: nat where "BUCKET = 8"
definition EMPTY :: u64 where "EMPTY = 0"
definition BUSY :: u64 where "BUSY = - 1"
definition ATTEMPT :: u64 where "ATTEMPT = 1"
definition DENIAL :: u64 where "DENIAL = push_bit 32 1"

record slot =
  sl_key :: u64
  sl_gcra :: atomic_gcra
  sl_counts :: u64
  sl_class :: u64
  sl_shadow :: shadow_gcra
  sl_shadow_denials :: u64

definition slot_new :: "quota \<Rightarrow> slot option" where
  "slot_new q = do {
     g \<leftarrow> atomic_new q;
     Some \<lparr>sl_key = EMPTY, sl_gcra = g, sl_counts = 0, sl_class = 0, sl_shadow = shadow_new,
       sl_shadow_denials = 0\<rparr>
   }"

definition count_attempt :: "slot \<Rightarrow> slot" where
  "count_attempt s = s\<lparr>sl_counts := sl_counts s + ATTEMPT\<rparr>"

definition count_denial :: "slot \<Rightarrow> slot" where
  "count_denial s = s\<lparr>sl_counts := sl_counts s + DENIAL\<rparr>"

definition count_shadow_denial :: "slot \<Rightarrow> slot" where
  "count_shadow_denial s = s\<lparr>sl_shadow_denials := sl_shadow_denials s + 1\<rparr>"

definition has_counts :: "slot \<Rightarrow> bool" where
  "has_counts s = (sl_counts s \<noteq> 0)"

definition take_counts :: "slot \<Rightarrow> tally \<times> slot" where
  "take_counts s =
     (\<lparr>t_attempts = sl_counts s AND (DENIAL - 1), t_denials = drop_bit 32 (sl_counts s),
       t_shadow_denials = sl_shadow_denials s\<rparr>,
      s\<lparr>sl_counts := 0, sl_shadow_denials := 0\<rparr>)"

datatype slot_ref = InTable nat | Overflow

record key_table =
  kt_slots :: "slot list"
  kt_buckets :: nat
  kt_overflow :: slot
  kt_seed :: u64

function next_power_from :: "nat \<Rightarrow> nat \<Rightarrow> nat" where
  "next_power_from p n = (if n \<le> p \<or> p = 0 then p else next_power_from (2 * p) n)"
  by pat_completeness auto
termination by (relation "measure (\<lambda>(p, n). n - p)") auto

declare next_power_from.simps [simp del]

definition next_power_of_two :: "nat \<Rightarrow> nat" where
  "next_power_of_two n = next_power_from 1 n"

definition key_table_new :: "nat \<Rightarrow> quota \<Rightarrow> u64 \<Rightarrow> key_table option" where
  "key_table_new n_keys q seed = do {
     s \<leftarrow> slot_new q;
     let buckets = next_power_of_two ((2 * n_keys + BUCKET - 1) div BUCKET);
     Some \<lparr>kt_slots = replicate (buckets * BUCKET) s, kt_buckets = buckets, kt_overflow = s, kt_seed = seed\<rparr>
   }"

definition table_capacity :: "key_table \<Rightarrow> nat" where
  "table_capacity t = length (kt_slots t)"

text \<open>The slots of a bucket, and the two buckets of a key.\<close>

definition bucket_slots :: "nat \<Rightarrow> nat list" where
  "bucket_slots index = [index * BUCKET ..< index * BUCKET + BUCKET]"

definition buckets_of :: "hashes \<Rightarrow> key_table \<Rightarrow> u64 \<Rightarrow> nat \<times> nat" where
  "buckets_of h t key =
     (let mask = of_nat (kt_buckets t - 1) :: u64;
          mixed = h_xxh3_seeded h (le_bytes key) (kt_seed t);
          first = mixed AND mask;
          second = drop_bit 32 mixed AND mask
      in (unat first, unat (if second = first then (first + 1) AND mask else second)))"

definition candidates :: "hashes \<Rightarrow> key_table \<Rightarrow> u64 \<Rightarrow> nat list" where
  "candidates h t key =
     (let (first, second) = buckets_of h t key
      in bucket_slots first @ (if first = second then [] else bucket_slots second))"

definition key_at :: "key_table \<Rightarrow> nat \<Rightarrow> u64" where
  "key_at t i = sl_key (kt_slots t ! i)"

definition put_slot :: "key_table \<Rightarrow> nat \<Rightarrow> slot \<Rightarrow> key_table" where
  "put_slot t i s = t\<lparr>kt_slots := (kt_slots t)[i := s]\<rparr>"

definition table_find :: "hashes \<Rightarrow> key_table \<Rightarrow> u64 \<Rightarrow> nat option" where
  "table_find h t key = List.find (\<lambda>i. key_at t i = key) (candidates h t key)"

definition slot_at :: "key_table \<Rightarrow> slot_ref \<Rightarrow> slot" where
  "slot_at t r = (case r of InTable i \<Rightarrow> kt_slots t ! i | Overflow \<Rightarrow> kt_overflow t)"

definition set_slot :: "key_table \<Rightarrow> slot_ref \<Rightarrow> slot \<Rightarrow> key_table" where
  "set_slot t r s = (case r of InTable i \<Rightarrow> put_slot t i s | Overflow \<Rightarrow> t\<lparr>kt_overflow := s\<rparr>)"

definition table_holds :: "key_table \<Rightarrow> slot_ref \<Rightarrow> u64 \<Rightarrow> bool" where
  "table_holds t r key = (sl_key (slot_at t r) = key)"

definition is_overflow :: "slot_ref \<Rightarrow> bool" where
  "is_overflow r = (r = Overflow)"

definition table_release :: "key_table \<Rightarrow> nat \<Rightarrow> u64 \<Rightarrow> quota \<Rightarrow> (bool \<times> key_table) option" where
  "table_release t i key q =
     (if key_at t i \<noteq> key then Some (False, t)
      else do {
        let s = kt_slots t ! i;
        g \<leftarrow> atomic_reset (sl_gcra s) q;
        Some (True, put_slot t i (s\<lparr>sl_gcra := g, sl_shadow := shadow_reset (sl_shadow s), sl_counts := 0,
          sl_shadow_denials := 0, sl_class := 0, sl_key := EMPTY\<rparr>))
      })"

definition slot_quota :: "key_table \<Rightarrow> nat \<Rightarrow> quota option" where
  "slot_quota t i = unpack (a_quota (sl_gcra (kt_slots t ! i)))"

text \<open>The loop of \<open>claim\<close> over the copies of the key other calls may have made.\<close>

fun settle_copies :: "key_table \<Rightarrow> u64 \<Rightarrow> nat \<Rightarrow> nat list \<Rightarrow> nat \<Rightarrow> bool \<Rightarrow> (nat \<times> key_table) option" where
  "settle_copies t key mine [] winner mine_seen = Some (winner, t)"
| "settle_copies t key mine (other # rest) winner mine_seen =
     (if other = mine then settle_copies t key mine rest winner True
      else if key_at t other \<noteq> key then settle_copies t key mine rest winner mine_seen
      else if mine_seen then do {
        q \<leftarrow> slot_quota t other;
        (_, t') \<leftarrow> table_release t other key q;
        settle_copies t' key mine rest winner mine_seen
      }
      else settle_copies t key mine rest (if winner = mine then other else winner) mine_seen)"

definition table_claim :: "hashes \<Rightarrow> key_table \<Rightarrow> u64 \<Rightarrow> (slot_ref \<times> bool \<times> key_table) option" where
  "table_claim h t key =
     (case table_find h t key of
        Some i \<Rightarrow> Some (InTable i, False, t)
      | None \<Rightarrow>
          let (first, second) = buckets_of h t key;
              taken = (\<lambda>b. length (filter (\<lambda>i. key_at t i \<noteq> EMPTY) (bucket_slots b)));
              order = (if taken second < taken first then [second, first] else [first, second])
          in case List.find (\<lambda>i. key_at t i = EMPTY) (concat (map bucket_slots order)) of
               None \<Rightarrow> Some (Overflow, False, t)
             | Some mine \<Rightarrow> do {
                 let t1 = put_slot t mine ((kt_slots t ! mine)\<lparr>sl_key := key\<rparr>);
                 (winner, t2) \<leftarrow> settle_copies t1 key mine (candidates h t key) mine False;
                 if winner \<noteq> mine then do {
                   q \<leftarrow> slot_quota t2 mine;
                   (_, t3) \<leftarrow> table_release t2 mine key q;
                   Some (InTable winner, False, t3)
                 } else Some (InTable mine, True, t2)
               })"

definition table_for_each :: "key_table \<Rightarrow> (u64 \<times> nat) list" where
  "table_for_each t = map (\<lambda>i. (key_at t i, i))
     (filter (\<lambda>i. key_at t i \<noteq> EMPTY \<and> key_at t i \<noteq> BUSY) [0..<length (kt_slots t)])"

definition table_for_each_free :: "key_table \<Rightarrow> nat list" where
  "table_for_each_free t = filter (\<lambda>i. key_at t i = EMPTY) [0..<length (kt_slots t)]"

end
