(* ===== verification/Key_Table_Contract.thy ===== *)
theory Key_Table_Contract
  imports Key_Table
begin

text \<open>
  What the key table promises, one call at a time: where a key may be, the invariant
  every call keeps, the keys as a set that claims grow and releases shrink, and the
  counters of a slot.
\<close>

section \<open>Where a key may be\<close>

lemma bucket_slots_bound: "b < n \<Longrightarrow> i \<in> set (bucket_slots b) \<Longrightarrow> i < n * BUCKET"
  by (auto simp: bucket_slots_def BUCKET_def)

lemma unat_and_less:
  assumes "0 < b"
  shows "unat (x AND of_nat (b - 1) :: u64) < b"
proof -
  have "unat (x AND of_nat (b - 1)) \<le> unat (of_nat (b - 1) :: u64)"
    using word_and_le1 [of x "of_nat (b - 1)"] by (simp add: word_le_nat_alt)
  also have "\<dots> \<le> b - 1" by (simp add: unat_of_nat)
  finally show ?thesis using assms by linarith
qed

lemma buckets_of_bound:
  assumes "0 < kt_buckets t" "buckets_of h t key = (first, second)"
  shows "first < kt_buckets t \<and> second < kt_buckets t"
  using assms unat_and_less [OF assms(1)] by (auto simp: buckets_of_def Let_def split: if_splits)

lemma candidates_bound:
  assumes "0 < kt_buckets t" "i \<in> set (candidates h t key)"
  shows "i < kt_buckets t * BUCKET"
proof -
  obtain first second where b: "buckets_of h t key = (first, second)" by force
  show ?thesis using assms buckets_of_bound [OF assms(1) b] bucket_slots_bound
    by (auto simp: candidates_def b split: if_splits)
qed

lemma order_candidates:
  assumes "buckets_of h t key = (first, second)"
  shows "set (concat (map bucket_slots (if c then [second, first] else [first, second]))) = set (candidates h t key)"
  using assms by (auto simp: candidates_def)

lemma candidates_distinct: "distinct (candidates h t key)"
  by (auto simp: candidates_def bucket_slots_def BUCKET_def split: prod.split)

text \<open>Where a key may be does not depend on what the slots hold.\<close>

lemma put_slot_simps [simp]:
  "kt_buckets (put_slot t i s) = kt_buckets t" "candidates h (put_slot t i s) key = candidates h t key"
  "length (kt_slots (put_slot t i s)) = length (kt_slots t)"
  "i < length (kt_slots t) \<Longrightarrow> key_at (put_slot t i s) j = (if j = i then sl_key s else key_at t j)"
  by (simp_all add: put_slot_def candidates_def buckets_of_def key_at_def nth_list_update)

section \<open>Invariant\<close>

definition slot_wf :: "slot \<Rightarrow> bool" where
  "slot_wf s = (\<exists>q. quota_wf q \<and> unpack (a_quota (sl_gcra s)) = Some q)"

definition key_table_wf :: "hashes \<Rightarrow> key_table \<Rightarrow> bool" where
  "key_table_wf h t = (0 < kt_buckets t \<and> length (kt_slots t) = kt_buckets t * BUCKET \<and>
     (\<forall>i < length (kt_slots t). slot_wf (kt_slots t ! i) \<and> key_at t i \<noteq> BUSY \<and>
       (key_at t i \<noteq> EMPTY \<longrightarrow> i \<in> set (candidates h t (key_at t i)))) \<and>
     (\<forall>i < length (kt_slots t). \<forall>j < length (kt_slots t). key_at t i = key_at t j \<longrightarrow> key_at t i \<noteq> EMPTY \<longrightarrow> i = j))"

lemma key_table_wfD:
  assumes "key_table_wf h t"
  shows "0 < kt_buckets t" "length (kt_slots t) = kt_buckets t * BUCKET"
    "i < length (kt_slots t) \<Longrightarrow> slot_wf (kt_slots t ! i)"
    "i < length (kt_slots t) \<Longrightarrow> key_at t i \<noteq> EMPTY \<Longrightarrow> i \<in> set (candidates h t (key_at t i))"
    "i < length (kt_slots t) \<Longrightarrow> j < length (kt_slots t) \<Longrightarrow> key_at t i = key_at t j \<Longrightarrow> key_at t i \<noteq> EMPTY \<Longrightarrow> i = j"
    "i < length (kt_slots t) \<Longrightarrow> key_at t i \<noteq> BUSY"
    "i \<in> set (candidates h t key) \<Longrightarrow> i < length (kt_slots t)"
  using assms candidates_bound [of t i h key] by (auto simp: key_table_wf_def)

lemma next_power_pos: "0 < p \<Longrightarrow> 0 < next_power_from p n"
  by (induction p n rule: next_power_from.induct) (subst next_power_from.simps, simp)

lemma key_table_new_wf:
  assumes "quota_wf q" "key_table_new n q seed = Some t"
  shows "key_table_wf h t \<and> (\<forall>key. key \<noteq> EMPTY \<longrightarrow> table_find h t key = None)"
proof -
  obtain w where w: "pack q = Some w" "unpack w = Some q" using unpack_pack_wf [OF assms(1)] by blast
  obtain s where s: "slot_new q = Some s" "kt_slots t = replicate (kt_buckets t * BUCKET) s" "0 < kt_buckets t"
    using assms(2) next_power_pos by (auto simp: key_table_new_def Let_def next_power_of_two_def split: bind_splits)
  have k: "sl_key s = EMPTY" "slot_wf s" using s(1) w assms(1) by (auto simp: slot_new_def atomic_new_def slot_wf_def)
  have e: "key_at t i = EMPTY" if "i < length (kt_slots t)" for i using that s(2) k(1) by (simp add: key_at_def)
  have "key_table_wf h t" using s k(2) e by (simp add: key_table_wf_def BUSY_def EMPTY_def)
  moreover have "table_find h t key = None" if "key \<noteq> EMPTY" for key
    using that e key_table_wfD(7) [OF \<open>key_table_wf h t\<close>] by (auto simp: table_find_def find_None_iff)
  ultimately show ?thesis by blast
qed

lemma table_find_iff:
  assumes wf: "key_table_wf h t" and key: "key \<noteq> EMPTY"
  shows "table_find h t key = Some i \<longleftrightarrow> i < length (kt_slots t) \<and> key_at t i = key"
proof
  assume "table_find h t key = Some i"
  then have "i \<in> set (candidates h t key)" "key_at t i = key" by (auto simp: table_find_def find_Some_iff)
  then show "i < length (kt_slots t) \<and> key_at t i = key" using key_table_wfD(7) [OF wf] by blast
next
  assume i: "i < length (kt_slots t) \<and> key_at t i = key"
  then have c: "i \<in> set (candidates h t key)" using key_table_wfD(4) [OF wf] key by blast
  then obtain j where j: "table_find h t key = Some j"
    using i by (cases "table_find h t key") (auto simp: table_find_def find_None_iff)
  then have "j \<in> set (candidates h t key)" "key_at t j = key" by (auto simp: table_find_def find_Some_iff)
  then have "j = i" using key_table_wfD(5,7) [OF wf] i key by metis
  then show "table_find h t key = Some i" using j by simp
qed

section \<open>Taking a slot and freeing it\<close>

lemma settle_alone:
  "\<forall>i \<in> set cs. i \<noteq> mine \<longrightarrow> key_at t i \<noteq> key \<Longrightarrow> settle_copies t key mine cs winner seen = Some (winner, t)"
  by (induction cs arbitrary: seen) auto

text \<open>What one call of \<open>claim\<close> does.\<close>

lemma table_claim_spec:
  assumes wf: "key_table_wf h t" and key: "key \<noteq> EMPTY"
  shows "(\<exists>i. table_find h t key = Some i \<and> table_claim h t key = Some (InTable i, False, t)) \<or>
    (table_find h t key = None \<and> (\<forall>i \<in> set (candidates h t key). key_at t i \<noteq> EMPTY) \<and>
      table_claim h t key = Some (Overflow, False, t)) \<or>
    (\<exists>i \<in> set (candidates h t key). table_find h t key = None \<and> key_at t i = EMPTY \<and>
      table_claim h t key = Some (InTable i, True, put_slot t i ((kt_slots t ! i)\<lparr>sl_key := key\<rparr>)))"
proof (cases "table_find h t key")
  case (Some i)
  then show ?thesis by (simp add: table_claim_def)
next
  case None
  obtain first second where b: "buckets_of h t key = (first, second)" by force
  define order where "order = concat (map bucket_slots
      (if length (filter (\<lambda>i. key_at t i \<noteq> EMPTY) (bucket_slots second)) <
          length (filter (\<lambda>i. key_at t i \<noteq> EMPTY) (bucket_slots first)) then [second, first] else [first, second]))"
  have set_order: "set order = set (candidates h t key)" unfolding order_def by (rule order_candidates [OF b])
  show ?thesis
  proof (cases "List.find (\<lambda>i. key_at t i = EMPTY) order")
    case None': None
    then have "\<forall>i \<in> set (candidates h t key). key_at t i \<noteq> EMPTY" using set_order by (simp add: find_None_iff)
    then show ?thesis using None None' by (simp add: table_claim_def b Let_def order_def [symmetric])
  next
    case (Some mine)
    then have m: "mine \<in> set (candidates h t key)" "key_at t mine = EMPTY" using set_order by (auto simp: find_Some_iff)
    let ?t1 = "put_slot t mine ((kt_slots t ! mine)\<lparr>sl_key := key\<rparr>)"
    have "mine < length (kt_slots t)" by (rule key_table_wfD(7) [OF wf m(1)])
    then have "\<forall>i \<in> set (candidates h t key). i \<noteq> mine \<longrightarrow> key_at ?t1 i \<noteq> key"
      using None by (auto simp: table_find_def find_None_iff)
    then have "settle_copies ?t1 key mine (candidates h t key) mine False = Some (mine, ?t1)" by (rule settle_alone)
    then show ?thesis using None Some m by (auto simp: table_claim_def b Let_def order_def [symmetric])
  qed
qed

lemma table_claim_cases:
  assumes "key_table_wf h t" "key \<noteq> EMPTY"
  obtains (Found) i where "table_find h t key = Some i" "table_claim h t key = Some (InTable i, False, t)"
    | (Full) "table_find h t key = None" "\<forall>i \<in> set (candidates h t key). key_at t i \<noteq> EMPTY"
      "table_claim h t key = Some (Overflow, False, t)"
    | (Taken) i where "i \<in> set (candidates h t key)" "table_find h t key = None" "key_at t i = EMPTY"
      "table_claim h t key = Some (InTable i, True, put_slot t i ((kt_slots t ! i)\<lparr>sl_key := key\<rparr>))"
  using table_claim_spec [OF assms] by (elim disjE exE bexE conjE) (rule Found Full Taken; assumption)+

lemma take_wf:
  assumes wf: "key_table_wf h t" and key: "key \<noteq> EMPTY" "key \<noteq> BUSY" "table_find h t key = None"
    and i: "i \<in> set (candidates h t key)" "key_at t i = EMPTY"
  defines "t' \<equiv> put_slot t i ((kt_slots t ! i)\<lparr>sl_key := key\<rparr>)"
  shows "key_table_wf h t' \<and> table_find h t' key = Some i \<and> (\<forall>k. k \<noteq> EMPTY \<longrightarrow> k \<noteq> key \<longrightarrow> table_find h t' k = table_find h t k)"
proof -
  note d = key_table_wfD [OF wf]
  have bound: "i < length (kt_slots t)" by (rule d(7) [OF i(1)])
  have other: "key_at t j \<noteq> key" if "j < length (kt_slots t)" for j
    using key(1,3) table_find_iff [OF wf key(1), of j] that by auto
  have at: "key_at t' j = (if j = i then key else key_at t j)" for j using bound by (simp add: t'_def)
  have slots: "slot_wf (kt_slots t' ! j)" if "j < length (kt_slots t)" for j
    using d(3) [OF that] bound by (auto simp: t'_def put_slot_def nth_list_update slot_wf_def)
  have len: "length (kt_slots t') = length (kt_slots t)" "kt_buckets t' = kt_buckets t" "candidates h t' k = candidates h t k" for k
    by (simp_all add: t'_def)
  have one: "j = k" if "j < length (kt_slots t)" "k < length (kt_slots t)" "key_at t' j = key_at t' k" "key_at t' j \<noteq> EMPTY" for j k
    using that d(5) [of j k] other [of j] other [of k] by (auto simp: at split: if_splits)
  have wf': "key_table_wf h t'"
    unfolding key_table_wf_def len
    using d(1,2) d(4,6) slots i key one by (auto simp: at split: if_splits)
  have "table_find h t' k = Some j \<longleftrightarrow> table_find h t k = Some j" if "k \<noteq> EMPTY" "k \<noteq> key" for k j
    using that i(2) unfolding table_find_iff [OF wf' that(1)] table_find_iff [OF wf that(1)] len at by auto
  then have "table_find h t' k = table_find h t k" if "k \<noteq> EMPTY" "k \<noteq> key" for k
    using that by (metis option.exhaust)
  moreover have "table_find h t' key = Some i" unfolding table_find_iff [OF wf' key(1)] len at using bound by simp
  ultimately show ?thesis using wf' by blast
qed

lemma release_spec:
  assumes wf: "key_table_wf h t" and key: "key \<noteq> EMPTY" and q: "quota_wf q" and i: "i < length (kt_slots t)"
  shows "\<exists>t'. table_release t i key q = Some (key_at t i = key, t') \<and> key_table_wf h t' \<and>
    (key_at t i \<noteq> key \<longrightarrow> t' = t) \<and>
    (key_at t i = key \<longrightarrow> table_find h t' key = None \<and> slot_new q = Some (kt_slots t' ! i)) \<and>
    (\<forall>k. k \<noteq> EMPTY \<longrightarrow> k \<noteq> key \<longrightarrow> table_find h t' k = table_find h t k)"
proof (cases "key_at t i = key")
  case False
  then show ?thesis using wf by (simp add: table_release_def)
next
  case True
  note d = key_table_wfD [OF wf]
  obtain w where w: "pack q = Some w" "unpack w = Some q" using unpack_pack_wf [OF q] by blast
  let ?s = "kt_slots t ! i"
  define s' where "s' = ?s\<lparr>sl_gcra := (sl_gcra ?s)\<lparr>a_quota := w, a_tat := 0\<rparr>, sl_shadow := shadow_reset (sl_shadow ?s),
      sl_counts := 0, sl_shadow_denials := 0, sl_class := 0, sl_key := EMPTY\<rparr>"
  define t' where "t' = put_slot t i s'"
  have run: "table_release t i key q = Some (True, t')"
    using True w(1) by (simp add: table_release_def atomic_reset_def t'_def s'_def Let_def)
  have fresh: "slot_new q = Some s'"
    by (simp add: slot_new_def atomic_new_def w(1) s'_def shadow_new_def shadow_reset_def)
  have at: "key_at t' j = (if j = i then EMPTY else key_at t j)" for j using i by (simp add: t'_def s'_def)
  have len: "length (kt_slots t') = length (kt_slots t)" "kt_buckets t' = kt_buckets t" "candidates h t' k = candidates h t k" for k
    by (simp_all add: t'_def)
  have slots: "slot_wf (kt_slots t' ! j)" if "j < length (kt_slots t)" for j
    using d(3) [OF that] i w(2) q by (auto simp: t'_def put_slot_def nth_list_update slot_wf_def s'_def)
  have wf': "key_table_wf h t'"
    unfolding key_table_wf_def len at using d(1,2) d(4,5,6) slots by (auto simp: EMPTY_def BUSY_def split: if_splits)
  have iff: "table_find h t' k = Some j \<longleftrightarrow> j \<noteq> i \<and> table_find h t k = Some j" if "k \<noteq> EMPTY" for k j
    using that unfolding table_find_iff [OF wf' that] table_find_iff [OF wf that] len at by auto
  have "table_find h t key = Some i" using True i table_find_iff [OF wf key] by simp
  then have "table_find h t' key = None" using iff [OF key] by (metis option.exhaust option.inject)
  moreover have "table_find h t' k = table_find h t k" if k: "k \<noteq> EMPTY" "k \<noteq> key" for k
  proof -
    have "table_find h t k \<noteq> Some i" using True k table_find_iff [OF wf k(1)] by simp
    then show ?thesis using iff [OF k(1)] by (metis option.exhaust)
  qed
  moreover have "kt_slots t' ! i = s'" using i by (simp add: t'_def put_slot_def)
  ultimately show ?thesis using run wf' fresh True by simp
qed

section \<open>Counting\<close>

datatype count_op = CountAttempt | CountDenial | CountShadowDenial

fun count_step :: "count_op \<Rightarrow> slot \<Rightarrow> slot" where
  "count_step CountAttempt s = count_attempt s"
| "count_step CountDenial s = count_denial s"
| "count_step CountShadowDenial s = count_shadow_denial s"

lemma fold_counts:
  "sl_counts (fold count_step ops s) = sl_counts s + of_nat (count_list ops CountAttempt) + push_bit 32 (of_nat (count_list ops CountDenial)) \<and>
   sl_shadow_denials (fold count_step ops s) = sl_shadow_denials s + of_nat (count_list ops CountShadowDenial)"
proof (induction ops arbitrary: s)
  case (Cons op ops)
  then show ?case
    by (cases op) (simp_all add: count_attempt_def count_denial_def count_shadow_denial_def ATTEMPT_def DENIAL_def
        push_bit_eq_mult algebra_simps)
qed simp

lemma split_counts:
  assumes "a < 2 ^ 32" "d < 2 ^ 32"
  shows "(of_nat a + push_bit 32 (of_nat d) :: u64) AND (DENIAL - 1) = of_nat a"
    "drop_bit 32 (of_nat a + push_bit 32 (of_nat d) :: u64) = of_nat d"
proof -
  let ?w = "of_nat a + push_bit 32 (of_nat d) :: u64"
  have "?w = of_nat (a + d * 2 ^ 32)" by (simp add: push_bit_eq_mult)
  moreover have "a + d * 2 ^ 32 < 2 ^ 64"
  proof -
    have "d * 2 ^ 32 \<le> (2 ^ 32 - 1) * 2 ^ 32" using assms(2) by (intro mult_le_mono1) simp
    then show ?thesis using assms(1) by simp
  qed
  ultimately have w: "unat ?w = a + d * 2 ^ 32" by (simp add: unat_of_nat del: of_nat_add of_nat_mult)
  have mask: "DENIAL - 1 = (mask 32 :: u64)" by (simp add: DENIAL_def mask_eq_exp_minus_1)
  have "unat (?w AND mask 32) = (a + d * 2 ^ 32) mod 2 ^ 32"
    by (simp only: take_bit_eq_mask [symmetric] unsigned_take_bit_eq w) (simp only: take_bit_eq_mod)
  also have "\<dots> = a" using assms(1) by simp
  also have "\<dots> = unat (of_nat a :: u64)" using assms(1) by (simp add: unat_of_nat)
  finally show "?w AND (DENIAL - 1) = of_nat a" unfolding mask by (simp only: word_unat_eq_iff)
  have "unat (drop_bit 32 ?w) = (a + d * 2 ^ 32) div 2 ^ 32"
    by (simp only: unat_drop_bit_eq w) (simp only: drop_bit_eq_div)
  also have "\<dots> = d" using assms(1) by simp
  also have "\<dots> = unat (of_nat d :: u64)" using assms(2) by (simp add: unat_of_nat)
  finally show "drop_bit 32 ?w = of_nat d" by (simp only: word_unat_eq_iff)
qed

section \<open>Every call\<close>

text \<open>The calls on the keys, and the table as a map: which keys have a slot.\<close>

datatype key_op = Claim u64 | Free u64 quota

fun key_op_step :: "hashes \<Rightarrow> key_table \<Rightarrow> key_op \<Rightarrow> key_table option" where
  "key_op_step h t (Claim key) = do { (r, taken, t') \<leftarrow> table_claim h t key; Some t' }"
| "key_op_step h t (Free key q) = (case table_find h t key of
     None \<Rightarrow> Some t
   | Some i \<Rightarrow> do { (freed, t') \<leftarrow> table_release t i key q; Some t' })"

fun key_op_ok :: "key_op \<Rightarrow> bool" where
  "key_op_ok (Claim key) = (key \<noteq> EMPTY \<and> key \<noteq> BUSY)"
| "key_op_ok (Free key q) = (key \<noteq> EMPTY \<and> quota_wf q)"

fun key_ops_run :: "hashes \<Rightarrow> key_table \<Rightarrow> key_op list \<Rightarrow> key_table option" where
  "key_ops_run h t [] = Some t"
| "key_ops_run h t (op # ops) = do { t' \<leftarrow> key_op_step h t op; key_ops_run h t' ops }"

lemma key_op_step_wf:
  assumes wf: "key_table_wf h t" and ok: "key_op_ok op"
  shows "\<exists>t'. key_op_step h t op = Some t' \<and> key_table_wf h t'"
proof (cases op)
  case (Claim key)
  have key: "key \<noteq> EMPTY" "key \<noteq> BUSY" using ok Claim by simp_all
  show ?thesis
  proof (cases rule: table_claim_cases [OF wf key(1)])
    case (3 i)
    then show ?thesis using take_wf [OF wf key 3(2,1,3)] Claim by auto
  qed (use wf Claim in auto)
next
  case (Free key q)
  show ?thesis
  proof (cases "table_find h t key")
    case (Some i)
    then have "i < length (kt_slots t)" using table_find_iff [OF wf] ok Free by auto
    then obtain b t' where "table_release t i key q = Some (b, t')" "key_table_wf h t'"
      using release_spec [OF wf, of key q i] ok Free by auto
    then show ?thesis using Some Free by auto
  qed (use wf Free in auto)
qed

lemma key_ops_run_wf:
  "key_table_wf h t \<Longrightarrow> list_all key_op_ok ops \<Longrightarrow> \<exists>t'. key_ops_run h t ops = Some t' \<and> key_table_wf h t'"
proof (induction ops arbitrary: t)
  case (Cons op ops)
  from Cons.prems have ops: "key_op_ok op" "list_all key_op_ok ops" by simp_all
  obtain t1 where "key_op_step h t op = Some t1" "key_table_wf h t1" using key_op_step_wf [OF Cons.prems(1) ops(1)] by blast
  then show ?case using Cons.IH [OF _ ops(2)] by auto
qed simp

section \<open>Properties\<close>

text \<open>
  The key table, one call at a time. After any calls on a table just made, the next claim of a key never panics and
  gives the slot the key has, or takes a free one of its two buckets for it, or, both full, the overflow slot; it is told
  it took the slot exactly when it did; from then on the key is found there, and every other key where it was.
\<close>

theorem key_table_claims:
  assumes start: "quota_wf q" "key_table_new n q seed = Some t0" and run: "list_all key_op_ok ops" "key_ops_run h t0 ops = Some t"
    and key: "key \<noteq> EMPTY" "key \<noteq> BUSY"
  shows "\<exists>r taken t'. table_claim h t key = Some (r, taken, t') \<and>
    (case table_find h t key of
       Some i \<Rightarrow> r = InTable i \<and> \<not> taken \<and> t' = t
     | None \<Rightarrow>
         if \<forall>i \<in> set (candidates h t key). key_at t i \<noteq> EMPTY then r = Overflow \<and> \<not> taken \<and> t' = t
         else taken \<and> (\<exists>i \<in> set (candidates h t key). key_at t i = EMPTY \<and> r = InTable i \<and> table_find h t' key = Some i)) \<and>
    (\<forall>k. k \<noteq> EMPTY \<longrightarrow> k \<noteq> key \<longrightarrow> table_find h t' k = table_find h t k)"
proof -
  have wf: "key_table_wf h t" using key_ops_run_wf [OF _ run(1), of h t0] key_table_new_wf [OF start, of h] run(2) by auto
  show ?thesis
  proof (cases rule: table_claim_cases [OF wf key(1)])
    case (1 i)
    then show ?thesis by (intro exI [of _ "InTable i"] exI [of _ False] exI [of _ t]) simp
  next
    case 2
    then show ?thesis by (intro exI [of _ Overflow] exI [of _ False] exI [of _ t]) simp
  next
    case (3 i)
    define t' where "t' = put_slot t i ((kt_slots t ! i)\<lparr>sl_key := key\<rparr>)"
    have t': "table_find h t' key = Some i" "\<forall>k. k \<noteq> EMPTY \<longrightarrow> k \<noteq> key \<longrightarrow> table_find h t' k = table_find h t k"
      using take_wf [OF wf key 3(2,1,3)] unfolding t'_def by blast+
    have "\<not> (\<forall>i \<in> set (candidates h t key). key_at t i \<noteq> EMPTY)" using 3(1,3) by blast
    then have free: "(\<forall>i \<in> set (candidates h t key). key_at t i \<noteq> EMPTY) = False" by blast
    have "\<exists>j \<in> set (candidates h t key). key_at t j = EMPTY \<and> InTable i = InTable j \<and> table_find h t' key = Some j"
      using 3(1,3) t'(1) by blast
    then have "case table_find h t key of Some j \<Rightarrow> InTable i = InTable j \<and> \<not> True \<and> t' = t
      | None \<Rightarrow> if \<forall>i \<in> set (candidates h t key). key_at t i \<noteq> EMPTY then InTable i = Overflow \<and> \<not> True \<and> t' = t
          else True \<and> (\<exists>j \<in> set (candidates h t key). key_at t j = EMPTY \<and> InTable i = InTable j \<and> table_find h t' key = Some j)"
      unfolding 3(2) option.case free if_False by blast
    with 3(4) [folded t'_def] t'(2) show ?thesis by (intro exI conjI)
  qed
qed

definition example_key_table :: key_table where
  "example_key_table = the (key_table_new 1 example_quota 0)"

lemma example_key_table: "key_table_new 1 example_quota 0 = Some example_key_table"
proof -
  obtain w where "pack example_quota = Some w" using unpack_pack_wf [OF example_quota_wf] by blast
  then show ?thesis
    by (simp add: example_key_table_def key_table_new_def slot_new_def atomic_new_def Let_def)
qed

theorem key_table_claims_witness:
  "\<exists>r taken t. table_claim example_hashes example_key_table 42 = Some (r, taken, t) \<and>
    table_find example_hashes t 7 = table_find example_hashes example_key_table 7"
  using key_table_claims [OF example_quota_wf example_key_table, of "[]" example_hashes example_key_table 42]
  by (auto simp: EMPTY_def BUSY_def)

text \<open>
  Freeing a slot. It never panics, frees the slot exactly if it still holds the key, and leaves it as a slot just
  made with the quota given: no debt, no count, no class, no shadow of the key before. Every other key stays where it is.
\<close>

theorem key_table_releases:
  assumes start: "quota_wf q" "key_table_new n q seed = Some t0" and run: "list_all key_op_ok ops" "key_ops_run h t0 ops = Some t"
    and key: "key \<noteq> EMPTY" "quota_wf q'" "i < table_capacity t"
  shows "\<exists>t'. table_release t i key q' = Some (key_at t i = key, t') \<and>
    (if key_at t i = key then table_find h t' key = None \<and> slot_new q' = Some (kt_slots t' ! i) else t' = t) \<and>
    (\<forall>k. k \<noteq> EMPTY \<longrightarrow> k \<noteq> key \<longrightarrow> table_find h t' k = table_find h t k)"
proof -
  have wf: "key_table_wf h t" using key_ops_run_wf [OF _ run(1), of h t0] key_table_new_wf [OF start, of h] run(2) by auto
  show ?thesis using release_spec [OF wf key(1,2), of i] key(3) by (auto simp: table_capacity_def)
qed

theorem key_table_releases_witness:
  "\<exists>t. table_release example_key_table 0 42 example_quota = Some (key_at example_key_table 0 = 42, t)"
proof -
  have "0 < table_capacity example_key_table"
    using key_table_new_wf [OF example_quota_wf example_key_table, of example_hashes]
    by (auto simp: table_capacity_def key_table_wf_def BUCKET_def)
  then show ?thesis
    using key_table_releases [OF example_quota_wf example_key_table, of "[]" example_hashes example_key_table 42 example_quota 0]
      example_quota_wf by (auto simp: EMPTY_def)
qed

text \<open>
  Attempts and denials share one word. Counted in any order, fewer than \<open>2 ^ 32\<close> of each since the last tick, they are
  taken apart exactly, with the shadow's, and the slot is left at none.
\<close>

theorem counts_taken_apart:
  assumes "count_list ops CountAttempt < 2 ^ 32" "count_list ops CountDenial < 2 ^ 32" "sl_counts s = 0" "sl_shadow_denials s = 0"
  shows "take_counts (fold count_step ops s) =
    (\<lparr>t_attempts = of_nat (count_list ops CountAttempt), t_denials = of_nat (count_list ops CountDenial),
      t_shadow_denials = of_nat (count_list ops CountShadowDenial)\<rparr>, s)"
proof -
  have rest: "(fold count_step ops s)\<lparr>sl_counts := c, sl_shadow_denials := d\<rparr> = s\<lparr>sl_counts := c, sl_shadow_denials := d\<rparr>" for c d
  proof (induction ops arbitrary: s)
    case (Cons op ops)
    then show ?case
      by (cases op) (simp_all add: count_attempt_def count_denial_def count_shadow_denial_def)
  qed simp
  have "s\<lparr>sl_counts := 0, sl_shadow_denials := 0\<rparr> = s" using assms(3,4) by (cases s) simp
  then show ?thesis using fold_counts [of ops s] split_counts [OF assms(1,2)] rest [of 0 0] assms(3,4)
    by (simp add: take_counts_def)
qed

theorem counts_taken_apart_witness:
  "fst (take_counts (fold count_step [CountAttempt, CountDenial, CountAttempt, CountShadowDenial]
     \<lparr>sl_key = 7, sl_gcra = undefined, sl_counts = 0, sl_class = 0, sl_shadow = shadow_new, sl_shadow_denials = 0\<rparr>)) =
   \<lparr>t_attempts = 2, t_denials = 1, t_shadow_denials = 1\<rparr>"
  by (subst counts_taken_apart) simp_all

end
