(* ===== verification/Key_Table_Race.thy ===== *)
theory Key_Table_Race
  imports Key_Table_Contract
begin

text \<open>
  \<open>KeyTable::claim\<close> and \<open>release\<close> (\<open>rateguard/src/table.rs\<close>) run by many threads at once: each access to
  a key word is a step, the steps of the calls interleave. The state keeps the history of each key word. A load in
  front of \<open>claim\<close>'s fence may return any value of the history, as relaxed and acquire loads may; one behind the
  fence no value older than a claim that had passed its own fence by then, which is what two sequentially consistent
  fences promise. Compare-and-swap acts on the last value. The other fields of a slot are left out here:
  \<open>Gcra_Atomic\<close> has them.
\<close>

section \<open>The calls in progress\<close>

datatype claim_call =
    Looking u64 nat
  | CountingSecond u64 nat nat
  | CountingFirst u64 nat nat nat
  | Taking u64 "nat list"
  | Swapping u64 nat "nat list"
  | Fencing u64 nat nat
  | Settling u64 nat nat nat bool
  | Dropping u64 nat nat nat
  | Quitting u64 nat nat
  | Freeing nat claim_call
  | Returned u64 slot_ref bool
  | Releasing u64 nat
  | Released bool
  | Idle

text \<open>
  The values the key word of each slot has held, the last one first; how many of them are sure to be seen by who
  passes the fence next; how many each call is sure to see since it passed the fence; and the calls. A load in front
  of the fence may return any value the word has held; one behind it, any value not older than the latest claim that
  passed the fence before. Exchanges act on the last value.
\<close>

record race =
  rc_words :: "nat \<Rightarrow> u64 list"
  rc_fenced :: "nat \<Rightarrow> nat"
  rc_synced :: "nat \<Rightarrow> nat \<Rightarrow> nat"
  rc_calls :: "nat \<Rightarrow> claim_call"

abbreviation now_at :: "race \<Rightarrow> nat \<Rightarrow> u64" where
  "now_at s i \<equiv> hd (rc_words s i)"

abbreviation seen_at :: "race \<Rightarrow> nat \<Rightarrow> u64 set" where
  "seen_at s i \<equiv> set (rc_words s i)"

definition loads :: "race \<Rightarrow> nat \<Rightarrow> nat \<Rightarrow> u64 set" where
  "loads s c i = insert (now_at s i) (set (take (Suc (length (rc_words s i)) - rc_synced s c i) (rc_words s i)))"

definition go_on :: "race \<Rightarrow> nat \<Rightarrow> claim_call \<Rightarrow> race" where
  "go_on s c p = s\<lparr>rc_calls := (rc_calls s)(c := p)\<rparr>"

definition write_key :: "race \<Rightarrow> nat \<Rightarrow> u64 \<Rightarrow> race" where
  "write_key s i v = s\<lparr>rc_words := (rc_words s)(i := v # rc_words s i)\<rparr>"

definition pass_fence :: "race \<Rightarrow> nat \<Rightarrow> nat \<Rightarrow> nat \<Rightarrow> race" where
  "pass_fence s c i n = s\<lparr>rc_fenced := (rc_fenced s)(i := max (rc_fenced s i) n),
     rc_synced := (rc_synced s)(c := (rc_fenced s)(i := max (rc_fenced s i) n))\<rparr>"

definition taken_one :: "u64 \<Rightarrow> nat" where
  "taken_one v = (if v \<noteq> EMPTY then 1 else 0)"

definition take_order :: "hashes \<Rightarrow> key_table \<Rightarrow> u64 \<Rightarrow> nat \<Rightarrow> nat \<Rightarrow> nat list" where
  "take_order h t key in_second in_first =
     (let (first, second) = buckets_of h t key
      in concat (map bucket_slots (if in_second < in_first then [second, first] else [first, second])))"

inductive kstep :: "hashes \<Rightarrow> key_table \<Rightarrow> race \<Rightarrow> race \<Rightarrow> bool" for h t where
  look_found: "rc_calls s c = Looking key n \<Longrightarrow> n < length (candidates h t key) \<Longrightarrow>
    key \<in> seen_at s (candidates h t key ! n) \<Longrightarrow>
    kstep h t s (go_on s c (Returned key (InTable (candidates h t key ! n)) False))"
| look_next: "rc_calls s c = Looking key n \<Longrightarrow> n < length (candidates h t key) \<Longrightarrow>
    v \<in> seen_at s (candidates h t key ! n) \<Longrightarrow> v \<noteq> key \<Longrightarrow> kstep h t s (go_on s c (Looking key (Suc n)))"
| look_done: "rc_calls s c = Looking key n \<Longrightarrow> n = length (candidates h t key) \<Longrightarrow>
    kstep h t s (go_on s c (CountingSecond key 0 0))"
| count_second: "rc_calls s c = CountingSecond key n m \<Longrightarrow> n < BUCKET \<Longrightarrow>
    v \<in> seen_at s (bucket_slots (snd (buckets_of h t key)) ! n) \<Longrightarrow>
    kstep h t s (go_on s c (CountingSecond key (Suc n) (m + taken_one v)))"
| count_second_done: "rc_calls s c = CountingSecond key BUCKET m \<Longrightarrow> kstep h t s (go_on s c (CountingFirst key 0 m 0))"
| count_first: "rc_calls s c = CountingFirst key n m k \<Longrightarrow> n < BUCKET \<Longrightarrow>
    v \<in> seen_at s (bucket_slots (fst (buckets_of h t key)) ! n) \<Longrightarrow>
    kstep h t s (go_on s c (CountingFirst key (Suc n) m (k + taken_one v)))"
| count_first_done: "rc_calls s c = CountingFirst key BUCKET m k \<Longrightarrow>
    kstep h t s (go_on s c (Taking key (take_order h t key m k)))"
| take_skip: "rc_calls s c = Taking key (i # order) \<Longrightarrow> v \<in> seen_at s i \<Longrightarrow> v \<noteq> EMPTY \<Longrightarrow>
    kstep h t s (go_on s c (Taking key order))"
| take_try: "rc_calls s c = Taking key (i # order) \<Longrightarrow> EMPTY \<in> seen_at s i \<Longrightarrow>
    kstep h t s (go_on s c (Swapping key i order))"
| take_none: "rc_calls s c = Taking key [] \<Longrightarrow> kstep h t s (go_on s c (Returned key Overflow False))"
| swap_won: "rc_calls s c = Swapping key i order \<Longrightarrow> now_at s i = EMPTY \<Longrightarrow>
    kstep h t s (go_on (write_key s i key) c (Fencing key i (Suc (length (rc_words s i)))))"
| swap_lost: "rc_calls s c = Swapping key i order \<Longrightarrow> now_at s i \<noteq> EMPTY \<Longrightarrow>
    kstep h t s (go_on s c (Taking key order))"
| fence: "rc_calls s c = Fencing key i n \<Longrightarrow> kstep h t s (go_on (pass_fence s c i n) c (Settling key i 0 i False))"
| settle_self: "rc_calls s c = Settling key mine n winner seen \<Longrightarrow> n < length (candidates h t key) \<Longrightarrow>
    candidates h t key ! n = mine \<Longrightarrow> kstep h t s (go_on s c (Settling key mine (Suc n) winner True))"
| settle_other: "rc_calls s c = Settling key mine n winner seen \<Longrightarrow> n < length (candidates h t key) \<Longrightarrow>
    candidates h t key ! n \<noteq> mine \<Longrightarrow> v \<in> loads s c (candidates h t key ! n) \<Longrightarrow> v \<noteq> key \<Longrightarrow>
    kstep h t s (go_on s c (Settling key mine (Suc n) winner seen))"
| settle_later: "rc_calls s c = Settling key mine n winner True \<Longrightarrow> n < length (candidates h t key) \<Longrightarrow>
    candidates h t key ! n \<noteq> mine \<Longrightarrow> key \<in> loads s c (candidates h t key ! n) \<Longrightarrow>
    kstep h t s (go_on s c (Dropping key mine n winner))"
| settle_earlier: "rc_calls s c = Settling key mine n winner False \<Longrightarrow> n < length (candidates h t key) \<Longrightarrow>
    candidates h t key ! n \<noteq> mine \<Longrightarrow> key \<in> loads s c (candidates h t key ! n) \<Longrightarrow>
    kstep h t s (go_on s c (Settling key mine (Suc n)
      (if winner = mine then candidates h t key ! n else winner) False))"
| drop_won: "rc_calls s c = Dropping key mine n winner \<Longrightarrow> now_at s (candidates h t key ! n) = key \<Longrightarrow>
    kstep h t s (go_on (write_key s (candidates h t key ! n) BUSY) c
      (Freeing (candidates h t key ! n) (Settling key mine (Suc n) winner True)))"
| drop_lost: "rc_calls s c = Dropping key mine n winner \<Longrightarrow> now_at s (candidates h t key ! n) \<noteq> key \<Longrightarrow>
    kstep h t s (go_on s c (Settling key mine (Suc n) winner True))"
| settle_won: "rc_calls s c = Settling key mine n mine seen \<Longrightarrow> n = length (candidates h t key) \<Longrightarrow>
    kstep h t s (go_on s c (Returned key (InTable mine) True))"
| settle_lost: "rc_calls s c = Settling key mine n winner seen \<Longrightarrow> n = length (candidates h t key) \<Longrightarrow>
    winner \<noteq> mine \<Longrightarrow> kstep h t s (go_on s c (Quitting key mine winner))"
| quit_won: "rc_calls s c = Quitting key mine winner \<Longrightarrow> now_at s mine = key \<Longrightarrow>
    kstep h t s (go_on (write_key s mine BUSY) c (Freeing mine (Returned key (InTable winner) False)))"
| quit_lost: "rc_calls s c = Quitting key mine winner \<Longrightarrow> now_at s mine \<noteq> key \<Longrightarrow>
    kstep h t s (go_on s c (Returned key (InTable winner) False))"
| free: "rc_calls s c = Freeing i p \<Longrightarrow> kstep h t s (go_on (write_key s i EMPTY) c p)"
| release_won: "rc_calls s c = Releasing key i \<Longrightarrow> now_at s i = key \<Longrightarrow>
    kstep h t s (go_on (write_key s i BUSY) c (Freeing i (Released True)))"
| release_lost: "rc_calls s c = Releasing key i \<Longrightarrow> now_at s i \<noteq> key \<Longrightarrow> kstep h t s (go_on s c (Released False))"

lemma race_simps [simp]:
  "rc_words (go_on s c p) = rc_words s" "rc_calls (go_on s c p) = (rc_calls s)(c := p)"
  "rc_calls (write_key s i v) = rc_calls s" "rc_words (write_key s i v) = (rc_words s)(i := v # rc_words s i)"
  "rc_fenced (go_on s c p) = rc_fenced s" "rc_synced (go_on s c p) = rc_synced s"
  "rc_fenced (write_key s i v) = rc_fenced s" "rc_synced (write_key s i v) = rc_synced s"
  "rc_words (pass_fence s c i n) = rc_words s" "rc_calls (pass_fence s c i n) = rc_calls s"
  "rc_fenced (pass_fence s c i n) = (rc_fenced s)(i := max (rc_fenced s i) n)"
  "rc_synced (pass_fence s c i n) = (rc_synced s)(c := (rc_fenced s)(i := max (rc_fenced s i) n))"
  by (simp_all add: go_on_def write_key_def pass_fence_def)

section \<open>The place of a slot among the candidates\<close>

definition place :: "hashes \<Rightarrow> key_table \<Rightarrow> u64 \<Rightarrow> nat \<Rightarrow> nat" where
  "place h t key i = length (takeWhile (\<lambda>j. j \<noteq> i) (candidates h t key))"

lemma length_takeWhile_mem: "i \<in> set xs \<Longrightarrow> length (takeWhile (\<lambda>j. j \<noteq> i) xs) < length xs"
  by (induction xs) auto

lemma place_mem:
  assumes "i \<in> set (candidates h t key)"
  shows "candidates h t key ! place h t key i = i" "place h t key i < length (candidates h t key)"
proof -
  have "place h t key i < length (candidates h t key)"
    unfolding place_def using assms by (rule length_takeWhile_mem)
  then show "place h t key i < length (candidates h t key)" "candidates h t key ! place h t key i = i"
    unfolding place_def using nth_length_takeWhile [of "\<lambda>j. j \<noteq> i" "candidates h t key"] by simp_all
qed

lemma place_nth: "n < length (candidates h t key) \<Longrightarrow> place h t key (candidates h t key ! n) = n"
  using place_mem [of "candidates h t key ! n" h t key] candidates_distinct [of h t key]
  by (simp add: nth_eq_iff_index_eq)

text \<open>What the calls keep of themselves.\<close>

fun call_ok :: "hashes \<Rightarrow> key_table \<Rightarrow> claim_call \<Rightarrow> bool" where
  "call_ok h t (Looking key n) = (key \<noteq> EMPTY \<and> key \<noteq> BUSY \<and> n \<le> length (candidates h t key))"
| "call_ok h t (CountingSecond key n m) = (key \<noteq> EMPTY \<and> key \<noteq> BUSY \<and> n \<le> BUCKET)"
| "call_ok h t (CountingFirst key n m k) = (key \<noteq> EMPTY \<and> key \<noteq> BUSY \<and> n \<le> BUCKET)"
| "call_ok h t (Taking key order) = (key \<noteq> EMPTY \<and> key \<noteq> BUSY \<and> set order \<subseteq> set (candidates h t key))"
| "call_ok h t (Swapping key i order) =
     (key \<noteq> EMPTY \<and> key \<noteq> BUSY \<and> i \<in> set (candidates h t key) \<and> set order \<subseteq> set (candidates h t key))"
| "call_ok h t (Fencing key i n) = (key \<noteq> EMPTY \<and> key \<noteq> BUSY \<and> i \<in> set (candidates h t key))"
| "call_ok h t (Settling key mine n winner seen) = (key \<noteq> EMPTY \<and> key \<noteq> BUSY \<and> mine \<in> set (candidates h t key) \<and>
     n \<le> length (candidates h t key) \<and> (seen \<longleftrightarrow> place h t key mine < n) \<and> (winner \<noteq> mine \<longrightarrow> place h t key winner < place h t key mine))"
| "call_ok h t (Dropping key mine n winner) = (key \<noteq> EMPTY \<and> key \<noteq> BUSY \<and> mine \<in> set (candidates h t key) \<and>
     n < length (candidates h t key) \<and> place h t key mine < n \<and> (winner \<noteq> mine \<longrightarrow> place h t key winner < place h t key mine))"
| "call_ok h t (Quitting key mine winner) = (key \<noteq> EMPTY \<and> key \<noteq> BUSY \<and> mine \<in> set (candidates h t key) \<and>
     place h t key winner < place h t key mine)"
| "call_ok h t (Freeing i p) = call_ok h t p"
| "call_ok h t (Returned key r taken) = (key \<noteq> EMPTY \<and> key \<noteq> BUSY)"
| "call_ok h t (Releasing key i) = (key \<noteq> EMPTY \<and> key \<noteq> BUSY)"
| "call_ok h t (Released b) = True"
| "call_ok h t Idle = True"

definition calls_ok :: "hashes \<Rightarrow> key_table \<Rightarrow> race \<Rightarrow> bool" where
  "calls_ok h t s = (\<forall>c. call_ok h t (rc_calls s c))"

lemma calls_ok_go_on: "calls_ok h t s \<Longrightarrow> call_ok h t p \<Longrightarrow> calls_ok h t (go_on s c p)"
  "calls_ok h t (write_key s i v) = calls_ok h t s" "calls_ok h t (pass_fence s c i n) = calls_ok h t s"
  by (simp_all add: calls_ok_def)

lemma take_order_set: "set (take_order h t key m k) = set (candidates h t key)"
proof -
  obtain first second where b: "buckets_of h t key = (first, second)" by force
  show ?thesis using order_candidates [OF b] by (simp only: take_order_def b Let_def prod.case)
qed

lemma call_at: "calls_ok h t s \<Longrightarrow> rc_calls s c = p \<Longrightarrow> call_ok h t p"
  by (auto simp: calls_ok_def)

lemma kstep_calls_ok:
  assumes "kstep h t s s'" "calls_ok h t s"
  shows "calls_ok h t s'"
proof -
  note ok = call_at [OF assms(2)]
  show ?thesis
    using assms(1)
  proof cases
    case (settle_self c key mine n winner seen)
    then show ?thesis using ok [OF settle_self(2)] place_nth [of n h t key] assms(2) by (auto intro!: calls_ok_go_on)
  next
    case (settle_other c key mine n winner seen)
    have "place h t key mine \<noteq> n" if "mine \<in> set (candidates h t key)" using place_mem [OF that] settle_other by auto
    then show ?thesis using settle_other(1,3) ok [OF settle_other(2)] assms(2) by (auto intro!: calls_ok_go_on)
  next
    case (settle_earlier c key mine n winner)
    have "place h t key mine \<noteq> n" if "mine \<in> set (candidates h t key)" using place_mem [OF that] settle_earlier by auto
    then show ?thesis using settle_earlier(1,3) ok [OF settle_earlier(2)] place_nth [of n h t key] assms(2)
      by (auto intro!: calls_ok_go_on)
  qed (frule ok, simp add: calls_ok_go_on assms(2) take_order_set)+
qed

section \<open>Two copies of a key: one is on its way out\<close>

definition holds_copy :: "hashes \<Rightarrow> key_table \<Rightarrow> race \<Rightarrow> u64 \<Rightarrow> nat \<Rightarrow> bool" where
  "holds_copy h t s key i = (key \<noteq> EMPTY \<and> key \<noteq> BUSY \<and> i \<in> set (candidates h t key) \<and> now_at s i = key)"

text \<open>Call \<open>c\<close> passed the fence after whoever last took slot \<open>i\<close>: it sees the slot as it is.\<close>

definition knows :: "race \<Rightarrow> nat \<Rightarrow> nat \<Rightarrow> bool" where
  "knows s c i = (length (rc_words s i) \<le> rc_synced s c i)"

lemma knows_loads: "knows s c i \<Longrightarrow> v \<in> loads s c i \<Longrightarrow> v = now_at s i"
  by (cases "rc_words s i"; cases "rc_synced s c i - length (rc_words s i)")
    (auto simp: knows_def loads_def take_Cons' split: if_splits)

text \<open>
  Of two slots that hold one key, \<open>a\<close> before \<open>b\<close> among its candidates, some call took one of them and has yet to
  come to the other, which it will see, or knows of it and gives the later one back.
\<close>

fun will_settle :: "hashes \<Rightarrow> key_table \<Rightarrow> race \<Rightarrow> nat \<Rightarrow> u64 \<Rightarrow> nat \<Rightarrow> nat \<Rightarrow> claim_call \<Rightarrow> bool" where
  "will_settle h t s c key a b (Fencing key' mine n) = (key' = key \<and> (mine = a \<or> mine = b))"
| "will_settle h t s c key a b (Settling key' mine n winner seen) = (key' = key \<and>
     (mine = a \<and> n \<le> place h t key b \<and> knows s c b \<or>
      mine = b \<and> (winner \<noteq> mine \<or> n \<le> place h t key a \<and> knows s c a)))"
| "will_settle h t s c key a b (Dropping key' mine n winner) = (key' = key \<and>
     (mine = a \<and> n \<le> place h t key b \<and> knows s c b \<or> mine = b \<and> winner \<noteq> mine))"
| "will_settle h t s c key a b (Quitting key' mine winner) = (key' = key \<and> mine = b)"
| "will_settle h t s c key a b (Freeing i p) = will_settle h t s c key a b p"
| "will_settle h t s c key a b p = False"

definition copies_settled :: "hashes \<Rightarrow> key_table \<Rightarrow> race \<Rightarrow> bool" where
  "copies_settled h t s = (\<forall>key a b. holds_copy h t s key a \<longrightarrow> holds_copy h t s key b \<longrightarrow> place h t key a < place h t key b \<longrightarrow>
     (\<exists>c. will_settle h t s c key a b (rc_calls s c)))"

lemma copies_settledD:
  assumes "copies_settled h t s" "holds_copy h t s key a" "holds_copy h t s key b" "place h t key a < place h t key b"
  obtains c where "will_settle h t s c key a b (rc_calls s c)"
  using assms unfolding copies_settled_def by blast

text \<open>Each copy was taken by a call that passed the fence, or is in front of it.\<close>

definition copies_fenced :: "hashes \<Rightarrow> key_table \<Rightarrow> race \<Rightarrow> bool" where
  "copies_fenced h t s = (\<forall>key i. holds_copy h t s key i \<longrightarrow> length (rc_words s i) \<le> rc_fenced s i \<or>
     (\<exists>c. rc_calls s c = Fencing key i (length (rc_words s i))))"

lemma holds_go_on [simp]: "holds_copy h t (go_on s c p) key i = holds_copy h t s key i"
  "holds_copy h t (pass_fence s c j n) key i = holds_copy h t s key i"
  by (simp_all add: holds_copy_def)

lemma holds_write [simp]:
  "holds_copy h t (write_key s j v) key i = (if i = j then key = v \<and> key \<noteq> EMPTY \<and> key \<noteq> BUSY \<and> i \<in> set (candidates h t key)
     else holds_copy h t s key i)"
  by (auto simp: holds_copy_def)

lemma knows_go_on [simp]: "knows (go_on s c' p) c i = knows s c i"
  by (simp add: knows_def)

lemma knows_write: "i \<noteq> j \<Longrightarrow> knows (write_key s j v) c i = knows s c i"
  by (simp add: knows_def)

lemma knows_fence: "c \<noteq> c' \<Longrightarrow> knows (pass_fence s c' j n) c i = knows s c i"
  by (simp add: knows_def)

lemma will_settle_cong:
  "knows s' c' a = knows s c a \<Longrightarrow> knows s' c' b = knows s c b \<Longrightarrow>
    will_settle h t s' c' key a b p = will_settle h t s c key a b p"
  by (induction p) simp_all

lemma settled_go_on:
  assumes inv: "copies_settled h t s"
    and keep: "\<And>key a b. holds_copy h t s key a \<Longrightarrow> holds_copy h t s key b \<Longrightarrow> place h t key a < place h t key b \<Longrightarrow>
      will_settle h t s c key a b (rc_calls s c) \<Longrightarrow> will_settle h t s c key a b p"
  shows "copies_settled h t (go_on s c p)"
  unfolding copies_settled_def holds_go_on
proof (intro allI impI)
  fix key a b
  assume ab: "holds_copy h t s key a" "holds_copy h t s key b" "place h t key a < place h t key b"
  then obtain c' where c': "will_settle h t s c' key a b (rc_calls s c')" by (rule copies_settledD [OF inv])
  have "will_settle h t s c' key a b (if c' = c then p else rc_calls s c')" using keep ab c' by auto
  then have "will_settle h t (go_on s c p) c' key a b (rc_calls (go_on s c p) c')"
    by (subst will_settle_cong [of _ c' a s c' b]) simp_all
  then show "\<exists>c'. will_settle h t (go_on s c p) c' key a b (rc_calls (go_on s c p) c')" ..
qed

lemma settled_write:
  assumes inv: "copies_settled h t s" and v: "v = EMPTY \<or> v = BUSY"
  shows "copies_settled h t (write_key s j v)"
  unfolding copies_settled_def
proof (intro allI impI)
  fix key a b
  assume ab: "holds_copy h t (write_key s j v) key a" "holds_copy h t (write_key s j v) key b"
    "place h t key a < place h t key b"
  then have "a \<noteq> j" "b \<noteq> j" "holds_copy h t s key a" "holds_copy h t s key b" using v by (auto split: if_splits)
  then obtain c where "will_settle h t s c key a b (rc_calls s c)" using copies_settledD [OF inv _ _ ab(3)] by blast
  then have "will_settle h t (write_key s j v) c key a b (rc_calls (write_key s j v) c)"
    using \<open>a \<noteq> j\<close> \<open>b \<noteq> j\<close> by (subst will_settle_cong [of _ c a s c b]) (simp_all add: knows_write)
  then show "\<exists>c. will_settle h t (write_key s j v) c key a b (rc_calls (write_key s j v) c)" ..
qed

text \<open>Taking a slot: whoever took it is in front of the fence.\<close>

lemma settled_take:
  assumes inv: "copies_settled h t s" and c: "rc_calls s c = Swapping key i order" and i: "now_at s i = EMPTY"
  shows "copies_settled h t (go_on (write_key s i key) c (Fencing key i n))" (is "copies_settled h t ?s")
  unfolding copies_settled_def
proof (intro allI impI)
  fix k a b
  assume ab: "holds_copy h t ?s k a" "holds_copy h t ?s k b" and less: "place h t k a < place h t k b"
  show "\<exists>c. will_settle h t ?s c k a b (rc_calls ?s c)"
  proof (cases "k = key \<and> (a = i \<or> b = i)")
    case True
    then have "will_settle h t ?s c k a b (rc_calls ?s c)" by auto
    then show ?thesis ..
  next
    case False
    have "k = key" if "a = i" using ab(1) that by simp
    moreover have "k = key" if "b = i" using ab(2) that by simp
    ultimately have ne: "a \<noteq> i" "b \<noteq> i" using False by blast+
    have "holds_copy h t s k a" "holds_copy h t s k b" using ab ne by simp_all
    then obtain c' where c': "will_settle h t s c' k a b (rc_calls s c')" by (rule copies_settledD [OF inv _ _ less])
    then have "c' \<noteq> c" using c by auto
    then have "will_settle h t ?s c' k a b (rc_calls ?s c')"
      using c' ne by (subst will_settle_cong [of _ c' a s c' b]) (simp_all add: knows_write)
    then show ?thesis ..
  qed
qed

text \<open>Passing the fence: the other copy was fenced before, or its taker is in front of the fence still.\<close>

lemma settled_fence:
  assumes inv: "copies_settled h t s" and fenced: "copies_fenced h t s" and c: "rc_calls s c = Fencing key i n"
  shows "copies_settled h t (go_on (pass_fence s c i n) c (Settling key i 0 i False))" (is "copies_settled h t ?s")
  unfolding copies_settled_def
proof (intro allI impI)
  fix k a b
  assume ab: "holds_copy h t ?s k a" "holds_copy h t ?s k b" and less: "place h t k a < place h t k b"
  then have ab': "holds_copy h t s k a" "holds_copy h t s k b" by simp_all
  obtain c' where c': "will_settle h t s c' k a b (rc_calls s c')" by (rule copies_settledD [OF inv ab' less])
  have others: "will_settle h t ?s c' k a b (rc_calls ?s c')" if "c' \<noteq> c" "will_settle h t s c' k a b (rc_calls s c')" for c'
    using that by (subst will_settle_cong [of _ c' a s c' b]) (simp_all add: knows_fence)
  have passed: "knows ?s c j" if "length (rc_words s j) \<le> rc_fenced s j" for j
    using that by (auto simp: knows_def)
  have other: "knows ?s c j \<or> (\<exists>c'. c' \<noteq> c \<and> rc_calls s c' = Fencing k j (length (rc_words s j)))"
    if "holds_copy h t s k j" "j \<noteq> i" for j
    using fenced that passed c unfolding copies_fenced_def by (metis claim_call.inject(6))
  show "\<exists>c. will_settle h t ?s c k a b (rc_calls ?s c)"
  proof (cases "c' = c")
    case False
    then show ?thesis using others c' by blast
  next
    case True
    then have k: "key = k" "i = a \<or> i = b" using c' c by auto
    define j where "j = (if i = a then b else a)"
    have j: "j \<noteq> i" "holds_copy h t s k j" using k less ab' by (auto simp: j_def)
    from other [OF j(2,1)] show ?thesis
    proof
      assume "knows ?s c j"
      then have "will_settle h t ?s c k a b (rc_calls ?s c)" using k by (auto simp: j_def split: if_splits)
      then show ?thesis ..
    next
      assume "\<exists>c'. c' \<noteq> c \<and> rc_calls s c' = Fencing k j (length (rc_words s j))"
      then obtain c' where "c' \<noteq> c" "rc_calls s c' = Fencing k j (length (rc_words s j))" by blast
      then have "will_settle h t ?s c' k a b (rc_calls ?s c')" by (auto simp: j_def)
      then show ?thesis ..
    qed
  qed
qed

lemma fenced_go_on:
  assumes inv: "copies_fenced h t s" and c: "\<And>key i n. rc_calls s c \<noteq> Fencing key i n"
  shows "copies_fenced h t (go_on s c p)"
  unfolding copies_fenced_def holds_go_on race_simps
proof (intro allI impI)
  fix key i
  assume "holds_copy h t s key i"
  then consider "length (rc_words s i) \<le> rc_fenced s i" | c' where "rc_calls s c' = Fencing key i (length (rc_words s i))"
    using inv unfolding copies_fenced_def by blast
  then show "length (rc_words s i) \<le> rc_fenced s i \<or> (\<exists>c'. ((rc_calls s)(c := p)) c' = Fencing key i (length (rc_words s i)))"
  proof cases
    case 2
    then have "c' \<noteq> c" using c by auto
    then have "((rc_calls s)(c := p)) c' = Fencing key i (length (rc_words s i))" using 2 by simp
    then show ?thesis by blast
  qed simp
qed

lemma fenced_write:
  assumes inv: "copies_fenced h t s" and v: "v = EMPTY \<or> v = BUSY"
  shows "copies_fenced h t (write_key s j v)"
  unfolding copies_fenced_def
proof (intro allI impI)
  fix key i
  assume i: "holds_copy h t (write_key s j v) key i"
  then have "i \<noteq> j" using v by (auto split: if_splits)
  then show "length (rc_words (write_key s j v) i) \<le> rc_fenced (write_key s j v) i \<or>
    (\<exists>c. rc_calls (write_key s j v) c = Fencing key i (length (rc_words (write_key s j v) i)))"
    using inv i unfolding copies_fenced_def by simp
qed

lemma fenced_take:
  assumes inv: "copies_fenced h t s" and c: "rc_calls s c = Swapping key i order"
  shows "copies_fenced h t (go_on (write_key s i key) c (Fencing key i (Suc (length (rc_words s i)))))"
  unfolding copies_fenced_def holds_go_on race_simps
proof (intro allI impI)
  fix k j
  let ?calls = "(rc_calls s)(c := Fencing key i (Suc (length (rc_words s i))))"
  let ?words = "(rc_words s)(i := key # rc_words s i)"
  assume j: "holds_copy h t (write_key s i key) k j"
  show "length (?words j) \<le> rc_fenced s j \<or> (\<exists>c'. ?calls c' = Fencing k j (length (?words j)))"
  proof (cases "j = i")
    case True
    then have "?calls c = Fencing k j (length (?words j))" using j by simp
    then show ?thesis by blast
  next
    case False
    then consider "length (rc_words s j) \<le> rc_fenced s j" | c' where "rc_calls s c' = Fencing k j (length (rc_words s j))"
      using inv j unfolding copies_fenced_def by auto
    then show ?thesis
    proof cases
      case 2
      then have "?calls c' = Fencing k j (length (?words j))" using c False by auto
      then show ?thesis by blast
    qed (use False in simp)
  qed
qed

lemma fenced_fence:
  assumes inv: "copies_fenced h t s" and c: "rc_calls s c = Fencing key i n"
  shows "copies_fenced h t (go_on (pass_fence s c i n) c p)"
  unfolding copies_fenced_def holds_go_on race_simps
proof (intro allI impI)
  fix k j
  let ?calls = "(rc_calls s)(c := p)"
  let ?fenced = "(rc_fenced s)(i := max (rc_fenced s i) n)"
  assume "holds_copy h t s k j"
  then consider "length (rc_words s j) \<le> rc_fenced s j" | c' where "rc_calls s c' = Fencing k j (length (rc_words s j))"
    using inv unfolding copies_fenced_def by blast
  then show "length (rc_words s j) \<le> ?fenced j \<or> (\<exists>c'. ?calls c' = Fencing k j (length (rc_words s j)))"
  proof cases
    case 2
    show ?thesis
    proof (cases "c' = c")
      case True
      then show ?thesis using 2 c by simp
    next
      case False
      then have "?calls c' = Fencing k j (length (rc_words s j))" using 2 by simp
      then show ?thesis by blast
    qed
  qed auto
qed

lemma kstep_copies_fenced:
  assumes step: "kstep h t s s'" and inv: "copies_fenced h t s"
  shows "copies_fenced h t s'"
  using step
proof cases
  case swap_won
  then show ?thesis using fenced_take [OF inv] by simp
next
  case fence
  then show ?thesis using fenced_fence [OF inv] by simp
qed (simp_all add: fenced_go_on fenced_write inv)

text \<open>The calls that come to know of another copy, and those that give one back.\<close>

lemma holds_place:
  assumes "holds_copy h t s key i"
  shows "candidates h t key ! place h t key i = i"
  using assms place_mem [of i h t key] by (simp add: holds_copy_def)

lemma copy_seen: "holds_copy h t s key i \<Longrightarrow> knows s c i \<Longrightarrow> v \<in> loads s c (candidates h t key ! n) \<Longrightarrow> v \<noteq> key \<Longrightarrow>
    place h t key i \<noteq> n"
  using knows_loads [of s c i v] holds_place [of h t s key i] by (auto simp: holds_copy_def)

lemma kstep_copies_settled:
  assumes step: "kstep h t s s'" and ok: "calls_ok h t s" and fenced: "copies_fenced h t s" and inv: "copies_settled h t s"
  shows "copies_settled h t s'"
  using step
proof cases
  case (settle_self c key mine n winner seen)
  have p: "place h t key mine = n" using place_nth [of n h t key] settle_self by simp
  show ?thesis unfolding settle_self(1)
  proof (rule settled_go_on [OF inv])
    fix k a b
    assume "place h t k a < place h t k b" "will_settle h t s c k a b (rc_calls s c)"
    then show "will_settle h t s c k a b (Settling key mine (Suc n) winner True)"
      using p unfolding settle_self(2) by (auto simp: le_less Suc_le_eq)
  qed
next
  case (settle_other c key mine n winner seen v)
  show ?thesis unfolding settle_other(1)
  proof (rule settled_go_on [OF inv])
    fix k a b
    assume ab: "holds_copy h t s k a" "holds_copy h t s k b" and w: "will_settle h t s c k a b (rc_calls s c)"
    have k: "k = key" using w unfolding settle_other(2) by simp
    have "knows s c j \<Longrightarrow> holds_copy h t s k j \<Longrightarrow> n \<le> place h t key j \<Longrightarrow> Suc n \<le> place h t key j" for j
      using copy_seen [OF _ _ settle_other(5,6), of j] k by (auto simp: le_less)
    then show "will_settle h t s c k a b (Settling key mine (Suc n) winner seen)"
      using w ab k unfolding settle_other(2) by auto
  qed
next
  case (settle_later c key mine n winner)
  have p: "place h t key mine < n" using call_at [OF ok settle_later(2)] by simp
  show ?thesis unfolding settle_later(1)
  proof (rule settled_go_on [OF inv])
    fix k a b
    assume "place h t k a < place h t k b" "will_settle h t s c k a b (rc_calls s c)"
    then show "will_settle h t s c k a b (Dropping key mine n winner)"
      using p unfolding settle_later(2) by auto
  qed
next
  case (settle_earlier c key mine n winner)
  have p: "place h t key mine \<noteq> n" "\<not> place h t key mine < n"
    using call_at [OF ok settle_earlier(2)] place_mem [of mine h t key] settle_earlier(4) by auto
  let ?w = "if winner = mine then candidates h t key ! n else winner"
  show ?thesis unfolding settle_earlier(1)
  proof (rule settled_go_on [OF inv])
    fix k a b
    assume ab: "holds_copy h t s k a" and less: "place h t k a < place h t k b"
      and w: "will_settle h t s c k a b (rc_calls s c)"
    have k: "k = key" using w unfolding settle_earlier(2) by simp
    consider "mine = a" "n \<le> place h t key b" "knows s c b" | "mine = b" "winner \<noteq> mine"
      | "mine = b" "winner = mine" "n \<le> place h t key a"
      using w unfolding settle_earlier(2) by auto
    then show "will_settle h t s c k a b (Settling key mine (Suc n) ?w False)"
    proof cases
      case 1
      then have "Suc n \<le> place h t key b" using p less k by auto
      then show ?thesis using 1 k by simp
    next
      case 2
      then show ?thesis using k by simp
    next
      case 3
      then show ?thesis using k settle_earlier(4) by simp
    qed
  qed
next
  case (drop_won c key mine n winner)
  have n: "n < length (candidates h t key)" using call_at [OF ok drop_won(2)] by simp
  let ?j = "candidates h t key ! n"
  show ?thesis unfolding drop_won(1)
  proof (rule settled_go_on [OF settled_write [OF inv]])
    fix k a b
    assume ab: "holds_copy h t (write_key s ?j BUSY) k b"
      and w: "will_settle h t (write_key s ?j BUSY) c k a b (rc_calls (write_key s ?j BUSY) c)"
    have k: "k = key" using w drop_won(2) by simp
    have "place h t key b \<noteq> n" using ab k holds_place [of h t s key b] by (auto split: if_splits)
    then show "will_settle h t (write_key s ?j BUSY) c k a b (Freeing ?j (Settling key mine (Suc n) winner True))"
      using w drop_won(2) by auto
  qed simp
next
  case (drop_lost c key mine n winner)
  show ?thesis unfolding drop_lost(1)
  proof (rule settled_go_on [OF inv])
    fix k a b
    assume ab: "holds_copy h t s k b" and w: "will_settle h t s c k a b (rc_calls s c)"
    have k: "k = key" using w drop_lost(2) by simp
    have "place h t key b \<noteq> n" using ab k holds_place [of h t s key b] drop_lost(3) by (auto simp: holds_copy_def)
    then show "will_settle h t s c k a b (Settling key mine (Suc n) winner True)"
      using w drop_lost(2) by auto
  qed
next
  case (settle_won c key mine n seen)
  have short: "\<not> n \<le> place h t key i" if "holds_copy h t s key i" for i
    using that place_mem(2) [of i h t key] settle_won(3) by (simp add: holds_copy_def)
  show ?thesis unfolding settle_won(1)
  proof (rule settled_go_on [OF inv])
    fix k a b
    assume ab: "holds_copy h t s k a" "holds_copy h t s k b" and w: "will_settle h t s c k a b (rc_calls s c)"
    then have "k = key" "n \<le> place h t key a \<or> n \<le> place h t key b" using settle_won(2) by auto
    then show "will_settle h t s c k a b (Returned key (InTable mine) True)"
      using ab short by blast
  qed
next
  case (settle_lost c key mine n winner seen)
  show ?thesis unfolding settle_lost(1)
  proof (rule settled_go_on [OF inv])
    fix k a b
    assume ab: "holds_copy h t s k b" and w: "will_settle h t s c k a b (rc_calls s c)"
    have "\<not> n \<le> place h t key b" if "k = key"
      using ab that place_mem(2) [of b h t key] settle_lost(3) by (auto simp: holds_copy_def)
    then show "will_settle h t s c k a b (Quitting key mine winner)" using w settle_lost(2) by auto
  qed
next
  case (quit_won c key mine winner)
  show ?thesis unfolding quit_won(1)
    by (rule settled_go_on [OF settled_write [OF inv]]) (use quit_won(2) in \<open>auto split: if_splits\<close>)
next
  case (quit_lost c key mine winner)
  show ?thesis unfolding quit_lost(1)
    by (rule settled_go_on [OF inv]) (use quit_lost in \<open>auto simp: holds_copy_def\<close>)
next
  case (swap_won c key i order)
  then show ?thesis using settled_take [OF inv] by simp
next
  case (fence c key i n)
  then show ?thesis using settled_fence [OF inv fenced] by simp
next
  case (free c i p)
  show ?thesis unfolding free(1)
    by (rule settled_go_on [OF settled_write [OF inv]]) (use free(2) in simp_all)
next
  case (release_won c key i)
  show ?thesis unfolding release_won(1)
    by (rule settled_go_on [OF settled_write [OF inv]]) (use release_won(2) in simp_all)
qed (rule ssubst, assumption, rule settled_go_on [OF inv], simp)+

section \<open>The first copy stays\<close>

text \<open>A slot being freed is nobody else's.\<close>

definition freeing_alone :: "race \<Rightarrow> bool" where
  "freeing_alone s = (\<forall>c i p. rc_calls s c = Freeing i p \<longrightarrow>
     now_at s i = BUSY \<and> (\<forall>c' p'. rc_calls s c' = Freeing i p' \<longrightarrow> c' = c))"

lemma freeing_aloneD:
  assumes "freeing_alone s" "rc_calls s c = Freeing i p"
  shows "now_at s i = BUSY" "rc_calls s c' = Freeing i p' \<Longrightarrow> c' = c"
  using assms unfolding freeing_alone_def by blast+

lemma freeing_go_on:
  assumes "freeing_alone s" "\<And>i q. p \<noteq> Freeing i q"
  shows "freeing_alone (go_on s c p)"
  using assms unfolding freeing_alone_def by (auto split: if_splits)

text \<open>A write over what is not \<open>BUSY\<close> meets nobody freeing.\<close>

lemma freeing_write:
  assumes "freeing_alone s" "now_at s i \<noteq> BUSY"
  shows "freeing_alone (write_key s i v)"
  using assms unfolding freeing_alone_def by auto

lemma freeing_begin:
  assumes inv: "freeing_alone s" and i: "now_at s i \<noteq> BUSY"
  shows "freeing_alone (go_on (write_key s i BUSY) c (Freeing i p))"
proof -
  have "rc_calls s c' \<noteq> Freeing i q" for c' q using freeing_aloneD(1) [OF inv] i by blast
  then show ?thesis using inv unfolding freeing_alone_def by (auto split: if_splits)
qed

lemma freeing_end:
  assumes inv: "freeing_alone s" and c: "rc_calls s c = Freeing i p" and p: "\<And>i q. p \<noteq> Freeing i q"
  shows "freeing_alone (go_on (write_key s i EMPTY) c p)"
proof -
  have "c' = c" if "rc_calls s c' = Freeing i q" for c' q using freeing_aloneD(2) [OF inv c that] .
  then show ?thesis using inv p unfolding freeing_alone_def by (auto split: if_splits)
qed

text \<open>The copies a call knows of have been copies.\<close>

fun knows_copies :: "race \<Rightarrow> u64 \<Rightarrow> claim_call \<Rightarrow> bool" where
  "knows_copies s key (Fencing k i n) = (k = key \<longrightarrow> key \<in> seen_at s i)"
| "knows_copies s key (Settling k mine n winner seen) = (k = key \<longrightarrow> key \<in> seen_at s mine \<and> key \<in> seen_at s winner)"
| "knows_copies s key (Dropping k mine n winner) = (k = key \<longrightarrow> key \<in> seen_at s mine \<and> key \<in> seen_at s winner)"
| "knows_copies s key (Quitting k mine winner) = (k = key \<longrightarrow> key \<in> seen_at s mine \<and> key \<in> seen_at s winner)"
| "knows_copies s key (Returned k (InTable i) b) = (k = key \<longrightarrow> key \<in> seen_at s i)"
| "knows_copies s key (Freeing i p) = (knows_copies s key p \<and> (\<forall>i q. p \<noteq> Freeing i q) \<and> (\<forall>i. p \<noteq> Releasing key i))"
| "knows_copies s key (Releasing k i) = (k \<noteq> key)"
| "knows_copies s key p = True"

definition all_know :: "race \<Rightarrow> u64 \<Rightarrow> bool" where
  "all_know s key = (\<forall>c. knows_copies s key (rc_calls s c))"

lemma knows_go_on_copies [simp]: "knows_copies (go_on s c p) key q = knows_copies s key q"
  "knows_copies (pass_fence s c i n) key q = knows_copies s key q"
  by (induction s key q rule: knows_copies.induct) simp_all

lemma knows_write_copies: "knows_copies s key q \<Longrightarrow> knows_copies (write_key s i v) key q"
  by (induction s key q rule: knows_copies.induct) auto

lemma know_go_on: "all_know s key \<Longrightarrow> knows_copies s key p \<Longrightarrow> all_know (go_on s c p) key"
  by (simp add: all_know_def)

lemma know_write: "all_know s key \<Longrightarrow> all_know (write_key s i v) key"
  by (simp add: all_know_def knows_write_copies)

lemma know_fence: "all_know s key \<Longrightarrow> all_know (pass_fence s c i n) key"
  by (simp add: all_know_def)

lemma know_at: "all_know s key \<Longrightarrow> rc_calls s c = p \<Longrightarrow> knows_copies s key p"
  by (auto simp: all_know_def)

definition words_some :: "race \<Rightarrow> bool" where
  "words_some s = (\<forall>i. rc_words s i \<noteq> [])"

lemma words_someD: "words_some s \<Longrightarrow> now_at s i \<in> seen_at s i"
  by (simp add: words_some_def)

lemma words_some_simps [simp]: "words_some (go_on s c p) = words_some s" "words_some (pass_fence s c i n) = words_some s"
  "words_some s \<Longrightarrow> words_some (write_key s i v)"
  by (simp_all add: words_some_def)

lemma kstep_words_some:
  assumes "kstep h t s s'" "words_some s"
  shows "words_some s'"
  using assms(1) by cases (simp_all add: assms(2))

lemma loads_seen: "words_some s \<Longrightarrow> v \<in> loads s c i \<Longrightarrow> v \<in> seen_at s i"
  using words_someD [of s i] set_take_subset [of _ "rc_words s i"] by (auto simp: loads_def)

lemma kstep_know:
  assumes step: "kstep h t s s'" and inv: "all_know s key" and some: "words_some s"
  shows "all_know s' key"
proof -
  note know = know_at [OF inv]
  show ?thesis
    using step
  proof cases
    case (look_found c k n)
    then show ?thesis using inv by (auto intro!: know_go_on)
  next
    case (settle_earlier c k mine n winner)
    then show ?thesis using know [OF settle_earlier(2)] loads_seen [OF some settle_earlier(5)] by (auto intro!: know_go_on inv)
  next
    case (swap_won c k i order)
    then show ?thesis by (auto intro!: know_go_on know_write inv)
  next
    case (fence c k i n)
    then show ?thesis using know [OF fence(2)] by (auto intro!: know_go_on know_fence inv)
  next
    case (drop_won c k mine n winner)
    have "knows_copies (write_key s (candidates h t k ! n) BUSY) key (Dropping k mine n winner)"
      by (rule knows_write_copies [OF know [OF drop_won(2)]])
    then show ?thesis unfolding drop_won(1) by (intro know_go_on know_write inv) simp
  next
    case (quit_won c k mine winner)
    have "knows_copies (write_key s mine BUSY) key (Quitting k mine winner)"
      by (rule knows_write_copies [OF know [OF quit_won(2)]])
    then show ?thesis unfolding quit_won(1) by (intro know_go_on know_write inv) simp
  next
    case (free c i p)
    have "knows_copies (write_key s i EMPTY) key (Freeing i p)"
      by (rule knows_write_copies [OF know [OF free(2)]])
    then show ?thesis unfolding free(1) by (intro know_go_on know_write inv) simp
  next
    case (release_won c k i)
    then show ?thesis by (auto intro!: know_go_on know_write inv)
  qed (drule know, simp add: know_go_on inv)+
qed

lemma kstep_freeing:
  assumes step: "kstep h t s s'" and ok: "calls_ok h t s" and inv: "freeing_alone s" and known: "all_know s key"
  shows "freeing_alone s'"
proof -
  note ok = call_at [OF ok] and known = know_at [OF known]
  show ?thesis
    using step
  proof cases
    case (swap_won c k i order)
    have "now_at s i \<noteq> BUSY" using swap_won(3) by (simp add: EMPTY_def BUSY_def)
    then show ?thesis unfolding swap_won(1) by (intro freeing_go_on freeing_write inv) simp_all
  next
    case (fence c k i n)
    have "freeing_alone (pass_fence s c i n)" using inv by (simp add: freeing_alone_def)
    then show ?thesis unfolding fence(1) by (intro freeing_go_on) simp_all
  next
    case (drop_won c k mine n winner)
    have "k \<noteq> BUSY" using ok [OF drop_won(2)] by simp
    then show ?thesis unfolding drop_won(1) by (intro freeing_begin [OF inv]) (simp add: drop_won(3))
  next
    case (quit_won c k mine winner)
    have "k \<noteq> BUSY" using ok [OF quit_won(2)] by simp
    then show ?thesis unfolding quit_won(1) by (intro freeing_begin [OF inv]) (simp add: quit_won(3))
  next
    case (free c i p)
    have "p \<noteq> Freeing j q" for j q using known [OF free(2)] by simp
    then show ?thesis unfolding free(1) by (rule freeing_end [OF inv free(2)])
  next
    case (release_won c k i)
    have "k \<noteq> BUSY" using ok [OF release_won(2)] by simp
    then show ?thesis unfolding release_won(1) by (intro freeing_begin [OF inv]) (simp add: release_won(3))
  qed (rule ssubst, assumption, rule freeing_go_on [OF inv], simp)+
qed

text \<open>Among the slots that ever held a key nobody releases, the first in the canonical order holds it still.\<close>

definition first_stays :: "hashes \<Rightarrow> key_table \<Rightarrow> u64 \<Rightarrow> race \<Rightarrow> bool" where
  "first_stays h t key s = (\<forall>i \<in> set (candidates h t key). key \<in> seen_at s i \<longrightarrow>
     (\<forall>j \<in> set (candidates h t key). key \<in> seen_at s j \<longrightarrow> place h t key i \<le> place h t key j) \<longrightarrow> now_at s i = key)"

lemma first_stays_write:
  assumes inv: "first_stays h t key s"
    and j: "v = key \<or> now_at s j \<noteq> key \<or> (\<exists>i \<in> set (candidates h t key). key \<in> seen_at s i \<and> place h t key i < place h t key j)"
  shows "first_stays h t key (write_key s j v)"
  unfolding first_stays_def
proof (intro ballI impI)
  fix i
  assume i: "i \<in> set (candidates h t key)" "key \<in> seen_at (write_key s j v) i"
    and least: "\<forall>k \<in> set (candidates h t key). key \<in> seen_at (write_key s j v) k \<longrightarrow> place h t key i \<le> place h t key k"
  have older: "key \<in> seen_at s k \<Longrightarrow> key \<in> seen_at (write_key s j v) k" for k by auto
  show "now_at (write_key s j v) i = key"
  proof (cases "i = j")
    case False
    then have "key \<in> seen_at s i" using i(2) by simp
    then have "now_at s i = key" using inv i(1) least older unfolding first_stays_def by blast
    then show ?thesis using False by simp
  next
    case True
    show ?thesis
    proof (cases "v = key")
      case False
      then have "key \<in> seen_at s i" using i(2) True by simp
      then have "now_at s i = key" using inv i(1) least older unfolding first_stays_def by blast
      then obtain k where "k \<in> set (candidates h t key)" "key \<in> seen_at s k" "place h t key k < place h t key i"
        using j False True by blast
      then show ?thesis using least older [of k] leD by blast
    qed (simp add: True)
  qed
qed

lemma first_stays_simps [simp]: "first_stays h t key (go_on s c p) = first_stays h t key s"
  "first_stays h t key (pass_fence s c i n) = first_stays h t key s"
  by (simp_all add: first_stays_def)

lemma place_less_mem: "place h t key i < place h t key j \<Longrightarrow> j \<in> set (candidates h t key) \<Longrightarrow> i \<in> set (candidates h t key)"
proof (rule ccontr)
  assume j: "place h t key i < place h t key j" "j \<in> set (candidates h t key)" and i: "i \<notin> set (candidates h t key)"
  have "takeWhile (\<lambda>j. j \<noteq> i) (candidates h t key) = candidates h t key" unfolding takeWhile_eq_all_conv using i by blast
  then have "place h t key i = length (candidates h t key)" unfolding place_def by (rule arg_cong)
  then show False using j place_mem(2) [of j h t key] by simp
qed

lemma kstep_first_stays:
  assumes step: "kstep h t s s'" and ok: "calls_ok h t s" and alone: "freeing_alone s" and known: "all_know s key"
    and key: "key \<noteq> EMPTY" "key \<noteq> BUSY" and inv: "first_stays h t key s"
  shows "first_stays h t key s'"
proof -
  note ok = call_at [OF ok] and known = know_at [OF known]
  show ?thesis
    using step
  proof cases
    case (swap_won c k i order)
    then show ?thesis using key by (simp add: first_stays_write inv)
  next
    case (drop_won c k mine n winner)
    have "place h t k mine < place h t k (candidates h t k ! n)" "mine \<in> set (candidates h t k)"
      using ok [OF drop_won(2)] place_nth [of n h t k] by simp_all
    then have "now_at s (candidates h t k ! n) \<noteq> key \<or>
        (\<exists>i \<in> set (candidates h t key). key \<in> seen_at s i \<and> place h t key i < place h t key (candidates h t k ! n))"
      using known [OF drop_won(2)] drop_won(3) by auto
    then show ?thesis unfolding drop_won(1) by (simp add: first_stays_write inv)
  next
    case (quit_won c k mine winner)
    have "place h t k winner < place h t k mine" "winner \<in> set (candidates h t k)"
      using ok [OF quit_won(2)] place_less_mem [of h t k winner mine] by simp_all
    then have "now_at s mine \<noteq> key \<or>
        (\<exists>i \<in> set (candidates h t key). key \<in> seen_at s i \<and> place h t key i < place h t key mine)"
      using known [OF quit_won(2)] quit_won(3) by auto
    then show ?thesis unfolding quit_won(1) by (simp add: first_stays_write inv)
  next
    case (free c i p)
    then show ?thesis using freeing_aloneD(1) [OF alone free(2)] key by (simp add: first_stays_write inv)
  next
    case (release_won c k i)
    then show ?thesis using known [OF release_won(2)] by (simp add: first_stays_write inv)
  qed (simp_all add: inv)
qed

text \<open>A key is only where it is looked for.\<close>

definition held_in_place :: "hashes \<Rightarrow> key_table \<Rightarrow> race \<Rightarrow> bool" where
  "held_in_place h t s = (\<forall>i key. key \<in> seen_at s i \<longrightarrow> key \<noteq> EMPTY \<longrightarrow> key \<noteq> BUSY \<longrightarrow> i \<in> set (candidates h t key))"

lemma held_simps [simp]: "held_in_place h t (go_on s c p) = held_in_place h t s"
  "held_in_place h t (pass_fence s c i n) = held_in_place h t s"
  by (simp_all add: held_in_place_def)

lemma held_write: "held_in_place h t s \<Longrightarrow> v \<noteq> EMPTY \<longrightarrow> v \<noteq> BUSY \<longrightarrow> i \<in> set (candidates h t v) \<Longrightarrow>
    held_in_place h t (write_key s i v)"
  by (auto simp: held_in_place_def)

lemma kstep_held:
  assumes step: "kstep h t s s'" and ok: "calls_ok h t s" and inv: "held_in_place h t s"
  shows "held_in_place h t s'"
  using step
proof cases
  case (swap_won c k i order)
  then show ?thesis using call_at [OF ok swap_won(2)] by (simp add: held_write inv)
qed (simp_all add: inv held_write)

section \<open>Every run\<close>

fun call_begins :: "claim_call \<Rightarrow> bool" where
  "call_begins (Looking key n) = (n = 0 \<and> key \<noteq> EMPTY \<and> key \<noteq> BUSY)"
| "call_begins (Releasing key i) = (key \<noteq> EMPTY \<and> key \<noteq> BUSY)"
| "call_begins Idle = True"
| "call_begins p = False"

definition race_start :: "key_table \<Rightarrow> (nat \<Rightarrow> claim_call) \<Rightarrow> race" where
  "race_start t calls = \<lparr>rc_words = (\<lambda>i. [if i < length (kt_slots t) then key_at t i else EMPTY]),
     rc_fenced = (\<lambda>i. 1), rc_synced = (\<lambda>c i. 0), rc_calls = calls\<rparr>"

fun settling :: "u64 \<Rightarrow> claim_call \<Rightarrow> bool" where
  "settling key (Fencing k i n) = (k = key)"
| "settling key (Settling k mine n winner seen) = (k = key)"
| "settling key (Dropping k mine n winner) = (k = key)"
| "settling key (Quitting k mine winner) = (k = key)"
| "settling key (Freeing i p) = settling key p"
| "settling key p = False"

lemma will_settle_settling: "will_settle h t s c key a b p \<Longrightarrow> settling key p"
  by (induction p) auto

definition race_inv :: "hashes \<Rightarrow> key_table \<Rightarrow> race \<Rightarrow> bool" where
  "race_inv h t s = (calls_ok h t s \<and> words_some s \<and> copies_fenced h t s \<and> copies_settled h t s \<and> held_in_place h t s)"

lemma start_inv:
  assumes wf: "key_table_wf h t" and begins: "\<forall>c. call_begins (calls c)"
  shows "race_inv h t (race_start t calls)"
proof -
  let ?s = "race_start t calls"
  have "call_ok h t p" if "call_begins p" for p using that by (cases p) auto
  then have "calls_ok h t ?s" using begins by (simp add: calls_ok_def race_start_def)
  moreover have held: "i < length (kt_slots t) \<and> key_at t i = key" if "holds_copy h t ?s key i" for key i
    using that by (auto simp: holds_copy_def race_start_def split: if_splits)
  have "copies_settled h t ?s"
    unfolding copies_settled_def
  proof (intro allI impI)
    fix key a b
    assume a: "holds_copy h t ?s key a" and b: "holds_copy h t ?s key b" and less: "place h t key a < place h t key b"
    have "a = b" using key_table_wfD(5) [OF wf] held [OF a] held [OF b] a by (metis holds_copy_def)
    then show "\<exists>c. will_settle h t ?s c key a b (rc_calls ?s c)" using less by simp
  qed
  moreover have "words_some ?s" "copies_fenced h t ?s" by (simp_all add: words_some_def copies_fenced_def race_start_def)
  moreover have "held_in_place h t ?s" using key_table_wfD(4) [OF wf] by (auto simp: held_in_place_def race_start_def)
  ultimately show ?thesis by (simp add: race_inv_def)
qed

lemma run_inv: "(kstep h t)\<^sup>*\<^sup>* s s' \<Longrightarrow> race_inv h t s \<Longrightarrow> race_inv h t s'"
  by (induction rule: rtranclp_induct)
    (auto simp: race_inv_def kstep_calls_ok kstep_words_some kstep_copies_fenced kstep_copies_settled kstep_held)

definition unreleased :: "hashes \<Rightarrow> key_table \<Rightarrow> u64 \<Rightarrow> race \<Rightarrow> bool" where
  "unreleased h t key s = (all_know s key \<and> freeing_alone s \<and> first_stays h t key s)"

lemma start_unreleased:
  assumes begins: "\<forall>c. call_begins (calls c)" and free: "\<forall>c i. calls c \<noteq> Releasing key i"
  shows "unreleased h t key (race_start t calls)"
proof -
  have "knows_copies (race_start t calls) key p \<and> (\<forall>i q. p \<noteq> Freeing i q)" if "call_begins p" "\<forall>i. p \<noteq> Releasing key i" for p
    using that by (cases p) auto
  then have "all_know (race_start t calls) key \<and> freeing_alone (race_start t calls)"
    using assms by (simp add: all_know_def freeing_alone_def race_start_def)
  then show ?thesis by (simp add: unreleased_def first_stays_def race_start_def)
qed

lemma run_unreleased:
  assumes "(kstep h t)\<^sup>*\<^sup>* s s'" and "key \<noteq> EMPTY" "key \<noteq> BUSY" and "race_inv h t s" "unreleased h t key s"
  shows "unreleased h t key s'"
  using assms(1,4,5)
proof (induction rule: rtranclp_induct)
  case (step s1 s2)
  have "race_inv h t s1" using run_inv [OF step(1) step(4)] .
  then have inv: "calls_ok h t s1" "words_some s1" by (simp_all add: race_inv_def)
  have un: "all_know s1 key" "freeing_alone s1" "first_stays h t key s1"
    using step(3) [OF step(4,5)] by (simp_all add: unreleased_def)
  show ?case unfolding unreleased_def
    by (intro conjI kstep_know [OF step(2) un(1) inv(2)] kstep_freeing [OF step(2) inv(1) un(2,1)]
        kstep_first_stays [OF step(2) inv(1) un(2,1) assms(2,3) un(3)])
qed

lemma place_inj: "a \<in> set (candidates h t key) \<Longrightarrow> b \<in> set (candidates h t key) \<Longrightarrow> place h t key a = place h t key b \<Longrightarrow> a = b"
  by (metis place_mem(1))

lemma held_once:
  assumes "race_inv h t s" "key \<noteq> EMPTY" "key \<noteq> BUSY" and quiet: "\<forall>c. \<not> settling key (rc_calls s c)"
    and ab: "now_at s a = key" "now_at s b = key"
  shows "a = b" "a \<in> set (candidates h t key)"
proof -
  have inv: "copies_settled h t s" "words_some s" "held_in_place h t s" using assms(1) by (simp_all add: race_inv_def)
  have held: "holds_copy h t s key i" if "now_at s i = key" for i
  proof -
    have "key \<in> seen_at s i" using words_someD [OF inv(2), of i] that by simp
    then have "i \<in> set (candidates h t key)" using inv(3) assms(2,3) unfolding held_in_place_def by blast
    then show ?thesis using assms(2,3) that by (simp add: holds_copy_def)
  qed
  have order: "\<not> place h t key i < place h t key j" if ij: "now_at s i = key" "now_at s j = key" for i j
  proof
    assume "place h t key i < place h t key j"
    then obtain c where "will_settle h t s c key i j (rc_calls s c)"
      by (rule copies_settledD [OF inv(1) held [OF ij(1)] held [OF ij(2)]])
    then show False using quiet will_settle_settling by blast
  qed
  have "place h t key a = place h t key b" using order [OF ab] order [OF ab(2,1)] by simp
  moreover have "a \<in> set (candidates h t key)" "b \<in> set (candidates h t key)"
    using held [OF ab(1)] held [OF ab(2)] by (simp_all add: holds_copy_def)
  ultimately show "a = b" "a \<in> set (candidates h t key)" using place_inj by blast+
qed

lemma first_held:
  assumes "first_stays h t key s" "key \<in> seen_at s i" "i \<in> set (candidates h t key)"
  shows "\<exists>a. now_at s a = key"
proof -
  let ?P = "\<lambda>i. i \<in> set (candidates h t key) \<and> key \<in> seen_at s i"
  have "?P (arg_min (place h t key) ?P)" "\<forall>j. ?P j \<longrightarrow> place h t key (arg_min (place h t key) ?P) \<le> place h t key j"
    using arg_min_nat_lemma [of ?P i "place h t key"] assms by blast+
  then show ?thesis using assms(1) unfolding first_stays_def by blast
qed

section \<open>Every call returns\<close>

fun returned :: "claim_call \<Rightarrow> bool" where
  "returned (Returned key r taken) = True"
| "returned (Released b) = True"
| "returned Idle = True"
| "returned p = False"

text \<open>How many accesses a call has left at most, whatever the others do.\<close>

fun steps_left :: "hashes \<Rightarrow> key_table \<Rightarrow> claim_call \<Rightarrow> nat" where
  "steps_left h t (Looking key n) = length (candidates h t key) - n + 6 * BUCKET + 3 * length (candidates h t key) + 8"
| "steps_left h t (CountingSecond key n m) = BUCKET - n + 5 * BUCKET + 3 * length (candidates h t key) + 7"
| "steps_left h t (CountingFirst key n m k) = BUCKET - n + 4 * BUCKET + 3 * length (candidates h t key) + 6"
| "steps_left h t (Taking key order) = 2 * length order + 3 * length (candidates h t key) + 5"
| "steps_left h t (Swapping key i order) = 2 * length order + 3 * length (candidates h t key) + 6"
| "steps_left h t (Fencing key i n) = 3 * length (candidates h t key) + 4"
| "steps_left h t (Settling key mine n winner seen) = 3 * (length (candidates h t key) - n) + 3"
| "steps_left h t (Dropping key mine n winner) = 3 * (length (candidates h t key) - n) + 2"
| "steps_left h t (Quitting key mine winner) = 2"
| "steps_left h t (Freeing i p) = Suc (steps_left h t p)"
| "steps_left h t (Releasing key i) = 2"
| "steps_left h t p = 0"

lemma bucket_length [simp]: "length (bucket_slots b) = BUCKET"
  by (simp add: bucket_slots_def)

lemma take_order_length: "length (take_order h t key m k) = 2 * BUCKET"
  by (simp add: take_order_def split: prod.split)

lemma candidates_length: "length (candidates h t key) \<le> 2 * BUCKET"
  by (simp add: candidates_def split: prod.split)

lemma begin_steps: "call_begins p \<Longrightarrow> steps_left h t p \<le> 120"
proof (cases p)
  case (Looking key n)
  then show "call_begins p \<Longrightarrow> ?thesis" using candidates_length [of h t key] by (simp add: BUCKET_def)
qed simp_all

lemma one_call_steps:
  "s' = go_on s0 c p \<Longrightarrow> rc_calls s0 = rc_calls s \<Longrightarrow> steps_left h t p < steps_left h t (rc_calls s c) \<Longrightarrow>
    \<exists>c p. rc_calls s' = (rc_calls s)(c := p) \<and> steps_left h t p < steps_left h t (rc_calls s c)"
  by (rule exI [of _ c], rule exI [of _ p]) simp

lemma kstep_steps_left:
  assumes step: "kstep h t s s'" and ok: "calls_ok h t s"
  obtains c p where "rc_calls s' = (rc_calls s)(c := p)" "steps_left h t p < steps_left h t (rc_calls s c)"
proof -
  note ok = call_at [OF ok]
  have "\<exists>c p. rc_calls s' = (rc_calls s)(c := p) \<and> steps_left h t p < steps_left h t (rc_calls s c)"
    using step
  proof cases
    case (drop_won c key mine n winner)
    have "n < length (candidates h t key)" using ok [OF drop_won(2)] by simp
    then show ?thesis by (intro one_call_steps [OF drop_won(1)]) (simp_all add: drop_won(2))
  next
    case (drop_lost c key mine n winner)
    have "n < length (candidates h t key)" using ok [OF drop_lost(2)] by simp
    then show ?thesis by (intro one_call_steps [OF drop_lost(1)]) (simp_all add: drop_lost(2))
  qed (erule one_call_steps, simp, simp add: take_order_length)+
  then show thesis using that by blast
qed

lemma can_step:
  assumes ok: "call_ok h t p" and c: "rc_calls s c = p" and p: "\<not> returned p" and some: "words_some s"
  shows "\<exists>s' p'. kstep h t s s' \<and> rc_calls s' = (rc_calls s)(c := p')"
proof -
  have go: ?thesis if "kstep h t s (go_on s0 c p')" "rc_calls s0 = rc_calls s" for s0 p'
    using that by (intro exI [of _ "go_on s0 c p'"] exI [of _ p'] conjI) simp_all
  show ?thesis
  proof (cases p)
    case (Looking key n)
    show ?thesis
    proof (cases "n < length (candidates h t key)")
      case True
      then show ?thesis
        using look_found [of s c key n h t] look_next [of s c key n h t, OF _ _ words_someD [OF some]] go c Looking
          words_someD [OF some, of "candidates h t key ! n"]
        by (cases "now_at s (candidates h t key ! n) = key") auto
    next
      case False
      then have "n = length (candidates h t key)" using ok Looking by simp
      then show ?thesis using go [OF look_done] c Looking by simp
    qed
  next
    case (CountingSecond key n m)
    show ?thesis
    proof (cases "n < BUCKET")
      case True
      then show ?thesis using go [OF count_second [OF _ _ words_someD [OF some]]] c CountingSecond by blast
    next
      case False
      then show ?thesis using go [OF count_second_done [of s c key m]] ok c CountingSecond by simp
    qed
  next
    case (CountingFirst key n m k)
    show ?thesis
    proof (cases "n < BUCKET")
      case True
      then show ?thesis using go [OF count_first [OF _ _ words_someD [OF some]]] c CountingFirst by blast
    next
      case False
      then show ?thesis using go [OF count_first_done [of s c key m k]] ok c CountingFirst by simp
    qed
  next
    case (Taking key order)
    show ?thesis
    proof (cases order)
      case Nil
      then show ?thesis using go [OF take_none [of s c key]] c Taking by simp
    next
      case (Cons i rest)
      have i: "now_at s i \<in> seen_at s i" by (rule words_someD [OF some])
      show ?thesis
      proof (cases "now_at s i = EMPTY")
        case True
        then have "EMPTY \<in> seen_at s i" using i by simp
        then show ?thesis using go [OF take_try [of s c key i rest]] c Taking Cons by simp
      next
        case False
        then show ?thesis using go [OF take_skip [of s c key i rest, OF _ i]] c Taking Cons by simp
      qed
    qed
  next
    case (Swapping key i order)
    then show ?thesis using go [OF swap_won [of s c key i order]] go [OF swap_lost [of s c key i order]] c
      by (cases "now_at s i = EMPTY") simp_all
  next
    case (Fencing key i n)
    then show ?thesis using go [OF kstep.fence [of s c key i n]] c by simp
  next
    case (Settling key mine n winner seen)
    let ?j = "candidates h t key ! n"
    have j: "now_at s ?j \<in> loads s c ?j" by (simp add: loads_def)
    consider "n = length (candidates h t key)" | "n < length (candidates h t key)" "?j = mine"
      | "n < length (candidates h t key)" "?j \<noteq> mine" "now_at s ?j \<noteq> key"
      | "n < length (candidates h t key)" "?j \<noteq> mine" "now_at s ?j = key" seen
      | "n < length (candidates h t key)" "?j \<noteq> mine" "now_at s ?j = key" "\<not> seen"
      using ok Settling by fastforce
    then show ?thesis
    proof cases
      case 1
      then show ?thesis using go [OF settle_won [of s c key mine n seen]] go [OF settle_lost [of s c key mine n winner seen]] c Settling
        by (cases "winner = mine") simp_all
    next
      case 2
      then show ?thesis using go [OF settle_self [of s c key mine n winner seen]] c Settling by simp
    next
      case 3
      then show ?thesis using go [OF settle_other [of s c key mine n winner seen, OF _ _ _ j]] c Settling by simp
    next
      case 4
      then show ?thesis using go [OF settle_later [of s c key mine n winner]] j c Settling by simp
    next
      case 5
      then show ?thesis using go [OF settle_earlier [of s c key mine n winner]] j c Settling by simp
    qed
  next
    case (Dropping key mine n winner)
    then show ?thesis using go [OF drop_won [of s c key mine n winner]] go [OF drop_lost [of s c key mine n winner]] c
      by (cases "now_at s (candidates h t key ! n) = key") simp_all
  next
    case (Quitting key mine winner)
    then show ?thesis using go [OF quit_won [of s c key mine winner]] go [OF quit_lost [of s c key mine winner]] c
      by (cases "now_at s mine = key") simp_all
  next
    case (Freeing i p')
    then show ?thesis using go [OF free [of s c i p']] c by simp
  next
    case (Releasing key i)
    then show ?thesis using go [OF release_won [of s c key i]] go [OF release_lost [of s c key i]] c
      by (cases "now_at s i = key") simp_all
  qed (use p in simp_all)
qed

lemma run_steps:
  assumes run: "(kstep h t ^^ n) s s'" and ok: "calls_ok h t s" and idle: "\<forall>c \<ge> m. steps_left h t (rc_calls s c) = 0"
  shows "n + (\<Sum>c < m. steps_left h t (rc_calls s' c)) \<le> (\<Sum>c < m. steps_left h t (rc_calls s c)) \<and> calls_ok h t s' \<and>
    (\<forall>c \<ge> m. steps_left h t (rc_calls s' c) = 0)"
  using run
proof (induction n arbitrary: s')
  case 0
  then show ?case using ok idle by simp
next
  case (Suc n)
  then obtain s1 where s1: "(kstep h t ^^ n) s s1" "kstep h t s1 s'" by auto
  note IH = Suc.IH [OF s1(1)]
  obtain c p where c: "rc_calls s' = (rc_calls s1)(c := p)" "steps_left h t p < steps_left h t (rc_calls s1 c)"
    using kstep_steps_left [OF s1(2)] IH by blast
  have "c < m" using IH c(2) by (metis not_less not_less_zero)
  have "(\<Sum>d < m. steps_left h t (rc_calls s' d)) < (\<Sum>d < m. steps_left h t (rc_calls s1 d))"
    using \<open>c < m\<close> c by (intro sum_strict_mono_ex1) (auto intro!: bexI [of _ c])
  then show ?case using IH kstep_calls_ok [OF s1(2)] c \<open>c < m\<close> by auto
qed

section \<open>Properties\<close>

text \<open>
  C39. One slot per key, under any interleaving. On a table whose keys have one slot each, let any number of claims and
  releases of any keys run, their accesses in any order, loads as stale as the fence lets them be. Whenever no call is
  settling a key, at most one slot holds it, one of its candidates. If nobody released it, and a claim returned a slot
  of the table for it, some slot does hold it.
\<close>

theorem one_slot_per_key:
  assumes wf: "key_table_wf h t" and begins: "\<forall>c. call_begins (calls c)" and run: "(kstep h t)\<^sup>*\<^sup>* (race_start t calls) s"
    and key: "key \<noteq> EMPTY" "key \<noteq> BUSY" and quiet: "\<forall>c. \<not> settling key (rc_calls s c)"
  shows "(\<forall>a b. now_at s a = key \<longrightarrow> now_at s b = key \<longrightarrow> a = b) \<and>
    (\<forall>a. now_at s a = key \<longrightarrow> a \<in> set (candidates h t key)) \<and>
    ((\<forall>c i. calls c \<noteq> Releasing key i) \<longrightarrow> (\<exists>c i taken. rc_calls s c = Returned key (InTable i) taken) \<longrightarrow>
      (\<exists>a. now_at s a = key))"
proof -
  have inv: "race_inv h t s" by (rule run_inv [OF run start_inv [OF wf begins]])
  note once = held_once [OF inv key quiet]
  have "\<exists>a. now_at s a = key" if free: "\<forall>c i. calls c \<noteq> Releasing key i" and ret: "rc_calls s c = Returned key (InTable i) taken"
    for c i taken
  proof -
    have un: "all_know s key" "first_stays h t key s"
      using run_unreleased [OF run key start_inv [OF wf begins] start_unreleased [OF begins free]]
      by (simp_all add: unreleased_def)
    have seen: "key \<in> seen_at s i" using know_at [OF un(1) ret] by simp
    then have "i \<in> set (candidates h t key)" using inv key by (simp add: race_inv_def held_in_place_def)
    then show ?thesis by (rule first_held [OF un(2) seen])
  qed
  then show ?thesis using once by blast
qed

definition race_table :: key_table where
  "race_table = (let i = candidates example_hashes example_key_table 42 ! 0
     in put_slot example_key_table i ((kt_slots example_key_table ! i)\<lparr>sl_key := 42\<rparr>))"

definition race_calls :: "nat \<Rightarrow> claim_call" where
  "race_calls c = (if c < 2 then Looking 42 0 else Idle)"

lemma race_table_wf: "key_table_wf example_hashes race_table"
  and race_table_at: "0 < length (candidates example_hashes race_table 42)"
    "candidates example_hashes race_table 42 ! 0 < length (kt_slots race_table)"
    "key_at race_table (candidates example_hashes race_table 42 ! 0) = 42"
proof -
  let ?t = example_key_table and ?h = example_hashes
  let ?i = "candidates ?h ?t 42 ! 0"
  have wf: "key_table_wf ?h ?t" and none: "\<forall>key. key \<noteq> EMPTY \<longrightarrow> table_find ?h ?t key = None"
    using key_table_new_wf [OF example_quota_wf example_key_table] by blast+
  have key: "(42 :: u64) \<noteq> EMPTY" "(42 :: u64) \<noteq> BUSY" by (simp_all add: EMPTY_def BUSY_def)
  have pos: "0 < length (candidates ?h ?t 42)"
    by (simp add: candidates_def bucket_slots_def BUCKET_def split: prod.split)
  then have i: "?i \<in> set (candidates ?h ?t 42)" by (rule nth_mem)
  then have bound: "?i < length (kt_slots ?t)" by (rule key_table_wfD(7) [OF wf])
  have "key_at ?t ?i = EMPTY"
    using key_table_wfD(4) [OF wf bound] table_find_iff [OF wf, of "key_at ?t ?i" ?i] none bound by auto
  then show "key_table_wf ?h race_table"
    using take_wf [OF wf key _ i] none key unfolding race_table_def Let_def by simp
  show "0 < length (candidates ?h race_table 42)" "candidates ?h race_table 42 ! 0 < length (kt_slots race_table)"
    "key_at race_table (candidates ?h race_table 42 ! 0) = 42"
    using pos bound by (simp_all add: race_table_def Let_def)
qed

lemma race_begins: "\<forall>c. call_begins (race_calls c)"
  by (simp add: race_calls_def EMPTY_def BUSY_def)

lemma race_step:
  "kstep example_hashes race_table (race_start race_table race_calls)
    (go_on (race_start race_table race_calls) 0 (Returned 42 (InTable (candidates example_hashes race_table 42 ! 0)) False))"
  using race_table_at by (intro look_found) (simp_all add: race_start_def race_calls_def)

theorem one_slot_per_key_witness:
  "\<exists>s. (kstep example_hashes race_table)\<^sup>*\<^sup>* (race_start race_table race_calls) s \<and>
    rc_calls s 0 = Returned 42 (InTable (candidates example_hashes race_table 42 ! 0)) False \<and> (\<exists>!a. now_at s a = 42)"
proof -
  let ?s = "go_on (race_start race_table race_calls) 0 (Returned 42 (InTable (candidates example_hashes race_table 42 ! 0)) False)"
  have run: "(kstep example_hashes race_table)\<^sup>*\<^sup>* (race_start race_table race_calls) ?s" using race_step by blast
  have "\<forall>c. \<not> settling 42 (rc_calls ?s c)" by (simp add: race_start_def race_calls_def)
  note once = one_slot_per_key [OF race_table_wf race_begins run _ _ this]
  have "(42 :: u64) \<noteq> EMPTY" "(42 :: u64) \<noteq> BUSY" "\<forall>c i. race_calls c \<noteq> Releasing 42 i"
    by (simp_all add: EMPTY_def BUSY_def race_calls_def)
  moreover have "rc_calls ?s 0 = Returned 42 (InTable (candidates example_hashes race_table 42 ! 0)) False" by simp
  ultimately have "\<exists>!a. now_at ?s a = 42" using once by metis
  then show ?thesis using run by (intro exI [of _ ?s]) simp
qed

text \<open>
  C40. Claims and releases return. They hold no lock and wait for nobody: \<open>m\<close> calls together make at most \<open>120 m\<close>
  accesses in any interleaving, and whatever the others have done, a call that has not returned can go on.
\<close>

theorem calls_return:
  assumes "\<forall>c. call_begins (calls c)" "\<forall>c \<ge> m. calls c = Idle" and run: "(kstep h t ^^ n) (race_start t calls) s"
  shows "n \<le> 120 * m \<and>
    (\<forall>c. \<not> returned (rc_calls s c) \<longrightarrow> (\<exists>s' p. kstep h t s s' \<and> rc_calls s' = (rc_calls s)(c := p)))"
proof -
  have "call_ok h t p" if "call_begins p" for p using that by (cases p) auto
  then have ok: "calls_ok h t (race_start t calls)" using assms(1) by (simp add: calls_ok_def race_start_def)
  have run_ok: "n + (\<Sum>c < m. steps_left h t (rc_calls s c)) \<le> (\<Sum>c < m. steps_left h t (calls c))" "calls_ok h t s"
    using run_steps [OF run ok, of m] assms(2) by (simp_all add: race_start_def)
  have "(\<Sum>c < m. steps_left h t (calls c)) \<le> (\<Sum>c < m. 120)"
    using begin_steps assms(1) by (intro sum_mono) blast
  then have n: "n \<le> 120 * m" using run_ok(1) by simp
  have "words_some s'" if "(kstep h t ^^ n) (race_start t calls) s'" for s'
    using that
  proof (induction n arbitrary: s')
    case 0
    then show ?case by (auto simp: words_some_def race_start_def)
  qed (use kstep_words_some in auto)
  then have some: "words_some s" using run .
  have "\<exists>s' p. kstep h t s s' \<and> rc_calls s' = (rc_calls s)(c := p)" if "\<not> returned (rc_calls s c)" for c
    using can_step [OF call_at [OF run_ok(2) refl] refl that some] .
  then show ?thesis using n by blast
qed

theorem calls_return_witness:
  "1 \<le> 120 * (2 :: nat) \<and> (\<exists>s s' p. (kstep example_hashes race_table ^^ 1) (race_start race_table race_calls) s \<and>
    kstep example_hashes race_table s s' \<and> rc_calls s' = (rc_calls s)(1 := p))"
proof -
  let ?s = "go_on (race_start race_table race_calls) 0 (Returned 42 (InTable (candidates example_hashes race_table 42 ! 0)) False)"
  have run: "(kstep example_hashes race_table ^^ 1) (race_start race_table race_calls) ?s" using race_step by auto
  have "\<forall>c \<ge> 2. race_calls c = Idle" by (simp add: race_calls_def)
  note goes_on = calls_return [OF race_begins this run]
  have "\<not> returned (rc_calls ?s 1)" by (simp add: race_start_def race_calls_def)
  then show ?thesis using goes_on run by blast
qed

end
