(* ===== verification/Socket_Text.thy ===== *)
theory Socket_Text
  imports Wire
begin

text \<open>
  How the source reads an \<open>ip:port\<close> and a port: \<open>str::parse\<close> of the standard library for \<open>SocketAddr\<close> and for \<open>u16\<close>. The
  definitions follow the parser of \<open>core::net\<close>: a reader takes a prefix of the text or, failing, takes nothing.
\<close>

type_synonym 'a reader = "bytes \<Rightarrow> ('a \<times> bytes) option"

section \<open>Numbers\<close>

text \<open>The ASCII codes of the characters the grammar names.\<close>

definition PLUS :: u8 where "PLUS = 43"
definition MINUS :: u8 where "MINUS = 45"
definition DOT :: u8 where "DOT = 46"
definition ZERO :: u8 where "ZERO = 48"
definition COLON :: u8 where "COLON = 58"
definition OPENING :: u8 where "OPENING = 91"
definition CLOSING :: u8 where "CLOSING = 93"
definition UNDERSCORE :: u8 where "UNDERSCORE = 95"
definition PERCENT :: u8 where "PERCENT = 37"

definition to_digit :: "nat \<Rightarrow> u8 \<Rightarrow> nat option" where
  "to_digit radix c =
     (let n = unat c;
          d = (if 48 \<le> n \<and> n \<le> 57 then n - 48 else if 97 \<le> n \<and> n \<le> 122 then n - 87
               else if 65 \<le> n \<and> n \<le> 90 then n - 55 else radix)
      in if d < radix then Some d else None)"

fun read_digits :: "nat \<Rightarrow> bytes \<Rightarrow> nat list \<times> bytes" where
  "read_digits radix [] = ([], [])"
| "read_digits radix (c # s) = (case to_digit radix c of
     None \<Rightarrow> ([], c # s)
   | Some d \<Rightarrow> let (ds, rest) = read_digits radix s in (d # ds, rest))"

definition number_of_digits :: "nat \<Rightarrow> nat list \<Rightarrow> nat" where
  "number_of_digits radix = foldl (\<lambda>n d. n * radix + d) 0"

definition read_number :: "nat \<Rightarrow> nat option \<Rightarrow> bool \<Rightarrow> nat \<Rightarrow> nat reader" where
  "read_number radix max_digits zero_prefix biggest s =
     (let (ds, rest) = read_digits radix s
      in if ds = [] \<or> (case max_digits of None \<Rightarrow> False | Some n \<Rightarrow> n < length ds) then None
         else if \<not> zero_prefix \<and> hd s = ZERO \<and> 1 < length ds then None
         else if biggest < number_of_digits radix ds then None
         else Some (number_of_digits radix ds, rest))"

fun read_given :: "u8 \<Rightarrow> unit reader" where
  "read_given c [] = None"
| "read_given c (x # s) = (if x = c then Some ((), s) else None)"

text \<open>An element of a list, behind a separator unless it is the first.\<close>

definition read_separator :: "u8 \<Rightarrow> bool \<Rightarrow> 'a reader \<Rightarrow> 'a reader" where
  "read_separator sep first inner s =
     (if first then inner s else do { (_, s') \<leftarrow> read_given sep s; inner s' })"

section \<open>Addresses\<close>

definition read_octet :: "nat reader" where
  "read_octet = read_number 10 (Some 3) False 255"

definition read_ipv4 :: "u8 list reader" where
  "read_ipv4 s = do {
     (a, s1) \<leftarrow> read_separator DOT True read_octet s;
     (b, s2) \<leftarrow> read_separator DOT False read_octet s1;
     (c, s3) \<leftarrow> read_separator DOT False read_octet s2;
     (d, s4) \<leftarrow> read_separator DOT False read_octet s3;
     Some (map of_nat [a, b, c, d], s4)
   }"

definition group_bytes :: "nat \<Rightarrow> u8 list" where
  "group_bytes g = [of_nat (g div 256), of_nat (g mod 256)]"

text \<open>
  The groups of an IPv6 address, as bytes: as many as there are, \<open>left\<close> at most, and whether the last two are an IPv4
  address.
\<close>

fun read_groups :: "nat \<Rightarrow> bool \<Rightarrow> bytes \<Rightarrow> u8 list \<times> bool \<times> bytes" where
  "read_groups 0 first s = ([], False, s)"
| "read_groups (Suc left) first s =
     (case (if left \<noteq> 0 then read_separator COLON first read_ipv4 s else None) of
        Some (octets, s') \<Rightarrow> (octets, True, s')
      | None \<Rightarrow> (case read_separator COLON first (read_number 16 (Some 4) True 65535) s of
          Some (g, s') \<Rightarrow> let (gs, ipv4, s'') = read_groups left False s' in (group_bytes g @ gs, ipv4, s'')
        | None \<Rightarrow> ([], False, s)))"

definition read_ipv6 :: "u8 list reader" where
  "read_ipv6 s =
     (let (head, ipv4, s1) = read_groups 8 True s
      in if length head = 16 then Some (head, s1)
         else if ipv4 then None
         else do {
           (_, s2) \<leftarrow> read_given COLON s1;
           (_, s3) \<leftarrow> read_given COLON s2;
           let (tail, _, s4) = read_groups (8 - (length head div 2 + 1)) True s3;
           Some (head @ replicate (16 - length head - length tail) 0 @ tail, s4)
         })"

definition read_port :: "u16 reader" where
  "read_port s = do {
     (_, s1) \<leftarrow> read_given COLON s;
     (port, s2) \<leftarrow> read_number 10 None True 65535 s1;
     Some (of_nat port, s2)
   }"

definition read_scope_id :: "u32 reader" where
  "read_scope_id s = do {
     (_, s1) \<leftarrow> read_given PERCENT s;
     (scope, s2) \<leftarrow> read_number 10 None True (2 ^ 32 - 1) s1;
     Some (of_nat scope, s2)
   }"

definition read_socket_v4 :: "socket_addr reader" where
  "read_socket_v4 s = do {
     (ip, s1) \<leftarrow> read_ipv4 s;
     (port, s2) \<leftarrow> read_port s1;
     Some (SocketV4 ip port, s2)
   }"

definition read_socket_v6 :: "socket_addr reader" where
  "read_socket_v6 s = do {
     (_, s1) \<leftarrow> read_given OPENING s;
     (ip, s2) \<leftarrow> read_ipv6 s1;
     let (scope, s3) = (case read_scope_id s2 of Some (scope, s3) \<Rightarrow> (scope, s3) | None \<Rightarrow> (0, s2));
     (_, s4) \<leftarrow> read_given CLOSING s3;
     (port, s5) \<leftarrow> read_port s4;
     Some (SocketV6 ip port 0 scope, s5)
   }"

definition parse_socket :: "bytes \<Rightarrow> socket_addr option" where
  "parse_socket s = (case (case read_socket_v4 s of Some r \<Rightarrow> Some r | None \<Rightarrow> read_socket_v6 s) of
     Some (addr, []) \<Rightarrow> Some addr
   | _ \<Rightarrow> None)"

definition parse_u16 :: "bytes \<Rightarrow> u16 option" where
  "parse_u16 s =
     (if s = [] \<or> s = [PLUS] \<or> s = [MINUS] then None
      else let (ds, rest) = read_digits 10 (if hd s = PLUS then tl s else s)
        in if rest = [] \<and> number_of_digits 10 ds \<le> 65535 then Some (of_nat (number_of_digits 10 ds)) else None)"

fun socket_unspecified :: "socket_addr \<Rightarrow> bool" where
  "socket_unspecified (SocketV4 ip port) = list_all (\<lambda>b. b = 0) ip"
| "socket_unspecified (SocketV6 ip port flowinfo scope) = list_all (\<lambda>b. b = 0) ip"

fun socket_port :: "socket_addr \<Rightarrow> u16" where
  "socket_port (SocketV4 ip port) = port"
| "socket_port (SocketV6 ip port flowinfo scope) = port"

section \<open>What is read\<close>

definition socket_wf :: "socket_addr \<Rightarrow> bool" where
  "socket_wf a = (case a of SocketV4 ip port \<Rightarrow> length ip = 4 | SocketV6 ip port flowinfo scope \<Rightarrow> length ip = 16)"

lemma read_ipv4_length: "read_ipv4 s = Some (ip, rest) \<Longrightarrow> length ip = 4"
  by (auto simp: read_ipv4_def split: bind_splits)

lemma read_groups_length:
  "read_groups n first s = (gs, ipv4, rest) \<Longrightarrow> length gs \<le> 2 * n \<and> even (length gs)"
proof (induction n first s arbitrary: gs ipv4 rest rule: read_groups.induct)
  case (2 left first s)
  show ?case
  proof (cases "if left \<noteq> 0 then read_separator COLON first read_ipv4 s else None")
    case None
    show ?thesis
    proof (cases "read_separator COLON first (read_number 16 (Some 4) True 65535) s")
      case (Some r)
      obtain g s' where r: "r = (g, s')" by force
      obtain gs' ipv4' rest' where rec: "read_groups left False s' = (gs', ipv4', rest')" by (rule prod_cases3)
      then show ?thesis using "2.IH" [OF None Some r [symmetric] rec] "2.prems" None Some r by (auto simp: group_bytes_def)
    qed (use "2.prems" None in auto)
  next
    case (Some r)
    obtain octets s' where r: "r = (octets, s')" by force
    have left: "left \<noteq> 0" "read_separator COLON first read_ipv4 s = Some (octets, s')" using Some r by (auto split: if_splits)
    then have "length octets = 4" using read_ipv4_length by (auto simp: read_separator_def split: if_splits bind_splits)
    then show ?thesis using "2.prems" left by auto
  qed
qed simp

lemma read_ipv6_length: "read_ipv6 s = Some (ip, rest) \<Longrightarrow> length ip = 16"
proof -
  assume run: "read_ipv6 s = Some (ip, rest)"
  obtain head ipv4 s1 where h: "read_groups 8 True s = (head, ipv4, s1)" by (rule prod_cases3)
  have head: "length head \<le> 16" "even (length head)" using read_groups_length [OF h] by simp_all
  show ?thesis
  proof (cases "length head = 16")
    case True
    then show ?thesis using run h by (simp add: read_ipv6_def)
  next
    case False
    then obtain s3 tail ipv4' s4 where t: "read_groups (8 - (length head div 2 + 1)) True s3 = (tail, ipv4', s4)"
      "ip = head @ replicate (16 - length head - length tail) 0 @ tail"
      using run h by (auto simp: read_ipv6_def split: if_splits bind_splits prod.splits)
    have "length tail \<le> 2 * (8 - (length head div 2 + 1))" using read_groups_length [OF t(1)] by simp
    then have "length head + length tail \<le> 16" using head False by presburger
    then show ?thesis using t(2) by simp
  qed
qed

lemma parse_socket_wf: "parse_socket s = Some a \<Longrightarrow> socket_wf a"
  using read_ipv4_length read_ipv6_length
  by (auto simp: parse_socket_def read_socket_v4_def read_socket_v6_def socket_wf_def Let_def
      split: option.splits list.splits bind_splits prod.splits)

end
