(* ===== verification/Classes.thy ===== *)
theory Classes
  imports User_Limit
begin

text \<open>
  \<open>rateguard/src/classes.rs\<close> and \<open>key_limits.rs\<close>: the limits of classes of keys, their
  shadows, and the limits of single keys. A change is made on a copy of the table,
  which is swapped in whole under the writer's lock: one step of the model. The
  atomics beside a table are fields of the same record, stored with the swap.
\<close>

section \<open>Limits of single keys\<close>

datatype key_limit = OwnLimit user_limit | OfClass bytes

type_synonym entry = "bytes \<times> bytes \<times> key_limit"

definition check_key_limit :: "key_limit \<Rightarrow> guard_error + unit" where
  "check_key_limit kl = (case kl of
     OwnLimit l \<Rightarrow> (case to_core l of Inl e \<Rightarrow> Inl e | Inr _ \<Rightarrow> Inr ())
   | OfClass name \<Rightarrow> Inr ())"

definition MAX_KEY_LIMITS :: nat where "MAX_KEY_LIMITS = 1048576"

record key_limits =
  kl_max :: nat
  kl_count :: nat
  kl_table :: "(u64, entry) omap"

definition key_limits_new :: "nat \<Rightarrow> key_limits" where
  "key_limits_new n = \<lparr>kl_max = n, kl_count = 0, kl_table = []\<rparr>"

definition key_limits_is_empty :: "key_limits \<Rightarrow> bool" where
  "key_limits_is_empty kl = (kl_count kl = 0)"

definition key_limits_swap :: "key_limits \<Rightarrow> (u64, entry) omap \<Rightarrow> key_limits" where
  "key_limits_swap kl table = kl\<lparr>kl_count := length table, kl_table := table\<rparr>"

definition key_limits_set :: "key_limits \<Rightarrow> u64 \<Rightarrow> entry \<Rightarrow> (guard_error + unit) \<times> key_limits" where
  "key_limits_set kl hash e = (case check_key_limit (snd (snd e)) of
     Inl err \<Rightarrow> (Inl err, kl)
   | Inr _ \<Rightarrow>
       if \<not> om_has (kl_table kl) hash \<and> length (kl_table kl) = kl_max kl
       then (Inl (TooManyKeyLimits (kl_max kl)), kl)
       else (Inr (), key_limits_swap kl (om_put hash e (kl_table kl))))"

definition key_limits_remove :: "key_limits \<Rightarrow> u64 \<Rightarrow> bool \<times> key_limits" where
  "key_limits_remove kl hash =
     (if \<not> om_has (kl_table kl) hash then (False, kl)
      else (True, key_limits_swap kl (om_del hash (kl_table kl))))"

fun key_limits_collect ::
  "nat \<Rightarrow> (u64, entry) omap \<Rightarrow> (u64 \<times> entry) list \<Rightarrow> guard_error + (u64, entry) omap" where
  "key_limits_collect n named [] = Inr named"
| "key_limits_collect n named ((hash, e) # es) = (case check_key_limit (snd (snd e)) of
     Inl err \<Rightarrow> Inl err
   | Inr _ \<Rightarrow>
       let named' = om_put hash e named in
       if n < length named' then Inl (TooManyKeyLimits n) else key_limits_collect n named' es)"

definition key_limits_replace :: "key_limits \<Rightarrow> (u64 \<times> entry) list \<Rightarrow> (guard_error + unit) \<times> key_limits" where
  "key_limits_replace kl entries = (case key_limits_collect (kl_max kl) [] entries of
     Inl err \<Rightarrow> (Inl err, kl)
   | Inr named \<Rightarrow> (Inr (), key_limits_swap kl named))"

definition key_limits_list :: "key_limits \<Rightarrow> entry list" where
  "key_limits_list kl = map snd (kl_table kl)"

section \<open>The table of classes\<close>

definition MAX_CLASSES :: nat where "MAX_CLASSES = 4096"

record resolved =
  rs_limit :: limit
  rs_known :: bool
  rs_shadow :: "limit option"

definition shadow_quota :: "quota \<Rightarrow> limit \<Rightarrow> limit option \<Rightarrow> quota option option" where
  "shadow_quota main l shadow = (case shadow of
     None \<Rightarrow> Some None
   | Some sh \<Rightarrow> do {
       q \<leftarrow> per_second (rate_per_sec main * l_rate sh / l_rate l) (l_burst sh);
       Some (Some q)
     })"

record class_table =
  ct_default :: limit
  ct_default_given :: user_limit
  ct_named :: "(u64, bytes \<times> user_limit \<times> limit) omap"
  ct_shadows :: "(u64, user_limit \<times> limit) omap"

definition class_lookup :: "class_table \<Rightarrow> u64 \<Rightarrow> limit \<times> bool" where
  "class_lookup t class =
     (if class = 0 then (ct_default t, True)
      else case om_get (ct_named t) class of
        Some (name, given, l) \<Rightarrow> (l, True)
      | None \<Rightarrow> (ct_default t, False))"

definition class_resolve ::
  "hashes \<Rightarrow> class_table \<Rightarrow> (u64, entry) omap \<Rightarrow> u64 \<Rightarrow> u64 \<Rightarrow> resolved" where
  "class_resolve h t overrides class key =
     (let by_class = (\<lambda>class.
        let (l, kn) = class_lookup t class; shadow_of = (if kn then class else 0)
        in \<lparr>rs_limit = l, rs_known = kn, rs_shadow = map_option snd (om_get (ct_shadows t) shadow_of)\<rparr>)
      in case om_get overrides key of
           Some (c, k, OwnLimit l) \<Rightarrow>
             (case to_core l of
                Inr core \<Rightarrow> \<lparr>rs_limit = core, rs_known = True, rs_shadow = None\<rparr>
              | Inl _ \<Rightarrow> by_class class)
         | Some (c, k, OfClass name) \<Rightarrow> by_class (class_hash h name)
         | None \<Rightarrow> by_class class)"

definition class_resolve_given ::
  "hashes \<Rightarrow> class_table \<Rightarrow> (u64, entry) omap \<Rightarrow> u64 \<Rightarrow> u64 \<Rightarrow> user_limit \<times> user_limit option" where
  "class_resolve_given h t overrides class key =
     (let by_class = (\<lambda>class.
        let (l, shadow_of) = (case om_get (ct_named t) class of
              Some (name, given, core) \<Rightarrow> (given, class)
            | None \<Rightarrow> (ct_default_given t, 0))
        in (l, map_option fst (om_get (ct_shadows t) shadow_of)))
      in case om_get overrides key of
           Some (c, k, OwnLimit l) \<Rightarrow>
             (case to_core l of Inr _ \<Rightarrow> (l, None) | Inl _ \<Rightarrow> by_class class)
         | Some (c, k, OfClass name) \<Rightarrow> by_class (class_hash h name)
         | None \<Rightarrow> by_class class)"

definition table_has_shadows :: "class_table \<Rightarrow> bool" where
  "table_has_shadows t = (ct_shadows t \<noteq> [])"

definition class_named :: "hashes \<Rightarrow> class_table \<Rightarrow> bytes \<Rightarrow> guard_error + u64" where
  "class_named h t name =
     (if name = [] then Inr 0
      else let class = class_hash h name in
        if om_has (ct_named t) class then Inr class else Inl (UnknownClass name))"

definition strictest :: "class_table \<Rightarrow> limit" where
  "strictest t = foldl (\<lambda>s (name, given, l). \<lparr>l_rate = f64_min (l_rate s) (l_rate l), l_burst = min (l_burst s) (l_burst l)\<rparr>)
     (ct_default t) (map snd (ct_named t))"

section \<open>Classes\<close>

text \<open>The rule for the classes of a builder and of \<open>set_classes\<close>.\<close>

fun checked_from ::
  "hashes \<Rightarrow> nat \<Rightarrow> (u64, bytes \<times> user_limit \<times> limit) omap \<Rightarrow> (bytes \<times> user_limit) list \<Rightarrow>
   guard_error + (u64, bytes \<times> user_limit \<times> limit) omap" where
  "checked_from h n named [] = Inr named"
| "checked_from h n named ((name, l) # cs) =
     (if name = [] then Inl EmptyClassName
      else case to_core l of
        Inl err \<Rightarrow> Inl err
      | Inr core \<Rightarrow>
          let named' = om_put (class_hash h name) (name, l, core) named in
          if n < length named' then Inl (TooManyClasses n) else checked_from h n named' cs)"

definition checked ::
  "hashes \<Rightarrow> (bytes \<times> user_limit) list \<Rightarrow> nat \<Rightarrow> guard_error + (bytes \<times> user_limit \<times> limit) list" where
  "checked h classes n = (case checked_from h n [] classes of
     Inl err \<Rightarrow> Inl err | Inr named \<Rightarrow> Inr (map snd named))"

definition by_name ::
  "hashes \<Rightarrow> (bytes \<times> user_limit \<times> limit) list \<Rightarrow> (u64, bytes \<times> user_limit \<times> limit) omap" where
  "by_name h classes = fold (\<lambda>(name, given, l). om_put (class_hash h name) (name, given, l)) classes []"

record classes =
  cl_max :: nat
  cl_default_rate :: f64
  cl_default_burst :: u32
  cl_has_shadows :: bool
  cl_table :: class_table

definition classes_new ::
  "hashes \<Rightarrow> user_limit \<Rightarrow> limit \<Rightarrow> (bytes \<times> user_limit \<times> limit) list \<Rightarrow> nat \<Rightarrow> classes" where
  "classes_new h given dflt named n =
     \<lparr>cl_max = n, cl_default_rate = l_rate dflt, cl_default_burst = l_burst dflt,
      cl_has_shadows = False,
      cl_table = \<lparr>ct_default = dflt, ct_default_given = given, ct_named = by_name h named,
        ct_shadows = []\<rparr>\<rparr>"

definition class_limit_of :: "classes \<Rightarrow> u64 \<Rightarrow> limit" where
  "class_limit_of cl class =
     (if class = 0 then \<lparr>l_rate = cl_default_rate cl, l_burst = cl_default_burst cl\<rparr>
      else fst (class_lookup (cl_table cl) class))"

definition class_limit_for ::
  "hashes \<Rightarrow> classes \<Rightarrow> (u64, entry) omap \<Rightarrow> u64 \<Rightarrow> u64 \<Rightarrow> limit \<times> limit option" where
  "class_limit_for h cl overrides class key =
     (if cl_has_shadows cl \<or> om_has overrides key then
        (let r = class_resolve h (cl_table cl) overrides class key in (rs_limit r, rs_shadow r))
      else (class_limit_of cl class, None))"

definition classes_change ::
  "classes \<Rightarrow> (class_table \<Rightarrow> guard_error + class_table) \<Rightarrow> (guard_error + unit) \<times> classes" where
  "classes_change cl edit = (case edit (cl_table cl) of
     Inl err \<Rightarrow> (Inl err, cl)
   | Inr t \<Rightarrow> (Inr (), cl\<lparr>cl_default_rate := l_rate (ct_default t), cl_default_burst := l_burst (ct_default t),
       cl_has_shadows := table_has_shadows t, cl_table := t\<rparr>))"

definition classes_set :: "hashes \<Rightarrow> classes \<Rightarrow> bytes \<Rightarrow> user_limit \<Rightarrow> (guard_error + unit) \<times> classes" where
  "classes_set h cl name l =
     (if name = [] then (Inl EmptyClassName, cl)
      else case to_core l of
        Inl err \<Rightarrow> (Inl err, cl)
      | Inr core \<Rightarrow> classes_change cl (\<lambda>t.
          let hash = class_hash h name in
          if \<not> om_has (ct_named t) hash \<and> length (ct_named t) = cl_max cl then Inl (TooManyClasses (cl_max cl))
          else Inr (t\<lparr>ct_named := om_put hash (name, l, core) (ct_named t)\<rparr>)))"

definition classes_remove :: "hashes \<Rightarrow> classes \<Rightarrow> bytes \<Rightarrow> bool \<times> classes" where
  "classes_remove h cl name =
     (let hash = class_hash h name; removed = om_has (ct_named (cl_table cl)) hash
      in (removed, snd (classes_change cl (\<lambda>t.
            let t1 = t\<lparr>ct_named := om_del hash (ct_named t)\<rparr>
            in Inr (if removed then t1\<lparr>ct_shadows := om_del hash (ct_shadows t1)\<rparr> else t1)))))"

definition classes_set_default :: "classes \<Rightarrow> user_limit \<Rightarrow> (guard_error + unit) \<times> classes" where
  "classes_set_default cl l = (case to_core l of
     Inl err \<Rightarrow> (Inl err, cl)
   | Inr core \<Rightarrow> classes_change cl (\<lambda>t. Inr (t\<lparr>ct_default := core, ct_default_given := l\<rparr>)))"

definition classes_replace ::
  "hashes \<Rightarrow> classes \<Rightarrow> (bytes \<times> user_limit) list \<Rightarrow> (guard_error + unit) \<times> classes" where
  "classes_replace h cl given = (case checked h given (cl_max cl) of
     Inl err \<Rightarrow> (Inl err, cl)
   | Inr cs \<Rightarrow>
       let named = by_name h cs in
       classes_change cl (\<lambda>t. Inr (t\<lparr>ct_shadows := om_retain (\<lambda>class _. class = 0 \<or> om_has named class) (ct_shadows t),
         ct_named := named\<rparr>)))"

definition classes_set_shadow ::
  "hashes \<Rightarrow> classes \<Rightarrow> bytes \<Rightarrow> user_limit option \<Rightarrow> (guard_error + unit) \<times> classes" where
  "classes_set_shadow h cl name l =
     (case (case l of None \<Rightarrow> Inr None
            | Some given \<Rightarrow> (case to_core given of Inl err \<Rightarrow> Inl err | Inr core \<Rightarrow> Inr (Some (given, core)))) of
        Inl err \<Rightarrow> (Inl err, cl)
      | Inr shadow \<Rightarrow> classes_change cl (\<lambda>t. case class_named h t name of
            Inl err \<Rightarrow> Inl err
          | Inr class \<Rightarrow> Inr (t\<lparr>ct_shadows := (case shadow of
                Some s \<Rightarrow> om_put class s (ct_shadows t) | None \<Rightarrow> om_del class (ct_shadows t))\<rparr>)))"

fun shadows_to_core :: "(bytes \<times> user_limit) list \<Rightarrow> guard_error + (bytes \<times> user_limit \<times> limit) list" where
  "shadows_to_core [] = Inr []"
| "shadows_to_core ((name, l) # ss) = (case to_core l of
     Inl err \<Rightarrow> Inl err
   | Inr core \<Rightarrow> (case shadows_to_core ss of Inl err \<Rightarrow> Inl err | Inr rest \<Rightarrow> Inr ((name, l, core) # rest)))"

fun shadows_of_classes ::
  "hashes \<Rightarrow> class_table \<Rightarrow> (u64, user_limit \<times> limit) omap \<Rightarrow> (bytes \<times> user_limit \<times> limit) list \<Rightarrow>
   guard_error + (u64, user_limit \<times> limit) omap" where
  "shadows_of_classes h t all [] = Inr all"
| "shadows_of_classes h t all ((name, l, core) # ss) = (case class_named h t name of
     Inl err \<Rightarrow> Inl err
   | Inr class \<Rightarrow> shadows_of_classes h t (om_put class (l, core) all) ss)"

definition classes_replace_shadows ::
  "hashes \<Rightarrow> classes \<Rightarrow> (bytes \<times> user_limit) list \<Rightarrow> (guard_error + unit) \<times> classes" where
  "classes_replace_shadows h cl given = (case shadows_to_core given of
     Inl err \<Rightarrow> (Inl err, cl)
   | Inr shadows \<Rightarrow> classes_change cl (\<lambda>t. case shadows_of_classes h t [] shadows of
         Inl err \<Rightarrow> Inl err
       | Inr all \<Rightarrow> Inr (t\<lparr>ct_shadows := all\<rparr>)))"

definition classes_shadows :: "classes \<Rightarrow> (bytes \<times> user_limit) list" where
  "classes_shadows cl = map (\<lambda>(class, l, core).
     (case om_get (ct_named (cl_table cl)) class of Some (name, _, _) \<Rightarrow> name | None \<Rightarrow> [], l))
     (ct_shadows (cl_table cl))"

definition classes_list :: "classes \<Rightarrow> (bytes \<times> user_limit) list" where
  "classes_list cl = map (\<lambda>(hash, name, l, core). (name, l)) (ct_named (cl_table cl))"

end
