(* ===== verification/Rng.thy ===== *)
theory Rng
  imports Float64
begin

text \<open>
  \<open>rateguard-core/src/rng.rs\<close>: SplitMix64, whose whole state is one word, and
  the draws the protocol makes from it. Every draw returns the number and the
  generator after it.
\<close>

unbundle bit_operations_syntax

record rng =
  r_state :: u64

definition rng_new :: "u64 \<Rightarrow> rng" where
  "rng_new seed = \<lparr>r_state = seed\<rparr>"

definition next_u64 :: "rng \<Rightarrow> u64 \<times> rng" where
  "next_u64 r =
     (let s = r_state r + 0x9e3779b97f4a7c15;
          z = (s XOR drop_bit 30 s) * 0xbf58476d1ce4e5b9;
          z' = (z XOR drop_bit 27 z) * 0x94d049bb133111eb
      in (z' XOR drop_bit 31 z', r\<lparr>r_state := s\<rparr>))"

definition rng_unit :: "rng \<Rightarrow> f64 \<times> rng" where
  "rng_unit r = (let (x, r') = next_u64 r in
     (f64_of_word (drop_bit 11 x) / f64_of_word (push_bit 53 (1::u64)), r'))"

definition up_to :: "rng \<Rightarrow> u64 \<Rightarrow> u64 \<times> rng" where
  "up_to r bound = (let (draw, r') = next_u64 r in
     (case checked_add bound 1 of
        None \<Rightarrow> draw
      | Some width \<Rightarrow> ucast (drop_bit 64 (ucast draw * ucast width :: 128 word)), r'))"

definition swap :: "'a list \<Rightarrow> nat \<Rightarrow> nat \<Rightarrow> 'a list" where
  "swap xs i j = xs[i := xs ! j, j := xs ! i]"

text \<open>Fisher-Yates: \<open>shuffle_from r i xs\<close> is the loop from index \<open>i\<close> down to 1.\<close>

fun shuffle_from :: "rng \<Rightarrow> nat \<Rightarrow> 'a list \<Rightarrow> 'a list \<times> rng" where
  "shuffle_from r 0 xs = (xs, r)"
| "shuffle_from r (Suc i) xs =
     (let (j, r') = up_to r (of_nat (Suc i)) in shuffle_from r' i (swap xs (Suc i) (unat j)))"

definition shuffle :: "rng \<Rightarrow> 'a list \<Rightarrow> 'a list \<times> rng" where
  "shuffle r xs = shuffle_from r (length xs - 1) xs"

section \<open>Draws and shuffles\<close>

lemma unat_fst_up_to:
  "unat (fst (up_to r bound)) =
     (if unat bound = u64_max then unat (fst (next_u64 r))
      else unat (fst (next_u64 r)) * (unat bound + 1) div 2 ^ 64)"
proof (cases "checked_add bound 1")
  case None
  then have "unat bound = u64_max"
    using unat_lt_2p [of bound] by (simp add: checked_add_def split: if_splits)
  with None show ?thesis by (simp add: up_to_def split_beta Let_def)
next
  case (Some width)
  let ?draw = "fst (next_u64 r)"
  have w: "unat width = unat bound + 1" using checked_add_Some [OF Some] by simp
  then have nb: "unat bound \<noteq> u64_max" using unat_lt_2p [of width] by auto
  have d: "unat (ucast ?draw :: 128 word) = unat ?draw" "unat (ucast width :: 128 word) = unat width"
    by (simp_all add: unat_ucast_up)
  have "unat ?draw * unat width < 2 ^ 64 * 2 ^ 64"
    using unat_lt_2p [of ?draw] unat_lt_2p [of width] by (intro mult_strict_mono) auto
  then have p: "unat (ucast ?draw * ucast width :: 128 word) = unat ?draw * unat width"
    using d by (simp add: unat_mult_small)
  have "unat ?draw * unat width \<le> unat ?draw * 2 ^ 64"
    using unat_lt_2p [of width] by (intro mult_le_mono2) simp
  then have "unat ?draw * unat width div 2 ^ 64 \<le> unat ?draw"
    by (metis div_le_mono nonzero_mult_div_cancel_right zero_neq_numeral power_not_zero)
  then have "unat ?draw * unat width div 2 ^ 64 < 2 ^ 64"
    using unat_lt_2p [of ?draw] by simp
  moreover have "unat (drop_bit 64 (ucast ?draw * ucast width :: 128 word)) =
      unat ?draw * unat width div 2 ^ 64"
    by (metis unat_drop_bit_eq p drop_bit_eq_div)
  ultimately have "unat (ucast (drop_bit 64 (ucast ?draw * ucast width :: 128 word)) :: u64) =
      unat ?draw * unat width div 2 ^ 64"
    by (simp only: unsigned_ucast_eq take_bit_nat_eq_self_iff) (simp add: take_bit_nat_eq_self_iff)
  with Some w nb show ?thesis by (simp add: up_to_def split_beta Let_def)
qed

lemma up_to_le: "fst (up_to r bound) \<le> bound"
proof (cases "unat bound = u64_max")
  case True
  then show ?thesis using unat_lt_2p [of "fst (up_to r bound)"] by (simp add: word_le_nat_alt)
next
  case False
  have "unat (fst (next_u64 r)) * (unat bound + 1) < 2 ^ 64 * (unat bound + 1)"
    using unat_lt_2p [of "fst (next_u64 r)"] by (intro mult_strict_right_mono) auto
  then have "unat (fst (next_u64 r)) * (unat bound + 1) div 2 ^ 64 < unat bound + 1"
    by (simp add: less_mult_imp_div_less mult.commute)
  with False show ?thesis by (simp add: word_le_nat_alt unat_fst_up_to)
qed

lemma mset_swap [simp]: "i < length xs \<Longrightarrow> j < length xs \<Longrightarrow> mset (swap xs i j) = mset xs"
  by (simp add: swap_def mset_swap)

lemma length_swap [simp]: "length (swap xs i j) = length xs"
  by (simp add: swap_def)

lemma mset_shuffle_from:
  assumes "i < length xs" "length xs < 2 ^ 64"
  shows "mset (fst (shuffle_from r i xs)) = mset xs"
  using assms
proof (induction r i xs rule: shuffle_from.induct)
  case (2 r i xs)
  obtain j r' where j: "up_to r (of_nat (Suc i)) = (j, r')" by force
  have "unat (of_nat (Suc i) :: u64) = Suc i" using 2(2,3) by (simp add: unat_of_nat del: of_nat_Suc)
  then have "unat j \<le> Suc i"
    using up_to_le [of r "of_nat (Suc i)"] j by (simp add: word_le_nat_alt)
  with 2 j show ?case by simp
qed simp

lemma mset_shuffle: "length xs < 2 ^ 64 \<Longrightarrow> mset (fst (shuffle r xs)) = mset xs"
  by (cases "xs = []") (simp_all add: shuffle_def mset_shuffle_from)

lemma set_shuffle: "length xs < 2 ^ 64 \<Longrightarrow> set (fst (shuffle r xs)) = set xs"
  using mset_shuffle [of xs r] by (metis set_mset_mset)

lemma rng_unit_half_open:
  "\<exists>u. fst (rng_unit r) = Fin u \<and> 0 \<le> u \<and> u < 1"
proof -
  define n where "n = unat (drop_bit 11 (fst (next_u64 r)))"
  have "n = unat (fst (next_u64 r)) div 2 ^ 11"
    unfolding n_def by (metis unat_drop_bit_eq drop_bit_eq_div)
  then have n: "n < 2 ^ 53"
    using unat_lt_2p [of "fst (next_u64 r)"] by (simp add: less_mult_imp_div_less)
  have a: "f64_of_word (drop_bit 11 (fst (next_u64 r))) = Fin (of_nat n)"
    using f64_of_rat_multiple [of n 0] n by (simp add: f64_of_word_def n_def)
  have u: "unat (push_bit 53 (1::u64)) = 9007199254740992" by simp
  have "f64_of_rat (9007199254740992 :: rat) = Fin 9007199254740992"
    using f64_of_rat_multiple [of 9007199254740992 0] by simp
  then have b: "f64_of_word (push_bit 53 (1::u64)) = Fin (2 ^ 53)"
    unfolding f64_of_word_def u of_nat_numeral by simp
  have d: "(of_nat n :: rat) / 2 ^ 53 = of_nat n * 2 powi (- 53)"
    by (simp only: power_int_minus power_int_numeral divide_inverse)
  have "f64_of_rat (of_nat n / 2 ^ 53) = Fin (of_nat n / 2 ^ 53)"
    unfolding d by (rule f64_of_rat_multiple) (use n in simp_all)
  moreover have "Fin (of_nat n) / Fin (2 ^ 53) = f64_of_rat (of_nat n / 2 ^ 53)"
    by (rule Fin_ops(4)) simp
  ultimately have "fst (rng_unit r) = Fin (of_nat n / 2 ^ 53)"
    unfolding rng_unit_def split_beta Let_def fst_conv a b by (simp only:)
  moreover have "(of_nat n :: rat) < 2 ^ 53" using n by (metis of_nat_less_iff of_nat_numeral of_nat_power)
  ultimately show ?thesis by (intro exI [of _ "of_nat n / 2 ^ 53"]) (simp add: divide_less_eq)
qed

section \<open>Properties\<close>

text \<open>
  The draws stay in their ranges for every state of the generator: \<open>up_to\<close> gives at most
  its bound, whose last value \<open>u64::MAX\<close> included, and \<open>unit\<close> lies in the half-open unit interval.
\<close>

theorem rng_ranges:
  "fst (up_to r bound) \<le> bound \<and> (\<exists>u. fst (rng_unit r) = Fin u \<and> 0 \<le> u \<and> u < 1)"
  by (simp add: up_to_le rng_unit_half_open)

text \<open>
  \<open>shuffle\<close> loses nothing: the result is a permutation of the slice, every index it swaps
  being inside it.
\<close>

theorem shuffle_permutes:
  assumes "length xs < 2 ^ 64"
  shows "mset (fst (shuffle r xs)) = mset xs \<and> length (fst (shuffle r xs)) = length xs"
  using mset_shuffle [OF assms] by (metis size_mset)

theorem shuffle_permutes_witness:
  "mset (fst (shuffle (rng_new 7) [1, 2, 3 :: nat])) = {#1, 2, 3#}"
  using shuffle_permutes [of "[1, 2, 3 :: nat]" "rng_new 7"] by simp

end
