(* ===== verification/Membership.thy ===== *)
theory Membership
  imports Wire
begin

text \<open>
  \<open>rateguard-core/src/membership.rs\<close>: who is in the cluster, as the rest of the
  node needs to know it. The trait \<open>Membership\<close> is the locale \<open>membership\<close>, its
  contract that of \<open>check_contract\<close>; \<open>manual_membership\<close> is the membership set
  by hand.
\<close>

datatype change = Joined peer_id | Left peer_id

text \<open>\<open>slice::binary_search\<close> on a sorted list: where it is, or where it belongs.\<close>

definition binary_search :: "'a::linorder list \<Rightarrow> 'a \<Rightarrow> nat + nat" where
  "binary_search xs x =
     (let i = length (takeWhile (\<lambda>y. y < x) xs) in
      if i < length xs \<and> xs ! i = x then Inr i else Inl i)"

definition insert_at :: "nat \<Rightarrow> 'a \<Rightarrow> 'a list \<Rightarrow> 'a list" where
  "insert_at i x xs = take i xs @ x # drop i xs"

definition remove_at :: "nat \<Rightarrow> 'a list \<Rightarrow> 'a list" where
  "remove_at i xs = take i xs @ drop (Suc i) xs"

record manual_membership =
  mm_local :: peer_id
  mm_peers :: "peer_id list"
  mm_changes :: "change list"

text \<open>Collecting into a \<open>BTreeSet\<close>: ascending, without repetitions.\<close>

definition btree_set :: "'a::linorder list \<Rightarrow> 'a list" where
  "btree_set xs = om_keys (fold (\<lambda>x. om_put x ()) xs [])"

definition manual_new :: "peer_id \<Rightarrow> peer_id list \<Rightarrow> manual_membership" where
  "manual_new local peers =
     (let ps = btree_set (filter (\<lambda>p. p \<noteq> local) peers)
      in \<lparr>mm_local = local, mm_peers = ps, mm_changes = map Joined ps\<rparr>)"

definition manual_alone :: "peer_id \<Rightarrow> manual_membership" where
  "manual_alone local = manual_new local []"

definition manual_add :: "manual_membership \<Rightarrow> peer_id \<Rightarrow> (bool \<times> manual_membership) option" where
  "manual_add m peer = do {
     ensure (peer \<noteq> mm_local m);
     Some (case binary_search (mm_peers m) peer of
        Inr _ \<Rightarrow> (False, m)
      | Inl pos \<Rightarrow> (True, m\<lparr>mm_peers := insert_at pos peer (mm_peers m),
                          mm_changes := mm_changes m @ [Joined peer]\<rparr>))
   }"

definition manual_remove :: "manual_membership \<Rightarrow> peer_id \<Rightarrow> bool \<times> manual_membership" where
  "manual_remove m peer =
     (case binary_search (mm_peers m) peer of
        Inr pos \<Rightarrow> (True, m\<lparr>mm_peers := remove_at pos (mm_peers m),
                          mm_changes := mm_changes m @ [Left peer]\<rparr>)
      | Inl _ \<Rightarrow> (False, m))"

definition manual_drain :: "manual_membership \<Rightarrow> change list \<times> manual_membership" where
  "manual_drain m = (mm_changes m, m\<lparr>mm_changes := []\<rparr>)"

text \<open>\<open>cluster_size\<close>, the trait's default method, and \<open>check_contract\<close>.\<close>

definition cluster_size_of :: "peer_id list \<Rightarrow> nat" where
  "cluster_size_of peers = length peers + 1"

datatype contract_error = ListsItself | NotAscending peer_id peer_id | WrongSize nat nat

fun first_descent :: "peer_id list \<Rightarrow> (peer_id \<times> peer_id) option" where
  "first_descent (a # b # ps) = (if b \<le> a then Some (a, b) else first_descent (b # ps))"
| "first_descent ps = None"

definition check_contract :: "peer_id \<Rightarrow> peer_id list \<Rightarrow> nat \<Rightarrow> contract_error + unit" where
  "check_contract local peers sz =
     (if local \<in> set peers then Inl ListsItself
      else case first_descent peers of
        Some (a, b) \<Rightarrow> Inl (NotAscending a b)
      | None \<Rightarrow> if sz \<noteq> length peers + 1 then Inl (WrongSize sz (length peers)) else Inr ())"

section \<open>Sorted peers\<close>

lemma binary_search_Cons:
  "sorted_wrt (<) (a # xs) \<Longrightarrow> binary_search (a # xs) x =
     (if x < a then Inl 0 else if x = a then Inr 0
      else case binary_search xs x of Inl i \<Rightarrow> Inl (Suc i) | Inr i \<Rightarrow> Inr (Suc i))"
  by (auto simp: binary_search_def Let_def)

lemma binary_search_cases:
  assumes "sorted_wrt (<) xs"
  shows "case binary_search xs x of
    Inl i \<Rightarrow> x \<notin> set xs \<and> insert_at i x xs = insort x xs
  | Inr i \<Rightarrow> x \<in> set xs \<and> remove_at i xs = remove1 x xs"
  using assms
proof (induction xs)
  case Nil
  then show ?case by (simp add: binary_search_def insert_at_def)
next
  case (Cons a xs)
  then have IH: "case binary_search xs x of
    Inl i \<Rightarrow> x \<notin> set xs \<and> insert_at i x xs = insort x xs
  | Inr i \<Rightarrow> x \<in> set xs \<and> remove_at i xs = remove1 x xs" by simp
  have less: "\<And>y. y \<in> set xs \<Longrightarrow> a < y" using Cons.prems by simp
  consider "x < a" | "x = a" | "a < x" by (rule linorder_less_linear [THEN disjE]) auto
  then show ?case
  proof cases
    case 1
    then have "x \<notin> set xs" using less by fastforce
    with 1 show ?thesis using Cons.prems by (auto simp: binary_search_Cons insert_at_def)
  next
    case 2
    with Cons.prems show ?thesis by (simp add: binary_search_Cons remove_at_def)
  next
    case 3
    with IH show ?thesis using Cons.prems
      by (auto simp: binary_search_Cons insert_at_def remove_at_def split: sum.splits)
  qed
qed

lemma binary_search_iff:
  assumes "sorted_wrt (<) xs"
  shows "(\<exists>i. binary_search xs x = Inr i) \<longleftrightarrow> x \<in> set xs"
  using binary_search_cases [OF assms, of x] by (auto split: sum.splits)

lemma strict_sorted_insort:
  "sorted_wrt (<) xs \<Longrightarrow> x \<notin> set xs \<Longrightarrow> sorted_wrt (<) (insort x xs)"
  by (simp add: strict_sorted_iff sorted_insort distinct_insort)

lemma strict_sorted_remove1:
  "sorted_wrt (<) xs \<Longrightarrow> sorted_wrt (<) (remove1 x xs)" for xs :: "'a::linorder list"
  by (simp add: strict_sorted_iff sorted_remove1)

lemma first_descent_None: "first_descent xs = None \<longleftrightarrow> sorted_wrt (<) xs"
proof (induction xs rule: first_descent.induct)
  case (1 a b ps)
  have "sorted_wrt (<) (a # b # ps) \<longleftrightarrow> a < b \<and> sorted_wrt (<) (b # ps)"
    by (auto intro: less_trans)
  with 1 show ?case by (auto simp: not_less)
qed auto

section \<open>The contract\<close>

text \<open>
  A consumer that keeps its own list of peers rebuilds it from the changes: each change is
  one that can happen to the list it holds.
\<close>

fun replay_changes :: "peer_id list \<Rightarrow> change list \<Rightarrow> peer_id list option" where
  "replay_changes ps [] = Some ps"
| "replay_changes ps (Joined p # cs) = (if p \<in> set ps then None else replay_changes (insort p ps) cs)"
| "replay_changes ps (Left p # cs) = (if p \<in> set ps then replay_changes (remove1 p ps) cs else None)"

lemma replay_changes_append:
  "replay_changes ps (cs @ ds) = replay_changes ps cs \<bind> (\<lambda>qs. replay_changes qs ds)"
  by (induction ps cs rule: replay_changes.induct) auto

text \<open>
  What the node needs of a membership: the trait's contract at every moment, and
  operations that report what they do.
\<close>

locale membership =
  fixes operation :: "'s \<Rightarrow> 's \<Rightarrow> bool"
    and local_of :: "'s \<Rightarrow> peer_id"
    and peers_of :: "'s \<Rightarrow> peer_id list"
    and changes_of :: "'s \<Rightarrow> change list"
    and valid :: "'s \<Rightarrow> bool"
  assumes ascending: "valid s \<Longrightarrow> sorted_wrt (<) (peers_of s)"
    and not_itself: "valid s \<Longrightarrow> local_of s \<notin> set (peers_of s)"
    and operation_valid: "valid s \<Longrightarrow> operation s s' \<Longrightarrow> valid s' \<and> local_of s' = local_of s"
    and operation_reports: "valid s \<Longrightarrow> operation s s' \<Longrightarrow>
      \<exists>cs. changes_of s' = changes_of s @ cs \<and> replay_changes (peers_of s) cs = Some (peers_of s')"
begin

lemma contract:
  "valid s \<Longrightarrow> check_contract (local_of s) (peers_of s) (cluster_size_of (peers_of s)) = Inr ()"
  using ascending [of s] not_itself [of s] first_descent_None [of "peers_of s"]
  by (simp add: check_contract_def cluster_size_of_def)

lemma operations_valid: "operation\<^sup>*\<^sup>* s s' \<Longrightarrow> valid s \<Longrightarrow> valid s' \<and> local_of s' = local_of s"
  by (induction rule: rtranclp_induct) (auto dest: operation_valid)

lemma operations_report:
  "operation\<^sup>*\<^sup>* s s' \<Longrightarrow> valid s \<Longrightarrow>
    \<exists>cs. changes_of s' = changes_of s @ cs \<and> replay_changes (peers_of s) cs = Some (peers_of s')"
proof (induction rule: rtranclp_induct)
  case base
  show ?case by (rule exI [of _ "[]"]) simp
next
  case (step s1 s2)
  obtain cs where cs: "changes_of s1 = changes_of s @ cs" "replay_changes (peers_of s) cs = Some (peers_of s1)"
    using step.IH [OF step.prems] by blast
  have "valid s1" using operations_valid [OF step.hyps(1) step.prems] by simp
  then obtain ds where "changes_of s2 = changes_of s1 @ ds" "replay_changes (peers_of s1) ds = Some (peers_of s2)"
    using operation_reports step.hyps(2) by blast
  with cs show ?case by (intro exI [of _ "cs @ ds"]) (simp add: replay_changes_append)
qed

end

section \<open>The membership set by hand\<close>

definition manual_wf :: "manual_membership \<Rightarrow> bool" where
  "manual_wf m = (sorted_wrt (<) (mm_peers m) \<and> mm_local m \<notin> set (mm_peers m))"

definition manual_operation :: "manual_membership \<Rightarrow> manual_membership \<Rightarrow> bool" where
  "manual_operation m m' = (\<exists>peer. manual_add m peer = Some (True, m') \<or> manual_add m peer = Some (False, m') \<or>
     m' = snd (manual_remove m peer))"

lemma manual_add_spec:
  assumes "manual_wf m"
  shows "manual_add m peer = (if peer = mm_local m then None
    else if peer \<in> set (mm_peers m) then Some (False, m)
    else Some (True, m\<lparr>mm_peers := insort peer (mm_peers m), mm_changes := mm_changes m @ [Joined peer]\<rparr>))"
  using binary_search_cases [of "mm_peers m" peer] assms
  by (auto simp: manual_add_def manual_wf_def split: sum.splits)

lemma manual_remove_spec:
  assumes "manual_wf m"
  shows "manual_remove m peer = (if peer \<in> set (mm_peers m)
    then (True, m\<lparr>mm_peers := remove1 peer (mm_peers m), mm_changes := mm_changes m @ [Left peer]\<rparr>)
    else (False, m))"
  using binary_search_cases [of "mm_peers m" peer] assms
  by (auto simp: manual_remove_def manual_wf_def split: sum.splits)

lemma manual_operation_cases:
  assumes "manual_wf m" "manual_operation m m'"
  obtains "m' = m"
  | peer where "peer \<notin> set (mm_peers m)" "peer \<noteq> mm_local m"
      "m' = m\<lparr>mm_peers := insort peer (mm_peers m), mm_changes := mm_changes m @ [Joined peer]\<rparr>"
  | peer where "peer \<in> set (mm_peers m)"
      "m' = m\<lparr>mm_peers := remove1 peer (mm_peers m), mm_changes := mm_changes m @ [Left peer]\<rparr>"
  using assms(2) unfolding manual_operation_def manual_add_spec [OF assms(1)] manual_remove_spec [OF assms(1)]
  by (auto split: if_splits)

interpretation by_hand: membership manual_operation mm_local mm_peers mm_changes manual_wf
proof
  fix s s' :: manual_membership
  assume wf: "manual_wf s"
  show "sorted_wrt (<) (mm_peers s)" "mm_local s \<notin> set (mm_peers s)" using wf by (simp_all add: manual_wf_def)
  assume o: "manual_operation s s'"
  show "manual_wf s' \<and> mm_local s' = mm_local s"
    using wf by (cases rule: manual_operation_cases [OF wf o])
      (auto simp: manual_wf_def strict_sorted_insort strict_sorted_remove1 set_insort_key dest: set_remove1_subset [THEN subsetD])
  show "\<exists>cs. mm_changes s' = mm_changes s @ cs \<and> replay_changes (mm_peers s) cs = Some (mm_peers s')"
  proof (cases rule: manual_operation_cases [OF wf o])
    case 1
    then show ?thesis by (intro exI [of _ "[]"]) simp
  next
    case (2 peer)
    then show ?thesis by (intro exI [of _ "[Joined peer]"]) simp
  next
    case (3 peer)
    then show ?thesis by (intro exI [of _ "[Left peer]"]) simp
  qed
qed

lemma btree_set_sorted: "sorted_wrt (<) (btree_set xs)"
proof -
  have "om_wf (fold (\<lambda>x. om_put x ()) xs m)" if "om_wf m" for m :: "('a, unit) omap"
    using that by (induction xs arbitrary: m) auto
  then show ?thesis using om_wf_Nil by (auto simp: btree_set_def om_wf_def)
qed

lemma set_btree_set: "set (btree_set xs) = set xs"
proof -
  have "fst ` set (fold (\<lambda>x. om_put x ()) xs m) = set xs \<union> fst ` set m" for m :: "('a, unit) omap"
    by (induction xs arbitrary: m) auto
  then show ?thesis by (simp add: btree_set_def)
qed

lemma manual_new_wf: "manual_wf (manual_new local peers)"
  by (simp add: manual_new_def manual_wf_def btree_set_sorted set_btree_set Let_def)

lemma replay_new: "sorted_wrt (<) ps \<Longrightarrow> \<forall>p \<in> set ps. \<forall>q \<in> set qs. q < p \<Longrightarrow> sorted_wrt (<) qs \<Longrightarrow>
  replay_changes qs (map Joined ps) = Some (qs @ ps)"
proof (induction ps arbitrary: qs)
  case (Cons p ps)
  have "insort p qs = qs @ [p]"
    using Cons.prems(2) by (intro sorted_insort_is_snoc) (use Cons.prems(2,3) in \<open>auto simp: strict_sorted_iff\<close>)
  with Cons show ?case by (force simp: sorted_wrt_append)
qed simp

section \<open>Properties\<close>

text \<open>
  The membership set by hand keeps the trait's contract: made from any list of peers and after
  any additions and removals it lists every peer once, ascending, never itself and its size is
  one more, and whoever follows its changes from an empty list holds exactly its peers.
\<close>

theorem manual_membership_contract:
  assumes "manual_operation\<^sup>*\<^sup>* (manual_new local peers) m"
  shows "check_contract local (mm_peers m) (cluster_size_of (mm_peers m)) = Inr () \<and>
    replay_changes [] (mm_changes m) = Some (mm_peers m)"
proof -
  let ?m = "manual_new local peers"
  obtain cs where cs: "mm_changes m = mm_changes ?m @ cs" "replay_changes (mm_peers ?m) cs = Some (mm_peers m)"
    using by_hand.operations_report [OF assms manual_new_wf] by blast
  have "sorted_wrt (<) (mm_peers ?m)" using manual_new_wf [of local peers] by (simp add: manual_wf_def)
  then have "replay_changes [] (mm_changes ?m) = Some (mm_peers ?m)"
    using replay_new [of "mm_peers ?m" "[]"] by (simp add: manual_new_def Let_def)
  then have "replay_changes [] (mm_changes m) = Some (mm_peers m)" using cs by (simp add: replay_changes_append)
  moreover have "manual_wf m" "mm_local m = local"
    using by_hand.operations_valid [OF assms manual_new_wf] by (simp_all add: manual_new_def Let_def)
  ultimately show ?thesis using by_hand.contract [of m] by simp
qed

theorem manual_membership_contract_witness:
  "let m = snd (manual_remove (manual_new 1 [3, 1, 2, 3]) 2) in replay_changes [] (mm_changes m) = Some (mm_peers m)"
proof -
  have "manual_operation\<^sup>*\<^sup>* (manual_new 1 [3, 1, 2, 3]) (snd (manual_remove (manual_new 1 [3, 1, 2, 3]) 2))"
    by (intro r_into_rtranclp) (auto simp: manual_operation_def)
  from manual_membership_contract [OF this] show ?thesis by (simp add: Let_def)
qed

end
