(* ===== verification/Member_Table.thy ===== *)
theory Member_Table
  imports Membership
begin

text \<open>
  \<open>rateguard-core/src/member.rs\<close>: SWIM's member table, a state machine over
  \<open>member_table\<close>. \<open>table_apply\<close> takes one piece of news.
\<close>

datatype applied = Ignored | Accepted "status option" | Refuted update | Refused

record member =
  m_addr :: address
  m_incarnation :: u32
  m_status :: status
  m_since :: nanos
  m_joined :: nanos
  m_departed :: bool

definition member_update :: "member \<Rightarrow> peer_id \<Rightarrow> update" where
  "member_update m peer = \<lparr>u_member = peer, u_addr = m_addr m,
     u_incarnation = m_incarnation m, u_status = m_status m\<rparr>"

record member_table =
  mt_local :: peer_id
  mt_addr :: address
  mt_incarnation :: u32
  mt_members :: "(peer_id, member) omap"
  mt_live :: "peer_id list"
  mt_changes :: "change list"
  mt_max :: nat
  mt_refused :: u64

definition table_new :: "peer_id \<Rightarrow> address \<Rightarrow> member_table" where
  "table_new local addr = \<lparr>mt_local = local, mt_addr = addr, mt_incarnation = 0, mt_members = [],
     mt_live = [], mt_changes = [], mt_max = u64_max, mt_refused = 0\<rparr>"

definition set_max :: "member_table \<Rightarrow> nat \<Rightarrow> member_table option" where
  "set_max mt n = do { ensure (1 \<le> n); Some (mt\<lparr>mt_max := n\<rparr>) }"

definition known :: "member_table \<Rightarrow> nat" where
  "known mt = length (mt_members mt) + 1"

definition status_of :: "member_table \<Rightarrow> peer_id \<Rightarrow> status option" where
  "status_of mt peer =
     (if peer = mt_local mt then Some Alive else map_option m_status (om_get (mt_members mt) peer))"

definition table_address :: "member_table \<Rightarrow> peer_id \<Rightarrow> address option" where
  "table_address mt peer =
     (if peer = mt_local mt then Some (mt_addr mt) else map_option m_addr (om_get (mt_members mt) peer))"

definition own_update :: "member_table \<Rightarrow> update" where
  "own_update mt = \<lparr>u_member = mt_local mt, u_addr = mt_addr mt,
     u_incarnation = mt_incarnation mt, u_status = Alive\<rparr>"

definition update_about :: "member_table \<Rightarrow> peer_id \<Rightarrow> update option" where
  "update_about mt peer =
     (if peer = mt_local mt then Some (own_update mt)
      else map_option (\<lambda>m. member_update m peer) (om_get (mt_members mt) peer))"

definition refute :: "member_table \<Rightarrow> update \<Rightarrow> (applied \<times> member_table) option" where
  "refute mt news = do {
     newer \<leftarrow> supersedes news (own_update mt);
     Some (if \<not> newer then
             (case u_status news of
                Alive \<Rightarrow> (Ignored, mt)
              | _ \<Rightarrow> (Refuted (own_update mt), mt))
           else case checked_add (u_incarnation news) 1 of
             None \<Rightarrow> (Ignored, mt)
           | Some incarnation \<Rightarrow>
               let mt' = mt\<lparr>mt_incarnation := incarnation\<rparr> in (Refuted (own_update mt'), mt'))
   }"

text \<open>The live list and the changes follow a member's move between live and dead.\<close>

definition follow_live :: "member_table \<Rightarrow> peer_id \<Rightarrow> bool \<Rightarrow> bool \<Rightarrow> member_table option" where
  "follow_live mt peer was_live is_live =
     (if \<not> was_live \<and> is_live then
        (case binary_search (mt_live mt) peer of
           Inr _ \<Rightarrow> None
         | Inl pos \<Rightarrow> Some (mt\<lparr>mt_live := insert_at pos peer (mt_live mt),
                             mt_changes := mt_changes mt @ [Joined peer]\<rparr>))
      else if was_live \<and> \<not> is_live then
        (case binary_search (mt_live mt) peer of
           Inl _ \<Rightarrow> None
         | Inr pos \<Rightarrow> Some (mt\<lparr>mt_live := remove_at pos (mt_live mt),
                             mt_changes := mt_changes mt @ [Left peer]\<rparr>))
      else Some mt)"

definition table_apply :: "member_table \<Rightarrow> update \<Rightarrow> nanos \<Rightarrow> (applied \<times> member_table) option" where
  "table_apply mt u now =
     (let peer = u_member u in
      if peer = mt_local mt then refute mt u
      else
        let before = om_get (mt_members mt) peer in do {
          newer \<leftarrow> (case before of None \<Rightarrow> Some True
                     | Some current \<Rightarrow> supersedes u (member_update current peer));
          if \<not> newer then Some (Ignored, mt)
          else if before = None \<and> mt_max mt \<le> known mt then
            Some (Refused, mt\<lparr>mt_refused := mt_refused mt + 1\<rparr>)
          else
            let was_live = (case before of None \<Rightarrow> False | Some m \<Rightarrow> m_status m \<noteq> Dead);
                is_live = (u_status u \<noteq> Dead);
                joined = (case before of
                    Some m \<Rightarrow> if was_live \<or> \<not> is_live then m_joined m else now
                  | None \<Rightarrow> now);
                m' = \<lparr>m_addr = u_addr u, m_incarnation = u_incarnation u, m_status = u_status u,
                      m_since = now, m_joined = joined, m_departed = False\<rparr>
            in do {
              mt' \<leftarrow> follow_live (mt\<lparr>mt_members := om_put peer m' (mt_members mt)\<rparr>)
                       peer was_live is_live;
              Some (Accepted (map_option m_status before), mt')
            }
        })"

definition suspect :: "member_table \<Rightarrow> peer_id \<Rightarrow> nanos \<Rightarrow> (update option \<times> member_table) option" where
  "suspect mt peer now = do {
     ensure (peer \<noteq> mt_local mt);
     case om_get (mt_members mt) peer of
       None \<Rightarrow> Some (None, mt)
     | Some m \<Rightarrow>
         if m_status m \<noteq> Alive then Some (None, mt)
         else let u = (member_update m peer)\<lparr>u_status := Suspect\<rparr> in do {
           (_, mt') \<leftarrow> table_apply mt u now;
           Some (Some u, mt')
         }
   }"

definition table_depart :: "member_table \<Rightarrow> peer_id \<Rightarrow> bool \<times> member_table" where
  "table_depart mt peer =
     (case om_get (mt_members mt) peer of
        None \<Rightarrow> (False, mt)
      | Some m \<Rightarrow>
          if m_status m = Dead \<and> \<not> m_departed m
          then (True, mt\<lparr>mt_members := om_put peer (m\<lparr>m_departed := True\<rparr>) (mt_members mt)\<rparr>)
          else (False, mt))"

definition has_departed :: "member_table \<Rightarrow> peer_id \<Rightarrow> bool" where
  "has_departed mt peer =
     (case om_get (mt_members mt) peer of None \<Rightarrow> False | Some m \<Rightarrow> m_departed m)"

definition joined_at :: "member_table \<Rightarrow> peer_id \<Rightarrow> nanos option" where
  "joined_at mt peer = map_option m_joined (om_get (mt_members mt) peer)"

definition next_live_after :: "member_table \<Rightarrow> peer_id option \<Rightarrow> update option" where
  "next_live_after mt after =
     (let rest = (case after of
                    Some a \<Rightarrow> filter (\<lambda>(peer, m). a < peer) (mt_members mt)
                  | None \<Rightarrow> mt_members mt)
      in case filter (\<lambda>(peer, m). m_status m \<noteq> Dead) rest of
           [] \<Rightarrow> None
         | (peer, m) # _ \<Rightarrow> Some (member_update m peer))"

definition dead_members :: "member_table \<Rightarrow> peer_id list" where
  "dead_members mt = map fst (filter (\<lambda>(peer, m). m_status m = Dead) (mt_members mt))"

definition forget_dead :: "member_table \<Rightarrow> nanos \<Rightarrow> nanos \<Rightarrow> nat \<times> member_table" where
  "forget_dead mt now ttl =
     (let kept = om_retain (\<lambda>peer m. m_status m \<noteq> Dead \<or> saturating_sub now (m_since m) < ttl)
                   (mt_members mt)
      in (length (mt_members mt) - length kept, mt\<lparr>mt_members := kept\<rparr>))"

fun apply_all :: "member_table \<Rightarrow> update list \<Rightarrow> nanos \<Rightarrow> member_table option" where
  "apply_all mt [] now = Some mt"
| "apply_all mt (u # us) now = do { (_, mt') \<leftarrow> table_apply mt u now; apply_all mt' us now }"

definition expire_suspects ::
  "member_table \<Rightarrow> nanos \<Rightarrow> nanos \<Rightarrow> (update list \<times> member_table) option" where
  "expire_suspects mt now timeout = do {
     ensure (0 < timeout);
     let expired = map (\<lambda>(peer, m). (member_update m peer)\<lparr>u_status := Dead\<rparr>)
       (filter (\<lambda>(peer, m). m_status m = Suspect \<and> timeout \<le> saturating_sub now (m_since m))
         (mt_members mt));
     mt' \<leftarrow> apply_all mt expired now;
     Some (expired, mt')
   }"

definition table_drain :: "member_table \<Rightarrow> change list \<times> member_table" where
  "table_drain mt = (mt_changes mt, mt\<lparr>mt_changes := []\<rparr>)"

definition table_cluster_size :: "member_table \<Rightarrow> nat" where
  "table_cluster_size mt = cluster_size_of (mt_live mt)"

section \<open>Invariant\<close>

text \<open>The live peers are the members not dead, and only the dead have departed.\<close>

definition alive_keys :: "(peer_id, member) omap \<Rightarrow> peer_id set" where
  "alive_keys ms = {p. \<exists>m. om_get ms p = Some m \<and> m_status m \<noteq> Dead}"

definition table_wf :: "member_table \<Rightarrow> bool" where
  "table_wf mt = (om_wf (mt_members mt) \<and> \<not> om_has (mt_members mt) (mt_local mt) \<and>
     sorted_wrt (<) (mt_live mt) \<and> set (mt_live mt) = alive_keys (mt_members mt) \<and>
     (\<forall>p m. om_get (mt_members mt) p = Some m \<and> m_departed m \<longrightarrow> m_status m = Dead))"

lemma table_wfD:
  assumes "table_wf mt"
  shows "om_wf (mt_members mt)" "om_get (mt_members mt) (mt_local mt) = None" "sorted_wrt (<) (mt_live mt)"
    "p \<in> set (mt_live mt) \<longleftrightarrow> (\<exists>m. om_get (mt_members mt) p = Some m \<and> m_status m \<noteq> Dead)"
    "om_get (mt_members mt) p = Some m \<Longrightarrow> m_departed m \<Longrightarrow> m_status m = Dead"
  using assms by (auto simp: table_wf_def alive_keys_def om_has_def)

lemma table_new_wf: "table_wf (table_new local addr)"
  by (simp add: table_wf_def table_new_def alive_keys_def om_has_def)

text \<open>What the table holds about a peer.\<close>

definition held_about :: "member_table \<Rightarrow> peer_id \<Rightarrow> update option" where
  "held_about mt p = map_option (\<lambda>m. member_update m p) (om_get (mt_members mt) p)"

lemma u_member_update [simp]: "u_member (member_update m p) = p" "u_addr (member_update m p) = m_addr m"
  "u_incarnation (member_update m p) = m_incarnation m" "u_status (member_update m p) = m_status m"
  by (simp_all add: member_update_def)

section \<open>One piece of news\<close>

text \<open>What \<open>apply\<close> does with news about another node that it accepts.\<close>

definition accept :: "member_table \<Rightarrow> update \<Rightarrow> nanos \<Rightarrow> member_table" where
  "accept mt u now =
     (let peer = u_member u; before = om_get (mt_members mt) peer;
          was_live = peer \<in> set (mt_live mt); is_live = (u_status u \<noteq> Dead)
      in mt\<lparr>mt_members := om_put peer \<lparr>m_addr = u_addr u, m_incarnation = u_incarnation u, m_status = u_status u,
                m_since = now, m_joined = (case before of
                    Some m \<Rightarrow> if was_live \<or> \<not> is_live then m_joined m else now | None \<Rightarrow> now),
                m_departed = False\<rparr> (mt_members mt),
            mt_live := (if \<not> was_live \<and> is_live then insort peer (mt_live mt)
                        else if was_live \<and> \<not> is_live then remove1 peer (mt_live mt) else mt_live mt),
            mt_changes := mt_changes mt @ (if \<not> was_live \<and> is_live then [Joined peer]
                        else if was_live \<and> \<not> is_live then [Left peer] else [])\<rparr>)"

lemma follow_live_spec:
  assumes "sorted_wrt (<) (mt_live mt)" "was \<longleftrightarrow> peer \<in> set (mt_live mt)"
  shows "follow_live mt peer was is_live = Some (mt\<lparr>
      mt_live := (if \<not> was \<and> is_live then insort peer (mt_live mt)
                  else if was \<and> \<not> is_live then remove1 peer (mt_live mt) else mt_live mt),
      mt_changes := mt_changes mt @ (if \<not> was \<and> is_live then [Joined peer]
                  else if was \<and> \<not> is_live then [Left peer] else [])\<rparr>)"
  using binary_search_cases [OF assms(1), of peer] assms(2)
  by (auto simp: follow_live_def split: sum.splits)

lemma table_apply_other:
  assumes wf: "table_wf mt" and other: "u_member u \<noteq> mt_local mt"
  shows "table_apply mt u now =
    (if \<not> held_rank (held_about mt (u_member u)) < news_rank u then Some (Ignored, mt)
     else if held_about mt (u_member u) = None \<and> mt_max mt \<le> known mt
       then Some (Refused, mt\<lparr>mt_refused := mt_refused mt + 1\<rparr>)
     else Some (Accepted (status_of mt (u_member u)), accept mt u now))"
proof -
  let ?peer = "u_member u" and ?before = "om_get (mt_members mt) (u_member u)"
  have newer: "(case ?before of None \<Rightarrow> Some True | Some current \<Rightarrow> supersedes u (member_update current ?peer)) =
      Some (held_rank (held_about mt ?peer) < news_rank u)"
    by (cases ?before) (simp_all add: held_about_def supersedes_rank news_rank_def)
  have none: "?before = None \<longleftrightarrow> held_about mt ?peer = None" by (simp add: held_about_def)
  have st: "status_of mt ?peer = map_option m_status ?before" using other by (simp add: status_of_def)
  have was: "(case ?before of None \<Rightarrow> False | Some m \<Rightarrow> m_status m \<noteq> Dead) \<longleftrightarrow> ?peer \<in> set (mt_live mt)"
    using table_wfD(4) [OF wf, of ?peer] by (auto split: option.splits)
  show ?thesis
    unfolding table_apply_def Let_def newer
    using other none st table_wfD(3) [OF wf] unfolding was
    by (simp add: accept_def Let_def follow_live_spec)
qed

lemma accept_simps [simp]:
  "mt_local (accept mt u now) = mt_local mt" "mt_addr (accept mt u now) = mt_addr mt"
  "mt_incarnation (accept mt u now) = mt_incarnation mt" "mt_max (accept mt u now) = mt_max mt"
  by (simp_all add: accept_def Let_def)

lemma accept_get:
  "om_get (mt_members (accept mt u now)) p =
     (if p = u_member u then Some \<lparr>m_addr = u_addr u, m_incarnation = u_incarnation u, m_status = u_status u,
         m_since = now, m_joined = (case om_get (mt_members mt) p of
             Some m \<Rightarrow> if p \<in> set (mt_live mt) \<or> u_status u = Dead then m_joined m else now | None \<Rightarrow> now),
         m_departed = False\<rparr>
      else om_get (mt_members mt) p)"
  by (auto simp: accept_def Let_def split: option.split)

lemma accept_live:
  assumes "table_wf mt"
  shows "sorted_wrt (<) (mt_live (accept mt u now))"
    "set (mt_live (accept mt u now)) =
      (if u_status u = Dead then set (mt_live mt) - {u_member u} else insert (u_member u) (set (mt_live mt)))"
proof -
  have s: "sorted_wrt (<) (mt_live mt)" using table_wfD [OF assms] by simp
  then have "distinct (mt_live mt)" by (simp add: strict_sorted_iff)
  with s show "sorted_wrt (<) (mt_live (accept mt u now))"
    "set (mt_live (accept mt u now)) =
      (if u_status u = Dead then set (mt_live mt) - {u_member u} else insert (u_member u) (set (mt_live mt)))"
    by (auto simp: accept_def Let_def strict_sorted_insort strict_sorted_remove1 set_insort_key)
qed

lemma accept_wf:
  assumes wf: "table_wf mt" and other: "u_member u \<noteq> mt_local mt"
  shows "table_wf (accept mt u now)"
proof -
  note d = table_wfD [OF wf]
  have "om_wf (mt_members (accept mt u now))" using d(1) by (simp add: accept_def Let_def om_wf_put)
  moreover have "\<not> om_has (mt_members (accept mt u now)) (mt_local (accept mt u now))"
    using other d(2) by (simp add: om_has_def accept_get del: om_get_put)
  moreover have "set (mt_live (accept mt u now)) = alive_keys (mt_members (accept mt u now))"
    using accept_live(2) [OF wf] d(4) by (auto simp: alive_keys_def accept_get)
  moreover have "\<forall>p m. om_get (mt_members (accept mt u now)) p = Some m \<and> m_departed m \<longrightarrow> m_status m = Dead"
    using d(5) by (auto simp: accept_get)
  ultimately show ?thesis using accept_live(1) [OF wf] by (simp add: table_wf_def)
qed

lemma accept_reports:
  assumes "table_wf mt"
  shows "\<exists>cs. mt_changes (accept mt u now) = mt_changes mt @ cs \<and>
    replay_changes (mt_live mt) cs = Some (mt_live (accept mt u now))"
  by (rule exI [of _ "drop (length (mt_changes mt)) (mt_changes (accept mt u now))"])
    (auto simp: accept_def Let_def)

lemma held_accept:
  "held_about (accept mt u now) p = (if p = u_member u then Some u else held_about mt p)"
  by (simp add: held_about_def accept_get member_update_def)

lemma held_about_simps [simp]:
  "held_about (mt\<lparr>mt_refused := n\<rparr>) p = held_about mt p"
  "held_about (mt\<lparr>mt_incarnation := i\<rparr>) p = held_about mt p"
  by (simp_all add: held_about_def)

lemma table_wf_simps [simp]:
  "table_wf (mt\<lparr>mt_refused := n\<rparr>) = table_wf mt" "table_wf (mt\<lparr>mt_incarnation := i\<rparr>) = table_wf mt"
  "table_wf (mt\<lparr>mt_changes := cs\<rparr>) = table_wf mt" "table_wf (mt\<lparr>mt_max := k\<rparr>) = table_wf mt"
  by (simp_all add: table_wf_def)

text \<open>News about the node itself touches its own incarnation only.\<close>

lemma table_apply_own:
  assumes "u_member u = mt_local mt"
  shows "table_apply mt u now = Some (
    if \<not> news_rank (own_update mt) < news_rank u then
      (if u_status u = Alive then Ignored else Refuted (own_update mt), mt)
    else case checked_add (u_incarnation u) 1 of
        None \<Rightarrow> (Ignored, mt)
      | Some i \<Rightarrow> (Refuted (own_update (mt\<lparr>mt_incarnation := i\<rparr>)), mt\<lparr>mt_incarnation := i\<rparr>))"
  using assms
  by (auto simp: table_apply_def refute_def supersedes_rank own_update_def Let_def
      split: status.splits option.splits)

lemma table_apply_cases:
  assumes wf: "table_wf mt"
  obtains (Refuted) i where "u_member u = mt_local mt"
      "table_apply mt u now = Some (Refuted (own_update (mt\<lparr>mt_incarnation := i\<rparr>)), mt\<lparr>mt_incarnation := i\<rparr>)"
  | (Ignored) "table_apply mt u now = Some (Ignored, mt)"
      "u_member u = mt_local mt \<or> news_rank u \<le> held_rank (held_about mt (u_member u))"
  | (Refused) "u_member u \<noteq> mt_local mt" "held_about mt (u_member u) = None" "mt_max mt \<le> known mt"
      "table_apply mt u now = Some (Refused, mt\<lparr>mt_refused := mt_refused mt + 1\<rparr>)"
  | (Accepted) "u_member u \<noteq> mt_local mt" "held_rank (held_about mt (u_member u)) < news_rank u"
      "held_about mt (u_member u) = None \<Longrightarrow> known mt < mt_max mt"
      "table_apply mt u now = Some (Accepted (status_of mt (u_member u)), accept mt u now)"
proof (cases "u_member u = mt_local mt")
  case True
  show ?thesis
  proof (cases "news_rank (own_update mt) < news_rank u")
    case newer: True
    show ?thesis
    proof (cases "checked_add (u_incarnation u) 1")
      case None
      then show ?thesis using that(2) newer True by (simp add: table_apply_own)
    next
      case (Some i)
      then show ?thesis using that(1) [of i] newer True by (simp add: table_apply_own)
    qed
  next
    case older: False
    show ?thesis
    proof (cases "u_status u = Alive")
      case alive: True
      then show ?thesis using that(2) older True by (simp add: table_apply_own)
    next
      case False
      then show ?thesis using that(1) [of "mt_incarnation mt"] older True by (simp add: table_apply_own)
    qed
  qed
next
  case False
  note other = table_apply_other [OF wf False, of now]
  consider (old) "\<not> held_rank (held_about mt (u_member u)) < news_rank u"
    | (full) "held_rank (held_about mt (u_member u)) < news_rank u"
        "held_about mt (u_member u) = None \<and> mt_max mt \<le> known mt"
    | (fine) "held_rank (held_about mt (u_member u)) < news_rank u"
        "\<not> (held_about mt (u_member u) = None \<and> mt_max mt \<le> known mt)" by blast
  then show ?thesis
  proof cases
    case old
    show ?thesis by (rule that(2)) (use old other in \<open>auto simp: not_less\<close>)
  next
    case full
    show ?thesis by (rule that(3)) (use full other False in simp_all)
  next
    case fine
    show ?thesis by (rule that(4)) (use fine other False in auto)
  qed
qed

lemma table_apply_wf:
  assumes "table_wf mt" "table_apply mt u now = Some (r, mt')"
  shows "table_wf mt' \<and> mt_local mt' = mt_local mt \<and> mt_max mt' = mt_max mt"
  using assms(2) by (cases rule: table_apply_cases [OF assms(1), of u now]) (use assms(1) in \<open>auto simp: accept_wf\<close>)

lemma table_apply_reports:
  assumes "table_wf mt" "table_apply mt u now = Some (r, mt')"
  shows "\<exists>cs. mt_changes mt' = mt_changes mt @ cs \<and> replay_changes (mt_live mt) cs = Some (mt_live mt')"
  using assms(1)
proof (cases rule: table_apply_cases [where u = u and now = now])
  case Accepted
  then show ?thesis using accept_reports [OF assms(1)] assms(2) by simp
qed (use assms(2) in \<open>auto intro: exI [of _ "[]"]\<close>)

lemma table_apply_total: "table_wf mt \<Longrightarrow> table_apply mt u now \<noteq> None"
  by (erule table_apply_cases [of mt u now]) simp_all

section \<open>The other operations\<close>

lemma suspect_spec:
  assumes wf: "table_wf mt" and other: "peer \<noteq> mt_local mt"
  shows "suspect mt peer now = Some (case om_get (mt_members mt) peer of
      Some m \<Rightarrow> if m_status m = Alive
        then let u = (member_update m peer)\<lparr>u_status := Suspect\<rparr> in (Some u, accept mt u now) else (None, mt)
    | None \<Rightarrow> (None, mt))"
proof (cases "om_get (mt_members mt) peer")
  case (Some m)
  let ?u = "(member_update m peer)\<lparr>u_status := Suspect\<rparr>"
  have "table_apply mt ?u now = Some (Accepted (status_of mt peer), accept mt ?u now)" if "m_status m = Alive"
    using Some that other by (subst table_apply_other [OF wf]) (simp_all add: held_about_def news_rank_def)
  with Some other show ?thesis by (simp add: suspect_def Let_def)
qed (simp add: suspect_def other)

lemma table_depart_wf:
  assumes wf: "table_wf mt"
  shows "table_wf (snd (table_depart mt peer)) \<and> mt_local (snd (table_depart mt peer)) = mt_local mt \<and>
    mt_live (snd (table_depart mt peer)) = mt_live mt \<and> mt_changes (snd (table_depart mt peer)) = mt_changes mt"
proof (cases "om_get (mt_members mt) peer")
  case (Some m)
  note d = table_wfD [OF wf]
  let ?mt = "mt\<lparr>mt_members := om_put peer (m\<lparr>m_departed := True\<rparr>) (mt_members mt)\<rparr>"
  have "peer \<noteq> mt_local mt" using Some d(2) by auto
  moreover have "alive_keys (mt_members ?mt) = alive_keys (mt_members mt)"
    using Some by (auto simp: alive_keys_def)
  ultimately have "table_wf ?mt" if "m_status m = Dead"
    using wf Some that by (auto simp: table_wf_def om_has_def)
  then show ?thesis using Some wf by (simp add: table_depart_def)
qed (simp add: table_depart_def wf)

lemma forget_dead_get:
  assumes "table_wf mt"
  shows "om_get (mt_members (snd (forget_dead mt now ttl))) p = (case om_get (mt_members mt) p of
     Some m \<Rightarrow> if m_status m \<noteq> Dead \<or> saturating_sub now (m_since m) < ttl then Some m else None | None \<Rightarrow> None)"
  using table_wfD(1) [OF assms] by (auto simp: forget_dead_def Let_def om_get_retain split: option.split)

lemma forget_dead_wf:
  assumes wf: "table_wf mt"
  shows "table_wf (snd (forget_dead mt now ttl)) \<and> mt_local (snd (forget_dead mt now ttl)) = mt_local mt \<and>
    mt_live (snd (forget_dead mt now ttl)) = mt_live mt \<and> mt_changes (snd (forget_dead mt now ttl)) = mt_changes mt"
proof -
  note d = table_wfD [OF wf] and g = forget_dead_get [OF wf, of now ttl]
  have same: "mt_local (snd (forget_dead mt now ttl)) = mt_local mt"
    "mt_live (snd (forget_dead mt now ttl)) = mt_live mt"
    "mt_changes (snd (forget_dead mt now ttl)) = mt_changes mt"
    "om_wf (mt_members (snd (forget_dead mt now ttl)))"
    using d(1) by (simp_all add: forget_dead_def Let_def om_wf_retain)
  have "alive_keys (mt_members (snd (forget_dead mt now ttl))) = alive_keys (mt_members mt)"
    by (auto simp: alive_keys_def g split: option.splits if_splits)
  moreover have "\<forall>p m. om_get (mt_members (snd (forget_dead mt now ttl))) p = Some m \<and> m_departed m \<longrightarrow> m_status m = Dead"
    using d(5) by (auto simp: g split: option.splits if_splits)
  moreover have "\<not> om_has (mt_members (snd (forget_dead mt now ttl))) (mt_local mt)"
    using d(2) by (simp add: om_has_def g)
  ultimately show ?thesis using same wf by (simp add: table_wf_def)
qed

lemma apply_all_wf:
  assumes "table_wf mt"
  shows "\<exists>mt'. apply_all mt us now = Some mt' \<and> table_wf mt' \<and> mt_local mt' = mt_local mt \<and>
    (\<exists>cs. mt_changes mt' = mt_changes mt @ cs \<and> replay_changes (mt_live mt) cs = Some (mt_live mt'))"
  using assms
proof (induction us arbitrary: mt)
  case Nil
  then show ?case by (auto intro: exI [of _ "[]"])
next
  case (Cons u us)
  obtain r mt1 where a: "table_apply mt u now = Some (r, mt1)"
    using table_apply_total [OF Cons.prems] by (metis not_None_eq prod.exhaust)
  note w = table_apply_wf [OF Cons.prems a]
  obtain cs where cs: "mt_changes mt1 = mt_changes mt @ cs" "replay_changes (mt_live mt) cs = Some (mt_live mt1)"
    using table_apply_reports [OF Cons.prems a] by blast
  obtain mt' ds where m: "apply_all mt1 us now = Some mt'" "table_wf mt'" "mt_local mt' = mt_local mt1"
    "mt_changes mt' = mt_changes mt1 @ ds" "replay_changes (mt_live mt1) ds = Some (mt_live mt')"
    using Cons.IH [of mt1] w by blast
  then show ?case using a w cs by (auto simp: replay_changes_append intro!: exI [of _ "cs @ ds"])
qed

definition overdue :: "member_table \<Rightarrow> nanos \<Rightarrow> nanos \<Rightarrow> update list" where
  "overdue mt now timeout = map (\<lambda>(peer, m). (member_update m peer)\<lparr>u_status := Dead\<rparr>)
     (filter (\<lambda>(peer, m). m_status m = Suspect \<and> timeout \<le> saturating_sub now (m_since m)) (mt_members mt))"

lemma expire_suspects_eq:
  "expire_suspects mt now timeout = (if timeout = 0 then None
     else map_option (Pair (overdue mt now timeout)) (apply_all mt (overdue mt now timeout) now))"
  unfolding expire_suspects_def overdue_def [symmetric] Let_def
  by (cases "apply_all mt (overdue mt now timeout) now") (simp_all add: word_gt_0)

section \<open>All operations\<close>

datatype table_op =
    Apply update nanos
  | SuspectPeer peer_id nanos
  | DepartPeer peer_id
  | ForgetDead nanos nanos
  | ExpireSuspects nanos nanos
  | SetMax nat

fun table_step :: "member_table \<Rightarrow> table_op \<Rightarrow> member_table option" where
  "table_step mt (Apply u now) = map_option snd (table_apply mt u now)"
| "table_step mt (SuspectPeer peer now) = map_option snd (suspect mt peer now)"
| "table_step mt (DepartPeer peer) = Some (snd (table_depart mt peer))"
| "table_step mt (ForgetDead now ttl) = Some (snd (forget_dead mt now ttl))"
| "table_step mt (ExpireSuspects now timeout) = map_option snd (expire_suspects mt now timeout)"
| "table_step mt (SetMax n) = set_max mt n"

text \<open>The arguments the source asserts: a node never suspects itself, no timeout is zero.\<close>

fun table_op_ok :: "peer_id \<Rightarrow> table_op \<Rightarrow> bool" where
  "table_op_ok local (SuspectPeer peer now) = (peer \<noteq> local)"
| "table_op_ok local (ExpireSuspects now timeout) = (0 < timeout)"
| "table_op_ok local (SetMax n) = (1 \<le> n)"
| "table_op_ok local x = True"

lemma table_step_spec:
  assumes wf: "table_wf mt"
  shows "table_step mt x = None \<longleftrightarrow> \<not> table_op_ok (mt_local mt) x"
    "table_step mt x = Some mt' \<Longrightarrow> table_wf mt' \<and> mt_local mt' = mt_local mt \<and>
       (\<exists>cs. mt_changes mt' = mt_changes mt @ cs \<and> replay_changes (mt_live mt) cs = Some (mt_live mt'))"
proof -
  have fine: "\<exists>mt'. table_step mt x = Some mt' \<and> table_wf mt' \<and> mt_local mt' = mt_local mt \<and>
       (\<exists>cs. mt_changes mt' = mt_changes mt @ cs \<and> replay_changes (mt_live mt) cs = Some (mt_live mt'))"
    if ok: "table_op_ok (mt_local mt) x"
  proof (cases x)
    case (Apply u now)
    obtain r mt1 where a: "table_apply mt u now = Some (r, mt1)"
      using table_apply_total [OF wf] by (metis not_None_eq prod.exhaust)
    with Apply table_apply_wf [OF wf a] table_apply_reports [OF wf a] show ?thesis by simp
  next
    case (SuspectPeer peer now)
    then have other: "peer \<noteq> mt_local mt" using ok by simp
    have same: "\<exists>cs. mt_changes mt = mt_changes mt @ cs \<and> replay_changes (mt_live mt) cs = Some (mt_live mt)"
      by (rule exI [of _ "[]"]) simp
    show ?thesis using SuspectPeer wf other same accept_reports [OF wf]
      by (auto simp: suspect_spec [OF wf other] Let_def accept_wf split: option.splits)
  next
    case (DepartPeer peer)
    with table_depart_wf [OF wf, of peer] show ?thesis by (auto intro: exI [of _ "[]"])
  next
    case (ForgetDead now ttl)
    with forget_dead_wf [OF wf, of now ttl] show ?thesis by (auto intro: exI [of _ "[]"])
  next
    case (ExpireSuspects now timeout)
    with ok have "timeout \<noteq> 0" by auto
    with ExpireSuspects show ?thesis using apply_all_wf [OF wf, of "overdue mt now timeout" now]
      by (auto simp: expire_suspects_eq)
  next
    case (SetMax n)
    with ok wf show ?thesis by (auto simp: set_max_def intro: exI [of _ "[]"])
  qed
  have "table_step mt x = None" if "\<not> table_op_ok (mt_local mt) x"
    using that by (cases x) (simp_all add: suspect_def expire_suspects_def set_max_def)
  with fine show "table_step mt x = None \<longleftrightarrow> \<not> table_op_ok (mt_local mt) x" by fastforce
  show "table_wf mt' \<and> mt_local mt' = mt_local mt \<and>
       (\<exists>cs. mt_changes mt' = mt_changes mt @ cs \<and> replay_changes (mt_live mt) cs = Some (mt_live mt'))"
    if "table_step mt x = Some mt'"
  proof -
    have "table_op_ok (mt_local mt) x"
      using \<open>\<not> table_op_ok (mt_local mt) x \<Longrightarrow> table_step mt x = None\<close> that by auto
    with fine that show ?thesis by auto
  qed
qed

definition table_operation :: "member_table \<Rightarrow> member_table \<Rightarrow> bool" where
  "table_operation mt mt' = (\<exists>x. table_step mt x = Some mt')"

interpretation swim: membership table_operation mt_local mt_live mt_changes table_wf
proof
  fix s s' :: member_table
  assume wf: "table_wf s"
  show "sorted_wrt (<) (mt_live s)" "mt_local s \<notin> set (mt_live s)"
    using table_wfD(2,3) [OF wf] table_wfD(4) [OF wf, of "mt_local s"] by auto
  assume "table_operation s s'"
  then obtain x where x: "table_step s x = Some s'" by (auto simp: table_operation_def)
  show "table_wf s' \<and> mt_local s' = mt_local s" using table_step_spec(2) [OF wf x] by blast
  show "\<exists>cs. mt_changes s' = mt_changes s @ cs \<and> replay_changes (mt_live s) cs = Some (mt_live s')"
    using table_step_spec(2) [OF wf x] by blast
qed

fun table_run :: "member_table \<Rightarrow> table_op list \<Rightarrow> member_table option" where
  "table_run mt [] = Some mt"
| "table_run mt (x # xs) = (case table_step mt x of None \<Rightarrow> None | Some mt' \<Rightarrow> table_run mt' xs)"

lemma table_run_total:
  assumes "table_wf mt" "\<forall>x \<in> set xs. table_op_ok (mt_local mt) x"
  shows "\<exists>mt'. table_run mt xs = Some mt' \<and> table_operation\<^sup>*\<^sup>* mt mt'"
  using assms
proof (induction xs arbitrary: mt)
  case (Cons x xs)
  obtain mt1 where m: "table_step mt x = Some mt1"
    using table_step_spec(1) [OF Cons.prems(1), of x] Cons.prems(2) by fastforce
  then have "table_operation mt mt1" by (auto simp: table_operation_def)
  moreover obtain mt' where "table_run mt1 xs = Some mt'" "table_operation\<^sup>*\<^sup>* mt1 mt'"
    using Cons.IH [of mt1] table_step_spec(2) [OF Cons.prems(1) m] Cons.prems(2) by auto
  ultimately show ?case using m by (auto intro: converse_rtranclp_into_rtranclp)
qed simp

section \<open>The table as a store of news\<close>

text \<open>News that is refused for want of room is not taken, so it is no offer.\<close>

definition table_offer :: "member_table \<Rightarrow> update \<times> nanos \<Rightarrow> member_table option" where
  "table_offer mt news = (case table_apply mt (fst news) (snd news) of
     None \<Rightarrow> None | Some (r, mt') \<Rightarrow> if r = Refused then None else Some mt')"

interpretation table_news: news_store table_offer fst held_about "\<lambda>mt p. p \<noteq> mt_local mt" table_wf
proof
  fix s s' :: member_table and news :: "update \<times> nanos" and p
  obtain u now where n: "news = (u, now)" by force
  assume wf: "table_wf s" and o: "table_offer s news = Some s'"
  then obtain r where a: "table_apply s u now = Some (r, s')" "r \<noteq> Refused"
    by (auto simp: table_offer_def n split: option.splits if_splits)
  show "table_wf s' \<and> (\<lambda>p. p \<noteq> mt_local s') = (\<lambda>p. p \<noteq> mt_local s)"
    using table_apply_wf [OF wf a(1)] by simp
  assume p: "p \<noteq> mt_local s"
  show "held_rank (held_about s' p) =
      (if p = u_member (fst news) then max (held_rank (held_about s p)) (news_rank (fst news))
       else held_rank (held_about s p))"
    using wf
  proof (cases rule: table_apply_cases [where u = u and now = now])
    case Accepted
    then show ?thesis using a by (simp add: held_accept n)
  qed (use a p in \<open>auto simp: max_def n\<close>)
qed

section \<open>Suspicion and death\<close>

lemma overdue_iff:
  assumes "table_wf mt"
  shows "u \<in> set (overdue mt now timeout) \<longleftrightarrow> (\<exists>m. om_get (mt_members mt) (u_member u) = Some m \<and>
    m_status m = Suspect \<and> timeout \<le> saturating_sub now (m_since m) \<and>
    u = (member_update m (u_member u))\<lparr>u_status := Dead\<rparr>)"
proof -
  have "distinct (om_keys (mt_members mt))" using table_wfD(1) [OF assms] by (rule om_wf_distinct)
  note get = map_of_eq_Some_iff [OF this]
  have mem: "u \<in> set (overdue mt now timeout) \<longleftrightarrow> (\<exists>p m. (p, m) \<in> set (mt_members mt) \<and>
    m_status m = Suspect \<and> timeout \<le> saturating_sub now (m_since m) \<and> u = (member_update m p)\<lparr>u_status := Dead\<rparr>)"
    unfolding overdue_def
    by (simp only: set_map set_filter image_def mem_Collect_eq Bex_def split_paired_Ex case_prod_conv) blast
  show ?thesis
  proof
    assume "u \<in> set (overdue mt now timeout)"
    then obtain p m where m: "(p, m) \<in> set (mt_members mt)" "m_status m = Suspect"
      "timeout \<le> saturating_sub now (m_since m)" "u = (member_update m p)\<lparr>u_status := Dead\<rparr>"
      unfolding mem by blast
    then have p: "p = u_member u" by simp
    show "\<exists>m. om_get (mt_members mt) (u_member u) = Some m \<and>
    m_status m = Suspect \<and> timeout \<le> saturating_sub now (m_since m) \<and>
    u = (member_update m (u_member u))\<lparr>u_status := Dead\<rparr>"
      unfolding get using m unfolding p by (intro exI [of _ m] conjI)
  next
    assume "\<exists>m. om_get (mt_members mt) (u_member u) = Some m \<and>
    m_status m = Suspect \<and> timeout \<le> saturating_sub now (m_since m) \<and>
    u = (member_update m (u_member u))\<lparr>u_status := Dead\<rparr>"
    then show "u \<in> set (overdue mt now timeout)" unfolding mem get by blast
  qed
qed

lemma overdue_members:
  "map u_member (overdue mt now timeout) = map fst (filter (\<lambda>(peer, m). m_status m = Suspect \<and>
     timeout \<le> saturating_sub now (m_since m)) (mt_members mt))"
  by (simp add: overdue_def comp_def case_prod_beta)

lemma overdue_distinct: "table_wf mt \<Longrightarrow> distinct (map u_member (overdue mt now timeout))"
  unfolding overdue_members by (intro distinct_map_filter om_wf_distinct) (rule table_wfD(1))

lemma apply_all_deaths:
  assumes "table_wf mt" "distinct (map u_member us)"
    and "\<forall>u \<in> set us. u_status u = Dead \<and> u_member u \<noteq> mt_local mt \<and>
      held_about mt (u_member u) \<noteq> None \<and> held_rank (held_about mt (u_member u)) < news_rank u"
  shows "\<exists>mt'. apply_all mt us now = Some mt' \<and>
    (\<forall>p. held_about mt' p = (case List.find (\<lambda>u. u_member u = p) us of Some u \<Rightarrow> Some u | None \<Rightarrow> held_about mt p)) \<and>
    set (mt_live mt') = set (mt_live mt) - u_member ` set us"
  using assms
proof (induction us arbitrary: mt)
  case (Cons u us)
  have u: "u_member u \<noteq> mt_local mt" "held_about mt (u_member u) \<noteq> None" "u_status u = Dead"
    "held_rank (held_about mt (u_member u)) < news_rank u" using Cons.prems(3) by auto
  have a: "table_apply mt u now = Some (Accepted (status_of mt (u_member u)), accept mt u now)"
    using u by (simp add: table_apply_other [OF Cons.prems(1)])
  have later: "\<forall>v \<in> set us. u_status v = Dead \<and> u_member v \<noteq> mt_local (accept mt u now) \<and>
      held_about (accept mt u now) (u_member v) \<noteq> None \<and>
      held_rank (held_about (accept mt u now) (u_member v)) < news_rank v"
    using Cons.prems(2,3) by (auto simp: held_accept image_iff)
  obtain mt' where m: "apply_all (accept mt u now) us now = Some mt'"
    "\<And>p. held_about mt' p = (case List.find (\<lambda>v. u_member v = p) us of Some v \<Rightarrow> Some v
       | None \<Rightarrow> held_about (accept mt u now) p)"
    "set (mt_live mt') = set (mt_live (accept mt u now)) - u_member ` set us"
  proof -
    have "distinct (map u_member us)" using Cons.prems(2) by simp
    from Cons.IH [OF accept_wf [OF Cons.prems(1) u(1)] this later] show thesis using that by blast
  qed
  have "List.find (\<lambda>v. u_member v = u_member u) us = None"
  proof -
    have "u_member u \<notin> u_member ` set us" using Cons.prems(2) by simp
    then have "\<not> (\<exists>v \<in> set us. u_member v = u_member u)" by (metis image_eqI)
    then show ?thesis by (simp only: find_None_iff) blast
  qed
  then show ?case using m a accept_live(2) [OF Cons.prems(1), of u now] u(3)
    by (auto simp: held_accept split: option.splits)
qed simp

section \<open>Properties\<close>

text \<open>
  C9. The member table keeps the membership's contract: from a fresh table, under any news, suspicions,
  departures and timeouts, it panics only where the source asserts, lists the members not dead
  once each and ascending, never itself, and its changes replay into that list.
\<close>

theorem member_table_contract:
  assumes "\<forall>x \<in> set ops. table_op_ok local x"
  shows "\<exists>mt. table_run (table_new local addr) ops = Some mt \<and>
    check_contract local (mt_live mt) (table_cluster_size mt) = Inr () \<and>
    (\<forall>p. p \<in> set (mt_live mt) \<longleftrightarrow> p \<noteq> local \<and> (status_of mt p = Some Alive \<or> status_of mt p = Some Suspect)) \<and>
    replay_changes [] (mt_changes mt) = Some (mt_live mt)"
proof -
  let ?mt = "table_new local addr"
  have new: "table_wf ?mt" "mt_local ?mt = local" "mt_changes ?mt = []" "mt_live ?mt = []"
    by (simp_all add: table_new_wf) (simp_all add: table_new_def)
  obtain mt where mt: "table_run ?mt ops = Some mt" "table_operation\<^sup>*\<^sup>* ?mt mt"
    using table_run_total [OF new(1), of ops] assms new(2) by auto
  have wf: "table_wf mt" "mt_local mt = local" using swim.operations_valid [OF mt(2) new(1)] new(2) by auto
  have "replay_changes [] (mt_changes mt) = Some (mt_live mt)"
    using swim.operations_report [OF mt(2) new(1)] new(3,4) by auto
  moreover have "p \<in> set (mt_live mt) \<longleftrightarrow> p \<noteq> local \<and> (status_of mt p = Some Alive \<or> status_of mt p = Some Suspect)" for p
  proof -
    have "st \<noteq> Dead \<longleftrightarrow> st = Alive \<or> st = Suspect" for st by (cases st) simp_all
    then show ?thesis using table_wfD(2,4) [OF wf(1)] wf(2) by (auto simp: status_of_def)
  qed
  ultimately show ?thesis using mt(1) swim.contract [OF wf(1)] wf(2) by (simp add: table_cluster_size_def)
qed

theorem member_table_contract_witness:
  "\<exists>mt. table_run (table_new 1 (V4 [] 0))
      [Apply \<lparr>u_member = 2, u_addr = V4 [] 0, u_incarnation = 0, u_status = Alive\<rparr> 5,
       SuspectPeer 2 6, ExpireSuspects 9 3, DepartPeer 2] = Some mt \<and>
    replay_changes [] (mt_changes mt) = Some (mt_live mt)"
  using member_table_contract [of "[Apply \<lparr>u_member = 2, u_addr = V4 [] 0, u_incarnation = 0, u_status = Alive\<rparr> 5,
       SuspectPeer 2 6, ExpireSuspects 9 3, DepartPeer 2]" 1 "V4 [] 0"] by auto

text \<open>
  C10. Convergence: two tables of different nodes that took the same news, each in its own order
  and at its own times, hold the same incarnation and status of every other member.
\<close>

theorem tables_converge:
  assumes "mset (map fst us) = mset (map fst vs)" "p \<noteq> a" "p \<noteq> b"
    and "table_news.offer_all (table_new a addr_a) us = Some s"
    and "table_news.offer_all (table_new b addr_b) vs = Some t"
  shows "map_option (\<lambda>u. (u_incarnation u, u_status u)) (held_about s p) =
    map_option (\<lambda>u. (u_incarnation u, u_status u)) (held_about t p)"
proof -
  have "held_rank (held_about s p) = held_rank (held_about t p)"
    by (rule table_news.any_order [OF table_new_wf table_new_wf _ _ _ assms(1,4,5)])
      (use assms(2,3) in \<open>simp_all add: table_new_def held_about_def\<close>)
  then show ?thesis
    by (cases "held_about s p"; cases "held_about t p") (simp_all add: news_rank_eq, simp_all add: news_rank_def)
qed

text \<open>
  The rumour mill about the node itself: \<open>apply\<close> never changes what the table holds of the others;
  it answers every accusation, and every record that outbids its own, with its own record,
  alive, which supersedes what was heard, unless the incarnation heard cannot be outbid.
\<close>

theorem refutation_outbids:
  assumes "table_wf mt" "u_member u = mt_local mt" "unat (u_incarnation u) < 2 ^ 32 - 1"
  shows "\<exists>r mt'. table_apply mt u now = Some (r, mt') \<and> mt' = mt\<lparr>mt_incarnation := mt_incarnation mt'\<rparr> \<and>
    mt_incarnation mt \<le> mt_incarnation mt' \<and>
    (if u_status u = Alive \<and> u_incarnation u \<le> mt_incarnation mt then r = Ignored
     else r = Refuted (own_update mt') \<and> supersedes (own_update mt') u = Some True)"
proof -
  let ?own = "own_update mt"
  have own: "u_member ?own = u_member u" "u_incarnation ?own = mt_incarnation mt" "u_status ?own = Alive"
    using assms(2) by (simp_all add: own_update_def)
  have least: "\<not> Alive < Alive" "st \<noteq> Alive \<Longrightarrow> Alive < st" for st
    by (simp, cases st) (simp_all add: less_status_def)
  show ?thesis
  proof (cases "news_rank ?own < news_rank u")
    case True
    define i where "i = u_incarnation u + 1"
    have i: "checked_add (u_incarnation u) 1 = Some i" "unat i = unat (u_incarnation u) + 1"
      using assms(3) by (simp_all add: checked_add_def i_def unat_word_ariths)
    have newer: "mt_incarnation mt < u_incarnation u \<or> mt_incarnation mt = u_incarnation u \<and> u_status u \<noteq> Alive"
      using True least by (auto simp: news_rank_less own)
    have "supersedes (own_update (mt\<lparr>mt_incarnation := i\<rparr>)) u = Some True"
      using i(2) assms(2) by (simp add: supersedes_def own_update_def word_less_nat_alt)
    moreover have "mt_incarnation mt \<le> i" using newer i(2) by (auto simp: word_less_nat_alt word_le_nat_alt)
    ultimately show ?thesis
      using True newer i(1) by (auto simp: table_apply_own [OF assms(2)])
  next
    case False
    have "supersedes ?own u = Some True" if "u_status u \<noteq> Alive"
      using False that least by (auto simp: supersedes_def news_rank_less own not_less)
    with False show ?thesis
      using least by (auto simp: table_apply_own [OF assms(2)] news_rank_less own)
  qed
qed

theorem refutation_outbids_witness:
  "\<exists>r mt'. table_apply (table_new 1 (V4 [] 0))
      \<lparr>u_member = 1, u_addr = V4 [] 0, u_incarnation = 7, u_status = Dead\<rparr> 3 = Some (r, mt') \<and>
    supersedes (own_update mt') \<lparr>u_member = 1, u_addr = V4 [] 0, u_incarnation = 7, u_status = Dead\<rparr> = Some True"
proof -
  let ?u = "\<lparr>u_member = 1, u_addr = V4 [] 0, u_incarnation = 7, u_status = Dead\<rparr>"
  have "u_member ?u = mt_local (table_new 1 (V4 [] 0))" "unat (u_incarnation ?u) < 2 ^ 32 - 1"
    by (simp_all add: table_new_def)
  from refutation_outbids [OF table_new_wf this, of 3] show ?thesis
    by (metis status.distinct(4) update.select_convs(4))
qed

theorem tables_converge_witness:
  "\<exists>s t. table_news.offer_all (table_new 1 (V4 [] 0))
      [(\<lparr>u_member = 3, u_addr = V4 [] 0, u_incarnation = 0, u_status = Alive\<rparr>, 5),
       (\<lparr>u_member = 3, u_addr = V4 [] 0, u_incarnation = 0, u_status = Dead\<rparr>, 6)] = Some s \<and>
    table_news.offer_all (table_new 2 (V4 [] 0))
      [(\<lparr>u_member = 3, u_addr = V4 [] 0, u_incarnation = 0, u_status = Dead\<rparr>, 4),
       (\<lparr>u_member = 3, u_addr = V4 [] 0, u_incarnation = 0, u_status = Alive\<rparr>, 9)] = Some t \<and>
    map_option (\<lambda>u. (u_incarnation u, u_status u)) (held_about s 3) =
      map_option (\<lambda>u. (u_incarnation u, u_status u)) (held_about t 3)"
proof -
  let ?alive = "\<lparr>u_member = 3, u_addr = V4 [] 0, u_incarnation = 0, u_status = Alive\<rparr>"
  let ?dead = "\<lparr>u_member = 3, u_addr = V4 [] 0, u_incarnation = 0, u_status = Dead\<rparr>"
  note run = table_offer_def table_apply_def table_new_def follow_live_def supersedes_def known_def
    binary_search_def insert_at_def remove_at_def member_update_def less_status_def
  obtain s where s: "table_news.offer_all (table_new 1 (V4 [] 0)) [(?alive, 5), (?dead, 6)] = Some s"
    by (simp add: run)
  obtain t where t: "table_news.offer_all (table_new 2 (V4 [] 0)) [(?dead, 4), (?alive, 9)] = Some t"
    by (simp add: run)
  have "map_option (\<lambda>u. (u_incarnation u, u_status u)) (held_about s 3) =
      map_option (\<lambda>u. (u_incarnation u, u_status u)) (held_about t 3)"
    by (rule tables_converge [OF _ _ _ s t]) (simp_all add: add_mset_commute)
  with s t show ?thesis by blast
qed

text \<open>
  Suspicion ends in death by timeout only: \<open>expire_suspects\<close> declares dead exactly the suspects
  suspected for at least the timeout, at the incarnation they were suspected at, takes them out
  of the live peers and leaves every other member as it was.
\<close>

theorem suspicion_expires:
  assumes "table_wf mt" "0 < timeout"
  shows "\<exists>us mt'. expire_suspects mt now timeout = Some (us, mt') \<and>
    (\<forall>p. p \<in> u_member ` set us \<longleftrightarrow> (\<exists>m. om_get (mt_members mt) p = Some m \<and> m_status m = Suspect \<and>
       timeout \<le> saturating_sub now (m_since m))) \<and>
    (\<forall>p. held_about mt' p = (if p \<in> u_member ` set us
       then map_option (\<lambda>u. u\<lparr>u_status := Dead\<rparr>) (held_about mt p) else held_about mt p)) \<and>
    set (mt_live mt') = set (mt_live mt) - u_member ` set us"
proof -
  let ?us = "overdue mt now timeout"
  have iff: "u \<in> set ?us \<longleftrightarrow> (\<exists>m. om_get (mt_members mt) (u_member u) = Some m \<and>
    m_status m = Suspect \<and> timeout \<le> saturating_sub now (m_since m) \<and>
    u = (member_update m (u_member u))\<lparr>u_status := Dead\<rparr>)" for u
    by (rule overdue_iff [OF assms(1)])
  have dead: "\<forall>u \<in> set ?us. u_status u = Dead \<and> u_member u \<noteq> mt_local mt \<and>
      held_about mt (u_member u) \<noteq> None \<and> held_rank (held_about mt (u_member u)) < news_rank u"
  proof
    fix u assume "u \<in> set ?us"
    then obtain m where m: "om_get (mt_members mt) (u_member u) = Some m" "m_status m = Suspect"
      "u = (member_update m (u_member u))\<lparr>u_status := Dead\<rparr>" using iff by blast
    have "u_status u = Dead" "u_incarnation u = m_incarnation m" by (subst m(3), simp)+
    moreover have "u_member u \<noteq> mt_local mt" using m(1) table_wfD(2) [OF assms(1)] by auto
    ultimately show "u_status u = Dead \<and> u_member u \<noteq> mt_local mt \<and>
      held_about mt (u_member u) \<noteq> None \<and> held_rank (held_about mt (u_member u)) < news_rank u"
      using m(1,2) by (simp add: held_about_def news_rank_def)
  qed
  obtain mt' where mt': "apply_all mt ?us now = Some mt'"
    "\<And>p. held_about mt' p = (case List.find (\<lambda>u. u_member u = p) ?us of Some u \<Rightarrow> Some u | None \<Rightarrow> held_about mt p)"
    "set (mt_live mt') = set (mt_live mt) - u_member ` set ?us"
    using apply_all_deaths [OF assms(1) overdue_distinct [OF assms(1)] dead] by blast
  have "held_about mt' p = (if p \<in> u_member ` set ?us
       then map_option (\<lambda>u. u\<lparr>u_status := Dead\<rparr>) (held_about mt p) else held_about mt p)" for p
  proof (cases "List.find (\<lambda>u. u_member u = p) ?us")
    case None
    then have "p \<notin> u_member ` set ?us" by (auto simp: find_None_iff)
    then show ?thesis using None mt'(2) [of p] by simp
  next
    case (Some u)
    then have u: "u \<in> set ?us" "u_member u = p" by (auto simp: find_Some_iff)
    then obtain m where "om_get (mt_members mt) p = Some m" "u = (member_update m p)\<lparr>u_status := Dead\<rparr>"
      using iff by blast
    moreover have "p \<in> u_member ` set ?us" using u by blast
    ultimately show ?thesis using Some mt'(2) [of p] by (simp add: held_about_def)
  qed
  moreover have "p \<in> u_member ` set ?us \<longleftrightarrow> (\<exists>m. om_get (mt_members mt) p = Some m \<and> m_status m = Suspect \<and>
       timeout \<le> saturating_sub now (m_since m))" for p
  proof
    assume "\<exists>m. om_get (mt_members mt) p = Some m \<and> m_status m = Suspect \<and> timeout \<le> saturating_sub now (m_since m)"
    then obtain m where m: "om_get (mt_members mt) p = Some m" "m_status m = Suspect"
      "timeout \<le> saturating_sub now (m_since m)" by blast
    then have "(member_update m p)\<lparr>u_status := Dead\<rparr> \<in> set ?us" unfolding iff by simp
    then show "p \<in> u_member ` set ?us" by (rule rev_image_eqI) simp
  qed (use iff in blast)
  ultimately show ?thesis using mt'(1,3) assms(2)
    by (intro exI [of _ ?us] exI [of _ mt']) (simp add: expire_suspects_eq word_gt_0)
qed

theorem suspicion_expires_witness:
  "\<exists>us mt'. expire_suspects (accept (table_new 1 (V4 [] 0))
      \<lparr>u_member = 2, u_addr = V4 [] 0, u_incarnation = 4, u_status = Suspect\<rparr> 10) 20 10 = Some (us, mt') \<and>
    set (mt_live mt') = set (mt_live (accept (table_new 1 (V4 [] 0))
      \<lparr>u_member = 2, u_addr = V4 [] 0, u_incarnation = 4, u_status = Suspect\<rparr> 10)) - u_member ` set us"
proof -
  have "u_member \<lparr>u_member = 2, u_addr = V4 [] 0, u_incarnation = 4, u_status = Suspect\<rparr> \<noteq>
      mt_local (table_new 1 (V4 [] 0))" by (simp add: table_new_def)
  from suspicion_expires [OF accept_wf [OF table_new_wf this, of 10], where timeout = 10 and now = 20]
  show ?thesis by (auto simp: word_gt_0)
qed

text \<open>
  The table never outgrows its cap by what it hears: \<open>apply\<close> adds a member only below \<open>mt_max\<close>, and a
  stranger it has no room for changes nothing but the count of the refused.
\<close>

theorem table_capacity:
  assumes "table_wf mt" "table_apply mt u now = Some (r, mt')"
  shows "known mt' \<le> max (known mt) (mt_max mt) \<and>
    (r = Refused \<longleftrightarrow> u_member u \<noteq> mt_local mt \<and> status_of mt (u_member u) = None \<and> mt_max mt \<le> known mt) \<and>
    (r = Refused \<longrightarrow> mt' = mt\<lparr>mt_refused := mt_refused mt + 1\<rparr>)"
  using assms(1)
proof (cases rule: table_apply_cases [where u = u and now = now])
  case Accepted
  have len: "known (accept mt u now) = (if held_about mt (u_member u) = None then known mt + 1 else known mt)"
    using table_wfD(1) [OF assms(1)]
    by (simp add: known_def accept_def Let_def length_om_put om_has_def held_about_def)
  then show ?thesis using Accepted assms(2) by (auto simp: status_of_def held_about_def max_def)
next
  case Ignored
  then have "r = Ignored" "mt' = mt" using assms(2) by simp_all
  moreover have "status_of mt (u_member u) \<noteq> None" if "u_member u \<noteq> mt_local mt"
    using that Ignored(2) by (cases "om_get (mt_members mt) (u_member u)")
      (simp_all add: status_of_def held_about_def news_rank_def)
  ultimately show ?thesis by auto
qed (use assms(2) in \<open>auto simp: known_def status_of_def held_about_def\<close>)

theorem table_capacity_witness:
  "known (table_new 1 (V4 [] 0)) \<le> max (known (table_new 1 (V4 [] 0))) (mt_max (table_new 1 (V4 [] 0)))"
proof -
  let ?mt = "table_new 1 (V4 [] 0)" and ?u = "own_update (table_new 1 (V4 [] 0))"
  have "table_apply ?mt ?u 3 = Some (Ignored, ?mt)"
    by (simp add: table_apply_def refute_def supersedes_def own_update_def table_new_def)
  from table_capacity [OF table_new_wf this] show ?thesis by blast
qed

end
