(* ===== verification/Gossip.thy ===== *)
theory Gossip
  imports Wire
begin

text \<open>
  \<open>rateguard-core/src/gossip.rs\<close>: the piggyback buffer. The logarithm of
  \<open>retransmit_limit\<close> is the standard library's, the parameter \<open>lg\<close>.
\<close>

definition RETRANSMIT_MULT :: u32 where "RETRANSMIT_MULT = 4"

definition retransmit_limit :: "(f64 \<Rightarrow> f64) \<Rightarrow> nat \<Rightarrow> u32 option" where
  "retransmit_limit lg cluster_size = do {
     ensure (0 < cluster_size);
     let rounds = word_of_f64 (f64_ceil (lg (f64_of_nat (cluster_size + 1))));
     Some (RETRANSMIT_MULT * max rounds 1)
   }"

record pending =
  p_update :: update
  p_transmits :: u32

type_synonym gossip = "(peer_id, pending) omap"

definition gossip_new :: gossip where "gossip_new = []"

definition gossip_len :: "gossip \<Rightarrow> nat" where "gossip_len g = length g"

definition push_news :: "gossip \<Rightarrow> update \<Rightarrow> (bool \<times> gossip) option" where
  "push_news g u = do {
     newer \<leftarrow> (case om_get g (u_member u) of None \<Rightarrow> Some True
                | Some p \<Rightarrow> supersedes u (p_update p));
     Some (if newer then (True, om_put (u_member u) \<lparr>p_update = u, p_transmits = 0\<rparr> g)
           else (False, g))
   }"

definition fresher :: "u32 \<times> peer_id \<Rightarrow> u32 \<times> peer_id \<Rightarrow> bool" where
  "fresher a b = (fst a < fst b \<or> fst a = fst b \<and> snd a \<le> snd b)"

fun send_members :: "u32 \<Rightarrow> peer_id list \<Rightarrow> gossip \<Rightarrow> (update list \<times> gossip) option" where
  "send_members lmt [] g = Some ([], g)"
| "send_members lmt (member # ms) g = do {
     p \<leftarrow> om_get g member;
     let p' = p\<lparr>p_transmits := p_transmits p + 1\<rparr>;
     let g' = (if lmt \<le> p_transmits p' then om_del member g else om_put member p' g);
     (us, g'') \<leftarrow> send_members lmt ms g';
     Some (p_update p # us, g'')
   }"

definition take_news :: "gossip \<Rightarrow> nat \<Rightarrow> u32 \<Rightarrow> (update list \<times> gossip) option" where
  "take_news g bound lmt = do {
     ensure (0 < lmt);
     let freshest = take bound (sort_by fresher (map (\<lambda>(member, p). (p_transmits p, member)) g));
     send_members lmt (map snd freshest) g
   }"

section \<open>Invariant\<close>

definition gossip_wf :: "gossip \<Rightarrow> bool" where
  "gossip_wf g = (om_wf g \<and> (\<forall>(member, p) \<in> set g. u_member (p_update p) = member))"

lemma gossip_wf_get: "gossip_wf g \<Longrightarrow> om_get g m = Some p \<Longrightarrow> u_member (p_update p) = m"
  by (auto simp: gossip_wf_def dest: map_of_SomeD)

lemma gossip_wf_put: "gossip_wf g \<Longrightarrow> u_member (p_update p) = m \<Longrightarrow> gossip_wf (om_put m p g)"
  by (auto simp: gossip_wf_def mem_om_put)

lemma gossip_wf_del: "gossip_wf g \<Longrightarrow> gossip_wf (om_del m g)"
  by (auto simp: gossip_wf_def om_del_def [of m g] om_wf_del [unfolded om_del_def])

lemma push_news_total:
  assumes "gossip_wf g"
  shows "push_news g u =
    (if held_rank (map_option p_update (om_get g (u_member u))) < news_rank u
     then Some (True, om_put (u_member u) \<lparr>p_update = u, p_transmits = 0\<rparr> g) else Some (False, g))"
proof (cases "om_get g (u_member u)")
  case None
  then show ?thesis by (simp add: push_news_def news_rank_def)
next
  case (Some p)
  then have "u_member (p_update p) = u_member u" by (rule gossip_wf_get [OF assms])
  with Some show ?thesis by (simp add: push_news_def supersedes_rank)
qed

interpretation buffer: news_store "\<lambda>g u. map_option snd (push_news g u)" "\<lambda>u. u"
  "\<lambda>g m. map_option p_update (om_get g m)" "\<lambda>g m. True" gossip_wf
proof
  fix s s' u p
  assume wf: "gossip_wf s" and o: "map_option snd (push_news s u) = Some s'"
  then show "gossip_wf s' \<and> (\<lambda>m. True) = (\<lambda>m. True)"
    by (auto simp: push_news_total split: if_splits intro: gossip_wf_put)
  show "held_rank (map_option p_update (om_get s' p)) =
      (if p = u_member u then max (held_rank (map_option p_update (om_get s p))) (news_rank u)
       else held_rank (map_option p_update (om_get s p)))"
    using wf o by (auto simp: push_news_total max_def split: if_splits)
qed

section \<open>Sending\<close>

text \<open>An entry after it was sent once more.\<close>

definition sent_once :: "u32 \<Rightarrow> pending \<Rightarrow> pending option" where
  "sent_once lmt p = (let p' = p\<lparr>p_transmits := p_transmits p + 1\<rparr> in
     if lmt \<le> p_transmits p' then None else Some p')"

lemma send_members_spec:
  assumes "gossip_wf g" "distinct ms" "set ms \<subseteq> set (om_keys g)"
  shows "\<exists>g'. send_members lmt ms g = Some (map (\<lambda>m. p_update (the (om_get g m))) ms, g') \<and>
    gossip_wf g' \<and>
    (\<forall>m. om_get g' m = (if m \<in> set ms then sent_once lmt (the (om_get g m)) else om_get g m))"
  using assms
proof (induction ms arbitrary: g)
  case Nil
  then show ?case by simp
next
  case (Cons m ms)
  obtain p where p: "om_get g m = Some p"
    using Cons.prems(3) by (cases "om_get g m") (auto simp: map_of_eq_None_iff)
  define g1 where "g1 = (let p' = p\<lparr>p_transmits := p_transmits p + 1\<rparr> in
    if lmt \<le> p_transmits p' then om_del m g else om_put m p' g)"
  have wf: "gossip_wf g1" using Cons.prems(1) gossip_wf_get [OF Cons.prems(1) p]
    by (simp add: g1_def Let_def gossip_wf_put gossip_wf_del)
  have get: "om_get g1 j = (if j = m then sent_once lmt p else om_get g j)" for j
    by (simp add: g1_def sent_once_def Let_def)
  have "set ms \<subseteq> set (om_keys g1)"
    using Cons.prems(2,3) by (auto simp: g1_def Let_def)
  then obtain g' where g': "send_members lmt ms g1 = Some (map (\<lambda>m. p_update (the (om_get g1 m))) ms, g')"
    "gossip_wf g'"
    "\<And>j. om_get g' j = (if j \<in> set ms then sent_once lmt (the (om_get g1 j)) else om_get g1 j)"
    using Cons.IH [OF wf] Cons.prems(2) by auto
  have "map (\<lambda>m. p_update (the (om_get g1 m))) ms = map (\<lambda>m. p_update (the (om_get g m))) ms"
    using Cons.prems(2) get by auto
  then have "send_members lmt (m # ms) g = Some (map (\<lambda>m. p_update (the (om_get g m))) (m # ms), g')"
    using p g'(1) by (simp add: g1_def Let_def)
  moreover have "om_get g' j =
      (if j \<in> set (m # ms) then sent_once lmt (the (om_get g j)) else om_get g j)" for j
    using Cons.prems(2) g'(3) [of j] get p by auto
  ultimately show ?case using g'(2) by blast
qed

definition chosen :: "gossip \<Rightarrow> nat \<Rightarrow> peer_id list" where
  "chosen g bound = map snd (take bound (sort_by fresher (map (\<lambda>(member, p). (p_transmits p, member)) g)))"

lemma fresher_total: "fresher a b \<or> fresher b a"
  by (auto simp: fresher_def)

lemma fresher_trans: "fresher a b \<Longrightarrow> fresher b c \<Longrightarrow> fresher a c"
  by (auto simp: fresher_def)

lemma keys_sort:
  "mset (map snd (sort_by fresher (map (\<lambda>(member, p). (p_transmits p, member)) g))) = mset (om_keys g)"
  by (simp add: multiset.map_comp comp_def case_prod_beta)

lemma chosen_distinct: "gossip_wf g \<Longrightarrow> distinct (chosen g bound)"
proof -
  assume "gossip_wf g"
  then have "distinct (om_keys g)" by (simp add: gossip_wf_def om_wf_distinct)
  then have "distinct (map snd (sort_by fresher (map (\<lambda>(member, p). (p_transmits p, member)) g)))"
    using keys_sort [of g] by (metis mset_eq_imp_distinct_iff)
  then show ?thesis by (simp add: chosen_def distinct_take flip: take_map)
qed

lemma chosen_keys: "set (chosen g bound) \<subseteq> set (om_keys g)"
proof -
  have "set (chosen g bound) \<subseteq> set (map snd (sort_by fresher (map (\<lambda>(member, p). (p_transmits p, member)) g)))"
    unfolding chosen_def by (metis set_take_subset take_map)
  then show ?thesis using keys_sort [of g] by (metis set_mset_mset)
qed

lemma length_chosen: "length (chosen g bound) = min bound (length g)"
  by (simp add: chosen_def)

lemma chosen_freshest:
  assumes "gossip_wf g" "m \<in> set (chosen g bound)" "j \<in> set (om_keys g)" "j \<notin> set (chosen g bound)"
  shows "p_transmits (the (om_get g m)) \<le> p_transmits (the (om_get g j))"
proof -
  define s where "s = sort_by fresher (map (\<lambda>(member, p). (p_transmits p, member)) g)"
  have sorted: "sorted_wrt fresher s"
    unfolding s_def by (rule sorted_sort_by) (auto simp: fresher_total dest: fresher_trans)
  have tr: "n = p_transmits (the (om_get g k))" if "(n, k) \<in> set s" for n k
    using that assms(1) om_wf_distinct [of g] by (auto simp: s_def gossip_wf_def)
  obtain n where n: "(n, m) \<in> set (take bound s)" using assms(2) by (auto simp: chosen_def s_def)
  have "j \<in> set (map snd s)" using assms(3) keys_sort [of g] unfolding s_def by (metis set_mset_mset)
  then obtain k where k: "(k, j) \<in> set s" by auto
  have "(k, j) \<notin> set (take bound s)" using assms(4) by (force simp: chosen_def s_def)
  then have k': "(k, j) \<in> set (drop bound s)" using k by (metis Un_iff append_take_drop_id set_append)
  have "fresher (n, m) (k, j)"
    using sorted n k' by (metis append_take_drop_id sorted_wrt_append)
  then have "n \<le> k" by (auto simp: fresher_def)
  then show ?thesis using tr k in_set_takeD [OF n] by metis
qed

lemma take_news_spec:
  assumes "gossip_wf g" "0 < lmt"
  shows "\<exists>g'. take_news g bound lmt = Some (map (\<lambda>m. p_update (the (om_get g m))) (chosen g bound), g') \<and>
    gossip_wf g' \<and>
    (\<forall>m. om_get g' m =
       (if m \<in> set (chosen g bound) then sent_once lmt (the (om_get g m)) else om_get g m))"
  using send_members_spec [OF assms(1) chosen_distinct [OF assms(1)] chosen_keys, of lmt bound] assms(2)
  by (simp add: take_news_def chosen_def)

section \<open>How often news is sent\<close>

text \<open>Messages made one after the other with no new news, each with room for some updates.\<close>

fun take_each :: "gossip \<Rightarrow> nat list \<Rightarrow> u32 \<Rightarrow> (update list \<times> gossip) option" where
  "take_each g [] lmt = Some ([], g)"
| "take_each g (bound # bounds) lmt = do {
     (us, g1) \<leftarrow> take_news g bound lmt;
     (vs, g2) \<leftarrow> take_each g1 bounds lmt;
     Some (us @ vs, g2)
   }"

lemma count_distinct: "distinct xs \<Longrightarrow> count_list xs x = (if x \<in> set xs then 1 else 0)"
  by (induction xs) auto

lemma chosen_members:
  assumes "gossip_wf g"
  shows "map u_member (map (\<lambda>m. p_update (the (om_get g m))) (chosen g bound)) = chosen g bound"
proof -
  have "u_member (p_update (the (om_get g j))) = j" if j: "j \<in> set (chosen g bound)" for j
  proof -
    have "j \<in> set (om_keys g)" using j chosen_keys [of g bound] by blast
    then obtain p where "om_get g j = Some p"
      by (cases "om_get g j") (auto simp: map_of_eq_None_iff)
    then show ?thesis using gossip_wf_get [OF assms] by simp
  qed
  then show ?thesis by (simp add: map_idI)
qed

lemma take_each_absent:
  assumes "gossip_wf g" "0 < lmt" "om_get g m = None"
  shows "\<exists>us g'. take_each g bounds lmt = Some (us, g') \<and> count_list (map u_member us) m = 0 \<and>
    om_get g' m = None"
  using assms
proof (induction bounds arbitrary: g)
  case (Cons bound bounds)
  obtain g1 where g1: "take_news g bound lmt =
      Some (map (\<lambda>m. p_update (the (om_get g m))) (chosen g bound), g1)" "gossip_wf g1"
    "\<And>m. om_get g1 m = (if m \<in> set (chosen g bound) then sent_once lmt (the (om_get g m)) else om_get g m)"
    using take_news_spec [OF Cons.prems(1,2)] by blast
  have "m \<notin> set (chosen g bound)"
    using Cons.prems(3) chosen_keys [of g bound] by (auto simp: map_of_eq_None_iff)
  then have "om_get g1 m = None" "count_list (chosen g bound) m = 0"
    using g1(3) Cons.prems(3) by simp_all
  then show ?case
    using Cons.IH [OF g1(2) Cons.prems(2)] g1(1) chosen_members [OF Cons.prems(1), of bound] by auto
qed simp

text \<open>What \<open>n\<close> transmissions made of an entry whose update is \<open>u\<close>.\<close>

definition after_sending :: "u32 \<Rightarrow> update \<Rightarrow> nat \<Rightarrow> pending option \<Rightarrow> bool" where
  "after_sending lmt u n h = (case h of
     Some p \<Rightarrow> p_update p = u \<and> unat (p_transmits p) = n \<and> n < unat lmt
   | None \<Rightarrow> n = unat lmt)"

lemma take_each_count:
  assumes "gossip_wf g" "0 < lmt" "om_get g m = Some p" "p_transmits p < lmt"
  shows "\<exists>us g'. take_each g bounds lmt = Some (us, g') \<and>
    after_sending lmt (p_update p) (unat (p_transmits p) + count_list (map u_member us) m) (om_get g' m)"
  using assms
proof (induction bounds arbitrary: g p)
  case Nil
  then show ?case by (simp add: word_less_nat_alt after_sending_def)
next
  case (Cons bound bounds)
  let ?us = "map (\<lambda>m. p_update (the (om_get g m))) (chosen g bound)"
  obtain g1 where g1: "take_news g bound lmt = Some (?us, g1)" "gossip_wf g1"
    "\<And>m. om_get g1 m = (if m \<in> set (chosen g bound) then sent_once lmt (the (om_get g m)) else om_get g m)"
    using take_news_spec [OF Cons.prems(1,2)] by blast
  have c: "count_list (map u_member (?us @ vs)) m =
      (if m \<in> set (chosen g bound) then 1 else 0) + count_list (map u_member vs) m" for vs
    unfolding map_append chosen_members [OF Cons.prems(1)]
    using count_distinct [OF chosen_distinct [OF Cons.prems(1)]] by simp
  have less: "unat (p_transmits p) + 1 \<le> unat lmt" using Cons.prems(4) by (simp add: word_less_nat_alt)
  then have suc: "unat (p_transmits p + 1) = unat (p_transmits p) + 1"
    using unat_lt_2p [of lmt] by (simp add: unat_word_ariths)
  have rest: "\<exists>vs g'. take_each g1 bounds lmt = Some (vs, g') \<and> after_sending lmt (p_update p)
      (unat (p_transmits p) + (if m \<in> set (chosen g bound) then 1 else 0) + count_list (map u_member vs) m)
      (om_get g' m)"
  proof (cases "om_get g1 m")
    case None
    then have n: "m \<in> set (chosen g bound)" "unat (p_transmits p) + 1 = unat lmt"
      using g1(3) [of m] Cons.prems(3) less suc
      by (auto simp: sent_once_def word_less_nat_alt word_le_nat_alt Let_def split: if_splits)
    from take_each_absent [OF g1(2) Cons.prems(2) None, of bounds] show ?thesis
      using n by (auto simp: after_sending_def)
  next
    case (Some q)
    then have q: "p_update q = p_update p" "p_transmits q < lmt"
      "unat (p_transmits q) = unat (p_transmits p) + (if m \<in> set (chosen g bound) then 1 else 0)"
      using g1(3) [of m] Cons.prems(3,4) suc by (auto simp: sent_once_def Let_def split: if_splits)
    from Cons.IH [OF g1(2) Cons.prems(2) Some q(2)] show ?thesis by (simp only: q)
  qed
  then obtain vs g' where v: "take_each g1 bounds lmt = Some (vs, g')"
    "after_sending lmt (p_update p)
      (unat (p_transmits p) + (if m \<in> set (chosen g bound) then 1 else 0) + count_list (map u_member vs) m)
      (om_get g' m)" by blast
  have "take_each g (bound # bounds) lmt = Some (?us @ vs, g')" using g1(1) v(1) by simp
  moreover have "after_sending lmt (p_update p)
      (unat (p_transmits p) + count_list (map u_member (?us @ vs)) m) (om_get g' m)"
    unfolding c using v(2) by (simp only: add.assoc)
  ultimately show ?case by blast
qed

section \<open>Properties\<close>

text \<open>
  C11. One message's news: \<open>take\<close> never panics with a positive limit; it gives as many updates
  as there are, up to the bound, of as many members, all held in the buffer and none sent more often
  than one it leaves behind; what was sent counts one transmission more and goes once
  the limit is reached, the rest of the buffer stays as it is.
\<close>

theorem gossip_take:
  assumes "gossip_wf g" "0 < lmt"
  shows "\<exists>us g'. take_news g bound lmt = Some (us, g') \<and> gossip_wf g' \<and>
    length us = min bound (length g) \<and> distinct (map u_member us) \<and>
    (\<forall>u \<in> set us. \<exists>p. om_get g (u_member u) = Some p \<and> p_update p = u \<and>
       om_get g' (u_member u) = sent_once lmt p \<and>
       (\<forall>m q. om_get g m = Some q \<and> m \<notin> u_member ` set us \<longrightarrow> p_transmits p \<le> p_transmits q)) \<and>
    (\<forall>m. m \<notin> u_member ` set us \<longrightarrow> om_get g' m = om_get g m)"
proof -
  let ?us = "map (\<lambda>m. p_update (the (om_get g m))) (chosen g bound)"
  obtain g' where g': "take_news g bound lmt = Some (?us, g')" "gossip_wf g'"
    "\<And>m. om_get g' m = (if m \<in> set (chosen g bound) then sent_once lmt (the (om_get g m)) else om_get g m)"
    using take_news_spec [OF assms] by blast
  note members = chosen_members [OF assms(1), of bound]
  have set: "u_member ` set ?us = set (chosen g bound)" using members by (metis list.set_map)
  have each: "\<exists>p. om_get g (u_member u) = Some p \<and> p_update p = u \<and>
       om_get g' (u_member u) = sent_once lmt p \<and>
       (\<forall>m q. om_get g m = Some q \<and> m \<notin> u_member ` set ?us \<longrightarrow> p_transmits p \<le> p_transmits q)"
    if u: "u \<in> set ?us" for u
  proof -
    obtain m where m: "m \<in> set (chosen g bound)" "u = p_update (the (om_get g m))" using u by auto
    obtain p where p: "om_get g m = Some p"
      using m(1) chosen_keys [of g bound] by (cases "om_get g m") (auto simp: map_of_eq_None_iff)
    have um: "u_member u = m" using gossip_wf_get [OF assms(1) p] m(2) p by simp
    have "p_transmits p \<le> p_transmits q" if "om_get g j = Some q" "j \<notin> set (chosen g bound)" for j q
      using chosen_freshest [OF assms(1) m(1) _ that(2)] that(1) p
      by (metis map_of_eq_None_iff list.set_map option.distinct(1) option.sel)
    then show ?thesis unfolding set using p um m g'(3) [of m] by auto
  qed
  have "distinct (map u_member ?us)" unfolding members by (rule chosen_distinct [OF assms(1)])
  moreover have "length ?us = min bound (length g)" by (simp add: length_chosen)
  moreover have "\<forall>m. m \<notin> u_member ` set ?us \<longrightarrow> om_get g' m = om_get g m"
    unfolding set using g'(3) by simp
  ultimately show ?thesis using g'(1,2) each by blast
qed

theorem gossip_take_witness:
  "\<exists>us g'. take_news [(5, \<lparr>p_update = \<lparr>u_member = 5, u_addr = V4 [] 0, u_incarnation = 0, u_status = Dead\<rparr>,
      p_transmits = 3\<rparr>)] 12 4 = Some (us, g') \<and> length us = 1"
  using gossip_take [of "[(5, \<lparr>p_update = \<lparr>u_member = 5, u_addr = V4 [] 0, u_incarnation = 0, u_status = Dead\<rparr>,
      p_transmits = 3\<rparr>)]" 4 12]
  by (fastforce simp: gossip_wf_def om_wf_def)

text \<open>
  News is sent a bounded number of times: over any sequence of messages, as long as it is not
  replaced, fresh news is sent exactly as often as its count says while it is held, and
  exactly \<open>lmt\<close> times once it is gone.
\<close>

theorem gossip_sent_to_the_limit:
  assumes "gossip_wf g" "0 < lmt" "push_news g u = Some (True, g0)"
  shows "\<exists>us g'. take_each g0 bounds lmt = Some (us, g') \<and>
    after_sending lmt u (count_list (map u_member us) (u_member u)) (om_get g' (u_member u))"
proof -
  have g0: "g0 = om_put (u_member u) \<lparr>p_update = u, p_transmits = 0\<rparr> g"
    using assms(1,3) by (simp add: push_news_total split: if_splits)
  have "gossip_wf g0" unfolding g0 by (rule gossip_wf_put [OF assms(1)]) simp
  moreover have "om_get g0 (u_member u) = Some \<lparr>p_update = u, p_transmits = 0\<rparr>" by (simp add: g0)
  ultimately show ?thesis using take_each_count [of g0 lmt "u_member u" "\<lparr>p_update = u, p_transmits = 0\<rparr>" bounds] assms(2)
    by simp
qed

theorem gossip_sent_to_the_limit_witness:
  "let u = \<lparr>u_member = 5, u_addr = V4 [] 0, u_incarnation = 0, u_status = Dead\<rparr> in
   \<exists>us g'. take_each [(5, \<lparr>p_update = u, p_transmits = 0\<rparr>)] [1, 1, 1] 2 = Some (us, g') \<and>
     count_list (map u_member us) 5 \<le> 2"
proof -
  let ?u = "\<lparr>u_member = 5, u_addr = V4 [] 0, u_incarnation = 0, u_status = Dead\<rparr>"
  have "push_news [] ?u = Some (True, [(5, \<lparr>p_update = ?u, p_transmits = 0\<rparr>)])"
    by (simp add: push_news_def)
  from gossip_sent_to_the_limit [of "[]" 2, OF _ _ this, of "[1, 1, 1]"] show ?thesis
    by (auto simp: gossip_wf_def after_sending_def Let_def split: option.splits)
qed

end
