(* ===== verification/Allocation.thy ===== *)
theory Allocation
  imports Float64
begin

text \<open>
  \<open>rateguard-core/src/allocation.rs\<close>: one node's share of one hot key's limit,
  in floating point as the code computes it.
\<close>

record view =
  v_limit :: f64
  v_cluster_size :: nat
  v_floor_factor :: f64
  v_own :: f64
  v_others :: f64

definition share :: "view \<Rightarrow> f64" where
  "share v =
     (let n = f64_of_nat (v_cluster_size v);
          even_split = v_limit v / n;
          total = v_own v + v_others v
      in if 0 < total
         then v_limit v * v_floor_factor v / n +
              v_limit v * (1 - v_floor_factor v) * (v_own v / total)
         else even_split)"

text \<open>The factor and the term one rounding adds at most.\<close>

definition c53 :: rat where "c53 = 1 + 2 powi (-53)"
definition e_min :: rat where "e_min = 2 powi (-1075)"

lemma c53_bounds: "1 \<le> c53" "c53 \<le> 2" "0 < c53"
  by (simp_all add: c53_def power_int_def power_divide)

lemma e_min_bounds: "0 < e_min" "e_min \<le> 1" "e_min * 2 ^ 1000 \<le> 1"
  by (simp_all add: e_min_def power_int_def power_divide)

lemma R_le: "0 \<le> x \<Longrightarrow> x \<le> y \<Longrightarrow> R x \<le> c53 * y + e_min"
proof -
  assume x: "0 \<le> x" "x \<le> y"
  have "R x \<le> R y" using x(2) by (intro rnd_mono) auto
  also have "R y \<le> y + (y * 2 powi (-53) + 2 powi (-1075))" using rnd_error [of y] x by linarith
  finally show ?thesis by (simp add: c53_def e_min_def distrib_right mult.commute)
qed

lemma R_ge:
  assumes "2 powi (-900) \<le> x"
  shows "x \<le> (1 + 2 powi (-51)) * R x"
proof -
  have pos: "(0 :: rat) < 2 powi (-900)" by simp
  then have x: "0 < x" using assms by linarith
  have "2 powi (-1075) = 2 powi (-900) * (2 :: rat) powi (-175)" by (simp add: power_int_def)
  also have "\<dots> \<le> x * 2 powi (-175)" using assms by (intro mult_right_mono) auto
  also have "\<dots> \<le> x * 2 powi (-53)" using x by (intro mult_left_mono) (auto simp: power_int_def)
  finally have "x - x * (2 powi (-53) + 2 powi (-53)) \<le> R x"
    using rnd_error [of x] x by (simp add: distrib_left)
  then have "(1 + 2 powi (-51)) * (x - x * (2 powi (-53) + 2 powi (-53))) \<le> (1 + 2 powi (-51)) * R x"
    by (intro mult_left_mono) (auto simp: power_int_def)
  moreover have "x * 1 \<le> x * ((1 + 2 powi (-51)) * (1 - (2 powi (-53) + 2 powi (-53))))"
    using x by (intro mult_left_mono) (auto simp: power_int_def power_divide)
  moreover have "(1 + 2 powi (-51)) * (x - x * (2 powi (-53) + 2 powi (-53))) =
      x * ((1 + 2 powi (-51)) * (1 - (2 powi (-53) + 2 powi (-53))))" by (simp add: algebra_simps)
  ultimately show ?thesis by linarith
qed

lemma c53_power: "c53 ^ 5 * (1 + 2 powi (-51)) \<le> 1 + 2 powi (-42)" "c53 ^ 3 \<le> 1 + 2 powi (-42)"
  by (simp_all add: c53_def power_int_def power_divide)

text \<open>The share of one node, in exact terms: \<open>y\<close> is its part of the demand it sees.\<close>

lemma share_parts:
  fixes L \<beta> y q n k :: rat
  assumes L: "0 \<le> L" and b: "0 \<le> \<beta>" "\<beta> \<le> 1" and n: "1 \<le> n" and y: "0 \<le> y" "y \<le> 1"
    and q: "0 \<le> q" "q \<le> k * y" and k: "0 \<le> k" "k \<le> 2" "c53 ^ 5 * k \<le> 1 + 2 powi (-42)"
  shows "R (R (R (L * \<beta>) / n) + R (R (L * R (1 - \<beta>)) * R q)) \<le>
    (1 + 2 powi (-42)) * (L * \<beta> / n + L * (1 - \<beta>) * y) + 200 * (L + 1) * e_min"
proof -
  let ?e = e_min and ?c = c53
  note c = c53_bounds and e = e_min_bounds
  have nn: "0 \<le> R x" if "0 \<le> x" for x by (rule rnd_nonneg [OF that])
  have Lb: "0 \<le> L * \<beta>" "0 \<le> L * (1 - \<beta>)" "L * (1 - \<beta>) \<le> L"
    using L b by (auto intro: mult_left_le)
  have a1: "R (L * \<beta>) / n \<le> (?c * (L * \<beta>) + ?e) / n"
    using R_le [OF Lb(1) order_refl] n by (simp add: divide_right_mono)
  have "R (R (L * \<beta>) / n) \<le> ?c * ((?c * (L * \<beta>) + ?e) / n) + ?e"
    using a1 nn [OF Lb(1)] n by (intro R_le) auto
  also have "\<dots> = ?c ^ 2 * (L * \<beta> / n) + ?c * ?e / n + ?e"
    by (simp add: power2_eq_square add_divide_distrib distrib_left mult.assoc)
  also have "?c * ?e / n \<le> 2 * ?e / 1" using c e n by (intro frac_le mult_right_mono) auto
  finally have a2: "R (R (L * \<beta>) / n) \<le> ?c ^ 2 * (L * \<beta> / n) + 3 * ?e" by simp
  have "R (1 - \<beta>) \<le> ?c * (1 - \<beta>) + ?e" using b by (intro R_le) auto
  then have "L * R (1 - \<beta>) \<le> L * (?c * (1 - \<beta>) + ?e)" using L by (intro mult_left_mono)
  then have "R (L * R (1 - \<beta>)) \<le> ?c * (L * (?c * (1 - \<beta>) + ?e)) + ?e"
    using L b nn [of "1 - \<beta>"] by (intro R_le) auto
  also have "\<dots> = ?c ^ 2 * (L * (1 - \<beta>)) + ?c * (L * ?e) + ?e"
    by (simp add: power2_eq_square algebra_simps)
  also have "?c * (L * ?e) \<le> 2 * (L * ?e)" using c L e by (intro mult_right_mono) auto
  finally have b2: "R (L * R (1 - \<beta>)) \<le> ?c ^ 2 * (L * (1 - \<beta>)) + (2 * L + 1) * ?e" by (simp add: algebra_simps)
  have q': "R q \<le> ?c * (k * y) + ?e" using q by (intro R_le)
  have q9: "?c * (k * y) + ?e \<le> 9"
  proof -
    have "k * y \<le> 2 * 1" using k y by (intro mult_mono) auto
    then have "?c * (k * y) \<le> 2 * 2" using c k y by (intro mult_mono) auto
    then show ?thesis using e by simp
  qed
  have w0: "0 \<le> ?c ^ 2 * (L * (1 - \<beta>))" using c Lb by simp
  have "R (L * R (1 - \<beta>)) * R q \<le> (?c ^ 2 * (L * (1 - \<beta>)) + (2 * L + 1) * ?e) * (?c * (k * y) + ?e)"
    using b2 q' w0 L e nn [OF q(1)] by (intro mult_mono) auto
  also have "\<dots> = ?c ^ 3 * k * (L * (1 - \<beta>) * y) + ?c ^ 2 * (L * (1 - \<beta>)) * ?e + (2 * L + 1) * ?e * (?c * (k * y) + ?e)"
    by (simp add: power2_eq_square power3_eq_cube algebra_simps)
  also have "?c ^ 2 * (L * (1 - \<beta>)) * ?e \<le> 4 * L * ?e"
    using c Lb e power_mono [of ?c 2 2] by (intro mult_right_mono mult_mono) auto
  also have "(2 * L + 1) * ?e * (?c * (k * y) + ?e) \<le> (2 * L + 1) * ?e * 9" using q9 L e by (intro mult_left_mono) auto
  finally have prod: "R (L * R (1 - \<beta>)) * R q \<le> ?c ^ 3 * k * (L * (1 - \<beta>) * y) + (22 * L + 9) * ?e"
    by (simp add: algebra_simps)
  have "0 \<le> R (L * R (1 - \<beta>)) * R q" using L b q nn by simp
  then have b3: "R (R (L * R (1 - \<beta>)) * R q) \<le> ?c * (?c ^ 3 * k * (L * (1 - \<beta>) * y) + (22 * L + 9) * ?e) + ?e"
    using prod by (intro R_le)
  have "R (R (R (L * \<beta>) / n) + R (R (L * R (1 - \<beta>)) * R q)) \<le>
      ?c * (?c ^ 2 * (L * \<beta> / n) + 3 * ?e + (?c * (?c ^ 3 * k * (L * (1 - \<beta>) * y) + (22 * L + 9) * ?e) + ?e)) + ?e"
  proof (rule R_le)
    have "0 \<le> R (L * \<beta>) / n" using nn [OF Lb(1)] n by simp
    then show "0 \<le> R (R (L * \<beta>) / n) + R (R (L * R (1 - \<beta>)) * R q)"
      using nn \<open>0 \<le> R (L * R (1 - \<beta>)) * R q\<close> by (intro add_nonneg_nonneg)
  qed (rule add_mono [OF a2 b3])
  also have "\<dots> = ?c ^ 3 * (L * \<beta> / n) + ?c ^ 5 * k * (L * (1 - \<beta>) * y) + (?c * 4 + ?c * ?c * (22 * L + 9) + 1) * ?e"
    by (simp add: power_def algebra_simps eval_nat_numeral)
  also have "?c ^ 3 * (L * \<beta> / n) \<le> (1 + 2 powi (-42)) * (L * \<beta> / n)"
    using c53_power(2) Lb n by (intro mult_right_mono) auto
  also have "?c ^ 5 * k * (L * (1 - \<beta>) * y) \<le> (1 + 2 powi (-42)) * (L * (1 - \<beta>) * y)"
    using k(3) Lb y by (intro mult_right_mono) auto
  also have "(?c * 4 + ?c * ?c * (22 * L + 9) + 1) * ?e \<le> 200 * (L + 1) * ?e"
  proof -
    have "?c * ?c \<le> 2 * 2" using c by (intro mult_mono) auto
    then have "?c * ?c * (22 * L + 9) \<le> 4 * (22 * L + 9)" using L by (intro mult_right_mono) auto
    then show ?thesis using c L e by (intro mult_right_mono) auto
  qed
  finally show ?thesis by (simp add: distrib_left)
qed

section \<open>The share as computed\<close>

lemma f64_of_nat_exact: "n \<le> 2 ^ 53 \<Longrightarrow> f64_of_nat n = Fin (of_nat n)"
  using f64_of_rat_multiple [of n 0] by (simp add: f64_of_nat_def)

definition part_of :: "rat \<Rightarrow> rat \<Rightarrow> rat" where
  "part_of own others = own / R (own + others)"

lemma part_bounds:
  assumes "0 \<le> own" "0 \<le> others" "2 powi (-900) \<le> own + others"
  shows "0 < R (own + others)" "0 \<le> part_of own others"
    "part_of own others \<le> (1 + 2 powi (-51)) * (own / (own + others))"
proof -
  have pos: "(0 :: rat) < 2 powi (-900)" "(0 :: rat) < 1 + 2 powi (-51)" by (simp_all add: add_pos_pos)
  then have x: "0 < own + others" using assms(3) by linarith
  note ge = R_ge [OF assms(3)]
  have "0 < (1 + 2 powi (-51)) * R (own + others)" using ge x by linarith
  then show R: "0 < R (own + others)" using pos(2) zero_less_mult_pos by blast
  then show "0 \<le> part_of own others" using assms(1) by (simp add: part_of_def)
  have "own * (own + others) \<le> own * ((1 + 2 powi (-51)) * R (own + others))" using ge assms(1) by (rule mult_left_mono)
  then show "part_of own others \<le> (1 + 2 powi (-51)) * (own / (own + others))"
    using R x unfolding part_of_def times_divide_eq_right by (simp only: frac_le_eq divide_le_0_iff) (auto simp: mult.commute mult.left_commute)
qed

lemma k51: "(0 :: rat) \<le> 1 + 2 powi (-51)" "1 + 2 powi (-51) \<le> (2 :: rat)"
  by (auto simp: power_int_def power_divide)

lemma share_exact:
  assumes L: "0 \<le> L" "L \<le> 2 ^ 900" and b: "0 \<le> \<beta>" "\<beta> \<le> 1" and n: "1 \<le> n" "n \<le> 2 ^ 53"
    and own: "0 \<le> own" "0 \<le> others" "2 powi (-900) \<le> own + others" "own + others \<le> 2 ^ 900"
  shows "share \<lparr>v_limit = Fin L, v_cluster_size = n, v_floor_factor = Fin \<beta>, v_own = Fin own, v_others = Fin others\<rparr> =
    Fin (R (R (R (L * \<beta>) / of_nat n) + R (R (L * R (1 - \<beta>)) * R (part_of own others))))"
proof -
  let ?n = "of_nat n :: rat"
  have n1: "1 \<le> ?n" using n(1) by simp
  have Lb: "0 \<le> L * \<beta>" "L * \<beta> \<le> 2 ^ 900" using L b by (auto intro: order_trans [OF mult_left_le])
  note r1 = R_between [OF Lb]
  have a: "0 \<le> R (L * \<beta>) / ?n" "R (L * \<beta>) / ?n \<le> 2 ^ 900"
    using r1 n1 by (auto intro: order_trans [OF divide_left_mono [of 1 ?n "R (L * \<beta>)"]])
  note r2 = R_between [OF a]
  have "0 \<le> 1 - \<beta>" "1 - \<beta> \<le> 2 ^ 0" using b by simp_all
  note r3 = R_between [OF this]
  have "0 \<le> L * R (1 - \<beta>)" "L * R (1 - \<beta>) \<le> 2 ^ 900" using L r3 by (auto intro: order_trans [OF mult_left_le])
  note r4 = R_between [OF this]
  have "0 \<le> own + others" using own by simp
  note r5 = R_between [OF this own(4)]
  note part = part_bounds [OF own(1-3)]
  have "own / (own + others) \<le> 1" using own by (simp add: divide_le_eq_1)
  then have "(1 + 2 powi (-51)) * (own / (own + others)) \<le> 2 * 1" using k51 own by (intro mult_mono) auto
  then have "part_of own others \<le> 2 ^ 1" using part(3) by simp
  note r6 = R_between [OF part(2) this]
  have "R (L * R (1 - \<beta>)) * R (part_of own others) \<le> 2 ^ 900 * 2 ^ 1" using r4 r6 by (intro mult_mono) auto
  then have prod: "R (L * R (1 - \<beta>)) * R (part_of own others) \<le> 2 ^ 901" by simp
  have "0 \<le> R (L * R (1 - \<beta>)) * R (part_of own others)" using r4 r6 by simp
  note r7 = R_between [OF this prod]
  have "R (R (L * \<beta>) / ?n) + R (R (L * R (1 - \<beta>)) * R (part_of own others)) \<le> 2 ^ 900 + 2 ^ 901"
    using r2(2) r7(2) by (intro add_mono) simp_all
  also have "(2 :: rat) ^ 900 + 2 ^ 901 \<le> 2 ^ 902" by simp
  finally have "R (R (L * \<beta>) / ?n) + R (R (L * R (1 - \<beta>)) * R (part_of own others)) \<le> 2 ^ 902" .
  moreover have "0 \<le> R (R (L * \<beta>) / ?n) + R (R (L * R (1 - \<beta>)) * R (part_of own others))" using r2 r7 by simp
  ultimately have r8: "f64_of_rat (R (R (L * \<beta>) / ?n) + R (R (L * R (1 - \<beta>)) * R (part_of own others))) =
      Fin (R (R (R (L * \<beta>) / ?n) + R (R (L * R (1 - \<beta>)) * R (part_of own others))))"
    by (intro R_between(3) [of _ 902]) simp_all
  have nf: "f64_of_nat n = Fin ?n" by (rule f64_of_nat_exact [OF n(2)])
  show ?thesis
    using part(1) n1
    by (simp add: share_def Let_def nf r1(3) r2(3) r3(3) r4(3) r5(3) r6(3) r7(3) r8 part_of_def [symmetric])
qed

section \<open>Properties\<close>

definition view_of :: "rat \<Rightarrow> rat \<Rightarrow> nat \<Rightarrow> rat \<times> rat \<Rightarrow> view" where
  "view_of L \<beta> n v = \<lparr>v_limit = Fin L, v_cluster_size = n, v_floor_factor = Fin \<beta>, v_own = Fin (fst v), v_others = Fin (snd v)\<rparr>"

text \<open>What one node sees: demands that are rates, neither unmeasurably small nor enormous in all.\<close>

definition sees :: "rat \<times> rat \<Rightarrow> bool" where
  "sees v = (0 \<le> fst v \<and> 0 \<le> snd v \<and> 2 powi (-900) \<le> fst v + snd v \<and> fst v + snd v \<le> 2 ^ 900)"

lemma share_bound:
  assumes L: "0 \<le> L" "L \<le> 2 ^ 900" and b: "0 \<le> \<beta>" "\<beta> \<le> 1" and n: "1 \<le> n" "n \<le> 2 ^ 40" and v: "sees v"
  shows "\<exists>x. share (view_of L \<beta> n v) = Fin x \<and> R (R (L * \<beta>) / of_nat n) \<le> x \<and>
    x \<le> (1 + 2 powi (-42)) * (L * \<beta> / of_nat n + L * (1 - \<beta>) * (fst v / (fst v + snd v))) + 200 * (L + 1) * e_min"
proof -
  have v': "0 \<le> fst v" "0 \<le> snd v" "2 powi (-900) \<le> fst v + snd v" "fst v + snd v \<le> 2 ^ 900"
    using v by (simp_all add: sees_def)
  note part = part_bounds [OF v'(1-3)]
  have y: "0 \<le> fst v / (fst v + snd v)" "fst v / (fst v + snd v) \<le> 1" using v' by (simp_all add: divide_le_eq_1)
  have n': "n \<le> 2 ^ 53" "(1 :: rat) \<le> of_nat n" using n by (auto intro: order_trans)
  let ?a = "R (R (L * \<beta>) / of_nat n)" and ?b = "R (R (L * R (1 - \<beta>)) * R (part_of (fst v) (snd v)))"
  have "share (view_of L \<beta> n v) = Fin (R (?a + ?b))"
    unfolding view_of_def by (rule share_exact [OF L b n(1) n'(1) v'])
  moreover have "?a \<le> R (?a + ?b)"
  proof -
    have "0 \<le> ?b" using L b part by (intro rnd_nonneg mult_nonneg_nonneg) auto
    then have "R ?a \<le> R (?a + ?b)" by (intro rnd_mono) auto
    then show ?thesis by (simp add: rnd_idem)
  qed
  moreover have "R (?a + ?b) \<le>
      (1 + 2 powi (-42)) * (L * \<beta> / of_nat n + L * (1 - \<beta>) * (fst v / (fst v + snd v))) + 200 * (L + 1) * e_min"
    by (rule share_parts [OF L(1) b n'(2) y part(2,3) k51 c53_power(1)])
  ultimately show ?thesis by blast
qed

lemma shares_bound:
  assumes L: "0 \<le> L" "L \<le> 2 ^ 900" and b: "0 \<le> \<beta>" "\<beta> \<le> 1" and n: "1 \<le> n" "n \<le> 2 ^ 40"
    and vs: "\<forall>v \<in> set vs. sees v"
  shows "\<exists>xs. map (share \<circ> view_of L \<beta> n) vs = map Fin xs \<and> (\<forall>x \<in> set xs. R (R (L * \<beta>) / of_nat n) \<le> x) \<and>
    sum_list xs \<le> (1 + 2 powi (-42)) * (of_nat (length vs) * (L * \<beta> / of_nat n) +
      L * (1 - \<beta>) * sum_list (map (\<lambda>v. fst v / (fst v + snd v)) vs)) + of_nat (length vs) * (200 * (L + 1) * e_min)"
  using vs
proof (induction vs)
  case (Cons v vs)
  obtain x where x: "share (view_of L \<beta> n v) = Fin x" "R (R (L * \<beta>) / of_nat n) \<le> x"
    "x \<le> (1 + 2 powi (-42)) * (L * \<beta> / of_nat n + L * (1 - \<beta>) * (fst v / (fst v + snd v))) + 200 * (L + 1) * e_min"
    using share_bound [OF L b n, of v] Cons.prems by auto
  obtain xs where xs: "map (share \<circ> view_of L \<beta> n) vs = map Fin xs" "\<forall>x \<in> set xs. R (R (L * \<beta>) / of_nat n) \<le> x"
    "sum_list xs \<le> (1 + 2 powi (-42)) * (of_nat (length vs) * (L * \<beta> / of_nat n) +
      L * (1 - \<beta>) * sum_list (map (\<lambda>v. fst v / (fst v + snd v)) vs)) + of_nat (length vs) * (200 * (L + 1) * e_min)"
    using Cons.IH Cons.prems by (meson list.set_intros(2))
  have "sum_list (x # xs) \<le> (1 + 2 powi (-42)) * (of_nat (length (v # vs)) * (L * \<beta> / of_nat n) +
      L * (1 - \<beta>) * sum_list (map (\<lambda>v. fst v / (fst v + snd v)) (v # vs))) + of_nat (length (v # vs)) * (200 * (L + 1) * e_min)"
    using add_mono [OF x(3) xs(3)] by (simp only: sum_list.Cons list.map length_Cons of_nat_Suc distrib_left distrib_right mult_1 ac_simps)
  then show ?case using x(1,2) xs(1,2) by (intro exI [of _ "x # xs"]) (auto simp: comp_def)
qed simp

lemma parts_sum:
  assumes "\<forall>v \<in> set vs. sees v \<and> sum_list (map fst all) \<le> D * (fst v + snd v)" "0 \<le> D" "0 < sum_list (map fst all)"
  shows "sum_list (map (\<lambda>v. fst v / (fst v + snd v)) vs) \<le> D * sum_list (map fst vs) / sum_list (map fst all)"
  using assms(1)
proof (induction vs)
  case (Cons v vs)
  let ?S = "sum_list (map fst all)"
  have v: "sees v" "?S \<le> D * (fst v + snd v)" using Cons.prems by auto
  have pos: "0 < fst v + snd v"
  proof -
    have "(0 :: rat) < 2 powi (-900)" by simp
    then show ?thesis using v(1) unfolding sees_def by linarith
  qed
  have "fst v * ?S \<le> fst v * (D * (fst v + snd v))" using v by (intro mult_left_mono) (auto simp: sees_def)
  then have "fst v / (fst v + snd v) \<le> D * fst v / ?S" using pos assms(3) by (simp add: field_simps)
  then show ?case using Cons by (simp add: distrib_left add_divide_distrib)
qed simp

text \<open>
  C29. The shares of one key add up to its limit. In a cluster of \<open>n\<close> nodes of which each sees its own demand and at
  least the part \<open>1/D\<close> of the whole, the shares they take, as computed in floating point, add up to at most \<open>D\<close> times the
  limit but for a relative error of \<open>2\<^sup>-\<^sup>4\<^sup>0\<close>; and none is below the floor.
\<close>

theorem shares_within_limit:
  assumes L: "2 powi (-100) \<le> L" "L \<le> 2 ^ 900" and b: "0 \<le> \<beta>" "\<beta> \<le> 1" and n: "n = length vs" "1 \<le> n" "n \<le> 2 ^ 40"
    and D: "1 \<le> D" and vs: "\<forall>v \<in> set vs. sees v \<and> sum_list (map fst vs) \<le> D * (fst v + snd v)"
  shows "\<exists>xs. map (share \<circ> view_of L \<beta> n) vs = map Fin xs \<and> sum_list xs \<le> D * L * (1 + 2 powi (-40)) \<and>
    (\<forall>x \<in> set xs. Fin L * Fin \<beta> / f64_of_nat n \<le> Fin x)"
proof -
  let ?y = "sum_list (map (\<lambda>v. fst v / (fst v + snd v)) vs)" and ?S = "sum_list (map fst vs)"
  have "(0 :: rat) \<le> 2 powi (-100)" by simp
  then have L0: "0 \<le> L" using L(1) by linarith
  have sees: "\<forall>v \<in> set vs. sees v" using vs by blast
  obtain xs where xs: "map (share \<circ> view_of L \<beta> n) vs = map Fin xs" "\<forall>x \<in> set xs. R (R (L * \<beta>) / of_nat n) \<le> x"
    "sum_list xs \<le> (1 + 2 powi (-42)) * (of_nat (length vs) * (L * \<beta> / of_nat n) + L * (1 - \<beta>) * ?y) +
      of_nat (length vs) * (200 * (L + 1) * e_min)"
    using shares_bound [OF L0 L(2) b n(2,3) sees] by blast
  have y: "?y \<le> D"
  proof (cases "0 < ?S")
    case True
    then show ?thesis using parts_sum [of vs vs D] vs D by simp
  next
    case False
    have fst0: "\<forall>v \<in> set vs. 0 \<le> fst v" using sees by (simp add: sees_def)
    then have "fst v = 0" if "v \<in> set vs" for v
      using False that member_le_sum_list [of "fst v" "map fst vs"] by force
    then have "?y = 0" by (simp add: sum_list_0 cong: map_cong)
    then show ?thesis using D by simp
  qed
  have "L * (1 - \<beta>) * ?y \<le> L * (1 - \<beta>) * D" using y L0 b by (intro mult_left_mono) auto
  moreover have "L * \<beta> * 1 \<le> L * \<beta> * D" using D L0 b by (intro mult_left_mono) auto
  moreover have "L * \<beta> * D + L * (1 - \<beta>) * D = D * L" by (simp add: algebra_simps)
  moreover have "of_nat (length vs) * (L * \<beta> / of_nat n) = L * \<beta>"
    using n(2) unfolding n(1) [symmetric] by simp
  ultimately have "of_nat (length vs) * (L * \<beta> / of_nat n) + L * (1 - \<beta>) * ?y \<le> D * L" by linarith
  then have main: "(1 + 2 powi (-42)) * (of_nat (length vs) * (L * \<beta> / of_nat n) + L * (1 - \<beta>) * ?y) \<le> (1 + 2 powi (-42)) * (D * L)"
    by (intro mult_left_mono) (auto simp: power_int_def)
  have "of_nat (length vs) * (200 * (L + 1) * e_min) \<le> L * 2 powi (-42)"
  proof -
    have "1 \<le> L * 2 ^ 100" using mult_right_mono [OF L(1), of "2 ^ 100"] by (simp add: power_int_def power_divide)
    then have "200 * (L + 1) \<le> L * 2 ^ 110" using L0 by simp
    moreover have "of_nat (length vs) \<le> (2 :: rat) ^ 40" using n by (metis of_nat_le_iff of_nat_numeral of_nat_power)
    ultimately have "of_nat (length vs) * (200 * (L + 1) * e_min) \<le> 2 ^ 40 * (L * 2 ^ 110 * e_min)"
      using L0 e_min_bounds(1) by (intro mult_mono [of _ _ "200 * (L + 1) * e_min"] mult_right_mono) auto
    also have "\<dots> = L * (2 ^ 150 * e_min)" by simp
    also have "\<dots> \<le> L * 2 powi (-42)"
      using L0 by (intro mult_left_mono) (auto simp: e_min_def power_int_def power_divide)
    finally show ?thesis .
  qed
  also have "L * 2 powi (-42) \<le> D * L * 2 powi (-42)"
    using mult_right_mono [OF D L0] by (intro mult_right_mono) auto
  finally have "sum_list xs \<le> (1 + 2 powi (-42)) * (D * L) + D * L * 2 powi (-42)" using xs(3) main by linarith
  also have "\<dots> = D * L * (1 + 2 powi (-41))" by (simp add: power_int_def power_divide algebra_simps)
  also have "\<dots> \<le> D * L * (1 + 2 powi (-40))"
    using D L0 by (intro mult_left_mono) (auto simp: power_int_def power_divide)
  finally have sum: "sum_list xs \<le> D * L * (1 + 2 powi (-40))" .
  have "Fin L * Fin \<beta> / f64_of_nat n = Fin (R (R (L * \<beta>) / of_nat n))"
  proof -
    have "n \<le> 2 ^ 53" using n(3) by (rule order_trans) simp
    have Lb: "0 \<le> L * \<beta>" "L * \<beta> \<le> 2 ^ 900" using L0 L b by (auto intro: order_trans [OF mult_left_le])
    note r1 = R_between [OF Lb]
    have n1: "1 \<le> (of_nat n :: rat)" using n(2) by simp
    have "0 \<le> R (L * \<beta>) / of_nat n" "R (L * \<beta>) / of_nat n \<le> 2 ^ 900"
      using r1 n1 by (auto intro: order_trans [OF divide_left_mono [of 1 "of_nat n" "R (L * \<beta>)"]])
    note r2 = R_between [OF this]
    show ?thesis using n(2) by (simp add: f64_of_nat_exact [OF \<open>n \<le> 2 ^ 53\<close>] r1(3) r2(3))
  qed
  then show ?thesis using xs(1,2) sum by auto
qed

theorem shares_within_limit_witness:
  "\<exists>xs. map (share \<circ> view_of 1000 (1 / 8) 3) [(3, 5), (5, 3), (0, 8)] = map Fin xs \<and>
    sum_list xs \<le> 1000 * (1 + 2 powi (-40))"
proof -
  let ?vs = "[(3, 5), (5, 3), (0, 8)] :: (rat \<times> rat) list"
  have "2 powi (-100) \<le> (1000 :: rat)" "(1000 :: rat) \<le> 2 ^ 900" "0 \<le> (1 / 8 :: rat)" "1 / 8 \<le> (1 :: rat)"
    "(3 :: nat) = length ?vs" "(1 :: nat) \<le> 3" "(3 :: nat) \<le> 2 ^ 40" "1 \<le> (1 :: rat)"
    "\<forall>v \<in> set ?vs. sees v \<and> sum_list (map fst ?vs) \<le> 1 * (fst v + snd v)"
    by (simp_all add: sees_def power_int_def power_divide)
  from shares_within_limit [OF this] show ?thesis unfolding mult_1 by blast
qed

end
