(* ===== verification/Partition.thy ===== *)
theory Partition
  imports Prelude
begin

text \<open>
  \<open>rateguard-core/src/partition.rs\<close>: what a node does when its cluster shrinks,
  the majority test and the sliding maximum of the cluster size.
\<close>

datatype partition_policy = Optimistic | HoldDown nanos | Quorum

definition default_policy :: partition_policy where
  "default_policy = HoldDown (10 * 1000000000)"

definition has_quorum :: "nat \<Rightarrow> nat \<Rightarrow> bool" where
  "has_quorum alive known = (known < 2 * alive)"

record size_history =
  sh_window :: nanos
  sh_samples :: "(nanos \<times> nat) list"

definition history_new :: "nanos \<Rightarrow> size_history" where
  "history_new window = \<lparr>sh_window = window, sh_samples = []\<rparr>"

text \<open>The loop that drops the samples older than the window, but never the last one.\<close>

fun pop_old :: "nanos \<Rightarrow> nanos \<Rightarrow> (nanos \<times> nat) list \<Rightarrow> (nanos \<times> nat) list" where
  "pop_old window now (s # s' # ss) =
     (if saturating_add (fst s) window \<le> now then pop_old window now (s' # ss) else s # s' # ss)"
| "pop_old window now ss = ss"

definition max_size :: "(nanos \<times> nat) list \<Rightarrow> nat option" where
  "max_size ss = (case ss of [] \<Rightarrow> None | s # _ \<Rightarrow> Some (fold max (map snd ss) (snd s)))"

definition record_size :: "size_history \<Rightarrow> nanos \<Rightarrow> nat \<Rightarrow> (nat \<times> size_history) option" where
  "record_size h now sz =
     (let samples = pop_old (sh_window h) now (sh_samples h @ [(now, sz)]) in do {
        largest \<leftarrow> max_size samples;
        Some (largest, h\<lparr>sh_samples := samples\<rparr>)
      })"

definition forget_one :: "size_history \<Rightarrow> nanos \<Rightarrow> size_history" where
  "forget_one h since = h\<lparr>sh_samples :=
     map (\<lambda>(at, sz). if since \<le> at then (at, max (sz - 1) 1) else (at, sz)) (sh_samples h)\<rparr>"

section \<open>The sliding maximum\<close>

text \<open>Whether a sample is out of the window.\<close>

definition too_old :: "nanos \<Rightarrow> nanos \<Rightarrow> nanos \<times> nat \<Rightarrow> bool" where
  "too_old window now s = (saturating_add (fst s) window \<le> now)"

lemma pop_old_snoc: "pop_old window now (ss @ [s]) = dropWhile (too_old window now) ss @ [s]"
proof (induction ss)
  case (Cons a ss)
  then show ?case by (cases ss) (simp_all add: too_old_def)
qed simp

lemma saturating_add_mono: "a \<le> b \<Longrightarrow> saturating_add a c \<le> saturating_add b c"
  for a b c :: "'a::len word"
  unfolding word_le_nat_alt unat_saturating_add by (intro min.mono) simp_all

lemma dropWhile_too_old:
  assumes "sorted_wrt (\<le>) (map fst ss)"
  shows "dropWhile (too_old window now) ss = filter (\<lambda>s. \<not> too_old window now s) ss"
  using assms
proof (induction ss)
  case (Cons a ss)
  have "\<not> too_old window now s" if "\<not> too_old window now a" "s \<in> set ss" for s
    using that Cons.prems saturating_add_mono [of "fst a" "fst s" window]
    by (auto simp: too_old_def not_le)
  then show ?case using Cons by (auto simp: filter_id_conv)
qed simp

lemma too_old_later: "too_old window before s \<Longrightarrow> before \<le> now \<Longrightarrow> too_old window now s"
  by (auto simp: too_old_def)

lemma dropWhile_dropWhile_weaker:
  "(\<And>x. P x \<Longrightarrow> Q x) \<Longrightarrow> dropWhile Q (dropWhile P xs @ ys) = dropWhile Q (xs @ ys)"
  by (induction xs) auto

lemma max_size_Max: "max_size (ss @ [s]) = Some (Max (snd ` set (ss @ [s])))"
proof (cases "ss @ [s]")
  case (Cons a rest)
  have "fold max (map snd rest) (snd a) = Max (set (snd a # map snd rest))" by (simp only: Max.set_eq_fold)
  then show ?thesis unfolding Cons by (simp add: max_size_def)
qed simp

text \<open>A history of records made at these times, of these sizes.\<close>

fun record_sizes :: "size_history \<Rightarrow> (nanos \<times> nat) list \<Rightarrow> (nat list \<times> size_history) option" where
  "record_sizes h [] = Some ([], h)"
| "record_sizes h ((now, sz) # later) = do {
     (n, h') \<leftarrow> record_size h now sz;
     (ns, h'') \<leftarrow> record_sizes h' later;
     Some (n # ns, h'')
   }"

text \<open>The samples kept stand for all that were recorded.\<close>

definition stands_for :: "size_history \<Rightarrow> (nanos \<times> nat) list \<Rightarrow> bool" where
  "stands_for h ss = (\<forall>now. (\<forall>s \<in> set ss. fst s \<le> now) \<longrightarrow>
     dropWhile (too_old (sh_window h) now) (sh_samples h) = dropWhile (too_old (sh_window h) now) ss)"

lemma record_size_stands_for:
  assumes st: "stands_for h ss" and sorted: "sorted_wrt (\<le>) (map fst (ss @ [(now, sz)]))"
  shows "\<exists>h'. record_size h now sz = Some
      (Max (insert sz {n. \<exists>t. (t, n) \<in> set ss \<and> now < saturating_add t (sh_window h)}), h') \<and>
    stands_for h' (ss @ [(now, sz)]) \<and> sh_window h' = sh_window h"
proof -
  let ?w = "sh_window h"
  let ?s' = "dropWhile (too_old ?w now) ss @ [(now, sz)]"
  have before: "\<forall>s \<in> set ss. fst s \<le> now" using sorted by (auto simp: sorted_wrt_append)
  then have pop: "pop_old ?w now (sh_samples h @ [(now, sz)]) = ?s'"
    using st by (simp add: pop_old_snoc stands_for_def)
  have "sorted_wrt (\<le>) (map fst ss)" using sorted by (simp add: sorted_wrt_append)
  then have "snd ` set ?s' = insert sz {n. \<exists>t. (t, n) \<in> set ss \<and> now < saturating_add t ?w}"
    by (auto simp: dropWhile_too_old too_old_def image_iff not_le)
  moreover have "dropWhile (too_old ?w later) ?s' = dropWhile (too_old ?w later) (ss @ [(now, sz)])"
    if "now \<le> later" for later
    by (rule dropWhile_dropWhile_weaker) (rule too_old_later [OF _ that])
  ultimately show ?thesis
    by (auto simp: record_size_def pop max_size_Max stands_for_def)
qed

lemma record_sizes_spec:
  assumes "stands_for h done" "sorted_wrt (\<le>) (map fst (done @ ss @ [(now, sz)]))"
  shows "\<exists>ns h'. record_sizes h (ss @ [(now, sz)]) = Some (ns @
      [Max (insert sz {n. \<exists>t. (t, n) \<in> set (done @ ss) \<and> now < saturating_add t (sh_window h)})], h')"
  using assms
proof (induction ss arbitrary: h "done")
  case Nil
  then show ?case using record_size_stands_for [of h "done" now sz] by fastforce
next
  case (Cons a ss)
  obtain t n where a: "a = (t, n)" by force
  have "sorted_wrt (\<le>) (map fst (done @ [(t, n)]))"
    using Cons.prems(2) a by (auto simp: sorted_wrt_append)
  then obtain m h1 where h1: "record_size h t n = Some (m, h1)" "stands_for h1 (done @ [(t, n)])"
    "sh_window h1 = sh_window h"
    using record_size_stands_for [OF Cons.prems(1)] by blast
  obtain ns h' where "record_sizes h1 (ss @ [(now, sz)]) = Some (ns @
      [Max (insert sz {n'. \<exists>t'. (t', n') \<in> set ((done @ [(t, n)]) @ ss) \<and> now < saturating_add t' (sh_window h1)})], h')"
    using Cons.IH [OF h1(2)] Cons.prems(2) a by auto
  with h1 a show ?case by auto
qed

section \<open>Properties\<close>

text \<open>
  Hold-down: with the cluster size recorded at times that do not decrease, each record gives the
  largest size of the window, the current one included: a drop shows only once the window has
  passed over the larger sizes, a rise at once, and nothing panics.
\<close>

theorem hold_down_window:
  assumes "sorted_wrt (\<le>) (map fst (ss @ [(now, sz)]))"
  shows "\<exists>ns h'. record_sizes (history_new window) (ss @ [(now, sz)]) = Some (ns @
      [Max (insert sz {n. \<exists>t. (t, n) \<in> set ss \<and> now < saturating_add t window})], h')"
proof -
  have "stands_for (history_new window) []" by (simp add: stands_for_def history_new_def)
  from record_sizes_spec [OF this, of ss now sz] assms show ?thesis by (simp add: history_new_def)
qed

theorem hold_down_window_witness:
  "\<exists>ns h'. record_sizes (history_new 10) ([(0, 5), (4, 3)] @ [(12, 2)]) = Some (ns @
      [Max (insert 2 {n. \<exists>t :: nanos. (t, n) \<in> set [(0, 5), (4, 3)] \<and> 12 < saturating_add t 10})], h')"
  by (rule hold_down_window) simp

text \<open>Of two groups of one cluster that share no member, at most one has the majority.\<close>

lemma has_quorum_exclusive: "a + b \<le> known \<Longrightarrow> has_quorum a known \<Longrightarrow> \<not> has_quorum b known"
  by (auto simp: has_quorum_def)

end
