(* ===== verification/Node_State.thy ===== *)
theory Node_State
  imports Rng Limiter Member_Table Gossip Peer_Demand Allocation Partition
begin

text \<open>
  \<open>rateguard-core/src/node.rs\<close>, first part: the state of one cluster member, how
  it is made and set up, and what it computes from its state: the size the limit
  is shared over, and the cap that holds every key at the floor. What the node
  takes from outside the repository is the record \<open>env\<close>: the two functions of
  the standard library whose precision Rust leaves open, the iteration order of
  hash maps, and the two functions of the \<open>postcard\<close> crate.
\<close>

unbundle bit_operations_syntax

record env =
  e_exp :: "f64 \<Rightarrow> f64"
  e_log10 :: "f64 \<Rightarrow> f64"
  e_order :: "u64 list \<Rightarrow> u64 list"
  e_to_allocvec :: "message \<Rightarrow> bytes option"
  e_take_from_bytes :: "bytes \<Rightarrow> (message \<times> bytes) option"

text \<open>\<open>boundary.rs\<close>: what goes into a node and what comes out.\<close>

datatype event = Tick | MessageReceived peer_id bytes

datatype action = SendTo peer_id bytes

definition ONE_MS :: nanos where "ONE_MS = 1000000"
definition DEFAULT_QUORUM_MEMORY :: nanos where "DEFAULT_QUORUM_MEMORY = 3600000 * ONE_MS"
definition DEFAULT_MAX_MEMBERS :: nat where "DEFAULT_MAX_MEMBERS = 8192"
definition RISE_DELAY_ROUNDS :: nat where "RISE_DELAY_ROUNDS = 2"

record swim_config =
  sw_protocol_period :: nanos
  sw_ack_timeout :: nanos
  sw_indirect_probes :: nat
  sw_suspicion_timeout :: nanos
  sw_reconnect_interval :: nanos
  sw_tombstone_ttl :: nanos

definition swim_default :: swim_config where
  "swim_default = \<lparr>sw_protocol_period = 200 * ONE_MS, sw_ack_timeout = 100 * ONE_MS,
     sw_indirect_probes = 3, sw_suspicion_timeout = 6000 * ONE_MS,
     sw_reconnect_interval = 2000 * ONE_MS, sw_tombstone_ttl = 600000 * ONE_MS\<rparr>"

record probe =
  pr_target :: peer_id
  pr_seq :: u32
  pr_sent_at :: nanos
  pr_helpers :: "peer_id list option"

record relay =
  re_requester :: peer_id
  re_seq :: u32
  re_target :: peer_id
  re_expires_at :: nanos

record held =
  hd_joining :: bool
  hd_learning :: bool
  hd_without_quorum :: bool
  hd_members_full :: bool

definition held_default :: held where
  "held_default = \<lparr>hd_joining = False, hd_learning = False, hd_without_quorum = False,
     hd_members_full = False\<rparr>"

record node =
  n_limiter :: limiter
  n_members :: member_table
  n_gossip :: gossip
  n_swim :: swim_config
  n_rng :: rng
  n_seeds :: "(peer_id \<times> address) list"
  n_order :: "peer_id list"
  n_next :: nat
  n_seq :: u32
  n_probe :: "probe option"
  n_relays :: "(u32, relay) omap"
  n_next_round_at :: nanos
  n_next_reconnect_at :: nanos
  n_last_round :: "nanos option"
  n_last_now :: nanos
  n_actions :: "action list"
  n_peer_demand :: peer_demand
  n_round_number :: u16
  n_epoch :: u32
  n_own_demand :: "key_demand list"
  n_policy :: partition_policy
  n_sizes :: size_history
  n_held_size :: nat
  n_quorum_size :: nat
  n_quorum_memory :: nanos
  n_without_quorum_since :: "nanos option"
  n_floored_until :: nanos
  n_joined_at :: "nanos option"
  n_expects_peers :: bool
  n_last_heard :: "(peer_id, nanos) omap"
  n_reported :: "(nanos \<times> key_demand list) list"
  n_behind :: "(peer_id, unit) omap"
  n_introducing :: "(peer_id, peer_id option) omap"
  n_recent_shares :: "(u64, f64 list) omap"
  n_left :: bool
  n_held :: held
  n_identity_conflicts :: u64
  n_last_refused_at :: "nanos option"

section \<open>Making a node\<close>

fun hold_of :: "partition_policy \<Rightarrow> nanos" where
  "hold_of (HoldDown hold) = hold"
| "hold_of Optimistic = 0"
| "hold_of Quorum = 0"

definition swim_validate :: "swim_config \<Rightarrow> unit option" where
  "swim_validate sw = do {
     ensure (0 < sw_protocol_period sw);
     ensure (0 < sw_ack_timeout sw \<and> sw_ack_timeout sw < sw_protocol_period sw);
     ensure (sw_protocol_period sw \<le> sw_suspicion_timeout sw);
     ensure (sw_protocol_period sw \<le> sw_reconnect_interval sw);
     ensure (sw_suspicion_timeout sw \<le> sw_tombstone_ttl sw)
   }"

definition node_new ::
  "config \<Rightarrow> swim_config \<Rightarrow> peer_id \<Rightarrow> address \<Rightarrow> u64 \<Rightarrow> node option" where
  "node_new c sw local addr seed = do {
     swim_validate sw;
     let apart = rng_new (NOT seed);
     let (epoch, apart') = next_u64 apart;
     let (seq, _) = next_u64 apart';
     members \<leftarrow> set_max (table_new local addr) DEFAULT_MAX_MEMBERS;
     lm \<leftarrow> limiter_new c;
     Some \<lparr>n_limiter = lm, n_members = members, n_gossip = gossip_new, n_swim = sw,
       n_rng = rng_new seed, n_seeds = [], n_order = [], n_next = 0, n_seq = ucast seq,
       n_probe = None, n_relays = [], n_next_round_at = 0, n_next_reconnect_at = 0,
       n_last_round = None, n_last_now = 0, n_actions = [], n_peer_demand = peer_demand_new,
       n_round_number = 0, n_epoch = ucast epoch, n_own_demand = [], n_policy = default_policy,
       n_sizes = history_new (hold_of default_policy), n_held_size = 0, n_quorum_size = 1,
       n_quorum_memory = DEFAULT_QUORUM_MEMORY, n_without_quorum_since = None,
       n_floored_until = 0, n_joined_at = None, n_expects_peers = False, n_last_heard = [],
       n_reported = [], n_behind = [], n_introducing = [], n_recent_shares = [], n_left = False,
       n_held = held_default, n_identity_conflicts = 0, n_last_refused_at = None\<rparr>
   }"

section \<open>The sizes the limit is shared over\<close>

definition node_cluster_size :: "node \<Rightarrow> nat" where
  "node_cluster_size s = table_cluster_size (n_members s)"

definition allocation_size :: "node \<Rightarrow> nat" where
  "allocation_size s = max (node_cluster_size s) (n_held_size s)"

definition refusing :: "node \<Rightarrow> nanos \<Rightarrow> bool" where
  "refusing s now = (case n_last_refused_at s of None \<Rightarrow> False
   | Some t \<Rightarrow> now < saturating_add t (sw_tombstone_ttl (n_swim s)))"

definition share_size :: "node \<Rightarrow> nat" where
  "share_size s =
     (let sz = allocation_size s in
      if refusing s (n_last_now s) then max sz (mt_max (n_members s)) else sz)"

definition counted_size :: "node \<Rightarrow> nat" where
  "counted_size s = share_size s"

section \<open>The cap\<close>

definition stale_nanos :: "node \<Rightarrow> nat \<Rightarrow> nanos" where
  "stale_nanos s sz = stale_after_rounds sz * sw_protocol_period (n_swim s)"

definition informed_since :: "node \<Rightarrow> nanos \<Rightarrow> nanos \<Rightarrow> bool" where
  "informed_since s since now =
     (since + stale_nanos s (allocation_size s) \<le> now \<or>
      list_all (\<lambda>peer. case om_get (n_last_heard s) peer of None \<Rightarrow> False | Some t \<Rightarrow> since < t)
        (mt_live (n_members s)))"

definition held_now :: "node \<Rightarrow> nanos \<Rightarrow> held" where
  "held_now s now =
     (let waiting = n_joined_at s = None \<and> (n_expects_peers s \<or> n_seeds s \<noteq> []) in
      \<lparr>hd_joining = waiting \<and> n_policy s \<noteq> Optimistic,
       hd_learning = \<not> waiting \<and> \<not> informed_since s (unwrap_or (n_joined_at s) 0) now,
       hd_without_quorum = n_policy s = Quorum \<and> now < n_floored_until s,
       hd_members_full = refusing s now\<rparr>)"

definition floor_of :: "node \<Rightarrow> nat \<Rightarrow> f64" where
  "floor_of s sz = c_floor_factor (lm_config (n_limiter s)) / f64_of_nat sz"

definition caps_of :: "node \<Rightarrow> held \<Rightarrow> f64 list" where
  "caps_of s h =
     (if hd_joining h then [floor_of s (1 + length (n_seeds s))] else []) @
     (if hd_learning h then [floor_of s (share_size s)] else []) @
     (if hd_without_quorum h then [floor_of s (n_quorum_size s)] else []) @
     (if hd_members_full h then [floor_of s (share_size s)] else [])"

fun reduce_min :: "f64 list \<Rightarrow> f64 option" where
  "reduce_min [] = None"
| "reduce_min (x # xs) = Some (foldl f64_min x xs)"

definition refresh_cap :: "node \<Rightarrow> nanos \<Rightarrow> node" where
  "refresh_cap s now =
     (let h = held_now s now
      in s\<lparr>n_limiter := set_cap (n_limiter s) (reduce_min (caps_of s h)), n_held := h\<rparr>)"

section \<open>Setting a node up\<close>

definition introduce :: "node \<Rightarrow> peer_id \<Rightarrow> address \<Rightarrow> node option" where
  "introduce s peer addr = do {
     ensure (peer \<noteq> mt_local (n_members s));
     let now = n_last_now s;
     (res, mt) \<leftarrow> table_apply (n_members s)
       \<lparr>u_member = peer, u_addr = addr, u_incarnation = 0, u_status = status.Alive\<rparr> now;
     let s1 = s\<lparr>n_members := mt\<rparr>;
     Some (if res = Refused then refresh_cap (s1\<lparr>n_last_refused_at := Some now\<rparr>) now else s1)
   }"

definition add_seed :: "node \<Rightarrow> peer_id \<Rightarrow> address \<Rightarrow> node option" where
  "add_seed s seed addr = do {
     ensure (seed \<noteq> mt_local (n_members s));
     let s1 = (if \<not> list_ex (\<lambda>(k, a). k = seed) (n_seeds s)
               then s\<lparr>n_seeds := n_seeds s @ [(seed, addr)]\<rparr> else s);
     Some (refresh_cap s1 (n_last_now s1))
   }"

definition expect_peers :: "node \<Rightarrow> bool \<Rightarrow> node" where
  "expect_peers s expected =
     (let s1 = s\<lparr>n_expects_peers := expected\<rparr> in refresh_cap s1 (n_last_now s1))"

definition remove_seed :: "node \<Rightarrow> peer_id \<Rightarrow> node" where
  "remove_seed s seed =
     (let s1 = s\<lparr>n_seeds := filter (\<lambda>(k, a). k \<noteq> seed) (n_seeds s)\<rparr>
      in refresh_cap s1 (n_last_now s1))"

definition set_partition_policy :: "node \<Rightarrow> partition_policy \<Rightarrow> node" where
  "set_partition_policy s policy =
     (let s1 = s\<lparr>n_policy := policy, n_sizes := history_new (hold_of policy), n_held_size := 0\<rparr>
      in refresh_cap s1 (n_last_now s1))"

definition set_quorum_memory :: "node \<Rightarrow> nanos \<Rightarrow> node" where
  "set_quorum_memory s memory = s\<lparr>n_quorum_memory := memory\<rparr>"

definition set_max_members :: "node \<Rightarrow> nat \<Rightarrow> node option" where
  "set_max_members s n = do {
     mt \<leftarrow> set_max (n_members s) n;
     Some (s\<lparr>n_members := mt\<rparr>)
   }"

section \<open>Queries\<close>

definition node_address :: "node \<Rightarrow> peer_id \<Rightarrow> address option" where
  "node_address s peer =
     (case table_address (n_members s) peer of
        Some a \<Rightarrow> Some a
      | None \<Rightarrow> map_option snd (List.find (\<lambda>(seed, a). seed = peer) (n_seeds s)))"

definition node_quota :: "node \<Rightarrow> u64 \<Rightarrow> quota option" where
  "node_quota s key = quota_of (n_limiter s) key"

definition new_key_quota_in :: "node \<Rightarrow> limit \<Rightarrow> quota option" where
  "new_key_quota_in s l = new_key_quota (n_limiter s) l (share_size s)"

definition node_new_key_factor :: "node \<Rightarrow> f64" where
  "node_new_key_factor s = new_key_factor (n_limiter s) (share_size s)"

definition awaiting_ack :: "node \<Rightarrow> peer_id option" where
  "awaiting_ack s = map_option pr_target (n_probe s)"

record footprint =
  fp_tracked_keys :: nat
  fp_hot_keys :: nat
  fp_peer_demand_keys :: nat
  fp_members :: nat
  fp_last_heard :: nat
  fp_gossip :: nat
  fp_reported_rounds :: nat
  fp_reported_keys :: nat
  fp_recent_shares :: nat
  fp_relays :: nat
  fp_probe_order :: nat

definition footprint_of :: "node \<Rightarrow> footprint" where
  "footprint_of s =
     \<lparr>fp_tracked_keys = tracked_keys (n_limiter s), fp_hot_keys = hot_keys (n_limiter s),
      fp_peer_demand_keys = reported_len (n_peer_demand s), fp_members = known (n_members s),
      fp_last_heard = length (n_last_heard s), fp_gossip = gossip_len (n_gossip s),
      fp_reported_rounds = length (n_reported s),
      fp_reported_keys = sum_list (map (length \<circ> snd) (n_reported s)),
      fp_recent_shares = length (n_recent_shares s), fp_relays = length (n_relays s),
      fp_probe_order = length (n_order s)\<rparr>"

section \<open>Time and requests\<close>

definition advance :: "node \<Rightarrow> nanos \<Rightarrow> node option" where
  "advance s now = do { ensure (n_last_now s \<le> now); Some (s\<lparr>n_last_now := now\<rparr>) }"

definition node_check_in :: "node \<Rightarrow> u64 \<Rightarrow> limit \<Rightarrow> nanos \<Rightarrow> (decision \<times> node) option" where
  "node_check_in s key l now = do {
     s1 \<leftarrow> advance s now;
     (d, lm) \<leftarrow> check_in (n_limiter s1) key l now (share_size s1);
     Some (d, s1\<lparr>n_limiter := lm\<rparr>)
   }"

definition node_check :: "node \<Rightarrow> u64 \<Rightarrow> nanos \<Rightarrow> (decision \<times> node) option" where
  "node_check s key now = node_check_in s key (c_limit (lm_config (n_limiter s))) now"

definition node_check_in_traced ::
  "node \<Rightarrow> u64 \<Rightarrow> limit \<Rightarrow> limit option \<Rightarrow> nanos \<Rightarrow> ((decision \<times> decision option) \<times> node) option" where
  "node_check_in_traced s key l shadow now = do {
     s1 \<leftarrow> advance s now;
     (d, lm) \<leftarrow> check_in_traced (n_limiter s1) key l shadow now (share_size s1);
     Some (d, s1\<lparr>n_limiter := lm\<rparr>)
   }"

definition node_record :: "node \<Rightarrow> u64 \<Rightarrow> tally \<Rightarrow> limit \<Rightarrow> nanos \<Rightarrow> node option" where
  "node_record s key ty l now = do {
     s1 \<leftarrow> advance s now;
     lm \<leftarrow> record_tally (n_limiter s1) key ty l now (share_size s1);
     Some (s1\<lparr>n_limiter := lm\<rparr>)
   }"

end
