(* ===== verification/Node.thy ===== *)
theory Node
  imports Node_State
begin

text \<open>
  \<open>rateguard-core/src/node.rs\<close>, second part: the protocol. \<open>handle\<close> takes a tick or
  a datagram and leaves the datagrams to send in \<open>n_actions\<close>; \<open>node_leave\<close> leaves
  the cluster. Each method of the source is one definition, from state to state.
\<close>

section \<open>Sending\<close>

definition send_msg :: "env \<Rightarrow> node \<Rightarrow> peer_id \<Rightarrow> message \<Rightarrow> node option" where
  "send_msg env s peer m =
     (case encode (e_to_allocvec env) m of
        Some (Inr bytes) \<Rightarrow> Some (s\<lparr>n_actions := n_actions s @ [SendTo peer bytes]\<rparr>)
      | _ \<Rightarrow> None)"

definition next_seq :: "node \<Rightarrow> u32 \<times> node" where
  "next_seq s = (let seq = n_seq s + 1 in (seq, s\<lparr>n_seq := seq\<rparr>))"

definition outgoing_demand :: "node \<Rightarrow> demand_report list" where
  "outgoing_demand s = [\<lparr>dr_origin = mt_local (n_members s), dr_epoch = n_epoch s,
     dr_round = n_round_number s, dr_keys = n_own_demand s\<rparr>]"

definition push_gossip :: "node \<Rightarrow> update \<Rightarrow> node option" where
  "push_gossip s u = do { (_, g) \<leftarrow> push_news (n_gossip s) u; Some (s\<lparr>n_gossip := g\<rparr>) }"

text \<open>The walk over the live members a newcomer is told of.\<close>

definition after_members :: "member_table \<Rightarrow> peer_id option \<Rightarrow> (peer_id \<times> member) list" where
  "after_members mt after = (case after of
     Some a \<Rightarrow> filter (\<lambda>(peer, m). a < peer) (mt_members mt) | None \<Rightarrow> mt_members mt)"

lemma next_live_after_decreases:
  assumes "next_live_after mt after = Some u"
  shows "length (after_members mt (Some (u_member u))) < length (after_members mt after)"
proof -
  obtain peer m rest where r: "filter (\<lambda>(peer, m). m_status m \<noteq> Dead) (after_members mt after) = (peer, m) # rest"
    and u: "u = member_update m peer"
    using assms by (auto simp: next_live_after_def after_members_def Let_def split: list.splits)
  have mem: "(peer, m) \<in> set (after_members mt after)"
  proof -
    have "(peer, m) \<in> set (filter (\<lambda>(peer, m). m_status m \<noteq> Dead) (after_members mt after))"
      using r by simp
    then show ?thesis by simp
  qed
  have "after_members mt (Some peer) = filter (\<lambda>(p, m). peer < p) (after_members mt after)"
    using mem by (auto simp: after_members_def split: option.splits intro: filter_cong)
  also have "length \<dots> < length (after_members mt after)"
    using mem by (intro length_filter_less) auto
  finally show ?thesis by (simp add: u member_update_def)
qed

function introduce_loop ::
  "member_table \<Rightarrow> peer_id \<Rightarrow> peer_id option \<Rightarrow> update list \<Rightarrow> update list \<times> peer_id option \<times> bool" where
  "introduce_loop mt dest latest updates =
     (if length updates < MAX_UPDATES then
        (case next_live_after mt latest of
           None \<Rightarrow> (updates, latest, True)
         | Some u \<Rightarrow>
             introduce_loop mt dest (Some (u_member u))
               (if u_member u \<noteq> dest \<and> list_all (\<lambda>v. u_member v \<noteq> u_member u) updates
                then updates @ [u] else updates))
      else (updates, latest, False))"
  by pat_completeness auto
termination
  by (relation "measure (\<lambda>(mt, dest, latest, updates). length (after_members mt latest))")
    (auto dest: next_live_after_decreases)

declare introduce_loop.simps [simp del]

definition outgoing :: "env \<Rightarrow> node \<Rightarrow> peer_id \<Rightarrow> (update list \<times> node) option" where
  "outgoing env s dest = do {
     own \<leftarrow> update_about (n_members s) (mt_local (n_members s));
     let accusation = (case update_about (n_members s) dest of
           None \<Rightarrow> None
         | Some u \<Rightarrow> if u_status u \<noteq> status.Alive \<or> om_has (n_behind s) dest then Some u else None);
     let room = MAX_UPDATES - 1 - (if accusation \<noteq> None then 1 else 0);
     lmt \<leftarrow> retransmit_limit (e_log10 env) (node_cluster_size s);
     (news, g) \<leftarrow> take_news (n_gossip s) room lmt;
     let s1 = s\<lparr>n_gossip := g\<rparr>;
     let updates1 = own # filter (\<lambda>u. u \<noteq> own) news;
     let updates2 = (case accusation of
           Some a \<Rightarrow> if a \<notin> set updates1 then updates1 @ [a] else updates1
         | None \<Rightarrow> updates1);
     Some (case om_get (n_introducing s1) dest of
        None \<Rightarrow> (updates2, s1)
      | Some start \<Rightarrow>
          let (updates3, latest, all_told) = introduce_loop (n_members s1) dest start updates2
          in (updates3, s1\<lparr>n_introducing :=
               (if all_told then om_del dest (n_introducing s1)
                else om_put dest latest (n_introducing s1))\<rparr>))
   }"

definition ping :: "env \<Rightarrow> node \<Rightarrow> peer_id \<Rightarrow> nanos \<Rightarrow> node option" where
  "ping env s target now = do {
     let (seq, s1) = next_seq s;
     let s2 = s1\<lparr>n_probe := Some \<lparr>pr_target = target, pr_seq = seq, pr_sent_at = now,
                                    pr_helpers = None\<rparr>\<rparr>;
     (updates, s3) \<leftarrow> outgoing env s2 target;
     send_msg env s3 target (Ping seq updates (outgoing_demand s3))
   }"

definition ack :: "env \<Rightarrow> node \<Rightarrow> peer_id \<Rightarrow> u32 \<Rightarrow> node option" where
  "ack env s dest seq = do {
     (updates, s1) \<leftarrow> outgoing env s dest;
     send_msg env s1 dest (Ack seq updates (outgoing_demand s1))
   }"

definition relay_ping :: "env \<Rightarrow> node \<Rightarrow> peer_id \<Rightarrow> u32 \<Rightarrow> peer_id \<Rightarrow> nanos \<Rightarrow> node option" where
  "relay_ping env s requester seq target now =
     (if target = mt_local (n_members s) then ack env s requester seq
      else do {
        let (own, s1) = next_seq s;
        let s2 = s1\<lparr>n_relays := om_put own \<lparr>re_requester = requester, re_seq = seq,
              re_target = target, re_expires_at = now + sw_protocol_period (n_swim s1)\<rparr> (n_relays s1)\<rparr>;
        (updates, s3) \<leftarrow> outgoing env s2 target;
        send_msg env s3 target (Ping own updates (outgoing_demand s3))
      })"

section \<open>The round\<close>

definition random_lost :: "node \<Rightarrow> peer_id option \<times> node" where
  "random_lost s =
     (let lost = dead_members (n_members s) @
            filter (\<lambda>seed. status_of (n_members s) seed = None) (map fst (n_seeds s))
      in if lost = [] then (None, s)
         else let (pick, r) = up_to (n_rng s) (of_nat (length lost) - 1)
              in (Some (lost ! unat pick), s\<lparr>n_rng := r\<rparr>))"

text \<open>\<open>take_live\<close>: the next peer of the probe order that is still live, from index \<open>next\<close> on.\<close>

fun take_live_from :: "peer_id list \<Rightarrow> peer_id list \<Rightarrow> nat \<Rightarrow> peer_id option \<times> nat" where
  "take_live_from live [] i = (None, i)"
| "take_live_from live (p # ps) i =
     (case binary_search live p of
        Inr _ \<Rightarrow> (Some p, Suc i)
      | Inl _ \<Rightarrow> take_live_from live ps (Suc i))"

definition take_live :: "node \<Rightarrow> peer_id option \<times> node" where
  "take_live s =
     (let (p, i) = take_live_from (mt_live (n_members s)) (drop (n_next s) (n_order s)) (n_next s)
      in (p, s\<lparr>n_next := i\<rparr>))"

definition next_target :: "node \<Rightarrow> peer_id option \<times> node" where
  "next_target s =
     (case take_live s of
        (Some p, s1) \<Rightarrow> (Some p, s1)
      | (None, s1) \<Rightarrow>
          let (order, r) = shuffle (n_rng s1) (mt_live (n_members s1))
          in take_live (s1\<lparr>n_order := order, n_rng := r, n_next := 0\<rparr>))"

definition insert_order :: "node \<Rightarrow> peer_id \<Rightarrow> node option" where
  "insert_order s peer = do {
     ensure (n_next s \<le> length (n_order s));
     if peer \<in> set (drop (n_next s) (n_order s)) then Some s
     else
       let (d, r) = up_to (n_rng s) (of_nat (length (n_order s) - n_next s))
       in Some (s\<lparr>n_order := insert_at (n_next s + unat d) peer (n_order s), n_rng := r\<rparr>)
   }"

fun follow_each :: "node \<Rightarrow> change list \<Rightarrow> nanos \<Rightarrow> node option" where
  "follow_each s [] now = Some s"
| "follow_each s (Joined p # cs) now = do { s1 \<leftarrow> insert_order s p; follow_each s1 cs now }"
| "follow_each s (Left p # cs) now =
     follow_each (s\<lparr>n_peer_demand :=
       (if has_departed (n_members s) p then forget_peer (n_peer_demand s) p
        else peer_leave (n_peer_demand s) p now (hold_of (n_policy s)))\<rparr>) cs now"

definition follow_changes :: "node \<Rightarrow> nanos \<Rightarrow> node option" where
  "follow_changes s now =
     (let (cs, mt) = table_drain (n_members s) in follow_each (s\<lparr>n_members := mt\<rparr>) cs now)"

definition known_for_quorum :: "node \<Rightarrow> nat" where
  "known_for_quorum s = node_cluster_size s +
     length (filter (\<lambda>p. \<not> has_departed (n_members s) p) (dead_members (n_members s)))"

definition alive_count :: "node \<Rightarrow> nat" where
  "alive_count s = 1 +
     length (filter (\<lambda>p. status_of (n_members s) p = Some status.Alive) (mt_live (n_members s)))"

text \<open>The majority test: whether there is one, the size it is counted against, since when there is none.\<close>

definition quorum_test :: "node \<Rightarrow> nanos \<Rightarrow> bool \<times> nat \<times> nanos option" where
  "quorum_test s now =
     (let alive = alive_count s; kn = known_for_quorum s; counted = max kn (n_quorum_size s) in
      if has_quorum alive counted then (True, counted, None)
      else
        let since = unwrap_or (n_without_quorum_since s) now in
        if n_quorum_memory s \<le> saturating_sub now since
        then (has_quorum alive kn, kn, Some since)
        else (False, counted, Some since))"

definition apply_policy :: "node \<Rightarrow> nanos \<Rightarrow> node option" where
  "apply_policy s now = do {
     let sz = node_cluster_size s;
     (held_size, sizes) \<leftarrow> record_size (n_sizes s) now sz;
     let s1 = s\<lparr>n_held_size := held_size, n_sizes := sizes\<rparr>;
     let s2 = (if 1 < sz \<and> n_joined_at s1 = None then s1\<lparr>n_joined_at := Some now\<rparr> else s1);
     let (quorum, counted, since) = quorum_test s2 now;
     let s3 = s2\<lparr>n_without_quorum_since := since,
                 n_quorum_size := (if quorum then known_for_quorum s2 else counted)\<rparr>;
     let s4 = (if n_policy s3 = Quorum \<and> \<not> quorum
               then s3\<lparr>n_floored_until := now + stale_nanos s3 counted\<rparr> else s3);
     Some (refresh_cap s4 now)
   }"

text \<open>The oldest of the peers' last messages; \<open>None\<close> with no peer or one never heard.\<close>

definition as_of :: "node \<Rightarrow> nanos option" where
  "as_of s =
     (let ts = map (om_get (n_last_heard s)) (mt_live (n_members s)) in
      if list_all (\<lambda>t. t \<noteq> None) ts then min_by (\<le>) (map the ts) else None)"

definition reported_demand :: "(nanos \<times> key_demand list) list \<Rightarrow> u64 \<Rightarrow> nanos \<Rightarrow> f64 option" where
  "reported_demand reported key t =
     (case List.find (\<lambda>(made, keys). made \<le> t) (rev reported) of
        None \<Rightarrow> None
      | Some (_, keys) \<Rightarrow>
          map_option (\<lambda>k. f64_of_f32 (kd_demand k)) (List.find (\<lambda>k. kd_key k = key) keys))"

definition informed_keys :: "node \<Rightarrow> nanos \<Rightarrow> u64 list" where
  "informed_keys s now =
     filter (\<lambda>key. informed_since s
        (max (unwrap_or (limiter_hot_since (n_limiter s) key) now) (unwrap_or (n_joined_at s) 0)) now)
       (map fst (hot_demand (n_limiter s)))"

text \<open>The share a hot key is computed at, before the delay on a rise.\<close>

definition raw_share ::
  "env \<Rightarrow> node \<Rightarrow> nat \<Rightarrow> bool \<Rightarrow> u64 list \<Rightarrow> nanos option \<Rightarrow> u64 \<Rightarrow> f64 \<Rightarrow> f64 \<Rightarrow> f64" where
  "raw_share env s cluster_size alone informed oldest key own l =
     (let beta = c_floor_factor (lm_config (n_limiter s)) in
      if \<not> alone \<and> key \<notin> set informed then l * beta / f64_of_nat cluster_size
      else
        let was = (case oldest of None \<Rightarrow> None | Some t \<Rightarrow> reported_demand (n_reported s) key t)
        in share \<lparr>v_limit = l, v_cluster_size = cluster_size, v_floor_factor = beta,
             v_own = (case was of None \<Rightarrow> own | Some w \<Rightarrow> f64_min own w),
             v_others = total (e_order env) (n_peer_demand s) key\<rparr>)"

text \<open>A share falls at once and rises only after \<open>RISE_DELAY_ROUNDS\<close> more rounds as high.\<close>

definition delayed_share ::
  "(u64, f64 list) omap \<Rightarrow> u64 \<Rightarrow> f64 \<Rightarrow> (u64, f64 list) omap \<Rightarrow> f64 \<times> (u64, f64 list) omap" where
  "delayed_share previous key sh recent =
     (let past = unwrap_or (om_get previous key) (replicate RISE_DELAY_ROUNDS sh)
      in (foldl f64_min sh past, om_put key (sh # take (RISE_DELAY_ROUNDS - 1) past) recent))"

definition apply_shares :: "env \<Rightarrow> node \<Rightarrow> nanos \<Rightarrow> node option" where
  "apply_shares env s now = do {
     let cluster_size = share_size s;
     let informed = informed_keys s now;
     let alone = informed_since s now now;
     let oldest = as_of s;
     (lm, recent) \<leftarrow> tick_with_shares (e_exp env) (e_order env) (n_limiter s) now cluster_size
        (hot_at_peers (n_peer_demand s))
        (\<lambda>recent key own l.
           delayed_share (n_recent_shares s) key
             (raw_share env s cluster_size alone informed oldest key own l) recent)
        [];
     Some (s\<lparr>n_limiter := lm, n_recent_shares := recent\<rparr>)
   }"

definition report_demand :: "node \<Rightarrow> nanos \<Rightarrow> node" where
  "report_demand s now =
     (let own = map (\<lambda>(key, rate, primary). \<lparr>kd_key = key, kd_demand = f32_of_f64 rate,
                     kd_primary = primary\<rparr>) (hot_demand (n_limiter s));
          kept = stale_nanos s (allocation_size s)
      in s\<lparr>n_round_number := n_round_number s + 1, n_own_demand := own,
           n_reported := dropWhile (\<lambda>(t, keys). t + kept < now) (n_reported s @ [(now, own)])\<rparr>)"

definition probe_target :: "node \<Rightarrow> nanos \<Rightarrow> peer_id option \<times> node" where
  "probe_target s now =
     (let fallback = (\<lambda>s1. case next_target s1 of
            (Some target, s2) \<Rightarrow> (Some target, s2)
          | (None, s2) \<Rightarrow> random_lost s2)
      in if n_next_reconnect_at s \<le> now then
           (case random_lost s of
              (Some lost, s1) \<Rightarrow>
                (Some lost, s1\<lparr>n_next_reconnect_at := now + sw_reconnect_interval (n_swim s1)\<rparr>)
            | (None, s1) \<Rightarrow> fallback s1)
         else fallback s)"

definition suspect_missed :: "node \<Rightarrow> nanos \<Rightarrow> node option" where
  "suspect_missed s now =
     (let s1 = s\<lparr>n_probe := None\<rparr> in
      case n_probe s of
        None \<Rightarrow> Some s1
      | Some missed \<Rightarrow> do {
          (suspicion, mt) \<leftarrow> suspect (n_members s1) (pr_target missed) now;
          let s2 = s1\<lparr>n_members := mt\<rparr>;
          case suspicion of None \<Rightarrow> Some s2 | Some u \<Rightarrow> push_gossip s2 u
        })"

definition protocol_round :: "env \<Rightarrow> node \<Rightarrow> nanos \<Rightarrow> node option" where
  "protocol_round env s now = do {
     let s1 = s\<lparr>n_next_round_at := now + sw_protocol_period (n_swim s), n_last_round := Some now\<rparr>;
     s2 \<leftarrow> suspect_missed s1 now;
     s3 \<leftarrow> apply_policy s2 now;
     s4 \<leftarrow> apply_shares env s3 now;
     s5 \<leftarrow> follow_changes (report_demand s4 now) now;
     let s6 = s5\<lparr>n_peer_demand := expire_reports (n_peer_demand s5) now
           (saturating_add (stale_nanos s5 (allocation_size s5)) (hold_of (n_policy s5)))\<rparr>;
     case probe_target s6 now of
       (Some target, s7) \<Rightarrow> ping env s7 target now
     | (None, s7) \<Rightarrow> Some s7
   }"

fun send_ping_reqs :: "env \<Rightarrow> node \<Rightarrow> u32 \<Rightarrow> peer_id \<Rightarrow> peer_id list \<Rightarrow> node option" where
  "send_ping_reqs env s seq target [] = Some s"
| "send_ping_reqs env s seq target (helper # hs) = do {
     (updates, s1) \<leftarrow> outgoing env s helper;
     s2 \<leftarrow> send_msg env s1 helper (PingReq seq target updates (outgoing_demand s1));
     send_ping_reqs env s2 seq target hs
   }"

definition escalate :: "env \<Rightarrow> node \<Rightarrow> nanos \<Rightarrow> node option" where
  "escalate env s now =
     (case n_probe s of
        None \<Rightarrow> Some s
      | Some pr \<Rightarrow>
          if pr_helpers pr \<noteq> None \<or> now < pr_sent_at pr + sw_ack_timeout (n_swim s) then Some s
          else
            let candidates = filter (\<lambda>p. p \<noteq> pr_target pr \<and>
                    status_of (n_members s) p = Some status.Alive) (mt_live (n_members s));
                (shuffled, r) = shuffle (n_rng s) candidates;
                helpers = take (sw_indirect_probes (n_swim s)) shuffled
            in do {
              s1 \<leftarrow> send_ping_reqs env (s\<lparr>n_rng := r\<rparr>) (pr_seq pr) (pr_target pr) helpers;
              Some (s1\<lparr>n_probe := map_option (\<lambda>p. p\<lparr>pr_helpers := Some helpers\<rparr>) (n_probe s1)\<rparr>)
            })"

section \<open>Receiving\<close>

definition learn :: "node \<Rightarrow> update \<Rightarrow> nanos \<Rightarrow> node option" where
  "learn s u now = do {
     (res, mt) \<leftarrow> table_apply (n_members s) u now;
     let s1 = s\<lparr>n_members := mt\<rparr>;
     case res of
       Ignored \<Rightarrow> Some s1
     | Refused \<Rightarrow>
         Some (if u_status u \<noteq> Dead then
                 let s2 = s1\<lparr>n_last_refused_at := Some now\<rparr>
                 in if \<not> hd_members_full (n_held s2) then refresh_cap s2 now else s2
               else s1)
     | Accepted _ \<Rightarrow> push_gossip s1 u
     | Refuted own \<Rightarrow>
         push_gossip (if u_status u = status.Alive
                      then s1\<lparr>n_identity_conflicts := n_identity_conflicts s1 + 1\<rparr> else s1) own
   }"

fun learn_all :: "node \<Rightarrow> update list \<Rightarrow> nanos \<Rightarrow> node option" where
  "learn_all s [] now = Some s"
| "learn_all s (u # us) now = do { s1 \<leftarrow> learn s u now; learn_all s1 us now }"

definition depart :: "node \<Rightarrow> peer_id \<Rightarrow> node" where
  "depart s peer =
     (let (departed, mt) = table_depart (n_members s) peer; s0 = s\<lparr>n_members := mt\<rparr> in
      if \<not> departed then s0
      else
        let s1 = s0\<lparr>n_behind := om_del peer (n_behind s0),
                    n_introducing := om_del peer (n_introducing s0),
                    n_peer_demand := forget_peer (n_peer_demand s0) peer,
                    n_last_heard := om_del peer (n_last_heard s0)\<rparr>;
            s2 = (case joined_at (n_members s1) peer of
                    Some since \<Rightarrow> s1\<lparr>n_sizes := forget_one (n_sizes s1) since\<rparr>
                  | None \<Rightarrow> s1)
        in s2\<lparr>n_quorum_size := max (n_quorum_size s2 - 1) (known_for_quorum s2)\<rparr>)"

definition report_of :: "peer_id \<Rightarrow> demand_report list \<Rightarrow> demand_report option" where
  "report_of pid rs = List.find (\<lambda>r. dr_origin r = pid) rs"

definition relay_ack :: "env \<Rightarrow> node \<Rightarrow> peer_id \<Rightarrow> u32 \<Rightarrow> demand_report list \<Rightarrow> node option" where
  "relay_ack env s sender seq rs =
     (case om_get (n_relays s) seq of
        Some r \<Rightarrow>
          if re_target r = sender then do {
            let s1 = s\<lparr>n_relays := om_del seq (n_relays s)\<rparr>;
            let theirs = filter (\<lambda>report. dr_origin report = sender) rs;
            (updates, s2) \<leftarrow> outgoing env s1 (re_requester r);
            send_msg env s2 (re_requester r) (Ack (re_seq r) updates theirs)
          } else Some s
      | None \<Rightarrow> Some s)"

definition acknowledged ::
  "env \<Rightarrow> node \<Rightarrow> peer_id \<Rightarrow> u32 \<Rightarrow> demand_report list \<Rightarrow> nanos \<Rightarrow> node option" where
  "acknowledged env s sender seq rs now =
     (case n_probe s of
        Some pr \<Rightarrow>
          let target = pr_target pr;
              by_helper = (case pr_helpers pr of None \<Rightarrow> False | Some hs \<Rightarrow> sender \<in> set hs)
          in if pr_seq pr = seq \<and> (sender = target \<or> by_helper) then
               let s1 = (if by_helper \<and> \<not> has_departed (n_members s) target then
                    (case report_of target rs of
                       Some r \<Rightarrow> s\<lparr>n_peer_demand := apply_report (n_peer_demand s) target r now\<rparr>
                     | None \<Rightarrow> s)
                  else s)
               in Some (s1\<lparr>n_probe := None\<rparr>)
             else relay_ack env s sender seq rs
      | None \<Rightarrow> relay_ack env s sender seq rs)"

definition valid_leave :: "peer_id \<Rightarrow> message \<Rightarrow> bool" where
  "valid_leave sender m = (case m of
     Leave us \<Rightarrow> (case us of [own] \<Rightarrow> u_member own = sender \<and> u_status own = Dead | _ \<Rightarrow> False)
   | _ \<Rightarrow> True)"

definition is_behind :: "node \<Rightarrow> peer_id \<Rightarrow> message \<Rightarrow> bool" where
  "is_behind s sender m =
     (case (updates_of m, update_about (n_members s) sender) of
        (own # _, Some h) \<Rightarrow>
          u_member own = sender \<and> u_status own = status.Alive \<and> u_status h = status.Alive \<and>
          u_incarnation own < u_incarnation h
      | _ \<Rightarrow> False)"

definition mark_behind :: "node \<Rightarrow> peer_id \<Rightarrow> message \<Rightarrow> node" where
  "mark_behind s sender m =
     s\<lparr>n_behind := (if is_behind s sender m then om_put sender () (n_behind s)
                     else om_del sender (n_behind s))\<rparr>"

definition is_live_status :: "status option \<Rightarrow> bool" where
  "is_live_status st = (st = Some status.Alive \<or> st = Some Suspect)"

text \<open>What a message tells of its sender: that it is new, when it was heard, its demand.\<close>

definition hear_sender :: "node \<Rightarrow> peer_id \<Rightarrow> bool \<Rightarrow> message \<Rightarrow> nanos \<Rightarrow> node" where
  "hear_sender s sender newcomer m now =
     (let s1 = (if newcomer \<and> status_of (n_members s) sender = Some status.Alive
                then s\<lparr>n_introducing := om_put sender None (n_introducing s)\<rparr> else s);
          s2 = (if status_of (n_members s1) sender \<noteq> None
                then s1\<lparr>n_last_heard := om_put sender now (n_last_heard s1)\<rparr> else s1)
      in if status_of (n_members s2) sender \<noteq> None \<and> \<not> has_departed (n_members s2) sender then
           (case report_of sender (demand_of m) of
              Some r \<Rightarrow> s2\<lparr>n_peer_demand := apply_report (n_peer_demand s2) sender r now\<rparr>
            | None \<Rightarrow> s2)
         else s2)"

definition answer :: "env \<Rightarrow> node \<Rightarrow> peer_id \<Rightarrow> message \<Rightarrow> nanos \<Rightarrow> node option" where
  "answer env s sender m now = (case m of
     Ping seq us ds \<Rightarrow> ack env s sender seq
   | Ack seq us ds \<Rightarrow> acknowledged env s sender seq ds now
   | PingReq seq target us ds \<Rightarrow> relay_ping env s sender seq target now
   | Leave us \<Rightarrow> None)"

definition receive :: "env \<Rightarrow> node \<Rightarrow> peer_id \<Rightarrow> bytes \<Rightarrow> nanos \<Rightarrow> node option" where
  "receive env s sender bytes now =
     (if sender = mt_local (n_members s) then Some s
      else case decode (e_take_from_bytes env) bytes of
        Inl _ \<Rightarrow> Some s
      | Inr m \<Rightarrow>
          if \<not> valid_leave sender m then Some s
          else
            let s1 = mark_behind s sender m;
                newcomer = \<not> is_live_status (status_of (n_members s1) sender)
            in do {
              s2 \<leftarrow> learn_all s1 (updates_of m) now;
              case m of
                Leave _ \<Rightarrow> Some (depart s2 sender)
              | _ \<Rightarrow> answer env (hear_sender s2 sender newcomer m now) sender m now
            })"

section \<open>Events\<close>

fun push_all :: "node \<Rightarrow> update list \<Rightarrow> node option" where
  "push_all s [] = Some s"
| "push_all s (u # us) = do { s1 \<leftarrow> push_gossip s u; push_all s1 us }"

definition tidy :: "node \<Rightarrow> nanos \<Rightarrow> node" where
  "tidy s now =
     (let s1 = s\<lparr>n_introducing := om_retain
            (\<lambda>p _. is_live_status (status_of (n_members s) p)) (n_introducing s)\<rparr>;
          (gone, mt) = forget_dead (n_members s1) now (sw_tombstone_ttl (n_swim s1));
          s2 = s1\<lparr>n_members := mt\<rparr>;
          s3 = (if 0 < gone then
                  s2\<lparr>n_last_heard := om_retain (\<lambda>p _. status_of mt p \<noteq> None) (n_last_heard s2),
                     n_behind := om_retain (\<lambda>p _. status_of mt p \<noteq> None) (n_behind s2)\<rparr>
                else s2)
      in s3\<lparr>n_relays := om_retain (\<lambda>_ r. now < re_expires_at r) (n_relays s3)\<rparr>)"

definition node_tick :: "env \<Rightarrow> node \<Rightarrow> nanos \<Rightarrow> node option" where
  "node_tick env s now = do {
     (dead, mt) \<leftarrow> expire_suspects (n_members s) now (sw_suspicion_timeout (n_swim s));
     s1 \<leftarrow> push_all (s\<lparr>n_members := mt\<rparr>) dead;
     let s2 = tidy s1 now;
     s3 \<leftarrow> (if n_next_round_at s2 \<le> now then protocol_round env s2 now else Some s2);
     escalate env s3 now
   }"

definition handle :: "env \<Rightarrow> node \<Rightarrow> event \<Rightarrow> nanos \<Rightarrow> node option" where
  "handle env s ev now = do {
     s1 \<leftarrow> advance s now;
     let s2 = s1\<lparr>n_actions := []\<rparr>;
     if n_left s2 then Some s2
     else case ev of
       Tick \<Rightarrow> node_tick env s2 now
     | MessageReceived sender bytes \<Rightarrow> receive env s2 sender bytes now
   }"

fun send_leaves :: "env \<Rightarrow> node \<Rightarrow> update \<Rightarrow> peer_id list \<Rightarrow> node option" where
  "send_leaves env s own [] = Some s"
| "send_leaves env s own (p # ps) = do {
     s1 \<leftarrow> send_msg env s p (Leave [own]);
     s2 \<leftarrow> send_msg env s1 p (Leave [own]);
     send_leaves env s2 own ps
   }"

definition node_leave :: "env \<Rightarrow> node \<Rightarrow> nanos \<Rightarrow> node option" where
  "node_leave env s now = do {
     s1 \<leftarrow> advance s now;
     let s2 = s1\<lparr>n_actions := []\<rparr>;
     if n_left s2 then Some s2
     else do {
       let s3 = s2\<lparr>n_left := True\<rparr>;
       own \<leftarrow> update_about (n_members s3) (mt_local (n_members s3));
       send_leaves env s3 (own\<lparr>u_status := Dead\<rparr>) (mt_live (n_members s3))
     }
   }"

end
