(* ===== verification/Guard.thy ===== *)
theory Guard
  imports Classes Key_Table Auth Node
begin

text \<open>
  The request path of the \<open>rateguard\<close> crate (\<open>rateguard/src/guard.rs\<close>): what a \<open>Guard\<close> and the background task
  share, the check of a request, and what a guard can be told and asked. A method is one step; \<open>now\<close> is the clock
  the code reads. The channels to the background task are left to the driver.
\<close>

section \<open>What a guard tells (\<open>stats.rs\<close>)\<close>

record rejected_datagrams =
  rj_unsigned :: u64
  rj_bad_tag :: u64
  rj_malformed :: u64
  rj_mismatched_records :: u64

definition rejected_none :: rejected_datagrams where
  "rejected_none = \<lparr>rj_unsigned = 0, rj_bad_tag = 0, rj_malformed = 0, rj_mismatched_records = 0\<rparr>"

record denied_key =
  dk_key_hash :: u64
  dk_denied_per_sec :: f64
  dk_requests_per_sec :: f64
  dk_shadow_denied_per_sec :: f64

record key_stats =
  kst_requests_per_sec :: f64
  kst_denied_per_sec :: f64
  kst_shadow_denied_per_sec :: f64
  kst_share :: f64
  kst_limit :: user_limit
  kst_shadow :: "user_limit option"

record stats =
  st_admitted :: u64
  st_denied :: u64
  st_overflowed :: u64
  st_cluster_size :: nat
  st_counted_size :: nat
  st_suspects :: nat
  st_tracked_keys :: nat
  st_hot_keys :: nat
  st_held :: held
  st_since_last_round :: "nanos option"
  st_running :: bool
  st_dry_run :: bool
  st_most_denied :: "denied_key list"
  st_most_shadow_denied :: "denied_key list"
  st_unknown_class :: u64
  st_shadow_denied :: u64
  st_gossip_auth :: gossip_auth
  st_rejected_datagrams :: rejected_datagrams
  st_identity_conflicts :: u64
  st_members_refused :: u64

record report =
  rp_stats :: stats
  rp_attempts :: u64
  rp_last_round :: "nanos option"

section \<open>What is shared\<close>

record shared =
  sh_table :: key_table
  sh_cluster_size :: nat
  sh_running :: bool
  sh_most_denied :: nat
  sh_dry_run :: bool
  sh_report :: report
  sh_classes :: classes
  sh_key_limits :: key_limits
  sh_fresh_factor :: f64
  sh_free_quota :: u64
  sh_auth :: auth
  sh_salt :: "bytes option"

definition fresh_quota :: "hashes \<Rightarrow> shared \<Rightarrow> u64 \<Rightarrow> u64 \<Rightarrow> (quota \<times> quota option) option" where
  "fresh_quota h sh class key =
     (let (l, shadow) =
        (if key_limits_is_empty (sh_key_limits sh) \<and> \<not> cl_has_shadows (sh_classes sh)
         then (class_limit_of (sh_classes sh) class, None)
         else class_limit_for h (sh_classes sh) (kl_table (sh_key_limits sh)) class key)
      in do {
        main \<leftarrow> per_second (l_rate l * sh_fresh_factor sh) (l_burst l);
        shadow' \<leftarrow> shadow_quota main l shadow;
        Some (main, shadow')
      })"

section \<open>The check\<close>

datatype user_decision = Allowed | Denied nanos

definition decision_at :: "decision \<Rightarrow> nanos \<Rightarrow> user_decision" where
  "decision_at d now = (case d of Allow \<Rightarrow> Allowed | Deny retry_at \<Rightarrow> Denied (saturating_sub retry_at now))"

record checked_request =
  ck_decision :: user_decision
  ck_shadow :: "user_decision option"

definition slot_set_quota :: "slot \<Rightarrow> quota \<Rightarrow> nanos \<Rightarrow> slot option" where
  "slot_set_quota s q now = do { g \<leftarrow> atomic_set_quota (sl_gcra s) q now; Some (s\<lparr>sl_gcra := g\<rparr>) }"

definition slot_set_shadow :: "slot \<Rightarrow> quota option \<Rightarrow> nanos \<Rightarrow> slot option" where
  "slot_set_shadow s q now = do { g \<leftarrow> shadow_set (sl_shadow s) q now; Some (s\<lparr>sl_shadow := g\<rparr>) }"

text \<open>The class written to the slot, and the attempt.\<close>

definition tell_class :: "slot_ref \<Rightarrow> u64 \<Rightarrow> slot \<Rightarrow> slot" where
  "tell_class r class s = count_attempt (if sl_class s \<noteq> class \<and> \<not> is_overflow r then s\<lparr>sl_class := class\<rparr> else s)"

text \<open>The quotas of a slot taken just now.\<close>

definition dress_slot :: "hashes \<Rightarrow> shared \<Rightarrow> u64 \<Rightarrow> u64 \<Rightarrow> nanos \<Rightarrow> slot \<Rightarrow> slot option" where
  "dress_slot h sh class key now s = do {
     (q, shadow) \<leftarrow> fresh_quota h sh class key;
     s1 \<leftarrow> slot_set_quota s q now;
     s2 \<leftarrow> slot_set_shadow s1 shadow now;
     if sl_key s2 \<noteq> key then do {
       free \<leftarrow> unpack (sh_free_quota sh);
       s3 \<leftarrow> slot_set_quota s2 free now;
       slot_set_shadow s3 None now
     } else Some s2
   }"

text \<open>The decisions of a slot.\<close>

definition decide :: "bool \<Rightarrow> nanos \<Rightarrow> slot \<Rightarrow> checked_request \<times> slot" where
  "decide dry_run now s =
     (let (d, g) = atomic_check (sl_gcra s) now;
          (shadow, sg) = shadow_check (sl_shadow s) now;
          s1 = s\<lparr>sl_gcra := g, sl_shadow := sg\<rparr>;
          s2 = (case shadow of Some (Deny _) \<Rightarrow> count_shadow_denial s1 | _ \<Rightarrow> s1);
          seen = map_option (\<lambda>d. decision_at d now) shadow
      in case d of
           Allow \<Rightarrow> (\<lparr>ck_decision = Allowed, ck_shadow = seen\<rparr>, s2)
         | Deny _ \<Rightarrow> (\<lparr>ck_decision = (if dry_run then Allowed else decision_at d now), ck_shadow = seen\<rparr>,
                     count_denial s2))"

definition check_hashed :: "hashes \<Rightarrow> shared \<Rightarrow> u64 \<Rightarrow> u64 \<Rightarrow> nanos \<Rightarrow> (checked_request \<times> shared) option" where
  "check_hashed h sh class key now = do {
     (r, taken, t) \<leftarrow> table_claim h (sh_table sh) key;
     let s1 = tell_class r class (slot_at t r);
     s2 \<leftarrow> (if taken then dress_slot h sh class key now s1 else Some s1);
     let (answer, s3) = decide (sh_dry_run sh) now s2;
     Some (answer, sh\<lparr>sh_table := set_slot t r s3\<rparr>)
   }"

definition guard_hash :: "hashes \<Rightarrow> shared \<Rightarrow> u64 \<Rightarrow> bytes \<Rightarrow> u64" where
  "guard_hash h sh class key = salted_hash_in h (sh_salt sh) class key"

definition guard_key_hash_in :: "hashes \<Rightarrow> shared \<Rightarrow> bytes \<Rightarrow> bytes \<Rightarrow> u64" where
  "guard_key_hash_in h sh class key = guard_hash h sh (class_hash h class) key"

definition guard_check_in_traced ::
  "hashes \<Rightarrow> shared \<Rightarrow> bytes \<Rightarrow> bytes \<Rightarrow> nanos \<Rightarrow> (checked_request \<times> shared) option" where
  "guard_check_in_traced h sh class key now =
     (let c = class_hash h class in check_hashed h sh c (guard_hash h sh c key) now)"

definition guard_check_in ::
  "hashes \<Rightarrow> shared \<Rightarrow> bytes \<Rightarrow> bytes \<Rightarrow> nanos \<Rightarrow> (user_decision \<times> shared) option" where
  "guard_check_in h sh class key now =
     map_option (\<lambda>(answer, sh'). (ck_decision answer, sh')) (guard_check_in_traced h sh class key now)"

definition guard_check_traced :: "hashes \<Rightarrow> shared \<Rightarrow> bytes \<Rightarrow> nanos \<Rightarrow> (checked_request \<times> shared) option" where
  "guard_check_traced h sh key now = check_hashed h sh 0 (guard_hash h sh 0 key) now"

definition guard_check :: "hashes \<Rightarrow> shared \<Rightarrow> bytes \<Rightarrow> nanos \<Rightarrow> (user_decision \<times> shared) option" where
  "guard_check h sh key now =
     map_option (\<lambda>(answer, sh'). (ck_decision answer, sh')) (check_hashed h sh 0 (guard_hash h sh 0 key) now)"

section \<open>What a guard can be asked\<close>

definition guard_stats :: "shared \<Rightarrow> nanos \<Rightarrow> stats" where
  "guard_stats sh now =
     (let rp = sh_report sh
      in (rp_stats rp)\<lparr>st_admitted := saturating_sub (rp_attempts rp) (st_denied (rp_stats rp)),
           st_since_last_round := map_option (\<lambda>round. saturating_sub now round) (rp_last_round rp),
           st_running := sh_running sh, st_dry_run := sh_dry_run sh, st_gossip_auth := au_mode (sh_auth sh)\<rparr>)"

definition guard_share_in :: "hashes \<Rightarrow> shared \<Rightarrow> bytes \<Rightarrow> bytes \<Rightarrow> f64 option option" where
  "guard_share_in h sh class key =
     (case table_find h (sh_table sh) (guard_key_hash_in h sh class key) of
        None \<Rightarrow> Some None
      | Some i \<Rightarrow> do { q \<leftarrow> slot_quota (sh_table sh) i; Some (Some (rate_per_sec q)) })"

text \<open>\<open>told\<close> is what the background task answered.\<close>

definition guard_key_stats ::
  "hashes \<Rightarrow> shared \<Rightarrow> bytes \<Rightarrow> bytes \<Rightarrow> key_rates option \<Rightarrow> key_stats option option" where
  "guard_key_stats h sh class key told = (case told of
     None \<Rightarrow> Some None
   | Some r \<Rightarrow> do {
       part \<leftarrow> guard_share_in h sh class key;
       Some (map_option (\<lambda>shr.
         let (l, shadow) = class_resolve_given h (cl_table (sh_classes sh)) (kl_table (sh_key_limits sh))
               (class_hash h class) (guard_key_hash_in h sh class key)
         in \<lparr>kst_requests_per_sec = requests_per_sec r, kst_denied_per_sec = denied_per_sec r,
             kst_shadow_denied_per_sec = shadow_denied_per_sec r, kst_share = shr, kst_limit = l,
             kst_shadow = shadow\<rparr>) part)
     })"

section \<open>What a guard can be told\<close>

definition on_classes :: "shared \<Rightarrow> 'a \<times> classes \<Rightarrow> 'a \<times> shared" where
  "on_classes sh r = (fst r, sh\<lparr>sh_classes := snd r\<rparr>)"

definition on_key_limits :: "shared \<Rightarrow> 'a \<times> key_limits \<Rightarrow> 'a \<times> shared" where
  "on_key_limits sh r = (fst r, sh\<lparr>sh_key_limits := snd r\<rparr>)"

definition guard_set_class ::
  "hashes \<Rightarrow> shared \<Rightarrow> bytes \<Rightarrow> user_limit \<Rightarrow> (guard_error + unit) \<times> shared" where
  "guard_set_class h sh name l = on_classes sh (classes_set h (sh_classes sh) name l)"

definition guard_remove_class :: "hashes \<Rightarrow> shared \<Rightarrow> bytes \<Rightarrow> bool \<times> shared" where
  "guard_remove_class h sh name = on_classes sh (classes_remove h (sh_classes sh) name)"

definition guard_set_limit :: "shared \<Rightarrow> user_limit \<Rightarrow> (guard_error + unit) \<times> shared" where
  "guard_set_limit sh l = on_classes sh (classes_set_default (sh_classes sh) l)"

definition guard_set_classes ::
  "hashes \<Rightarrow> shared \<Rightarrow> (bytes \<times> user_limit) list \<Rightarrow> (guard_error + unit) \<times> shared" where
  "guard_set_classes h sh cs = on_classes sh (classes_replace h (sh_classes sh) cs)"

definition guard_set_shadow ::
  "hashes \<Rightarrow> shared \<Rightarrow> bytes \<Rightarrow> user_limit option \<Rightarrow> (guard_error + unit) \<times> shared" where
  "guard_set_shadow h sh name l = on_classes sh (classes_set_shadow h (sh_classes sh) name l)"

definition guard_set_shadows ::
  "hashes \<Rightarrow> shared \<Rightarrow> (bytes \<times> user_limit) list \<Rightarrow> (guard_error + unit) \<times> shared" where
  "guard_set_shadows h sh ss = on_classes sh (classes_replace_shadows h (sh_classes sh) ss)"

definition guard_set_key_limit ::
  "hashes \<Rightarrow> shared \<Rightarrow> bytes \<Rightarrow> bytes \<Rightarrow> key_limit \<Rightarrow> (guard_error + unit) \<times> shared" where
  "guard_set_key_limit h sh class key l =
     on_key_limits sh (key_limits_set (sh_key_limits sh) (guard_key_hash_in h sh class key) (class, key, l))"

definition guard_remove_key_limit :: "hashes \<Rightarrow> shared \<Rightarrow> bytes \<Rightarrow> bytes \<Rightarrow> bool \<times> shared" where
  "guard_remove_key_limit h sh class key =
     on_key_limits sh (key_limits_remove (sh_key_limits sh) (guard_key_hash_in h sh class key))"

definition guard_set_key_limits ::
  "hashes \<Rightarrow> shared \<Rightarrow> (bytes \<times> bytes \<times> key_limit) list \<Rightarrow> (guard_error + unit) \<times> shared" where
  "guard_set_key_limits h sh limits = on_key_limits sh (key_limits_replace (sh_key_limits sh)
     (map (\<lambda>(class, key, l). (guard_key_hash_in h sh class key, (class, key, l))) limits))"

definition guard_set_dry_run :: "shared \<Rightarrow> bool \<Rightarrow> shared" where
  "guard_set_dry_run sh on = sh\<lparr>sh_dry_run := on\<rparr>"

definition guard_set_gossip_auth :: "shared \<Rightarrow> gossip_auth \<Rightarrow> secret list \<Rightarrow> (guard_error + unit) \<times> shared" where
  "guard_set_gossip_auth sh mode secrets = (case auth_new mode secrets of
     Inl err \<Rightarrow> (Inl (GossipAuth err), sh)
   | Inr a \<Rightarrow> (Inr (), sh\<lparr>sh_auth := a\<rparr>))"

end
