(* ===== verification/Driver.thy ===== *)
theory Driver
  imports Guard
begin

text \<open>
  The background task of the \<open>rateguard\<close> crate (\<open>rateguard/src/driver.rs\<close>): what it does with a datagram, at a tick,
  with the addresses the names among the seeds resolve to, and when the node leaves. One branch of the loop of \<open>run\<close>
  is one step. The transport is what it is handed and what it hands back; a send that hangs loses its datagram.
\<close>

section \<open>Screening\<close>

record screened =
  sc_from :: peer_id
  sc_bytes :: bytes
  sc_dropped :: u64

definition own_id :: "hashes \<Rightarrow> update \<Rightarrow> bool" where
  "own_id h u = (u_member u = peer_id_of h (u_addr u))"

fun with_updates :: "message \<Rightarrow> update list \<Rightarrow> message" where
  "with_updates (Ping seq updates demand) us = Ping seq us demand"
| "with_updates (Ack seq updates demand) us = Ack seq us demand"
| "with_updates (PingReq seq target updates demand) us = PingReq seq target us demand"
| "with_updates (Leave updates) us = Leave us"

definition screen :: "hashes \<Rightarrow> env \<Rightarrow> bytes \<Rightarrow> screened option option" where
  "screen h env bytes = (case decode (e_take_from_bytes env) bytes of
     Inl _ \<Rightarrow> Some None
   | Inr m \<Rightarrow> (case updates_of m of
       [] \<Rightarrow> Some None
     | opening # _ \<Rightarrow>
         if \<not> own_id h opening then Some None
         else let from = u_member opening in
           if list_all (own_id h) (updates_of m)
           then Some (Some \<lparr>sc_from = from, sc_bytes = bytes, sc_dropped = 0\<rparr>)
           else
             let kept = filter (own_id h) (updates_of m);
                 dropped = of_nat (length (updates_of m) - length kept)
             in do {
               encoded \<leftarrow> encode (e_to_allocvec env) (with_updates m kept);
               Some (case encoded of Inl _ \<Rightarrow> None
                 | Inr bs \<Rightarrow> Some \<lparr>sc_from = from, sc_bytes = bs, sc_dropped = dropped\<rparr>)
             }))"

section \<open>A datagram\<close>

definition driver_receive ::
  "(secret \<Rightarrow> bytes \<Rightarrow> bytes) \<Rightarrow> hashes \<Rightarrow> env \<Rightarrow> node \<Rightarrow> auth \<Rightarrow> bytes \<Rightarrow> nanos \<Rightarrow> rejected_datagrams \<Rightarrow>
   (action list \<times> node \<times> rejected_datagrams) option" where
  "driver_receive hmac h env node a datagram now rj = (case open_frame hmac a datagram of
     Inl Unsigned \<Rightarrow> Some ([], node, rj\<lparr>rj_unsigned := rj_unsigned rj + 1\<rparr>)
   | Inl BadTag \<Rightarrow> Some ([], node, rj\<lparr>rj_bad_tag := rj_bad_tag rj + 1\<rparr>)
   | Inl Malformed \<Rightarrow> Some ([], node, rj\<lparr>rj_malformed := rj_malformed rj + 1\<rparr>)
   | Inr message \<Rightarrow> do {
       result \<leftarrow> screen h env message;
       case result of
         Some sc \<Rightarrow> do {
           node' \<leftarrow> handle env node (MessageReceived (sc_from sc) (sc_bytes sc)) now;
           Some (n_actions node', node', rj\<lparr>rj_mismatched_records := rj_mismatched_records rj + sc_dropped sc\<rparr>)
         }
       | None \<Rightarrow> Some ([], node, rj\<lparr>rj_malformed := rj_malformed rj + 1\<rparr>)
     })"

text \<open>What is handed to the transport, if nothing hangs.\<close>

definition driver_send ::
  "(secret \<Rightarrow> bytes \<Rightarrow> bytes) \<Rightarrow> node \<Rightarrow> action list \<Rightarrow> auth \<Rightarrow> (socket_addr \<times> bytes) list" where
  "driver_send hmac node actions a = concat (map (\<lambda>action. case action of
     SendTo peer bytes \<Rightarrow> (case node_address node peer of
         Some addr \<Rightarrow> [(socket_of_address addr, seal hmac a bytes)]
       | None \<Rightarrow> [])) actions)"

section \<open>Seeds given by name\<close>

definition ALONE_AFTER :: u32 where "ALONE_AFTER = 3"

type_synonym found = "socket_addr list option list"

record names =
  nm_local :: peer_id
  nm_last :: "socket_addr list list"
  nm_kept :: "(peer_id, unit) omap"
  nm_added :: "(peer_id, unit) omap"
  nm_alone :: u32

definition names_new :: "peer_id \<Rightarrow> names" where
  "names_new local = \<lparr>nm_local = local, nm_last = [], nm_kept = [], nm_added = [], nm_alone = 0\<rparr>"

definition names_keep :: "names \<Rightarrow> peer_id \<Rightarrow> names" where
  "names_keep nm seed = nm\<lparr>nm_kept := om_put seed () (nm_kept nm)\<rparr>"

definition only_me :: "hashes \<Rightarrow> names \<Rightarrow> found \<Rightarrow> bool" where
  "only_me h nm found =
     (list_all (\<lambda>f. case f of None \<Rightarrow> False
        | Some addrs \<Rightarrow> list_all (\<lambda>a. peer_id_of h (address_of_socket a) = nm_local nm) addrs) found \<and>
      list_ex (\<lambda>f. case f of None \<Rightarrow> False | Some addrs \<Rightarrow> addrs \<noteq> []) found)"

fun keep_last :: "socket_addr list list \<Rightarrow> found \<Rightarrow> socket_addr list list" where
  "keep_last (old # olds) (Some new # found) = new # keep_last olds found"
| "keep_last (old # olds) (None # found) = old # keep_last olds found"
| "keep_last olds _ = olds"

fun add_current ::
  "hashes \<Rightarrow> names \<Rightarrow> socket_addr list \<Rightarrow> (peer_id, unit) omap \<Rightarrow> node \<Rightarrow> ((peer_id, unit) omap \<times> node) option" where
  "add_current h nm [] current node = Some (current, node)"
| "add_current h nm (a # as) current node =
     (let addr = address_of_socket a; seed = peer_id_of h addr in
      if seed = nm_local nm \<or> om_has (nm_kept nm) seed then add_current h nm as current node
      else if \<not> om_has current seed \<and> \<not> om_has (nm_added nm) seed then do {
        node' \<leftarrow> add_seed node seed addr;
        add_current h nm as (om_put seed () current) node'
      }
      else add_current h nm as (om_put seed () current) node)"

definition names_update :: "hashes \<Rightarrow> names \<Rightarrow> node \<Rightarrow> found \<Rightarrow> (names \<times> node) option" where
  "names_update h nm node found =
     (let alone = (if only_me h nm found then saturating_add (nm_alone nm) 1 else 0);
          node1 = (if alone = ALONE_AFTER then expect_peers node False else node);
          resized = take (length found) (nm_last nm @ replicate (length found - length (nm_last nm)) []);
          lst = keep_last resized found
      in do {
        (current, node2) \<leftarrow> add_current h nm (concat lst) [] node1;
        let gone = filter (\<lambda>seed. \<not> om_has current seed) (om_keys (nm_added nm));
        Some (nm\<lparr>nm_alone := alone, nm_last := lst, nm_added := current\<rparr>, foldl remove_seed node2 gone)
      })"

text \<open>
  One round of \<open>resolve\<close>, the task that looks the names up: the lookups as they finish, with the index of their name, \<open>None\<close>
  for one whose task was lost; a lookup that failed or timed out finishes with \<open>None\<close>. And how long until the next round.
\<close>

definition RESOLVE_EVERY :: nanos where "RESOLVE_EVERY = 30 * 1000000000"

definition resolve_round :: "nat \<Rightarrow> (nat \<times> socket_addr list option) option list \<Rightarrow> found" where
  "resolve_round n finished =
     foldl (\<lambda>all fin. case fin of None \<Rightarrow> all | Some (i, addrs) \<Rightarrow> all[i := addrs]) (replicate n None) finished"

definition resolve_wait :: "nat \<Rightarrow> nanos \<Rightarrow> nanos" where
  "resolve_wait cluster retry = (if cluster \<le> 1 then retry else RESOLVE_EVERY)"

section \<open>The slots\<close>

text \<open>\<open>for_each\<close> and \<open>for_each_free\<close> with a closure that changes the slot it is given.\<close>

fun visit_taken :: "(u64 \<Rightarrow> slot \<Rightarrow> 's \<Rightarrow> (slot \<times> 's) option) \<Rightarrow> slot list \<Rightarrow> 's \<Rightarrow> (slot list \<times> 's) option" where
  "visit_taken f [] x = Some ([], x)"
| "visit_taken f (s # ss) x = do {
     (s', x') \<leftarrow> (if sl_key s \<noteq> EMPTY \<and> sl_key s \<noteq> BUSY then f (sl_key s) s x else Some (s, x));
     (ss', x'') \<leftarrow> visit_taken f ss x';
     Some (s' # ss', x'')
   }"

fun visit_free :: "(slot \<Rightarrow> slot option) \<Rightarrow> slot list \<Rightarrow> slot list option" where
  "visit_free f [] = Some []"
| "visit_free f (s # ss) = do {
     s' \<leftarrow> (if sl_key s = EMPTY then f s else Some s);
     ss' \<leftarrow> visit_free f ss;
     Some (s' # ss')
   }"

definition slot_set_both :: "slot \<Rightarrow> quota \<Rightarrow> quota option \<Rightarrow> nanos \<Rightarrow> slot option" where
  "slot_set_both s q shadow now = do { s1 \<leftarrow> slot_set_quota s q now; slot_set_shadow s1 shadow now }"

text \<open>\<open>release\<close> of the slot a visit is at.\<close>

definition slot_release :: "slot \<Rightarrow> u64 \<Rightarrow> quota \<Rightarrow> slot option" where
  "slot_release s key q =
     (if sl_key s \<noteq> key then Some s
      else do {
        g \<leftarrow> atomic_reset (sl_gcra s) q;
        Some (s\<lparr>sl_gcra := g, sl_shadow := shadow_reset (sl_shadow s), sl_counts := 0,
          sl_shadow_denials := 0, sl_class := 0, sl_key := EMPTY\<rparr>)
      })"

text \<open>All slots at one quota that are free, and the overflow slot.\<close>

definition set_rest :: "key_table \<Rightarrow> quota \<Rightarrow> nanos \<Rightarrow> key_table option" where
  "set_rest t q now = do {
     slots \<leftarrow> visit_free (\<lambda>s. slot_set_quota s q now) (kt_slots t);
     overflow \<leftarrow> slot_set_quota (kt_overflow t) q now;
     Some (t\<lparr>kt_slots := slots, kt_overflow := overflow\<rparr>)
   }"

section \<open>The floor\<close>

definition floor_quota :: "config \<Rightarrow> nat \<Rightarrow> limit \<Rightarrow> quota option" where
  "floor_quota c n l = per_second (l_rate l * c_floor_factor c / f64_of_nat n) (l_burst l)"

definition hold_at_floor :: "hashes \<Rightarrow> shared \<Rightarrow> config \<Rightarrow> nanos \<Rightarrow> shared option" where
  "hold_at_floor h sh c now =
     (let n = max (sh_cluster_size sh) 1;
          table = cl_table (sh_classes sh);
          overrides = kl_table (sh_key_limits sh)
      in do {
        least \<leftarrow> floor_quota c n (strictest table);
        packed \<leftarrow> pack least;
        let t = sh_table sh;
        (slots, _) \<leftarrow> visit_taken (\<lambda>key s u. do {
            let r = class_resolve h table overrides (sl_class s) key;
            q \<leftarrow> floor_quota c n (rs_limit r);
            shadow \<leftarrow> shadow_quota q (rs_limit r) (rs_shadow r);
            s' \<leftarrow> slot_set_both s q shadow now;
            Some (s', u)
          }) (kt_slots t) ();
        t' \<leftarrow> set_rest (t\<lparr>kt_slots := slots\<rparr>) least now;
        Some (sh\<lparr>sh_fresh_factor := c_floor_factor c / f64_of_nat n, sh_free_quota := packed, sh_table := t'\<rparr>)
      })"

section \<open>A tick\<close>

record counts =
  cn_attempts :: u64
  cn_denied :: u64
  cn_overflowed :: u64
  cn_unknown_class :: u64
  cn_shadow_denied :: u64
  cn_rejected :: rejected_datagrams

definition collect_slot ::
  "hashes \<Rightarrow> shared \<Rightarrow> nanos \<Rightarrow> u64 \<Rightarrow> slot \<Rightarrow> node \<times> counts \<Rightarrow> (slot \<times> node \<times> counts) option" where
  "collect_slot h sh now key s = (\<lambda>(node, cn).
     let (ty, s') = take_counts s;
         r = class_resolve h (cl_table (sh_classes sh)) (kl_table (sh_key_limits sh)) (sl_class s) key
     in do {
       node' \<leftarrow> (if 0 < t_attempts ty \<or>
             (case limit_of (n_limiter node) key of None \<Rightarrow> False | Some l \<Rightarrow> l \<noteq> rs_limit r)
           then node_record node key ty (rs_limit r) now else Some node);
       Some (s', node', cn\<lparr>cn_attempts := cn_attempts cn + t_attempts ty, cn_denied := cn_denied cn + t_denials ty,
         cn_shadow_denied := cn_shadow_denied cn + t_shadow_denials ty,
         cn_unknown_class := cn_unknown_class cn + (if rs_known r then 0 else t_attempts ty)\<rparr>)
     })"

definition listed :: "(u64 \<times> key_rates) list \<Rightarrow> denied_key list" where
  "listed = map (\<lambda>(key, r). \<lparr>dk_key_hash = key, dk_denied_per_sec = denied_per_sec r,
     dk_requests_per_sec = requests_per_sec r, dk_shadow_denied_per_sec = shadow_denied_per_sec r\<rparr>)"

definition driver_report :: "env \<Rightarrow> node \<Rightarrow> shared \<Rightarrow> counts \<Rightarrow> shared" where
  "driver_report env node sh cn =
     (let rp = sh_report sh; st = rp_stats rp; rj = st_rejected_datagrams st; new = cn_rejected cn;
          mt = n_members node
      in sh\<lparr>sh_report := rp\<lparr>rp_attempts := rp_attempts rp + cn_attempts cn, rp_last_round := n_last_round node,
         rp_stats := st\<lparr>st_denied := st_denied st + cn_denied cn,
           st_overflowed := st_overflowed st + cn_overflowed cn,
           st_unknown_class := st_unknown_class st + cn_unknown_class cn,
           st_shadow_denied := st_shadow_denied st + cn_shadow_denied cn,
           st_rejected_datagrams := \<lparr>rj_unsigned = rj_unsigned rj + rj_unsigned new,
             rj_bad_tag = rj_bad_tag rj + rj_bad_tag new, rj_malformed = rj_malformed rj + rj_malformed new,
             rj_mismatched_records = rj_mismatched_records rj + rj_mismatched_records new\<rparr>,
           st_most_denied := listed (most_denied (e_exp env) (n_limiter node) (sh_most_denied sh)),
           st_most_shadow_denied := listed (most_shadow_denied (e_exp env) (n_limiter node) (sh_most_denied sh)),
           st_cluster_size := node_cluster_size node, st_counted_size := counted_size node,
           st_suspects := length (filter (\<lambda>peer. status_of mt peer = Some status.Suspect) (mt_live mt)),
           st_tracked_keys := tracked_keys (n_limiter node), st_hot_keys := hot_keys (n_limiter node),
           st_held := n_held node, st_identity_conflicts := n_identity_conflicts node,
           st_members_refused := mt_refused mt\<rparr>\<rparr>\<rparr>)"

text \<open>The quotas of the core, or the slot freed, or the quota of a new key of its class.\<close>

definition settle_slot ::
  "hashes \<Rightarrow> shared \<Rightarrow> node \<Rightarrow> quota \<Rightarrow> nanos \<Rightarrow> u64 \<Rightarrow> slot \<Rightarrow> slot option" where
  "settle_slot h sh node new_key now key s =
     (let table = cl_table (sh_classes sh);
          r = class_resolve h table (kl_table (sh_key_limits sh)) (sl_class s) key
      in case node_quota node key of
           Some q \<Rightarrow> do {
             shadow \<leftarrow> (if table_has_shadows table then shadow_quota q (rs_limit r) (rs_shadow r) else Some None);
             slot_set_both s q shadow now
           }
         | None \<Rightarrow>
             if \<not> atomic_has_debt (sl_gcra s) now \<and> \<not> has_counts s then slot_release s key new_key
             else do {
               q \<leftarrow> new_key_quota_in node (rs_limit r);
               shadow \<leftarrow> shadow_quota q (rs_limit r) (rs_shadow r);
               slot_set_both s q shadow now
             })"

definition driver_sync ::
  "hashes \<Rightarrow> env \<Rightarrow> node \<Rightarrow> shared \<Rightarrow> rejected_datagrams \<Rightarrow> nanos \<Rightarrow> (action list \<times> node \<times> shared) option" where
  "driver_sync h env node sh rj now =
     (let t = sh_table sh;
          cn = \<lparr>cn_attempts = 0, cn_denied = 0, cn_overflowed = 0, cn_unknown_class = 0, cn_shadow_denied = 0,
            cn_rejected = rj\<rparr>
      in do {
        (slots, node1, cn1) \<leftarrow> visit_taken (collect_slot h sh now) (kt_slots t) (node, cn);
        let (over, overflow) = take_counts (kt_overflow t);
        let cn2 = cn1\<lparr>cn_attempts := cn_attempts cn1 + t_attempts over, cn_denied := cn_denied cn1 + t_denials over,
          cn_overflowed := t_attempts over\<rparr>;
        node2 \<leftarrow> handle env node1 Tick now;
        let sh1 = driver_report env node2 sh cn2;
        new_key \<leftarrow> new_key_quota_in node2 (strictest (cl_table (sh_classes sh)));
        packed \<leftarrow> pack new_key;
        (slots', _) \<leftarrow> visit_taken (\<lambda>key s u. map_option (\<lambda>s'. (s', u)) (settle_slot h sh node2 new_key now key s)) slots ();
        t' \<leftarrow> set_rest (t\<lparr>kt_slots := slots', kt_overflow := overflow\<rparr>) new_key now;
        Some (n_actions node2, node2, sh1\<lparr>sh_fresh_factor := node_new_key_factor node2, sh_free_quota := packed,
          sh_table := t', sh_cluster_size := node_cluster_size node2\<rparr>)
      })"

section \<open>The loop\<close>

text \<open>
  The task and what it shares with the guards. \<open>dv_auth\<close> is the task's own: the secrets and mode it read last, kept for
  leaving, when there may be no guard left to read them from. A step is one pass of the loop while there is a guard.
\<close>

record driver =
  dv_node :: node
  dv_names :: names
  dv_shared :: shared
  dv_rejected :: rejected_datagrams
  dv_auth :: auth

datatype driver_event =
    Datagram bytes
  | ReceiveFailed
  | TickDue
  | LookedUp found
  | Asked u64

fun driver_event_step ::
  "(secret \<Rightarrow> bytes \<Rightarrow> bytes) \<Rightarrow> hashes \<Rightarrow> env \<Rightarrow> driver \<Rightarrow> driver_event \<Rightarrow> nanos \<Rightarrow> (action list \<times> driver) option" where
  "driver_event_step hmac h env dv (Datagram bytes) now = do {
     (actions, node, rj) \<leftarrow> driver_receive hmac h env (dv_node dv) (sh_auth (dv_shared dv)) bytes now (dv_rejected dv);
     Some (actions, dv\<lparr>dv_node := node, dv_rejected := rj\<rparr>)
   }"
| "driver_event_step hmac h env dv ReceiveFailed now = Some ([], dv)"
| "driver_event_step hmac h env dv TickDue now = do {
     (actions, node, sh) \<leftarrow> driver_sync h env (dv_node dv) (dv_shared dv) (dv_rejected dv) now;
     Some (actions, dv\<lparr>dv_node := node, dv_shared := sh, dv_rejected := rejected_none\<rparr>)
   }"
| "driver_event_step hmac h env dv (LookedUp found) now = do {
     (nm, node) \<leftarrow> names_update h (dv_names dv) (dv_node dv) found;
     Some ([], dv\<lparr>dv_names := nm, dv_node := node\<rparr>)
   }"
| "driver_event_step hmac h env dv (Asked hash) now = Some ([], dv)"

text \<open>The secrets and mode are read again after each event, before anything is sent.\<close>

definition driver_step ::
  "(secret \<Rightarrow> bytes \<Rightarrow> bytes) \<Rightarrow> hashes \<Rightarrow> env \<Rightarrow> driver \<Rightarrow> driver_event \<Rightarrow> nanos \<Rightarrow>
   ((socket_addr \<times> bytes) list \<times> driver) option" where
  "driver_step hmac h env dv ev now = do {
     (actions, dv') \<leftarrow> driver_event_step hmac h env dv ev now;
     let a = sh_auth (dv_shared dv');
     Some (driver_send hmac (dv_node dv') actions a, dv'\<lparr>dv_auth := a\<rparr>)
   }"

text \<open>The answer to \<open>Asked\<close>.\<close>

definition driver_answer :: "env \<Rightarrow> driver \<Rightarrow> u64 \<Rightarrow> key_rates option" where
  "driver_answer env dv key = key_rates_of (e_exp env) (n_limiter (dv_node dv)) key"

text \<open>
  The end. If a guard is still there, its quotas drop to the floor and it is told to run no longer; then the node leaves,
  and its peers are told under the secrets last read. With each datagram goes the state a check finds when it is sent.
  \<open>later\<close> is the clock read for leaving.
\<close>

definition driver_leave ::
  "(secret \<Rightarrow> bytes \<Rightarrow> bytes) \<Rightarrow> hashes \<Rightarrow> env \<Rightarrow> driver \<Rightarrow> bool \<Rightarrow> nanos \<Rightarrow> nanos \<Rightarrow>
   ((shared \<times> socket_addr \<times> bytes) list \<times> driver) option" where
  "driver_leave hmac h env dv guard_there now later = do {
     dv1 \<leftarrow> (if guard_there then do {
         sh \<leftarrow> hold_at_floor h (dv_shared dv) (lm_config (n_limiter (dv_node dv))) now;
         Some (dv\<lparr>dv_shared := sh\<lparr>sh_running := False\<rparr>\<rparr>)
       } else Some dv);
     node \<leftarrow> node_leave env (dv_node dv1) later;
     let dv2 = dv1\<lparr>dv_node := node\<rparr>;
     Some (map (Pair (dv_shared dv2)) (driver_send hmac node (n_actions node) (dv_auth dv2)), dv2)
   }"

text \<open>What is left of the guard if the background task panicked.\<close>

definition driver_watch :: "hashes \<Rightarrow> shared \<Rightarrow> config \<Rightarrow> bool \<Rightarrow> nanos \<Rightarrow> shared option" where
  "driver_watch h sh c panicked now =
     (if panicked then do { sh' \<leftarrow> hold_at_floor h sh c now; Some (sh'\<lparr>sh_running := False\<rparr>) }
      else Some (sh\<lparr>sh_running := False\<rparr>))"

end
