(* ===== verification/Builder.thy ===== *)
theory Builder
  imports Socket_Text Driver
begin

text \<open>
  How a node is configured and started (\<open>rateguard/src/config.rs\<close>): what a builder was told, the checks that make it
  settings, and what \<open>start\<close> builds of them, the guard's shared state and the background task about to run. What the
  operating system and tokio answer is the record \<open>surroundings\<close>. A \<open>Duration\<close> is its nanoseconds.
\<close>

type_synonym duration = nat

definition ALPHA :: f64 where "ALPHA = f64_of_rat (1 / 2)"
definition BETA :: f64 where "BETA = f64_of_rat (1 / 20)"
definition ONE_SECOND :: nanos where "ONE_SECOND = 1000000000"
definition MAX_TRACKED_KEYS :: nat where "MAX_TRACKED_KEYS = 1048576"
definition MAX_MOST_DENIED :: nat where "MAX_MOST_DENIED = 1024"
definition MAX_MAX_MEMBERS :: nat where "MAX_MAX_MEMBERS = 65536"

definition nanos_of :: "duration \<Rightarrow> nanos" where
  "nanos_of d = (if d < 2 ^ 64 then of_nat d else - 1)"

datatype user_policy = UserOptimistic | UserHoldDown duration | UserQuorum

definition default_user_policy :: user_policy where
  "default_user_policy = UserHoldDown (10 * 1000000000)"

fun policy_to_core :: "user_policy \<Rightarrow> partition_policy" where
  "policy_to_core UserOptimistic = Optimistic"
| "policy_to_core (UserHoldDown hold) = HoldDown (nanos_of hold)"
| "policy_to_core UserQuorum = Quorum"

section \<open>The builder\<close>

record builder =
  bu_bind :: "bytes option"
  bu_advertise :: "bytes option"
  bu_seeds :: "bytes list"
  bu_limit :: "user_limit option"
  bu_burst :: "u32 option"
  bu_policy :: "user_policy option"
  bu_quorum_memory :: "duration option"
  bu_period :: "duration option"
  bu_hot_keys :: "nat option"
  bu_tracked_keys :: "nat option"
  bu_dry_run :: bool
  bu_classes :: "(bytes \<times> user_limit) list"
  bu_max_classes :: "nat option"
  bu_max_key_limits :: "nat option"
  bu_most_denied :: "nat option"
  bu_max_members :: "nat option"
  bu_gossip_auth :: gossip_auth
  bu_secrets :: "secret list"
  bu_salt :: "(nat + bytes) option"

definition builder_new :: builder where
  "builder_new = \<lparr>bu_bind = None, bu_advertise = None, bu_seeds = [], bu_limit = None, bu_burst = None, bu_policy = None,
     bu_quorum_memory = None, bu_period = None, bu_hot_keys = None, bu_tracked_keys = None, bu_dry_run = False,
     bu_classes = [], bu_max_classes = None, bu_max_key_limits = None, bu_most_denied = None, bu_max_members = None,
     bu_gossip_auth = Off, bu_secrets = [], bu_salt = None\<rparr>"

text \<open>The methods of the builder, and what each sets.\<close>

datatype setting =
    BindTo bytes
  | Advertise bytes
  | Seeds "bytes list"
  | PerSecond u32
  | DefaultLimit user_limit
  | Burst u32
  | PolicyOf user_policy
  | QuorumMemory duration
  | ProtocolPeriod duration
  | HotKeys nat
  | DryRun bool
  | ClassOf bytes user_limit
  | MaxClasses nat
  | MaxKeyLimits nat
  | GossipSecrets gossip_auth "secret list"
  | Salt bytes
  | MostDenied nat
  | MaxMembers nat
  | TrackedKeys nat

fun builder_set :: "hashes \<Rightarrow> builder \<Rightarrow> setting \<Rightarrow> builder" where
  "builder_set h b (BindTo addr) = b\<lparr>bu_bind := Some addr\<rparr>"
| "builder_set h b (Advertise addr) = b\<lparr>bu_advertise := Some addr\<rparr>"
| "builder_set h b (Seeds seeds) = b\<lparr>bu_seeds := seeds\<rparr>"
| "builder_set h b (PerSecond n) = b\<lparr>bu_limit := Some (limit_per_second n)\<rparr>"
| "builder_set h b (DefaultLimit l) = b\<lparr>bu_limit := Some l\<rparr>"
| "builder_set h b (Burst burst) = b\<lparr>bu_burst := Some burst\<rparr>"
| "builder_set h b (PolicyOf policy) = b\<lparr>bu_policy := Some policy\<rparr>"
| "builder_set h b (QuorumMemory memory) = b\<lparr>bu_quorum_memory := Some memory\<rparr>"
| "builder_set h b (ProtocolPeriod period) = b\<lparr>bu_period := Some period\<rparr>"
| "builder_set h b (HotKeys n) = b\<lparr>bu_hot_keys := Some n\<rparr>"
| "builder_set h b (DryRun on) = b\<lparr>bu_dry_run := on\<rparr>"
| "builder_set h b (ClassOf name l) = b\<lparr>bu_classes := bu_classes b @ [(name, l)]\<rparr>"
| "builder_set h b (MaxClasses n) = b\<lparr>bu_max_classes := Some n\<rparr>"
| "builder_set h b (MaxKeyLimits n) = b\<lparr>bu_max_key_limits := Some n\<rparr>"
| "builder_set h b (GossipSecrets mode secrets) = b\<lparr>bu_gossip_auth := mode, bu_secrets := secrets\<rparr>"
| "builder_set h b (Salt salt) = b\<lparr>bu_salt := Some (case salt_new h salt of Inl _ \<Rightarrow> Inl (length salt) | Inr s \<Rightarrow> Inr s)\<rparr>"
| "builder_set h b (MostDenied k) = b\<lparr>bu_most_denied := Some k\<rparr>"
| "builder_set h b (MaxMembers n) = b\<lparr>bu_max_members := Some n\<rparr>"
| "builder_set h b (TrackedKeys n) = b\<lparr>bu_tracked_keys := Some n\<rparr>"

section \<open>Seeds\<close>

datatype seed_text = SeedAddress socket_addr | SeedName bytes u16

definition rsplit_once :: "u8 \<Rightarrow> bytes \<Rightarrow> (bytes \<times> bytes) option" where
  "rsplit_once c s =
     (if c \<in> set s then Some (rev (tl (dropWhile (\<lambda>x. x \<noteq> c) (rev s))), rev (takeWhile (\<lambda>x. x \<noteq> c) (rev s))) else None)"

fun split_at :: "u8 \<Rightarrow> bytes \<Rightarrow> bytes list" where
  "split_at c [] = [[]]"
| "split_at c (x # s) = (if x = c then [] # split_at c s else
     (case split_at c s of part # parts \<Rightarrow> (x # part) # parts | [] \<Rightarrow> [[x]]))"

definition is_ascii_digit :: "u8 \<Rightarrow> bool" where
  "is_ascii_digit c = (48 \<le> c \<and> c \<le> 57)"

definition is_ascii_alphanumeric :: "u8 \<Rightarrow> bool" where
  "is_ascii_alphanumeric c = (is_ascii_digit c \<or> 65 \<le> c \<and> c \<le> 90 \<or> 97 \<le> c \<and> c \<le> 122)"

definition is_label :: "bytes \<Rightarrow> bool" where
  "is_label label = (label \<noteq> [] \<and> list_all (\<lambda>c. is_ascii_alphanumeric c \<or> c = MINUS \<or> c = UNDERSCORE) label)"

definition read_seed :: "bytes \<Rightarrow> seed_text option" where
  "read_seed text = (case parse_socket text of
     Some address \<Rightarrow> Some (SeedAddress address)
   | None \<Rightarrow> do {
       (host, port_text) \<leftarrow> rsplit_once COLON text;
       port \<leftarrow> parse_u16 port_text;
       let labels = (if host \<noteq> [] \<and> last host = DOT then butlast host else host);
           parts = split_at DOT labels;
           is_name = (labels \<noteq> [] \<and> list_all is_label parts \<and> \<not> list_all is_ascii_digit (last parts))
       in if is_name then Some (SeedName host port) else None
     })"

fun sort_seeds :: "bytes list \<Rightarrow> guard_error + socket_addr list \<times> (bytes \<times> u16) list" where
  "sort_seeds [] = Inr ([], [])"
| "sort_seeds (text # texts) = (case read_seed text of
     None \<Rightarrow> Inl (BadSeed text)
   | Some s \<Rightarrow> (case sort_seeds texts of
       Inl err \<Rightarrow> Inl err
     | Inr (seeds, names) \<Rightarrow> Inr (case s of
         SeedAddress address \<Rightarrow> (address # seeds, names)
       | SeedName host port \<Rightarrow> (seeds, (host, port) # names))))"

section \<open>The settings\<close>

record settings =
  se_bind :: socket_addr
  se_advertise :: socket_addr
  se_seeds :: "socket_addr list"
  se_names :: "(bytes \<times> u16) list"
  se_core :: config
  se_swim :: swim_config
  se_policy :: partition_policy
  se_quorum_memory :: nanos
  se_dry_run :: bool
  se_classes :: "(bytes \<times> user_limit \<times> limit) list"
  se_max_classes :: nat
  se_max_key_limits :: nat
  se_most_denied :: nat
  se_max_members :: nat
  se_default_limit :: user_limit
  se_auth :: auth
  se_salt :: "bytes option"

text \<open>The \<open>?\<close> of the source.\<close>

definition and_then :: "'e + 'a \<Rightarrow> ('a \<Rightarrow> 'e + 'b) \<Rightarrow> 'e + 'b" where
  "and_then r f = (case r of Inl err \<Rightarrow> Inl err | Inr x \<Rightarrow> f x)"

definition refuse_if :: "bool \<Rightarrow> 'e \<Rightarrow> 'e + unit" where
  "refuse_if c err = (if c then Inl err else Inr ())"

definition ok_or :: "'a option \<Rightarrow> 'e \<Rightarrow> 'e + 'a" where
  "ok_or x err = (case x of None \<Rightarrow> Inl err | Some y \<Rightarrow> Inr y)"

definition address_in :: "bytes \<Rightarrow> guard_error + socket_addr" where
  "address_in text = ok_or (parse_socket text) (BadAddress text)"

text \<open>The addresses of a node.\<close>

definition settled_addresses :: "builder \<Rightarrow> guard_error + socket_addr \<times> socket_addr" where
  "settled_addresses b =
     and_then (ok_or (bu_bind b) MissingBind) (\<lambda>text.
     and_then (address_in text) (\<lambda>bind.
     and_then (case bu_advertise b of
         Some text \<Rightarrow> address_in text
       | None \<Rightarrow> if socket_unspecified bind then Inl MissingAdvertise else Inr bind) (\<lambda>advertise.
     and_then (refuse_if (socket_unspecified advertise) UnspecifiedAdvertise) (\<lambda>_.
     and_then (refuse_if (bu_advertise b \<noteq> None \<and> (socket_port advertise = 0 \<or> socket_port bind = 0)) AdvertisePortZero) (\<lambda>_.
     Inr (bind, advertise))))))"

definition core_of :: "limit \<Rightarrow> nat \<Rightarrow> nat \<Rightarrow> config" where
  "core_of l hot tracked_max = \<lparr>c_limit = l, c_alpha = ALPHA, c_floor_factor = BETA, c_cooldown = 5 * ONE_SECOND,
     c_hot_set_size = hot, c_max_tracked_keys = tracked_max, c_demand_time_constant = ONE_SECOND\<rparr>"

definition swim_of :: "nanos \<Rightarrow> swim_config" where
  "swim_of period = swim_default\<lparr>sw_protocol_period := period, sw_ack_timeout := period div 2,
     sw_suspicion_timeout := max (sw_suspicion_timeout swim_default) period,
     sw_tombstone_ttl := max (sw_tombstone_ttl swim_default) period,
     sw_reconnect_interval := max (sw_reconnect_interval swim_default) period\<rparr>"

definition builder_settings :: "hashes \<Rightarrow> builder \<Rightarrow> guard_error + settings" where
  "builder_settings h b =
     and_then (settled_addresses b) (\<lambda>(bind, advertise).
     and_then (sort_seeds (bu_seeds b)) (\<lambda>(seeds, names).
     and_then (ok_or (bu_limit b) MissingLimit) (\<lambda>given.
     let given = (case bu_burst b of Some burst \<Rightarrow> with_burst given burst | None \<Rightarrow> given) in
     and_then (to_core given) (\<lambda>l.
     let hot = unwrap_or (bu_hot_keys b) MAX_DEMAND_KEYS in
     and_then (refuse_if (hot = 0 \<or> MAX_DEMAND_KEYS < hot) (TooManyHotKeys hot)) (\<lambda>_.
     let tracked_max = unwrap_or (bu_tracked_keys b) 4096 in
     and_then (refuse_if (tracked_max < hot) TooFewTrackedKeys) (\<lambda>_.
     and_then (refuse_if (MAX_TRACKED_KEYS < tracked_max) (TooManyTrackedKeys tracked_max)) (\<lambda>_.
     let max_classes = unwrap_or (bu_max_classes b) 64 in
     and_then (refuse_if (MAX_CLASSES < max_classes) (TooManyClasses max_classes)) (\<lambda>_.
     and_then (checked h (bu_classes b) max_classes) (\<lambda>classes.
     let max_key_limits = unwrap_or (bu_max_key_limits b) 4096 in
     and_then (refuse_if (MAX_KEY_LIMITS < max_key_limits) (TooLargeMaxKeyLimits max_key_limits)) (\<lambda>_.
     let denied = unwrap_or (bu_most_denied b) 10 in
     and_then (refuse_if (MAX_MOST_DENIED < denied) (TooManyMostDenied denied)) (\<lambda>_.
     let max_members = unwrap_or (bu_max_members b) DEFAULT_MAX_MEMBERS in
     and_then (refuse_if (\<not> (1 \<le> max_members \<and> max_members \<le> MAX_MAX_MEMBERS)) (TooLargeMaxMembers max_members)) (\<lambda>_.
     let period = nanos_of (unwrap_or (bu_period b) (200 * 1000000)) in
     and_then (refuse_if (period div 4 = 0) ZeroPeriod) (\<lambda>_.
     and_then (case auth_new (bu_gossip_auth b) (bu_secrets b) of Inl err \<Rightarrow> Inl (GossipAuth err) | Inr a \<Rightarrow> Inr a) (\<lambda>auth.
     and_then (case bu_salt b of
         None \<Rightarrow> Inr None | Some (Inl n) \<Rightarrow> Inl (ShortSalt n) | Some (Inr salt) \<Rightarrow> Inr (Some salt)) (\<lambda>salt.
     Inr \<lparr>se_bind = bind, se_advertise = advertise, se_seeds = seeds, se_names = names, se_core = core_of l hot tracked_max,
       se_swim = swim_of period, se_policy = policy_to_core (unwrap_or (bu_policy b) default_user_policy),
       se_quorum_memory = (case bu_quorum_memory b of None \<Rightarrow> DEFAULT_QUORUM_MEMORY | Some d \<Rightarrow> nanos_of d),
       se_dry_run = bu_dry_run b, se_classes = classes, se_max_classes = max_classes, se_max_key_limits = max_key_limits,
       se_most_denied = denied, se_max_members = max_members, se_default_limit = given, se_auth = auth,
       se_salt = salt\<rparr>)))))))))))))))"

section \<open>The start\<close>

definition stats_default :: stats where
  "stats_default = \<lparr>st_admitted = 0, st_denied = 0, st_overflowed = 0, st_cluster_size = 0, st_counted_size = 0,
     st_suspects = 0, st_tracked_keys = 0, st_hot_keys = 0, st_held = held_default, st_since_last_round = None,
     st_running = False, st_dry_run = False, st_most_denied = [], st_most_shadow_denied = [], st_unknown_class = 0,
     st_shadow_denied = 0, st_gossip_auth = Off, st_rejected_datagrams = rejected_none, st_identity_conflicts = 0,
     st_members_refused = 0\<rparr>"

definition report_default :: report where
  "report_default = \<lparr>rp_stats = stats_default, rp_attempts = 0, rp_last_round = None\<rparr>"

fun start_seeds :: "hashes \<Rightarrow> peer_id \<Rightarrow> node \<times> names \<Rightarrow> socket_addr list \<Rightarrow> (node \<times> names) option" where
  "start_seeds h local (node, nm) [] = Some (node, nm)"
| "start_seeds h local (node, nm) (seed # seeds) =
     (let addr = address_of_socket seed; ident = peer_id_of h addr in
      if ident \<noteq> local then do {
        node' \<leftarrow> add_seed node ident addr;
        start_seeds h local (node', names_keep nm ident) seeds
      }
      else start_seeds h local (node, nm) seeds)"

text \<open>\<open>entropy\<close> is the wall clock, \<open>table_seed\<close> the randomness of the operating system.\<close>

definition start :: "hashes \<Rightarrow> settings \<Rightarrow> u64 \<Rightarrow> u64 \<Rightarrow> driver option" where
  "start h st entropy table_seed =
     (let me = address_of_socket (se_advertise st); local = peer_id_of h me in do {
        node0 \<leftarrow> node_new (se_core st) (se_swim st) local me (local XOR entropy);
        let node1 = set_quorum_memory (set_partition_policy node0 (se_policy st)) (se_quorum_memory st);
        node2 \<leftarrow> set_max_members node1 (se_max_members st);
        (node3, nm) \<leftarrow> start_seeds h local (node2, names_new local) (se_seeds st);
        let node = (if se_names st \<noteq> [] then expect_peers node3 True else node3);
        let cl = classes_new h (se_default_limit st) (c_limit (se_core st)) (se_classes st) (se_max_classes st);
        free_quota \<leftarrow> new_key_quota_in node (strictest (cl_table cl));
        table \<leftarrow> key_table_new (c_max_tracked_keys (se_core st)) free_quota table_seed;
        packed \<leftarrow> pack free_quota;
        Some \<lparr>dv_node = node, dv_names = nm,
          dv_shared = \<lparr>sh_table = table, sh_cluster_size = node_cluster_size node, sh_running = True,
            sh_most_denied = se_most_denied st, sh_dry_run = se_dry_run st, sh_report = report_default, sh_classes = cl,
            sh_key_limits = key_limits_new (se_max_key_limits st), sh_fresh_factor = node_new_key_factor node,
            sh_free_quota = packed, sh_auth = se_auth st, sh_salt = se_salt st\<rparr>,
          dv_rejected = rejected_none, dv_auth = se_auth st\<rparr>
      })"

section \<open>Spawning\<close>

record surroundings =
  su_runtime :: bool
  su_timers :: bool
  su_bound :: "socket_addr \<Rightarrow> bool"
  su_local_addr :: "socket_addr option"
  su_nonblocking :: bool
  su_io :: bool
  su_registered :: bool
  su_entropy :: u64
  su_table_seed :: u64

definition started :: "hashes \<Rightarrow> surroundings \<Rightarrow> settings \<Rightarrow> (guard_error + driver) option" where
  "started h su st = map_option Inr (start h st (su_entropy su) (su_table_seed su))"

definition spawn :: "hashes \<Rightarrow> surroundings \<Rightarrow> builder \<Rightarrow> (guard_error + driver) option" where
  "spawn h su b = (case builder_settings h b of
     Inl err \<Rightarrow> Some (Inl err)
   | Inr st \<Rightarrow>
       if \<not> su_runtime su then Some (Inl NoRuntime)
       else if \<not> su_timers su then Some (Inl NoTimer)
       else if \<not> su_bound su (se_bind st) then Some (Inl Bind)
       else if bu_advertise b = None \<and> su_local_addr su = None then Some (Inl Bind)
       else if \<not> su_nonblocking su then Some (Inl Bind)
       else if \<not> su_io su then Some (Inl NoIo)
       else if \<not> su_registered su then Some (Inl Bind)
       else started h su (if bu_advertise b = None then st\<lparr>se_advertise := the (su_local_addr su)\<rparr> else st))"

definition spawn_on :: "hashes \<Rightarrow> surroundings \<Rightarrow> builder \<Rightarrow> (guard_error + driver) option" where
  "spawn_on h su b = (case builder_settings h b of
     Inl err \<Rightarrow> Some (Inl err)
   | Inr st \<Rightarrow>
       if \<not> su_runtime su then Some (Inl NoRuntime)
       else if \<not> su_timers su then Some (Inl NoTimer)
       else started h su st)"

end
