(* ===== verification/Sidecar_Args.thy ===== *)
theory Sidecar_Args
  imports Builder
begin

text \<open>
  How the sidecar is told what to run: its flags (\<open>rateguard-sidecar/src/args.rs\<close>), as the texts clap hands over, and its
  file of secrets (\<open>secrets.rs\<close>). Reading a file and the base64 of the crate are parameters. An error text that only
  names the flag is \<open>None\<close>; a path is its bytes.
\<close>

definition SLASH :: u8 where "SLASH = 47"
definition EQUALS :: u8 where "EQUALS = 61"
definition NEWLINE :: u8 where "NEWLINE = 10"

text \<open>A text of the source as its bytes.\<close>

definition ascii :: "string \<Rightarrow> bytes" where
  "ascii s = map of_char s"

text \<open>\<open>str::parse\<close> for an unsigned integer not above \<open>biggest\<close>.\<close>

definition parse_unsigned :: "nat \<Rightarrow> bytes \<Rightarrow> nat option" where
  "parse_unsigned biggest s =
     (if s = [] \<or> s = [PLUS] \<or> s = [MINUS] then None
      else let (ds, rest) = read_digits 10 (if hd s = PLUS then tl s else s)
        in if rest = [] \<and> number_of_digits 10 ds \<le> biggest then Some (number_of_digits 10 ds) else None)"

definition parse_u32 :: "bytes \<Rightarrow> u32 option" where
  "parse_u32 s = map_option of_nat (parse_unsigned (2 ^ 32 - 1) s)"

definition parse_u64 :: "bytes \<Rightarrow> nat option" where
  "parse_u64 = parse_unsigned (2 ^ 64 - 1)"

definition split_once :: "u8 \<Rightarrow> bytes \<Rightarrow> (bytes \<times> bytes) option" where
  "split_once c s = (if c \<in> set s then Some (takeWhile (\<lambda>x. x \<noteq> c) s, tl (dropWhile (\<lambda>x. x \<noteq> c) s)) else None)"

definition strip_prefix :: "bytes \<Rightarrow> bytes \<Rightarrow> bytes option" where
  "strip_prefix p s = (if take (length p) s = p then Some (drop (length p) s) else None)"

section \<open>Flags\<close>

fun mode_of_text :: "bytes \<Rightarrow> gossip_auth option" where
  "mode_of_text s =
     (if s = ascii ''off'' then Some Off
      else if s = ascii ''transitional'' then Some Transitional
      else if s = ascii ''required'' then Some Required
      else None)"

fun mode_name :: "gossip_auth \<Rightarrow> bytes" where
  "mode_name Off = ascii ''off''"
| "mode_name Transitional = ascii ''transitional''"
| "mode_name Required = ascii ''required''"

record limit_spec =
  ls_limit :: user_limit
  ls_has_burst :: bool

definition limit_in_unit :: "u32 \<Rightarrow> bytes \<Rightarrow> user_limit option" where
  "limit_in_unit rate suffix =
     (if suffix = ascii ''s'' then Some (limit_per_second rate)
      else if suffix = ascii ''min'' then Some (limit_per_minute rate)
      else if suffix = ascii ''h'' then Some (limit_per_hour rate)
      else None)"

text \<open>The unit and the burst of the parts behind the rate.\<close>

fun unit_and_burst :: "bytes list \<Rightarrow> (bytes \<times> bytes option) option" where
  "unit_and_burst [] = Some (ascii ''s'', None)"
| "unit_and_burst [n] = Some (if parse_u32 n \<noteq> None then (ascii ''s'', Some n) else (n, None))"
| "unit_and_burst [suffix, burst] = Some (suffix, Some burst)"
| "unit_and_burst _ = None"

definition limit_spec_of_text :: "bytes \<Rightarrow> limit_spec option" where
  "limit_spec_of_text s = (case split_at SLASH s of
     [] \<Rightarrow> None
   | first # others \<Rightarrow> do {
       rate \<leftarrow> parse_u32 first;
       (suffix, burst) \<leftarrow> unit_and_burst others;
       l \<leftarrow> limit_in_unit rate suffix;
       case burst of
         Some b \<Rightarrow> do { n \<leftarrow> parse_u32 b; Some \<lparr>ls_limit = with_burst l n, ls_has_burst = True\<rparr> }
       | None \<Rightarrow> Some \<lparr>ls_limit = l, ls_has_burst = False\<rparr>
     })"

definition class_spec_of_text :: "bytes \<Rightarrow> (bytes \<times> user_limit) option" where
  "class_spec_of_text s = do {
     (name, l) \<leftarrow> split_once EQUALS s;
     if name = [] then None else do { spec \<leftarrow> limit_spec_of_text l; Some (name, ls_limit spec) }
   }"

definition duration_of_text :: "bytes \<Rightarrow> duration option" where
  "duration_of_text s =
     (if list_all is_ascii_digit s then None
      else do {
        n \<leftarrow> parse_u64 (takeWhile is_ascii_digit s);
        let suffix = dropWhile is_ascii_digit s
        in if suffix = ascii ''ms'' then Some (n * 10 ^ 6)
           else if suffix = ascii ''s'' then Some (n * 10 ^ 9)
           else if suffix = ascii ''m'' then (if n * 60 < 2 ^ 64 then Some (n * 60 * 10 ^ 9) else None)
           else None
      })"

definition policy_of_text :: "bytes \<Rightarrow> user_policy option" where
  "policy_of_text s =
     (if s = ascii ''optimistic'' then Some UserOptimistic
      else if s = ascii ''quorum'' then Some UserQuorum
      else do {
        hold \<leftarrow> strip_prefix (ascii ''hold-down:'') s;
        d \<leftarrow> duration_of_text hold;
        Some (UserHoldDown d)
      })"

section \<open>The file of secrets\<close>

datatype secrets_error =
    Unreadable
  | NotBase64 nat
  | ShortLine nat nat
  | TooMany nat
  | Wrapped nat

definition is_ascii_whitespace :: "u8 \<Rightarrow> bool" where
  "is_ascii_whitespace c = (c \<in> {9, 10, 12, 13, 32})"

definition trim_ascii :: "bytes \<Rightarrow> bytes" where
  "trim_ascii s = rev (dropWhile is_ascii_whitespace (rev (dropWhile is_ascii_whitespace s)))"

fun read_secret_lines ::
  "(bytes \<Rightarrow> bytes option) \<Rightarrow> nat \<Rightarrow> bool \<Rightarrow> secret list \<Rightarrow> bytes list \<Rightarrow> secrets_error + secret list" where
  "read_secret_lines base64 i after_full_line secrets [] = Inr secrets"
| "read_secret_lines base64 i after_full_line secrets (l # ls) =
     (let line = trim_ascii l
      in if line = [] then read_secret_lines base64 (i + 1) after_full_line secrets ls
         else case base64 line of
           None \<Rightarrow> Inl (NotBase64 (i + 1))
         | Some bytes \<Rightarrow>
             if after_full_line \<and> ((case secret_new bytes of Inl _ \<Rightarrow> True | Inr _ \<Rightarrow> False) \<or> length secrets = 2)
             then Inl (Wrapped (i + 1))
             else case secret_new bytes of
               Inl _ \<Rightarrow> Inl (ShortLine (i + 1) (length bytes))
             | Inr s \<Rightarrow> read_secret_lines base64 (i + 1) (length line = 64) (secrets @ [s]) ls)"

definition read_secrets ::
  "(bytes \<Rightarrow> bytes option) \<Rightarrow> (bytes \<Rightarrow> bytes option) \<Rightarrow> bytes \<Rightarrow> secrets_error + secret list" where
  "read_secrets base64 files path =
     and_then (ok_or (files path) Unreadable) (\<lambda>content.
     and_then (read_secret_lines base64 0 False [] (split_at NEWLINE content)) (\<lambda>secrets.
     and_then (refuse_if (2 < length secrets) (TooMany (length secrets))) (\<lambda>_.
     Inr secrets)))"

section \<open>The builder the flags make\<close>

record args =
  ar_limit :: limit_spec
  ar_burst :: "u32 option"
  ar_classes :: "(bytes \<times> user_limit) list"
  ar_bind :: bytes
  ar_advertise :: "bytes option"
  ar_seeds :: "bytes list"
  ar_policy :: "user_policy option"
  ar_tracked_keys :: "nat option"
  ar_hot_keys :: "nat option"
  ar_max_classes :: "nat option"
  ar_most_denied :: "nat option"
  ar_max_members :: "nat option"
  ar_dry_run :: bool
  ar_listen :: socket_addr
  ar_metrics_listen :: "socket_addr option"
  ar_admin :: bool
  ar_drain :: duration
  ar_secret_file :: "bytes option"
  ar_mode :: "gossip_auth option"
  ar_salt_file :: "bytes option"

datatype args_error =
    NoSecretFile gossip_auth
  | SecretsRefused secrets_error
  | NoSecretsInFile
  | SaltUnreadable
  | SaltTooShort nat

definition SALT_NEEDED :: nat where "SALT_NEEDED = 16"

definition args_gossip_auth :: "args \<Rightarrow> gossip_auth" where
  "args_gossip_auth a = (case (ar_mode a, ar_secret_file a) of
     (Some mode, _) \<Rightarrow> mode
   | (None, Some _) \<Rightarrow> Required
   | (None, None) \<Rightarrow> Off)"

text \<open>The addresses the warnings name.\<close>

definition startup_warnings :: "args \<Rightarrow> bytes list" where
  "startup_warnings a = (if args_gossip_auth a = Off then [ar_bind a] else [])"

definition set_given :: "hashes \<Rightarrow> ('a \<Rightarrow> setting) \<Rightarrow> 'a option \<Rightarrow> builder \<Rightarrow> builder" where
  "set_given h f x b = (case x of None \<Rightarrow> b | Some v \<Rightarrow> builder_set h b (f v))"

definition args_settings :: "hashes \<Rightarrow> args \<Rightarrow> builder" where
  "args_settings h a =
     (let b0 = foldl (builder_set h) builder_new
            [DefaultLimit (ls_limit (ar_limit a)), BindTo (ar_bind a), Seeds (ar_seeds a), DryRun (ar_dry_run a)];
          b1 = (if ls_has_burst (ar_limit a) then b0 else set_given h Burst (ar_burst a) b0);
          b2 = set_given h Advertise (ar_advertise a) b1;
          b3 = set_given h PolicyOf (ar_policy a) b2;
          b4 = set_given h TrackedKeys (ar_tracked_keys a) b3;
          b5 = set_given h HotKeys (ar_hot_keys a) b4;
          b6 = set_given h MaxClasses (ar_max_classes a) b5;
          b7 = set_given h MostDenied (ar_most_denied a) b6;
          b8 = set_given h MaxMembers (ar_max_members a) b7
      in foldl (\<lambda>b (name, l). builder_set h b (ClassOf name l)) b8 (ar_classes a))"

definition args_secrets ::
  "hashes \<Rightarrow> (bytes \<Rightarrow> bytes option) \<Rightarrow> (bytes \<Rightarrow> bytes option) \<Rightarrow> args \<Rightarrow> builder \<Rightarrow> args_error + builder" where
  "args_secrets h base64 files a b = (let mode = args_gossip_auth a in case ar_secret_file a of
     Some path \<Rightarrow> (case read_secrets base64 files path of
         Inl err \<Rightarrow> Inl (SecretsRefused err)
       | Inr secrets \<Rightarrow> if secrets = [] \<and> mode \<noteq> Off then Inl NoSecretsInFile
           else Inr (builder_set h b (GossipSecrets mode secrets)))
   | None \<Rightarrow> if mode \<noteq> Off then Inl (NoSecretFile mode) else Inr b)"

definition args_salt :: "hashes \<Rightarrow> (bytes \<Rightarrow> bytes option) \<Rightarrow> args \<Rightarrow> builder \<Rightarrow> args_error + builder" where
  "args_salt h files a b = (case ar_salt_file a of
     None \<Rightarrow> Inr b
   | Some path \<Rightarrow> (case files path of
       None \<Rightarrow> Inl SaltUnreadable
     | Some salt \<Rightarrow> if length salt < SALT_NEEDED then Inl (SaltTooShort (length salt))
         else Inr (builder_set h b (Salt salt))))"

definition args_builder ::
  "hashes \<Rightarrow> (bytes \<Rightarrow> bytes option) \<Rightarrow> (bytes \<Rightarrow> bytes option) \<Rightarrow> args \<Rightarrow> args_error + builder" where
  "args_builder h base64 files a =
     and_then (args_secrets h base64 files a (args_settings h a)) (args_salt h files a)"

end
