(* ===== verification/Denied_Names.thy ===== *)
theory Denied_Names
  imports Driver
begin

text \<open>
  The names behind the hashes of denied keys (\<open>rateguard-sidecar/src/denied.rs\<close>): two bounded tables that forget the entry
  recorded or refreshed longest ago, one for keys denied and one for keys only a shadow denied. The queue \<open>rc_order\<close>
  holds the stamps oldest first, stale ones too, as the code leaves them.
\<close>

record named_key =
  nk_class :: bytes
  nk_key :: bytes
  nk_truncated :: bool

definition MAX_LEN :: nat where "MAX_LEN = 256"

text \<open>A byte of UTF-8 that does not continue a character.\<close>

definition starts_char :: "u8 \<Rightarrow> bool" where
  "starts_char b = (b AND 192 \<noteq> 128)"

definition is_char_boundary :: "bytes \<Rightarrow> nat \<Rightarrow> bool" where
  "is_char_boundary s i = (i = 0 \<or> i = length s \<or> i < length s \<and> starts_char (s ! i))"

fun boundary_below :: "bytes \<Rightarrow> nat \<Rightarrow> nat" where
  "boundary_below s 0 = 0"
| "boundary_below s (Suc e) = (if is_char_boundary s (Suc e) then Suc e else boundary_below s e)"

definition cut :: "bytes \<Rightarrow> bytes \<times> bool" where
  "cut s = (if length s \<le> MAX_LEN then (s, False) else (take (boundary_below s MAX_LEN) s, True))"

definition named_new :: "bytes \<Rightarrow> bytes \<Rightarrow> named_key" where
  "named_new cls key = \<lparr>nk_class = fst (cut cls), nk_key = fst (cut key), nk_truncated = snd (cut key)\<rparr>"

section \<open>One table\<close>

record recent =
  rc_capacity :: nat
  rc_named :: "(u64, named_key \<times> u64) omap"
  rc_order :: "(u64 \<times> u64) list"
  rc_next :: u64

definition recent_new :: "nat \<Rightarrow> recent" where
  "recent_new capacity = \<lparr>rc_capacity = capacity, rc_named = [], rc_order = [], rc_next = 0\<rparr>"

definition recent_contains :: "recent \<Rightarrow> u64 \<Rightarrow> bool" where
  "recent_contains r hash = om_has (rc_named r) hash"

definition recent_get :: "recent \<Rightarrow> u64 \<Rightarrow> named_key option" where
  "recent_get r hash = map_option fst (om_get (rc_named r) hash)"

text \<open>Whether a stamp is the last its hash was given.\<close>

definition is_live :: "(u64, named_key \<times> u64) omap \<Rightarrow> u64 \<times> u64 \<Rightarrow> bool" where
  "is_live named e = (case om_get named (fst e) of None \<Rightarrow> False | Some (nk, stamp) \<Rightarrow> stamp = snd e)"

definition compact :: "recent \<Rightarrow> recent" where
  "compact r = (if 2 * rc_capacity r < length (rc_order r) then r\<lparr>rc_order := filter (is_live (rc_named r)) (rc_order r)\<rparr> else r)"

definition recent_refresh :: "recent \<Rightarrow> u64 \<Rightarrow> bool \<times> recent" where
  "recent_refresh r hash = (case om_get (rc_named r) hash of
     None \<Rightarrow> (False, r)
   | Some (nk, stamp) \<Rightarrow>
       if rc_order r \<noteq> [] \<and> last (rc_order r) = (hash, stamp) then (True, r)
       else (True, compact (r\<lparr>rc_named := om_put hash (nk, rc_next r) (rc_named r),
         rc_order := rc_order r @ [(hash, rc_next r)], rc_next := rc_next r + 1\<rparr>)))"

fun evict :: "nat \<Rightarrow> (u64, named_key \<times> u64) omap \<Rightarrow> (u64 \<times> u64) list \<Rightarrow> (u64, named_key \<times> u64) omap \<times> (u64 \<times> u64) list" where
  "evict capacity named [] = (named, [])"
| "evict capacity named (e # order) =
     (if length named < capacity then (named, e # order)
      else evict capacity (if is_live named e then om_del (fst e) named else named) order)"

definition recent_insert :: "recent \<Rightarrow> u64 \<Rightarrow> named_key \<Rightarrow> recent" where
  "recent_insert r hash nk =
     (if rc_capacity r = 0 then r
      else let (named, order) = evict (rc_capacity r) (rc_named r) (rc_order r)
        in compact (r\<lparr>rc_named := om_put hash (nk, rc_next r) named, rc_order := order @ [(hash, rc_next r)],
             rc_next := rc_next r + 1\<rparr>))"

definition recent_remove :: "recent \<Rightarrow> u64 \<Rightarrow> named_key option \<times> recent" where
  "recent_remove r hash = (case om_get (rc_named r) hash of
     None \<Rightarrow> (None, r)
   | Some (nk, stamp) \<Rightarrow> (Some nk, compact (r\<lparr>rc_named := om_del hash (rc_named r)\<rparr>)))"

section \<open>The two tables\<close>

record denied_keys =
  dn_real :: recent
  dn_shadow :: recent

definition denied_new :: "nat \<Rightarrow> denied_keys" where
  "denied_new capacity = \<lparr>dn_real = recent_new capacity, dn_shadow = recent_new capacity\<rparr>"

definition denied_default :: denied_keys where
  "denied_default = denied_new 1024"

definition denied_record :: "denied_keys \<Rightarrow> u64 \<Rightarrow> bytes \<Rightarrow> bytes \<Rightarrow> denied_keys" where
  "denied_record d hash cls key =
     (let (here, real) = recent_refresh (dn_real d) hash
      in if here then d\<lparr>dn_real := real\<rparr>
         else let (nk, shadow) = recent_remove (dn_shadow d) hash
           in d\<lparr>dn_real := recent_insert real hash (case nk of Some n \<Rightarrow> n | None \<Rightarrow> named_new cls key),
                dn_shadow := shadow\<rparr>)"

definition denied_record_shadow :: "denied_keys \<Rightarrow> u64 \<Rightarrow> bytes \<Rightarrow> bytes \<Rightarrow> denied_keys" where
  "denied_record_shadow d hash cls key =
     (if recent_contains (dn_real d) hash then d
      else let (here, shadow) = recent_refresh (dn_shadow d) hash
        in if here then d\<lparr>dn_shadow := shadow\<rparr>
           else d\<lparr>dn_shadow := recent_insert shadow hash (named_new cls key)\<rparr>)"

definition denied_get :: "denied_keys \<Rightarrow> u64 \<Rightarrow> named_key option" where
  "denied_get d hash = (case recent_get (dn_real d) hash of Some nk \<Rightarrow> Some nk | None \<Rightarrow> recent_get (dn_shadow d) hash)"

definition denied_len :: "denied_keys \<Rightarrow> nat" where
  "denied_len d = length (rc_named (dn_real d)) + length (rc_named (dn_shadow d))"

definition denied_is_empty :: "denied_keys \<Rightarrow> bool" where
  "denied_is_empty d = (denied_len d = 0)"

end
