(* ===== verification/Sidecar.thy ===== *)
theory Sidecar
  imports Sidecar_Args Denied_Names
begin

text \<open>
  The API of the sidecar (\<open>rateguard-sidecar/src/lib.rs\<close>): the limits in its bodies, and a handler per route, from what the
  body of the request is to the status and what the body of the answer tells. The crates that read a body are the record
  \<open>web\<close>: \<open>'v\<close> is \<open>serde_json::Value\<close>, of which the code asks only what it is. A text is its bytes, whatever reached the
  node: \<open>lossy\<close> is \<open>String::from_utf8_lossy\<close> of the standard library.
\<close>

section \<open>Text of bytes\<close>

definition utf8_char_width :: "u8 \<Rightarrow> nat" where
  "utf8_char_width b =
     (if b < 128 then 1 else if 194 \<le> b \<and> b \<le> 223 then 2 else if 224 \<le> b \<and> b \<le> 239 then 3
      else if 240 \<le> b \<and> b \<le> 244 then 4 else 0)"

definition byte_at :: "bytes \<Rightarrow> nat \<Rightarrow> u8" where
  "byte_at s i = (if i < length s then s ! i else 0)"

definition continues :: "u8 \<Rightarrow> bool" where
  "continues b = (b AND 192 = 128)"

definition second_of_three :: "u8 \<Rightarrow> u8 \<Rightarrow> bool" where
  "second_of_three b c =
     (b = 224 \<and> 160 \<le> c \<and> c \<le> 191 \<or> 225 \<le> b \<and> b \<le> 236 \<and> 128 \<le> c \<and> c \<le> 191 \<or>
      b = 237 \<and> 128 \<le> c \<and> c \<le> 159 \<or> 238 \<le> b \<and> b \<le> 239 \<and> 128 \<le> c \<and> c \<le> 191)"

definition second_of_four :: "u8 \<Rightarrow> u8 \<Rightarrow> bool" where
  "second_of_four b c =
     (b = 240 \<and> 144 \<le> c \<and> c \<le> 191 \<or> 241 \<le> b \<and> b \<le> 243 \<and> 128 \<le> c \<and> c \<le> 191 \<or>
      b = 244 \<and> 128 \<le> c \<and> c \<le> 143)"

text \<open>How many bytes the character at the front takes, or what is there of one, and whether it is whole.\<close>

definition unit_at :: "bytes \<Rightarrow> nat \<times> bool" where
  "unit_at s =
     (let b = byte_at s 0; width = utf8_char_width b
      in if width = 1 then (1, True)
         else if width = 2 then (if continues (byte_at s 1) then (2, True) else (1, False))
         else if width = 3 then
           (if \<not> second_of_three b (byte_at s 1) then (1, False)
            else if \<not> continues (byte_at s 2) then (2, False) else (3, True))
         else if width = 4 then
           (if \<not> second_of_four b (byte_at s 1) then (1, False)
            else if \<not> continues (byte_at s 2) then (2, False)
            else if \<not> continues (byte_at s 3) then (3, False) else (4, True))
         else (1, False))"

definition REPLACEMENT :: bytes where "REPLACEMENT = [239, 191, 189]"

fun lossy :: "bytes \<Rightarrow> bytes" where
  "lossy [] = []"
| "lossy (b # s) = (let (n, whole) = unit_at (b # s)
     in (if whole then take n (b # s) else REPLACEMENT) @ lossy (drop (n - 1) s))"

section \<open>Limits in bodies\<close>

datatype limit_refusal = NotALimit | NotANumber bytes | TwoPeriods | ZeroCount bytes | NoPeriod

datatype entry_refusal = NotAnEntry | NotAString bytes | NoKey | BadLimit limit_refusal | LimitAndClass

record 'v web =
  w_check :: "bytes \<Rightarrow> (bytes \<times> bytes option) option"
  w_map :: "bytes \<Rightarrow> (bytes \<times> 'v) list option"
  w_list :: "bytes \<Rightarrow> 'v list option"
  w_value :: "bytes \<Rightarrow> 'v option"
  w_switch :: "bytes \<Rightarrow> bool option"
  w_query :: "bytes \<Rightarrow> (bytes \<times> bytes) option"
  w_body_limit :: nat
  v_object :: "'v \<Rightarrow> (bytes \<Rightarrow> 'v option) option"
  v_u64 :: "'v \<Rightarrow> u64 option"
  v_string :: "'v \<Rightarrow> bytes option"
  v_null :: "'v \<Rightarrow> bool"
  v_make :: "(bytes \<times> u32) list \<Rightarrow> 'v"

definition count_in :: "'v web \<Rightarrow> bytes \<Rightarrow> 'v \<Rightarrow> limit_refusal + u32" where
  "count_in w key v = (case v_u64 w v of
     None \<Rightarrow> Inl (NotANumber key)
   | Some n \<Rightarrow> if n \<le> 2 ^ 32 - 1 then Inr (ucast n) else Inl (NotANumber key))"

definition period_keys :: "(bytes \<times> period) list" where
  "period_keys = [(ascii ''per_second'', Second), (ascii ''per_minute'', Minute), (ascii ''per_hour'', Hour)]"

fun limit_of_keys ::
  "'v web \<Rightarrow> (bytes \<Rightarrow> 'v option) \<Rightarrow> user_limit option \<Rightarrow> (bytes \<times> period) list \<Rightarrow> limit_refusal + user_limit option" where
  "limit_of_keys w obj l [] = Inr l"
| "limit_of_keys w obj l ((key, period) # keys) = (case obj key of
     None \<Rightarrow> limit_of_keys w obj l keys
   | Some v \<Rightarrow>
       and_then (refuse_if (l \<noteq> None) TwoPeriods) (\<lambda>_.
       and_then (count_in w key v) (\<lambda>n.
       and_then (refuse_if (n = 0) (ZeroCount key)) (\<lambda>_.
       limit_of_keys w obj (Some (user_limit_new n period)) keys))))"

definition limit_from_json :: "'v web \<Rightarrow> 'v \<Rightarrow> limit_refusal + user_limit" where
  "limit_from_json w v =
     and_then (ok_or (v_object w v) NotALimit) (\<lambda>obj.
     and_then (limit_of_keys w obj None period_keys) (\<lambda>l.
     and_then (ok_or l NoPeriod) (\<lambda>l.
     case obj (ascii ''burst'') of
       None \<Rightarrow> Inr l
     | Some b \<Rightarrow> if v_null w b then Inr l
         else and_then (count_in w (ascii ''burst'') b) (\<lambda>n. Inr (with_burst l n)))))"

text \<open>\<open>None\<close> is the \<open>unreachable!\<close>.\<close>

definition limit_to_json :: "'v web \<Rightarrow> user_limit \<Rightarrow> 'v option" where
  "limit_to_json w l =
     (let secs = period_seconds (ul_period l) in do {
        key \<leftarrow> (if secs = 1 then Some (ascii ''per_second'')
                else if secs = 60 then Some (ascii ''per_minute'')
                else if secs = 3600 then Some (ascii ''per_hour'')
                else None);
        Some (v_make w [(key, ul_count l), (ascii ''burst'', ul_burst l)])
      })"

definition text_in :: "'v web \<Rightarrow> (bytes \<Rightarrow> 'v option) \<Rightarrow> bytes \<Rightarrow> entry_refusal + bytes option" where
  "text_in w obj name = (case obj name of
     None \<Rightarrow> Inr None
   | Some v \<Rightarrow> if v_null w v then Inr None else (case v_string w v of Some s \<Rightarrow> Inr (Some s) | None \<Rightarrow> Inl (NotAString name)))"

definition key_limit_from_json :: "'v web \<Rightarrow> 'v \<Rightarrow> entry_refusal + bytes \<times> bytes \<times> key_limit" where
  "key_limit_from_json w v =
     and_then (ok_or (v_object w v) NotAnEntry) (\<lambda>obj.
     and_then (text_in w obj (ascii ''key'')) (\<lambda>key.
     and_then (ok_or key NoKey) (\<lambda>key.
     and_then (text_in w obj (ascii ''class'')) (\<lambda>cls.
     let l = (case obj (ascii ''limit'') of Some x \<Rightarrow> if v_null w x then None else Some x | None \<Rightarrow> None) in
     and_then (text_in w obj (ascii ''as_class'')) (\<lambda>as_class.
     and_then (case (l, as_class) of
         (Some x, None) \<Rightarrow> (case limit_from_json w x of Inl err \<Rightarrow> Inl (BadLimit err) | Inr l \<Rightarrow> Inr (OwnLimit l))
       | (None, Some name) \<Rightarrow> Inr (OfClass name)
       | _ \<Rightarrow> Inl LimitAndClass) (\<lambda>kl.
     Inr (unwrap_or cls [], key, kl)))))))"

fun limits_from_json :: "'v web \<Rightarrow> (bytes \<times> 'v) list \<Rightarrow> (bytes \<times> limit_refusal) + (bytes \<times> user_limit) list" where
  "limits_from_json w [] = Inr []"
| "limits_from_json w ((name, v) # vs) = (case limit_from_json w v of
     Inl err \<Rightarrow> Inl (name, err)
   | Inr l \<Rightarrow> and_then (limits_from_json w vs) (\<lambda>ls. Inr ((name, l) # ls)))"

fun key_limits_from_json :: "'v web \<Rightarrow> nat \<Rightarrow> 'v list \<Rightarrow> (nat \<times> entry_refusal) + (bytes \<times> bytes \<times> key_limit) list" where
  "key_limits_from_json w i [] = Inr []"
| "key_limits_from_json w i (v # vs) = (case key_limit_from_json w v of
     Inl err \<Rightarrow> Inl (i, err)
   | Inr e \<Rightarrow> and_then (key_limits_from_json w (i + 1) vs) (\<lambda>es. Inr (e # es)))"

section \<open>The handlers\<close>

record app =
  ap_guard :: shared
  ap_admin :: bool
  ap_metrics :: bool
  ap_denied :: denied_keys

definition app_new :: "shared \<Rightarrow> bool \<Rightarrow> bool \<Rightarrow> app" where
  "app_new sh admin metrics = \<lparr>ap_guard = sh, ap_admin = admin, ap_metrics = metrics, ap_denied = denied_default\<rparr>"

definition MAX_BODY :: nat where "MAX_BODY = 64 * 1024"

datatype refusal =
    Unread
  | InClass bytes limit_refusal
  | OfLimit limit_refusal
  | InEntry nat entry_refusal
  | ByGuard guard_error

datatype 'v response =
    Admit
  | Refuse nat
  | NoContent
  | BadRequest refusal
  | Healthy
  | Unavailable
  | Metrics
  | Counters stats "nat option" "(denied_key \<times> named_key option) list" "(denied_key \<times> named_key option) list"
  | KeyRates key_stats 'v "'v option"
  | NotTracked
  | PayloadTooLarge
  | NoRoute

text \<open>Whole milliseconds, rounded up.\<close>

definition millis_up :: "nanos \<Rightarrow> nat" where
  "millis_up t = (unat t + 999999) div 1000000"

definition is_denied :: "user_decision \<Rightarrow> bool" where
  "is_denied d = (case d of Denied _ \<Rightarrow> True | Allowed \<Rightarrow> False)"

definition name_denied :: "hashes \<Rightarrow> app \<Rightarrow> bytes \<Rightarrow> bytes \<Rightarrow> checked_request \<Rightarrow> denied_keys" where
  "name_denied h app cls key ck =
     (let shadow_denied = (case ck_shadow ck of Some d \<Rightarrow> is_denied d | None \<Rightarrow> False);
          denied = is_denied (ck_decision ck);
          hash = guard_key_hash_in h (ap_guard app) cls key
      in if shadow_denied \<or> denied then
           (if denied then denied_record (ap_denied app) hash cls key
            else denied_record_shadow (ap_denied app) hash cls key)
         else ap_denied app)"

definition serve_check :: "hashes \<Rightarrow> 'v web \<Rightarrow> app \<Rightarrow> bytes \<Rightarrow> nanos \<Rightarrow> ('v response \<times> app) option" where
  "serve_check h w app body now = (case w_check w body of
     None \<Rightarrow> Some (BadRequest Unread, app)
   | Some (key_bytes, class_bytes) \<Rightarrow>
       (let key = lossy key_bytes;
            class_name = map_option lossy class_bytes;
            cls = unwrap_or class_name []
        in do {
          (ck, sh) \<leftarrow> (case class_name of
              Some c \<Rightarrow> guard_check_in_traced h (ap_guard app) c key now
            | None \<Rightarrow> guard_check_traced h (ap_guard app) key now);
          let denied = name_denied h app cls key ck;
          Some (case ck_decision ck of Allowed \<Rightarrow> Admit | Denied retry_after \<Rightarrow> Refuse (millis_up retry_after),
            app\<lparr>ap_guard := sh, ap_denied := denied\<rparr>)
        }))"

definition name_all :: "app \<Rightarrow> denied_key list \<Rightarrow> (denied_key \<times> named_key option) list" where
  "name_all app = map (\<lambda>d. (d, denied_get (ap_denied app) (dk_key_hash d)))"

definition serve_stats :: "app \<Rightarrow> nanos \<Rightarrow> 'v response" where
  "serve_stats app now =
     (let s = guard_stats (ap_guard app) now
      in Counters s (map_option (\<lambda>d. unat d div 1000000) (st_since_last_round s))
           (name_all app (st_most_denied s)) (name_all app (st_most_shadow_denied s)))"

definition serve_health :: "app \<Rightarrow> 'v response" where
  "serve_health app = (if sh_running (ap_guard app) then Healthy else Unavailable)"

text \<open>What a change of the guard is answered.\<close>

definition answered :: "app \<Rightarrow> (guard_error + unit) \<times> shared \<Rightarrow> 'v response \<times> app" where
  "answered app r = (case fst r of Inr _ \<Rightarrow> NoContent | Inl err \<Rightarrow> BadRequest (ByGuard err), app\<lparr>ap_guard := snd r\<rparr>)"

definition serve_set_classes :: "hashes \<Rightarrow> 'v web \<Rightarrow> app \<Rightarrow> bytes \<Rightarrow> 'v response \<times> app" where
  "serve_set_classes h w app body = (case w_map w body of
     None \<Rightarrow> (BadRequest Unread, app)
   | Some vs \<Rightarrow> (case limits_from_json w vs of
       Inl (name, err) \<Rightarrow> (BadRequest (InClass name err), app)
     | Inr ls \<Rightarrow> answered app (guard_set_classes h (ap_guard app) ls)))"

definition serve_set_limit :: "'v web \<Rightarrow> app \<Rightarrow> bytes \<Rightarrow> 'v response \<times> app" where
  "serve_set_limit w app body = (case w_value w body of
     None \<Rightarrow> (BadRequest Unread, app)
   | Some v \<Rightarrow> (case limit_from_json w v of
       Inl err \<Rightarrow> (BadRequest (OfLimit err), app)
     | Inr l \<Rightarrow> answered app (guard_set_limit (ap_guard app) l)))"

definition serve_set_key_limits :: "hashes \<Rightarrow> 'v web \<Rightarrow> app \<Rightarrow> bytes \<Rightarrow> 'v response \<times> app" where
  "serve_set_key_limits h w app body = (case w_list w body of
     None \<Rightarrow> (BadRequest Unread, app)
   | Some vs \<Rightarrow> (case key_limits_from_json w 0 vs of
       Inl (i, err) \<Rightarrow> (BadRequest (InEntry i err), app)
     | Inr es \<Rightarrow> answered app (guard_set_key_limits h (ap_guard app) es)))"

definition serve_set_shadows :: "hashes \<Rightarrow> 'v web \<Rightarrow> app \<Rightarrow> bytes \<Rightarrow> 'v response \<times> app" where
  "serve_set_shadows h w app body = (case w_map w body of
     None \<Rightarrow> (BadRequest Unread, app)
   | Some vs \<Rightarrow> (case limits_from_json w (filter (\<lambda>(name, v). \<not> v_null w v) vs) of
       Inl (name, err) \<Rightarrow> (BadRequest (InClass name err), app)
     | Inr ls \<Rightarrow> answered app (guard_set_shadows h (ap_guard app) ls)))"

definition serve_set_dry_run :: "'v web \<Rightarrow> app \<Rightarrow> bytes \<Rightarrow> 'v response \<times> app" where
  "serve_set_dry_run w app body = (case w_switch w body of
     None \<Rightarrow> (BadRequest Unread, app)
   | Some on \<Rightarrow> (NoContent, app\<lparr>ap_guard := guard_set_dry_run (ap_guard app) on\<rparr>))"

text \<open>\<open>told\<close> is what the background task answers for the key.\<close>

definition serve_key_stats ::
  "hashes \<Rightarrow> 'v web \<Rightarrow> app \<Rightarrow> bytes \<Rightarrow> (bytes \<Rightarrow> bytes \<Rightarrow> key_rates option) \<Rightarrow> 'v response option" where
  "serve_key_stats h w app query told = (case w_query w query of
     None \<Rightarrow> Some (BadRequest Unread)
   | Some (key, cls) \<Rightarrow> do {
       s \<leftarrow> guard_key_stats h (ap_guard app) cls key (told cls key);
       case s of
         None \<Rightarrow> Some NotTracked
       | Some s \<Rightarrow> do {
           l \<leftarrow> limit_to_json w (kst_limit s);
           shadow \<leftarrow> (case kst_shadow s of None \<Rightarrow> Some None | Some x \<Rightarrow> map_option Some (limit_to_json w x));
           Some (KeyRates s l shadow)
         }
     })"

section \<open>The routes\<close>

datatype call =
    PostCheck bytes
  | GetStats
  | GetKeys bytes
  | GetHealth
  | GetMetrics
  | PutClasses bytes
  | PutLimit bytes
  | PutDryRun bytes
  | PutKeyLimits bytes
  | PutShadows bytes

text \<open>A route only an administrator has, behind the limit axum puts on any body.\<close>

definition admin_route ::
  "'v web \<Rightarrow> app \<Rightarrow> (app \<Rightarrow> bytes \<Rightarrow> 'v response \<times> app) \<Rightarrow> bytes \<Rightarrow> ('v response \<times> app) option" where
  "admin_route w app f body =
     (if \<not> ap_admin app then Some (NoRoute, app)
      else if w_body_limit w < length body then Some (PayloadTooLarge, app)
      else Some (f app body))"

fun serve ::
  "hashes \<Rightarrow> 'v web \<Rightarrow> (bytes \<Rightarrow> bytes \<Rightarrow> key_rates option) \<Rightarrow> nanos \<Rightarrow> app \<Rightarrow> call \<Rightarrow> ('v response \<times> app) option" where
  "serve h w told now app (PostCheck body) =
     (if MAX_BODY < length body then Some (PayloadTooLarge, app) else serve_check h w app body now)"
| "serve h w told now app GetStats = Some (serve_stats app now, app)"
| "serve h w told now app (GetKeys query) = map_option (\<lambda>r. (r, app)) (serve_key_stats h w app query told)"
| "serve h w told now app GetHealth = Some (serve_health app, app)"
| "serve h w told now app GetMetrics = Some (if ap_metrics app then Metrics else NoRoute, app)"
| "serve h w told now app (PutClasses body) = admin_route w app (serve_set_classes h w) body"
| "serve h w told now app (PutLimit body) = admin_route w app (serve_set_limit w) body"
| "serve h w told now app (PutDryRun body) = admin_route w app (serve_set_dry_run w) body"
| "serve h w told now app (PutKeyLimits body) = admin_route w app (serve_set_key_limits h w) body"
| "serve h w told now app (PutShadows body) = admin_route w app (serve_set_shadows h w) body"

fun public_serve :: "app \<Rightarrow> call \<Rightarrow> 'v response" where
  "public_serve app GetHealth = serve_health app"
| "public_serve app GetMetrics = (if ap_metrics app then Metrics else NoRoute)"
| "public_serve app _ = NoRoute"

text \<open>One round of \<open>reload_secrets\<close>: whether it goes on, whether an error is counted, and the guard.\<close>

definition reload_secrets ::
  "(bytes \<Rightarrow> bytes option) \<Rightarrow> (bytes \<Rightarrow> bytes option) \<Rightarrow> bytes \<Rightarrow> gossip_auth \<Rightarrow> shared \<Rightarrow> bool \<times> bool \<times> shared" where
  "reload_secrets base64 files path mode sh =
     (if \<not> sh_running sh then (False, False, sh)
      else case read_secrets base64 files path of
        Inl _ \<Rightarrow> (True, True, sh)
      | Inr secrets \<Rightarrow> (case guard_set_gossip_auth sh mode secrets of
          (Inl _, sh') \<Rightarrow> (True, True, sh')
        | (Inr _, sh') \<Rightarrow> (True, False, sh')))"

end
