(* ===== verification/Denied_Contract.thy ===== *)
theory Denied_Contract
  imports Denied_Names
begin

text \<open>
  What the tables of denied names promise (\<open>rateguard-sidecar/src/denied.rs\<close>): that each is a list of names, the oldest
  first, cut to its capacity, and that shadows push out no name of a key denied.
\<close>

section \<open>One table is a list of names, oldest first\<close>

definition queue_ok :: "(u64, named_key \<times> u64) omap \<Rightarrow> (u64 \<times> u64) list \<Rightarrow> bool" where
  "queue_ok named order = (om_wf named \<and> sorted_wrt (<) (map snd order) \<and>
     (\<forall>hash nk stamp. om_get named hash = Some (nk, stamp) \<longrightarrow> (hash, stamp) \<in> set order))"

definition name_of :: "(u64, named_key \<times> u64) omap \<Rightarrow> u64 \<times> u64 \<Rightarrow> u64 \<times> named_key" where
  "name_of named e = (fst e, fst (the (om_get named (fst e))))"

definition live_names :: "(u64, named_key \<times> u64) omap \<Rightarrow> (u64 \<times> u64) list \<Rightarrow> (u64 \<times> named_key) list" where
  "live_names named order = map (name_of named) (filter (is_live named) order)"

lemma is_live_iff: "is_live named (hash, stamp) \<longleftrightarrow> (\<exists>nk. om_get named hash = Some (nk, stamp))"
  by (auto simp: is_live_def split: option.split)

lemma live_names_simps [simp]: "live_names named [] = []"
  "live_names named (e # order) = (if is_live named e then name_of named e # live_names named order else live_names named order)"
  "live_names named (xs @ ys) = live_names named xs @ live_names named ys"
  by (simp_all add: live_names_def)

lemma stamps_differ:
  assumes "sorted_wrt (<) (map snd ((e :: u64 \<times> u64) # order))" "f \<in> set order"
  shows "snd f \<noteq> snd e"
proof -
  have "\<forall>x \<in> set order. snd e < snd x" using assms(1) by simp
  then have "snd e < snd f" using assms(2) by (rule bspec)
  then show ?thesis by auto
qed

text \<open>A hash has one live stamp.\<close>

lemma live_once:
  assumes "sorted_wrt (<) (map snd (e # order))" "is_live named e" "f \<in> set order" "is_live named f"
  shows "fst f \<noteq> fst e"
proof
  assume "fst f = fst e"
  then have "snd f = snd e" using assms(2,4) by (cases e; cases f) (auto simp: is_live_iff)
  then show False using stamps_differ [OF assms(1,3)] by simp
qed

lemma live_names_other:
  assumes "\<And>f. f \<in> set order \<Longrightarrow> is_live named f \<Longrightarrow> fst f \<noteq> hash" "\<And>h. h \<noteq> hash \<Longrightarrow> om_get named' h = om_get named h"
    "\<And>f. f \<in> set order \<Longrightarrow> fst f = hash \<Longrightarrow> \<not> is_live named' f"
  shows "live_names named' order = live_names named order"
  using assms
proof (induction order)
  case (Cons e order)
  have "is_live named' e = is_live named e \<and> (is_live named e \<longrightarrow> name_of named' e = name_of named e)"
  proof (cases "fst e = hash")
    case True
    then show ?thesis using Cons.prems(1) [of e] Cons.prems(3) [of e] by auto
  next
    case False
    then show ?thesis using Cons.prems(2) [OF False] by (simp add: is_live_def name_of_def)
  qed
  moreover have "live_names named' order = live_names named order"
    by (rule Cons.IH) (use Cons.prems in \<open>simp_all\<close>)
  ultimately show ?case by simp
qed simp

lemma live_names_keys:
  "sorted_wrt (<) (map snd order) \<Longrightarrow> distinct (map fst (live_names named order))"
proof (induction order)
  case (Cons e order)
  have "fst (name_of named e) \<notin> fst ` set (live_names named order)" if "is_live named e"
  proof
    assume "fst (name_of named e) \<in> fst ` set (live_names named order)"
    then obtain f where "f \<in> set order" "is_live named f" "fst f = fst e" by (auto simp: live_names_def name_of_def)
    then show False using live_once [OF Cons.prems that] by blast
  qed
  moreover have "distinct (map fst (live_names named order))" using Cons by simp
  ultimately show ?case by simp
qed simp

lemma live_names_get:
  assumes "queue_ok named order"
  shows "map_of (live_names named order) hash = map_option fst (om_get named hash)"
proof -
  have dist: "distinct (map fst (live_names named order))" using assms live_names_keys by (simp add: queue_ok_def)
  show ?thesis
  proof (cases "om_get named hash")
    case None
    have "hash \<notin> fst ` set (live_names named order)"
    proof
      assume "hash \<in> fst ` set (live_names named order)"
      then obtain e where "is_live named e" "fst e = hash" by (auto simp: live_names_def name_of_def)
      then show False using None by (cases e) (auto simp: is_live_iff)
    qed
    then have "map_of (live_names named order) hash = None" by (simp only: map_of_eq_None_iff not_False_eq_True)
    then show ?thesis using None by simp
  next
    case (Some v)
    obtain nk stamp where v: "v = (nk, stamp)" by force
    have "(hash, stamp) \<in> set order" using assms Some v by (simp add: queue_ok_def)
    then have "(hash, nk) \<in> set (live_names named order)"
      using Some v by (auto simp: live_names_def name_of_def is_live_iff image_iff intro!: bexI [of _ "(hash, stamp)"])
    then show ?thesis using dist Some v by simp
  qed
qed

lemma live_names_length:
  assumes "queue_ok named order"
  shows "length (live_names named order) = length named"
proof -
  have "distinct (map fst (live_names named order))" using assms live_names_keys by (simp add: queue_ok_def)
  then have "length (live_names named order) = card (fst ` set (live_names named order))"
    using distinct_card [of "map fst (live_names named order)"] by simp
  also have "fst ` set (live_names named order) = dom (map_of (live_names named order))" by (simp add: dom_map_of_conv_image_fst)
  also have "\<dots> = dom (om_get named)" using live_names_get [OF assms] by (auto simp: dom_def)
  also have "card \<dots> = length named"
    using assms distinct_card [of "om_keys named"] om_wf_distinct [of named] by (simp add: queue_ok_def dom_map_of_conv_image_fst)
  finally show ?thesis .
qed

lemma live_names_compact: "live_names named (filter (is_live named) order) = live_names named order"
  by (simp add: live_names_def)

lemma filter_is_live_length: "length (filter (is_live named) order) = length (live_names named order)"
  by (simp add: live_names_def)

section \<open>Forgetting the oldest\<close>

lemma queue_ok_tail:
  assumes ok: "queue_ok named (e # order)"
  shows "queue_ok (if is_live named e then om_del (fst e) named else named) order"
    "live_names (if is_live named e then om_del (fst e) named else named) order = live_names named order"
proof -
  have sorted: "sorted_wrt (<) (map snd (e # order))" using ok by (simp add: queue_ok_def)
  show "queue_ok (if is_live named e then om_del (fst e) named else named) order"
  proof (cases "is_live named e")
    case True
    have "(hash, stamp) \<in> set order" if "om_get (om_del (fst e) named) hash = Some (nk, stamp)" for hash nk stamp
    proof -
      have h: "hash \<noteq> fst e" "om_get named hash = Some (nk, stamp)" using that by (auto split: if_splits)
      then have "(hash, stamp) \<in> set (e # order)" using ok unfolding queue_ok_def by blast
      then show ?thesis using h(1) by auto
    qed
    then show ?thesis using True ok by (auto simp: queue_ok_def)
  next
    case False
    have "(hash, stamp) \<in> set order" if "om_get named hash = Some (nk, stamp)" for hash nk stamp
    proof -
      have "(hash, stamp) \<in> set (e # order)" using ok that unfolding queue_ok_def by blast
      moreover have "is_live named (hash, stamp)" using that by (simp add: is_live_iff)
      ultimately show ?thesis using False by auto
    qed
    then show ?thesis using False ok by (simp add: queue_ok_def)
  qed
  show "live_names (if is_live named e then om_del (fst e) named else named) order = live_names named order"
  proof (cases "is_live named e")
    case True
    have "live_names (om_del (fst e) named) order = live_names named order"
    proof (rule live_names_other)
      show "fst f \<noteq> fst e" if "f \<in> set order" "is_live named f" for f using live_once [OF sorted True that] .
    qed (auto simp: is_live_def)
    then show ?thesis using True by simp
  qed simp
qed

lemma evict_spec:
  "evict capacity named order = (named', order') \<Longrightarrow> queue_ok named order \<Longrightarrow> 0 < capacity \<Longrightarrow>
    queue_ok named' order' \<and> length named' < capacity \<and> set order' \<subseteq> set order \<and> length order' \<le> length order \<and>
    live_names named' order' = drop (length named + 1 - capacity) (live_names named order)"
proof (induction capacity named order rule: evict.induct)
  case (1 capacity named)
  then have "named = []" using live_names_length [of named "[]"] by simp
  then show ?case using 1 by simp
next
  case (2 capacity named e order)
  show ?case
  proof (cases "length named < capacity")
    case True
    then show ?thesis using "2.prems" by auto
  next
    case False
    let ?named = "if is_live named e then om_del (fst e) named else named"
    note tail = queue_ok_tail [OF "2.prems"(2)]
    have run: "evict capacity ?named order = (named', order')" using "2.prems"(1) False by simp
    note IH = "2.IH" [OF False run tail(1) "2.prems"(3)]
    have len: "length (live_names named (e # order)) = length named" "length (live_names ?named order) = length ?named"
      using live_names_length "2.prems"(2) tail(1) by blast+
    have "drop (length ?named + 1 - capacity) (live_names ?named order) = drop (length named + 1 - capacity) (live_names named (e # order))"
    proof (cases "is_live named e")
      case True
      then have "length named = Suc (length ?named)" using len tail(2) by simp
      then show ?thesis using True tail(2) False by (simp add: Suc_diff_le)
    next
      case dead: False
      then show ?thesis using tail(2) by simp
    qed
    then show ?thesis using IH by auto
  qed
qed

definition recent_ok :: "nat \<Rightarrow> recent \<Rightarrow> bool" where
  "recent_ok n r = (queue_ok (rc_named r) (rc_order r) \<and> length (rc_named r) \<le> rc_capacity r \<and>
     length (rc_order r) \<le> 2 * rc_capacity r \<and> (\<forall>e \<in> set (rc_order r). snd e < rc_next r) \<and> unat (rc_next r) \<le> n)"

definition recent_names :: "recent \<Rightarrow> (u64 \<times> named_key) list" where
  "recent_names r = live_names (rc_named r) (rc_order r)"

text \<open>The list a table is: an entry made the newest, and one added with the oldest forgotten when the list is full.\<close>

definition without :: "u64 \<Rightarrow> (u64 \<times> named_key) list \<Rightarrow> (u64 \<times> named_key) list" where
  "without hash = filter (\<lambda>e. fst e \<noteq> hash)"

definition add_newest :: "nat \<Rightarrow> u64 \<Rightarrow> named_key \<Rightarrow> (u64 \<times> named_key) list \<Rightarrow> (u64 \<times> named_key) list" where
  "add_newest capacity hash nk xs = (if capacity = 0 then xs else drop (length xs + 1 - capacity) xs @ [(hash, nk)])"

lemma recent_ok_get: "recent_ok n r \<Longrightarrow> map_of (recent_names r) hash = recent_get r hash"
  by (simp add: recent_ok_def recent_names_def recent_get_def live_names_get)

lemma recent_ok_length: "recent_ok n r \<Longrightarrow> length (recent_names r) = length (rc_named r)"
  by (simp add: recent_ok_def recent_names_def live_names_length)

lemma recent_ok_mono: "recent_ok n r \<Longrightarrow> n \<le> m \<Longrightarrow> recent_ok m r"
  by (simp add: recent_ok_def)

lemma compact_ok:
  assumes ok: "queue_ok (rc_named r) (rc_order r)" and len: "length (rc_named r) \<le> rc_capacity r"
    and stamps: "\<forall>e \<in> set (rc_order r). snd e < rc_next r" "unat (rc_next r) \<le> n"
  shows "recent_ok n (compact r)" "recent_names (compact r) = recent_names r" "rc_capacity (compact r) = rc_capacity r"
proof -
  have f: "queue_ok (rc_named r) (filter (is_live (rc_named r)) (rc_order r))"
    using ok by (auto simp: queue_ok_def is_live_iff sorted_wrt_map_filter)
  have "length (filter (is_live (rc_named r)) (rc_order r)) \<le> rc_capacity r"
    using len by (simp add: filter_is_live_length live_names_length [OF ok])
  then show "recent_ok n (compact r)" using assms f by (auto simp: compact_def recent_ok_def)
  show "recent_names (compact r) = recent_names r"
    by (simp add: compact_def recent_names_def live_names_compact)
  show "rc_capacity (compact r) = rc_capacity r" by (simp add: compact_def)
qed

text \<open>A stamp given to a hash, the newest of all.\<close>

lemma stamp_ok:
  assumes ok: "queue_ok named order" and stamps: "\<forall>e \<in> set order. snd e < next_stamp"
  shows "queue_ok (om_put hash (nk, next_stamp) named) (order @ [(hash, next_stamp)])"
    "live_names (om_put hash (nk, next_stamp) named) (order @ [(hash, next_stamp)]) = without hash (live_names named order) @ [(hash, nk)]"
proof -
  let ?named = "om_put hash (nk, next_stamp) named"
  show "queue_ok ?named (order @ [(hash, next_stamp)])"
    unfolding queue_ok_def
  proof (intro conjI allI impI)
    show "om_wf ?named" using ok by (simp add: queue_ok_def)
    show "sorted_wrt (<) (map snd (order @ [(hash, next_stamp)]))" using ok stamps by (auto simp: queue_ok_def sorted_wrt_append)
    fix h n s assume "om_get ?named h = Some (n, s)"
    then show "(h, s) \<in> set (order @ [(hash, next_stamp)])"
      using ok unfolding queue_ok_def by (cases "h = hash") (simp, blast | auto)+
  qed
  have old: "live_names ?named xs = without hash (live_names named xs)" if "\<forall>e \<in> set xs. snd e < next_stamp" for xs
    using that
  proof (induction xs)
    case (Cons e xs)
    show ?case
    proof (cases "fst e = hash")
      case True
      then have "\<not> is_live ?named e" using Cons.prems by (cases e) (auto simp: is_live_iff)
      then show ?thesis using Cons True by (simp add: without_def name_of_def)
    next
      case False
      then have "is_live ?named e = is_live named e" "name_of ?named e = name_of named e" by (simp_all add: is_live_def name_of_def)
      then show ?thesis using Cons False by (simp add: without_def name_of_def)
    qed
  qed (simp add: without_def)
  show "live_names ?named (order @ [(hash, next_stamp)]) = without hash (live_names named order) @ [(hash, nk)]"
    using old [OF stamps] by (simp add: is_live_iff name_of_def)
qed

lemma next_stamp:
  assumes "unat w \<le> n" "n < 2 ^ 64 - 1"
  shows "w < w + 1" "unat (w + 1 :: u64) \<le> n + 1" "x < w \<Longrightarrow> x < w + 1"
proof -
  have u: "unat (w + 1) = unat w + 1" using assms by (simp add: unat_word_ariths)
  then show "w < w + 1" "unat (w + 1) \<le> n + 1" using assms(1) by (simp_all add: word_less_nat_alt)
  show "x < w + 1" if "x < w" using that u by (simp add: word_less_nat_alt)
qed

lemma recent_refresh_spec:
  assumes ok: "recent_ok n r" and n: "n < 2 ^ 64 - 1" and run: "recent_refresh r hash = (here, r')"
  shows "recent_ok (n + 1) r' \<and> rc_capacity r' = rc_capacity r \<and> (here \<longleftrightarrow> hash \<in> fst ` set (recent_names r)) \<and>
    recent_names r' = (case map_of (recent_names r) hash of
       None \<Rightarrow> recent_names r | Some nk \<Rightarrow> without hash (recent_names r) @ [(hash, nk)])"
proof -
  have q: "queue_ok (rc_named r) (rc_order r)" and r: "length (rc_named r) \<le> rc_capacity r" "unat (rc_next r) \<le> n"
    "\<forall>e \<in> set (rc_order r). snd e < rc_next r"
    using ok by (simp_all add: recent_ok_def)
  have get: "map_of (recent_names r) hash = map_option fst (om_get (rc_named r) hash)"
    using recent_ok_get [OF ok] by (simp add: recent_get_def)
  have here: "hash \<in> fst ` set (recent_names r) \<longleftrightarrow> om_get (rc_named r) hash \<noteq> None"
    using get by (metis map_of_eq_None_iff option.map_disc_iff)
  show ?thesis
  proof (cases "om_get (rc_named r) hash")
    case None
    then show ?thesis using run ok here get recent_ok_mono [OF ok, of "n + 1"] by (simp add: recent_refresh_def)
  next
    case (Some v)
    obtain nk stamp where v: "v = (nk, stamp)" by force
    show ?thesis
    proof (cases "rc_order r \<noteq> [] \<and> last (rc_order r) = (hash, stamp)")
      case True
      then have r': "here" "r' = r" using run Some v by (simp_all add: recent_refresh_def)
      obtain old where order: "rc_order r = old @ [(hash, stamp)]" using True by (metis append_butlast_last_id)
      have live: "is_live (rc_named r) (hash, stamp)" using Some v by (simp add: is_live_iff)
      have "fst f \<noteq> hash" if "f \<in> set old" "is_live (rc_named r) f" for f
      proof
        assume "fst f = hash"
        then have "snd f = stamp" using that(2) Some v by (cases f) (simp add: is_live_iff)
        moreover have "snd f < stamp" using q that(1) by (auto simp: queue_ok_def order sorted_wrt_append)
        ultimately show False by simp
      qed
      then have "without hash (live_names (rc_named r) old) = live_names (rc_named r) old"
        by (auto simp: without_def live_names_def name_of_def filter_id_conv)
      then have "recent_names r = without hash (recent_names r) @ [(hash, nk)]"
        using live Some v by (simp add: recent_names_def order) (simp add: without_def name_of_def)
      then show ?thesis using r' Some v get here recent_ok_mono [OF ok, of "n + 1"] by simp
    next
      case False
      let ?r = "r\<lparr>rc_named := om_put hash (nk, rc_next r) (rc_named r), rc_order := rc_order r @ [(hash, rc_next r)],
        rc_next := rc_next r + 1\<rparr>"
      have r': "here" "r' = compact ?r" using run Some v False by (auto simp: recent_refresh_def)
      have "om_has (rc_named r) hash" using Some by (simp add: om_has_def)
      then have "length (rc_named ?r) \<le> rc_capacity ?r" using q r(1) by (simp add: queue_ok_def length_om_put)
      note c = compact_ok [of ?r "n + 1", OF _ this]
      have "recent_ok (n + 1) (compact ?r)" "recent_names (compact ?r) = recent_names ?r" "rc_capacity (compact ?r) = rc_capacity ?r"
        by (rule c; use stamp_ok(1) [OF q r(3), of hash nk] next_stamp [OF r(2) n] r(3) in \<open>auto\<close>)+
      moreover have "recent_names ?r = without hash (recent_names r) @ [(hash, nk)]"
        using stamp_ok(2) [OF q r(3), of hash nk] by (simp add: recent_names_def)
      ultimately show ?thesis using r' Some v get here by simp
    qed
  qed
qed

lemma recent_insert_spec:
  assumes ok: "recent_ok n r" and n: "n < 2 ^ 64 - 1" and new: "hash \<notin> fst ` set (recent_names r)"
  shows "recent_ok (n + 1) (recent_insert r hash nk) \<and> rc_capacity (recent_insert r hash nk) = rc_capacity r \<and>
    recent_names (recent_insert r hash nk) = add_newest (rc_capacity r) hash nk (recent_names r)"
proof (cases "rc_capacity r = 0")
  case True
  then show ?thesis using recent_ok_mono [OF ok, of "n + 1"] by (simp add: recent_insert_def add_newest_def)
next
  case False
  have q: "queue_ok (rc_named r) (rc_order r)" and r: "length (rc_named r) \<le> rc_capacity r" "unat (rc_next r) \<le> n"
    "\<forall>e \<in> set (rc_order r). snd e < rc_next r"
    using ok by (simp_all add: recent_ok_def)
  obtain named order where e: "evict (rc_capacity r) (rc_named r) (rc_order r) = (named, order)" by force
  have ev: "queue_ok named order" "length named < rc_capacity r" "set order \<subseteq> set (rc_order r)"
    "live_names named order = drop (length (rc_named r) + 1 - rc_capacity r) (recent_names r)"
    using evict_spec [OF e q] False by (simp_all add: recent_names_def)
  have stamps: "\<forall>e \<in> set order. snd e < rc_next r" using r(3) ev(3) by blast
  have gone: "hash \<notin> fst ` set (live_names named order)" using new set_drop_subset unfolding ev(4) by fastforce
  then have "om_get named hash = None" using live_names_get [OF ev(1), of hash] by (metis map_of_eq_None_iff option.map_disc_iff)
  then have "length (om_put hash (nk, rc_next r) named) \<le> rc_capacity r"
    using ev(1,2) by (simp add: queue_ok_def length_om_put om_has_def)
  let ?r = "r\<lparr>rc_named := om_put hash (nk, rc_next r) named, rc_order := order @ [(hash, rc_next r)], rc_next := rc_next r + 1\<rparr>"
  have run: "recent_insert r hash nk = compact ?r" using e False by (simp add: recent_insert_def)
  have len: "length (rc_named ?r) \<le> rc_capacity ?r" using \<open>length (om_put hash (nk, rc_next r) named) \<le> rc_capacity r\<close> by simp
  note c = compact_ok [of ?r "n + 1", OF _ len]
  have "recent_ok (n + 1) (compact ?r)" "recent_names (compact ?r) = recent_names ?r" "rc_capacity (compact ?r) = rc_capacity ?r"
    by (rule c; use stamp_ok(1) [OF ev(1) stamps, of hash nk] next_stamp [OF r(2) n] stamps in \<open>auto\<close>)+
  moreover have "recent_names ?r = without hash (live_names named order) @ [(hash, nk)]"
    using stamp_ok(2) [OF ev(1) stamps, of hash nk] by (simp add: recent_names_def)
  moreover have "without hash (live_names named order) = live_names named order"
    using gone by (force simp: without_def filter_id_conv)
  ultimately show ?thesis
    using run ev(4) False recent_ok_length [OF ok] by (simp add: add_newest_def)
qed

lemma recent_remove_spec:
  assumes ok: "recent_ok n r" and run: "recent_remove r hash = (nk, r')"
  shows "recent_ok n r' \<and> rc_capacity r' = rc_capacity r \<and> nk = map_of (recent_names r) hash \<and>
    recent_names r' = without hash (recent_names r)"
proof -
  have q: "queue_ok (rc_named r) (rc_order r)" and r: "length (rc_named r) \<le> rc_capacity r" "unat (rc_next r) \<le> n"
    "\<forall>e \<in> set (rc_order r). snd e < rc_next r"
    using ok by (simp_all add: recent_ok_def)
  have get: "map_of (recent_names r) hash = map_option fst (om_get (rc_named r) hash)"
    using recent_ok_get [OF ok] by (simp add: recent_get_def)
  show ?thesis
  proof (cases "om_get (rc_named r) hash")
    case None
    then have "hash \<notin> fst ` set (recent_names r)" using get by (metis map_of_eq_None_iff option.map_disc_iff)
    then have "without hash (recent_names r) = recent_names r" by (force simp: without_def filter_id_conv)
    then show ?thesis using run None get ok by (simp add: recent_remove_def)
  next
    case (Some v)
    obtain n0 stamp where v: "v = (n0, stamp)" by force
    let ?r = "r\<lparr>rc_named := om_del hash (rc_named r)\<rparr>"
    have r': "nk = Some n0" "r' = compact ?r" using run Some v by (simp_all add: recent_remove_def)
    have "queue_ok (rc_named ?r) (rc_order ?r)" using q by (auto simp: queue_ok_def split: if_splits)
    moreover have "length (rc_named ?r) \<le> rc_capacity ?r" using order_trans [OF length_filter_le r(1)] by (simp add: om_del_def)
    ultimately have c: "recent_ok n (compact ?r)" "recent_names (compact ?r) = recent_names ?r" "rc_capacity (compact ?r) = rc_capacity ?r"
      using compact_ok [of ?r n] r(2,3) by simp_all
    have "live_names (om_del hash (rc_named r)) xs = without hash (live_names (rc_named r) xs)" for xs
    proof (induction xs)
      case (Cons e xs)
      show ?case
      proof (cases "fst e = hash")
        case True
        then have "\<not> is_live (om_del hash (rc_named r)) e" by (cases e) (auto simp: is_live_iff)
        then show ?thesis using Cons True by (simp add: without_def name_of_def)
      next
        case False
        then have "is_live (om_del hash (rc_named r)) e = is_live (rc_named r) e" "name_of (om_del hash (rc_named r)) e = name_of (rc_named r) e"
          by (simp_all add: is_live_def name_of_def)
        then show ?thesis using Cons False by (simp add: without_def name_of_def)
      qed
    qed (simp add: without_def)
    then show ?thesis using c r' get Some v by (simp add: recent_names_def)
  qed
qed

section \<open>The two tables together\<close>

datatype denial = Denial u64 bytes bytes | ShadowDenial u64 bytes bytes

fun denied_step :: "denied_keys \<Rightarrow> denial \<Rightarrow> denied_keys" where
  "denied_step d (Denial hash cls key) = denied_record d hash cls key"
| "denied_step d (ShadowDenial hash cls key) = denied_record_shadow d hash cls key"

text \<open>What they promise: two lists of names, the oldest first, of \<open>capacity\<close> entries each.\<close>

type_synonym name_list = "(u64 \<times> named_key) list"

fun names_step :: "nat \<Rightarrow> name_list \<times> name_list \<Rightarrow> denial \<Rightarrow> name_list \<times> name_list" where
  "names_step capacity (named, shadow) (Denial hash cls key) =
     (case map_of named hash of
        Some nk \<Rightarrow> (without hash named @ [(hash, nk)], shadow)
      | None \<Rightarrow> (add_newest capacity hash (case map_of shadow hash of Some nk \<Rightarrow> nk | None \<Rightarrow> named_new cls key) named,
          without hash shadow))"
| "names_step capacity (named, shadow) (ShadowDenial hash cls key) =
     (if map_of named hash \<noteq> None then (named, shadow)
      else case map_of shadow hash of
        Some nk \<Rightarrow> (named, without hash shadow @ [(hash, nk)])
      | None \<Rightarrow> (named, add_newest capacity hash (named_new cls key) shadow))"

definition denied_names :: "denied_keys \<Rightarrow> name_list \<times> name_list" where
  "denied_names d = (recent_names (dn_real d), recent_names (dn_shadow d))"

definition denied_ok :: "nat \<Rightarrow> nat \<Rightarrow> denied_keys \<Rightarrow> bool" where
  "denied_ok capacity n d = (recent_ok n (dn_real d) \<and> recent_ok n (dn_shadow d) \<and>
     rc_capacity (dn_real d) = capacity \<and> rc_capacity (dn_shadow d) = capacity)"

lemma denied_step_spec:
  assumes ok: "denied_ok capacity n d" and n: "n < 2 ^ 64 - 1"
  shows "denied_ok capacity (n + 1) (denied_step d e) \<and> denied_names (denied_step d e) = names_step capacity (denied_names d) e"
proof -
  have r: "recent_ok n (dn_real d)" "recent_ok n (dn_shadow d)" "rc_capacity (dn_real d) = capacity" "rc_capacity (dn_shadow d) = capacity"
    using ok by (simp_all add: denied_ok_def)
  note later = recent_ok_mono [OF r(1), of "n + 1"] recent_ok_mono [OF r(2), of "n + 1"]
  show ?thesis
  proof (cases e)
    case (Denial hash cls key)
    obtain here named where f: "recent_refresh (dn_real d) hash = (here, named)" by force
    note fs = recent_refresh_spec [OF r(1) n f]
    show ?thesis
    proof (cases here)
      case True
      then obtain nk where "map_of (recent_names (dn_real d)) hash = Some nk"
        using fs by (metis map_of_eq_None_iff not_Some_eq)
      then show ?thesis using Denial f fs True r later by (simp add: denied_record_def denied_ok_def denied_names_def)
    next
      case False
      then have none: "map_of (recent_names (dn_real d)) hash = None" using fs by (metis map_of_eq_None_iff)
      have named: "named = dn_real d" using f False by (auto simp: recent_refresh_def split: option.splits if_splits)
      obtain nk shadow where m: "recent_remove (dn_shadow d) hash = (nk, shadow)" by force
      note ms = recent_remove_spec [OF r(2) m]
      have new: "hash \<notin> fst ` set (recent_names (dn_real d))" using none by (metis map_of_eq_None_iff)
      note ins = recent_insert_spec [OF r(1) n new]
      show ?thesis using Denial f False named m ms ins none r(3,4) recent_ok_mono [of n shadow "n + 1"]
        by (simp add: denied_record_def denied_ok_def denied_names_def split: option.split)
    qed
  next
    case (ShadowDenial hash cls key)
    have has: "recent_contains (dn_real d) hash \<longleftrightarrow> map_of (recent_names (dn_real d)) hash \<noteq> None"
      using recent_ok_get [OF r(1), of hash] by (simp add: recent_contains_def om_has_def recent_get_def)
    show ?thesis
    proof (cases "recent_contains (dn_real d) hash")
      case True
      then show ?thesis using ShadowDenial has r later by (simp add: denied_record_shadow_def denied_ok_def denied_names_def)
    next
      case False
      obtain here shadow where f: "recent_refresh (dn_shadow d) hash = (here, shadow)" by force
      note fs = recent_refresh_spec [OF r(2) n f]
      show ?thesis
      proof (cases here)
        case True
        then obtain nk where "map_of (recent_names (dn_shadow d)) hash = Some nk"
          using fs by (metis map_of_eq_None_iff not_Some_eq)
        then show ?thesis using ShadowDenial False has f fs True r later
          by (simp add: denied_record_shadow_def denied_ok_def denied_names_def)
      next
        case old: False
        then have none: "map_of (recent_names (dn_shadow d)) hash = None" using fs by (metis map_of_eq_None_iff)
        have shadow: "shadow = dn_shadow d" using f old by (auto simp: recent_refresh_def split: option.splits if_splits)
        have "hash \<notin> fst ` set (recent_names (dn_shadow d))" using none by (metis map_of_eq_None_iff)
        note ins = recent_insert_spec [OF r(2) n this]
        show ?thesis using ShadowDenial False has f old shadow ins none r later
          by (simp add: denied_record_shadow_def denied_ok_def denied_names_def)
      qed
    qed
  qed
qed

lemma denied_run_spec:
  assumes "denied_ok capacity n d" "n + length es < 2 ^ 64"
  shows "denied_ok capacity (n + length es) (foldl denied_step d es) \<and>
    denied_names (foldl denied_step d es) = foldl (names_step capacity) (denied_names d) es"
  using assms
proof (induction es arbitrary: d n)
  case (Cons e es)
  then have s: "denied_ok capacity (n + 1) (denied_step d e)" "denied_names (denied_step d e) = names_step capacity (denied_names d) e"
    using denied_step_spec [of capacity n d e] by simp_all
  then show ?case using Cons.IH [of "n + 1" "denied_step d e"] Cons.prems(2) by simp
qed simp

lemma denied_new_ok: "denied_ok capacity 0 (denied_new capacity)" "denied_names (denied_new capacity) = ([], [])"
  by (simp_all add: denied_ok_def denied_new_def recent_new_def recent_ok_def queue_ok_def denied_names_def recent_names_def)

text \<open>
  C32. The table of denied names is two lists, the oldest first: after any denials it holds the names the lists hold, answers
  as they do, and keeps no more than twice its capacity of stamps in each queue, stale ones included. The stamps never
  wrap: a table takes fewer than \<open>2 ^ 64\<close> denials.
\<close>

theorem denied_keys_refine_lists:
  assumes "length es < 2 ^ 64" and d: "d = foldl denied_step (denied_new capacity) es"
    and names: "(named, shadow) = foldl (names_step capacity) ([], []) es"
  shows "denied_get d hash = (case map_of named hash of Some nk \<Rightarrow> Some nk | None \<Rightarrow> map_of shadow hash) \<and>
    denied_len d = length named + length shadow \<and> denied_len d \<le> 2 * capacity \<and>
    length (rc_order (dn_real d)) \<le> 2 * capacity \<and> length (rc_order (dn_shadow d)) \<le> 2 * capacity"
proof -
  have ok: "denied_ok capacity (length es) d" "denied_names d = (named, shadow)"
    using denied_run_spec [OF denied_new_ok(1), of es capacity] assms(1) denied_new_ok(2) [of capacity]
    unfolding d names by simp_all
  have r: "recent_ok (length es) (dn_real d)" "recent_ok (length es) (dn_shadow d)" "recent_names (dn_real d) = named"
    "recent_names (dn_shadow d) = shadow" "rc_capacity (dn_real d) = capacity" "rc_capacity (dn_shadow d) = capacity"
    using ok by (simp_all add: denied_ok_def denied_names_def)
  have "denied_get d hash = (case map_of named hash of Some nk \<Rightarrow> Some nk | None \<Rightarrow> map_of shadow hash)"
    using recent_ok_get [OF r(1)] recent_ok_get [OF r(2)] r(3,4)
    by (simp add: denied_get_def split: option.split)
  moreover have "denied_len d = length named + length shadow"
    using recent_ok_length [OF r(1)] recent_ok_length [OF r(2)] r(3,4) by (simp add: denied_len_def)
  ultimately show ?thesis using r by (simp add: recent_ok_def denied_len_def)
qed

theorem denied_keys_refine_lists_witness:
  "let d = foldl denied_step (denied_new 1) [ShadowDenial 7 [] [1], Denial 5 [] [2], Denial 7 [] [3], ShadowDenial 9 [] [4]] in
     denied_get d 7 = Some \<lparr>nk_class = [], nk_key = [1], nk_truncated = False\<rparr> \<and> denied_get d 5 = None \<and>
     denied_get d 9 \<noteq> None"
proof -
  let ?es = "[ShadowDenial 7 [] [1], Denial 5 [] [2], Denial 7 [] [3], ShadowDenial 9 [] [4]]"
  have names: "([(7, \<lparr>nk_class = [], nk_key = [1], nk_truncated = False\<rparr>)], [(9, \<lparr>nk_class = [], nk_key = [4], nk_truncated = False\<rparr>)]) =
      foldl (names_step 1) ([], []) ?es"
    by (simp add: add_newest_def without_def named_new_def cut_def MAX_LEN_def)
  have "length ?es < 2 ^ 64" by simp
  from denied_keys_refine_lists [OF this refl names] show ?thesis by (simp add: Let_def)
qed

section \<open>No shadow pushes out a name\<close>

text \<open>The other keys that were denied, each once however often it was.\<close>

definition others_denied :: "u64 \<Rightarrow> denial list \<Rightarrow> u64 set" where
  "others_denied hash es = {other. other \<noteq> hash \<and> (\<exists>cls key. Denial other cls key \<in> set es)}"

lemma others_denied_finite [simp]: "finite (others_denied hash es)"
proof -
  have "others_denied hash es \<subseteq> (\<lambda>e. case e of Denial h cls key \<Rightarrow> h | ShadowDenial h cls key \<Rightarrow> h) ` set es"
    by (force simp: others_denied_def)
  then show ?thesis by (rule finite_subset) simp
qed

text \<open>The entries newer than one's own are each of one of the keys \<open>H\<close>.\<close>

definition newer_within :: "u64 \<Rightarrow> named_key \<Rightarrow> u64 set \<Rightarrow> name_list \<Rightarrow> bool" where
  "newer_within hash nk H xs = (\<exists>us vs. xs = us @ (hash, nk) # vs \<and> fst ` set vs \<subseteq> H \<and> distinct (map fst vs) \<and>
     hash \<notin> fst ` set us)"

lemma newer_within_get: "newer_within hash nk H xs \<Longrightarrow> map_of xs hash = Some nk"
  by (auto simp: newer_within_def map_add_Some_iff map_of_eq_None_iff)

lemma newest_within: "hash \<notin> fst ` set xs \<Longrightarrow> newer_within hash nk H (xs @ [(hash, nk)])"
  unfolding newer_within_def by (intro exI [of _ xs] exI [of _ "[]"]) simp

lemma names_step_keeps:
  assumes within: "newer_within hash nk H named" "length named \<le> capacity" and H: "finite H" "card H < capacity"
    and other: "\<And>h cls key. e = Denial h cls key \<Longrightarrow> h \<noteq> hash \<Longrightarrow> h \<in> H"
    and run: "names_step capacity (named, shadow) e = (named', shadow')"
  shows "newer_within hash nk H named'"
proof -
  obtain us vs where xs: "named = us @ (hash, nk) # vs" "fst ` set vs \<subseteq> H" "distinct (map fst vs)" "hash \<notin> fst ` set us"
    using within(1) by (auto simp: newer_within_def)
  have get: "map_of named hash = Some nk" by (rule newer_within_get [OF within(1)])
  show ?thesis
  proof (cases e)
    case (ShadowDenial h cls key)
    then show ?thesis using run within(1) by (auto split: if_splits option.splits)
  next
    case (Denial h cls key)
    show ?thesis
    proof (cases "h = hash")
      case True
      then have r': "named' = without hash named @ [(hash, nk)]" using run get Denial by simp
      have "hash \<notin> fst ` set (without hash named)" by (auto simp: without_def)
      then show ?thesis unfolding r' by (rule newest_within)
    next
      case False
      have h: "h \<in> H" by (rule other [OF Denial False])
      show ?thesis
      proof (cases "map_of named h")
        case None
        define nk' where "nk' = (case map_of shadow h of Some nk \<Rightarrow> nk | None \<Rightarrow> named_new cls key)"
        have r': "named' = add_newest capacity h nk' named" using None run Denial by (simp add: nk'_def)
        have new: "h \<notin> fst ` set named" using None by (simp only: map_of_eq_None_iff not_False_eq_True)
        then have "h \<notin> fst ` set vs" by (auto simp: xs(1))
        then have "card (insert h (fst ` set vs)) = Suc (length vs)"
          using distinct_card [OF xs(3)] by simp
        moreover have "card (insert h (fst ` set vs)) \<le> card H" using h xs(2) H(1) by (intro card_mono) auto
        ultimately have room: "length vs + 1 < capacity" using H(2) by simp
        have "length named + 1 - capacity \<le> length us" using within(2) room xs(1) by simp
        then have "drop (length named + 1 - capacity) named = drop (length named + 1 - capacity) us @ (hash, nk) # vs" by (simp add: xs(1))
        moreover have "hash \<notin> fst ` set (drop (length named + 1 - capacity) us)" using xs(4) set_drop_subset by fastforce
        ultimately show ?thesis
          using xs(1-3) room new h unfolding newer_within_def r'
          by (intro exI [of _ "drop (length named + 1 - capacity) us"] exI [of _ "vs @ [(h, nk')]"])
            (auto simp: add_newest_def)
      next
        case (Some nk')
        then have r': "named' = without h named @ [(h, nk')]" using run Denial by simp
        have d: "distinct (map fst (without h vs))" using xs(3) by (simp add: without_def distinct_map_filter)
        show ?thesis using xs(1,2,4) d h False unfolding newer_within_def r'
          by (intro exI [of _ "without h us"] exI [of _ "without h vs @ [(h, nk')]"]) (auto simp: without_def)
      qed
    qed
  qed
qed

lemma names_step_bounded:
  assumes "length named \<le> capacity" "names_step capacity (named, shadow) e = (named', shadow')"
  shows "length named' \<le> capacity"
proof -
  have touch: "length (without hash named @ [(hash, nk)]) \<le> capacity" if "map_of named hash = Some nk0" for hash nk nk0
  proof -
    have "(hash, nk0) \<in> set named" using that by (rule map_of_SomeD)
    then have "length (without hash named) < length named" unfolding without_def by (intro length_filter_less) auto
    then show ?thesis using assms(1) by simp
  qed
  show ?thesis using assms touch by (cases e) (auto simp: add_newest_def split: option.splits if_splits)
qed

lemma names_run_keeps:
  assumes "newer_within hash nk H named" "length named \<le> capacity" "finite H" "card H < capacity" "others_denied hash es \<subseteq> H"
  shows "newer_within hash nk H (fst (foldl (names_step capacity) (named, shadow) es))"
  using assms
proof (induction es arbitrary: named shadow)
  case (Cons e es)
  obtain named' shadow' where run: "names_step capacity (named, shadow) e = (named', shadow')" by force
  have "h \<in> H" if "e = Denial h cls key" "h \<noteq> hash" for h cls key
    using Cons.prems(5) that by (auto simp: others_denied_def)
  then have "newer_within hash nk H named'" by (rule names_step_keeps [OF Cons.prems(1-4) _ run])
  moreover have "others_denied hash es \<subseteq> H" using Cons.prems(5) by (auto simp: others_denied_def)
  ultimately show ?case
    using Cons.IH [of named' shadow'] names_step_bounded [OF Cons.prems(2) run] Cons.prems(3,4) run by simp
qed simp

text \<open>
  C33. A name outlives shadows. A key that was denied keeps its name while the other keys denied since are fewer than the
  places of the table: the same key denied again and again counts once, and denials of shadows do not count, however many
  there are.
\<close>

theorem denied_names_outlive_shadows:
  assumes few: "length before + length later < 2 ^ 64 - 1"
    and room: "card (others_denied hash later) < capacity"
  shows "\<exists>nk. let d = denied_step (foldl denied_step (denied_new capacity) before) (Denial hash cls key) in
    denied_get d hash = Some nk \<and> denied_get (foldl denied_step d later) hash = Some nk"
proof -
  let ?d = "foldl denied_step (denied_new capacity) before"
  have b: "denied_ok capacity (length before) ?d"
    using denied_run_spec [OF denied_new_ok(1), of before capacity] few by simp
  have s: "denied_ok capacity (length before + 1) (denied_step ?d (Denial hash cls key))"
    "denied_names (denied_step ?d (Denial hash cls key)) = names_step capacity (denied_names ?d) (Denial hash cls key)"
    using denied_step_spec [OF b, of "Denial hash cls key"] few by simp_all
  obtain named shadow where names: "denied_names (denied_step ?d (Denial hash cls key)) = (named, shadow)" by force
  have within: "\<exists>nk. newer_within hash nk (others_denied hash later) named"
  proof -
    obtain named0 shadow0 where n0: "denied_names ?d = (named0, shadow0)" by force
    show ?thesis
    proof (cases "map_of named0 hash")
      case None
      have "named = add_newest capacity hash (case map_of shadow0 hash of Some nk \<Rightarrow> nk | None \<Rightarrow> named_new cls key) named0"
        using s(2) names n0 None by simp
      moreover have "hash \<notin> fst ` set named0" using None by (simp only: map_of_eq_None_iff not_False_eq_True)
      then have "hash \<notin> fst ` set (drop (length named0 + 1 - capacity) named0)" using set_drop_subset by fastforce
      ultimately show ?thesis using room by (auto simp: add_newest_def intro: newest_within)
    next
      case (Some nk)
      have "named = without hash named0 @ [(hash, nk)]" using s(2) names n0 Some by simp
      moreover have "hash \<notin> fst ` set (without hash named0)" by (auto simp: without_def)
      ultimately show ?thesis using newest_within by blast
    qed
  qed
  then obtain nk where nk: "newer_within hash nk (others_denied hash later) named" by blast
  have "recent_names (dn_real (denied_step ?d (Denial hash cls key))) = named" using names by (simp add: denied_names_def)
  then have "length named \<le> capacity"
    using s(1) recent_ok_length [of "length before + 1" "dn_real (denied_step ?d (Denial hash cls key))"]
    by (auto simp: denied_ok_def recent_ok_def)
  from names_run_keeps [OF nk this _ room, of later shadow]
  have "map_of (fst (foldl (names_step capacity) (named, shadow) later)) hash = Some nk"
    by (intro newer_within_get) simp
  moreover let ?e = "foldl denied_step (denied_step ?d (Denial hash cls key)) later"
  have l: "denied_ok capacity (length before + 1 + length later) ?e" "denied_names ?e = foldl (names_step capacity) (named, shadow) later"
    using denied_run_spec [OF s(1), of later] few names by simp_all
  moreover have "recent_ok (length before + 1 + length later) (dn_real ?e)" using l(1) by (simp add: denied_ok_def)
  moreover have "recent_names (dn_real ?e) = fst (foldl (names_step capacity) (named, shadow) later)"
    unfolding l(2) [symmetric] by (simp add: denied_names_def)
  ultimately have "recent_get (dn_real ?e) hash = Some nk" using recent_ok_get by metis
  moreover have "recent_get (dn_real (denied_step ?d (Denial hash cls key))) hash = Some nk"
  proof -
    have "recent_ok (length before + 1) (dn_real (denied_step ?d (Denial hash cls key)))" using s(1) by (simp add: denied_ok_def)
    then show ?thesis
      using recent_ok_get [of "length before + 1" "dn_real (denied_step ?d (Denial hash cls key))" hash]
        newer_within_get [OF nk] \<open>recent_names (dn_real (denied_step ?d (Denial hash cls key))) = named\<close> by simp
  qed
  ultimately show ?thesis by (simp add: denied_get_def Let_def)
qed

theorem denied_names_outlive_shadows_witness:
  "\<exists>nk. let d = denied_step (foldl denied_step (denied_new 2) []) (Denial 7 [] [1]) in
    denied_get d 7 = Some nk \<and>
    denied_get (foldl denied_step d [Denial 8 [] [2], ShadowDenial 9 [] [3], Denial 8 [] [2], Denial 7 [] [1]]) 7 = Some nk"
proof (rule denied_names_outlive_shadows)
  have "others_denied 7 [Denial 8 [] [2], ShadowDenial 9 [] [3], Denial 8 [] [2], Denial 7 [] [1]] = {8}"
    by (auto simp: others_denied_def)
  then show "card (others_denied 7 [Denial 8 [] [2], ShadowDenial 9 [] [3], Denial 8 [] [2], Denial 7 [] [1]]) < 2" by simp
qed simp

end
