(* ===== verification/Class_Contract.thy ===== *)
theory Class_Contract
  imports Classes
begin

text \<open>
  What the classes and the limits of single keys promise (\<open>rateguard/src/classes.rs\<close>,
  \<open>key_limits.rs\<close>): the invariant every change keeps, and that the ways of reading a
  key's limit agree.
\<close>

section \<open>Invariants\<close>

definition named_ok :: "hashes \<Rightarrow> nat \<Rightarrow> (u64, bytes \<times> user_limit \<times> limit) omap \<Rightarrow> bool" where
  "named_ok h n named = (om_wf named \<and> length named \<le> n \<and>
     (\<forall>hash name l core. om_get named hash = Some (name, l, core) \<longrightarrow>
       hash = class_hash h name \<and> name \<noteq> [] \<and> to_core l = Inr core))"

definition shadows_ok :: "(u64, bytes \<times> user_limit \<times> limit) omap \<Rightarrow> (u64, user_limit \<times> limit) omap \<Rightarrow> bool" where
  "shadows_ok named shadows = (om_wf shadows \<and>
     (\<forall>class l core. om_get shadows class = Some (l, core) \<longrightarrow> (class = 0 \<or> om_has named class) \<and> to_core l = Inr core))"

definition class_table_wf :: "hashes \<Rightarrow> nat \<Rightarrow> class_table \<Rightarrow> bool" where
  "class_table_wf h n t = (to_core (ct_default_given t) = Inr (ct_default t) \<and> named_ok h n (ct_named t) \<and>
     shadows_ok (ct_named t) (ct_shadows t))"

definition classes_wf :: "hashes \<Rightarrow> classes \<Rightarrow> bool" where
  "classes_wf h cl = (class_table_wf h (cl_max cl) (cl_table cl) \<and>
     cl_default_rate cl = l_rate (ct_default (cl_table cl)) \<and> cl_default_burst cl = l_burst (ct_default (cl_table cl)) \<and>
     cl_has_shadows cl = table_has_shadows (cl_table cl))"

lemma named_ok_put:
  assumes "named_ok h n named" "name \<noteq> []" "to_core l = Inr core"
    and "length (om_put (class_hash h name) (name, l, core) named) \<le> n"
  shows "named_ok h n (om_put (class_hash h name) (name, l, core) named)"
  using assms by (auto simp: named_ok_def split: if_splits)

lemma named_ok_del: "named_ok h n named \<Longrightarrow> named_ok h n (om_del hash named)"
  by (auto simp: named_ok_def om_del_def [symmetric] intro: order_trans [OF length_filter_le] simp del: length_filter_le)
    (simp add: om_del_def order_trans [OF length_filter_le])

lemma checked_from_ok:
  "checked_from h n named cs = Inr named' \<Longrightarrow> named_ok h n named \<Longrightarrow> named_ok h n named'"
proof (induction h n named cs rule: checked_from.induct)
  case (2 h n named name l cs)
  obtain core where core: "name \<noteq> []" "to_core l = Inr core" "length (om_put (class_hash h name) (name, l, core) named) \<le> n"
    "checked_from h n (om_put (class_hash h name) (name, l, core) named) cs = Inr named'"
    using "2.prems"(1) by (auto simp: Let_def not_less split: if_splits sum.splits)
  then show ?case using "2.IH" [OF core(1,2) refl] named_ok_put [OF "2.prems"(2) core(1-3)] by simp
qed simp

lemma om_put_last: "\<forall>k \<in> set (om_keys m). k < key \<Longrightarrow> om_put key v m = m @ [(key, v)]"
  by (induction m) auto

text \<open>Collecting the values of a map of classes under their hashes gives the map back.\<close>

lemma by_name_values:
  assumes "om_wf named" "\<forall>hash name l core. om_get named hash = Some (name, l, core) \<longrightarrow> hash = class_hash h name"
  shows "by_name h (map snd named) = named"
proof -
  have gen: "fold (\<lambda>(name, given, l). om_put (class_hash h name) (name, given, l)) (map snd m) acc = acc @ m"
    if "om_wf (acc @ m)" "\<forall>(hash, name, l, core) \<in> set m. hash = class_hash h name" for acc m
    using that
  proof (induction m arbitrary: acc)
    case (Cons e m)
    obtain hash name l core where e: "e = (hash, name, l, core)" by (rule prod_cases4)
    have "\<forall>k \<in> set (om_keys acc). k < hash" using Cons.prems(1) by (auto simp: e om_wf_def sorted_wrt_append)
    then have "om_put hash (name, l, core) acc = acc @ [e]" unfolding e by (rule om_put_last)
    moreover have "hash = class_hash h name" using Cons.prems(2) by (simp add: e)
    ultimately show ?case using Cons.IH [of "acc @ [e]"] Cons.prems by (simp add: e)
  qed simp
  have "\<forall>(hash, name, l, core) \<in> set named. hash = class_hash h name"
    using assms by (auto simp: om_wf_distinct)
  then show ?thesis using gen [of "[]" named] assms(1) by (simp add: by_name_def)
qed

lemma checked_ok:
  assumes "checked h cs n = Inr named"
  shows "named_ok h n (by_name h named)"
proof -
  obtain m where m: "checked_from h n [] cs = Inr m" "named = map snd m"
    using assms by (auto simp: checked_def split: sum.splits)
  have "named_ok h n []" by (simp add: named_ok_def)
  then have ok: "named_ok h n m" by (rule checked_from_ok [OF m(1)])
  then have "by_name h named = m" using by_name_values [of m h] m(2) by (auto simp: named_ok_def)
  then show ?thesis using ok by simp
qed

lemma classes_new_wf:
  assumes "to_core given = Inr dflt" "checked h cs n = Inr named"
  shows "classes_wf h (classes_new h given dflt named n)"
  using assms(1) checked_ok [OF assms(2)]
  by (simp add: classes_wf_def class_table_wf_def classes_new_def shadows_ok_def table_has_shadows_def)

section \<open>Changes\<close>

datatype class_op =
    SetClass bytes user_limit
  | RemoveClass bytes
  | SetDefault user_limit
  | ReplaceClasses "(bytes \<times> user_limit) list"
  | SetShadow bytes "user_limit option"
  | ReplaceShadows "(bytes \<times> user_limit) list"

fun class_step :: "hashes \<Rightarrow> classes \<Rightarrow> class_op \<Rightarrow> (guard_error + unit) \<times> classes" where
  "class_step h cl (SetClass name l) = classes_set h cl name l"
| "class_step h cl (RemoveClass name) = (Inr (), snd (classes_remove h cl name))"
| "class_step h cl (SetDefault l) = classes_set_default cl l"
| "class_step h cl (ReplaceClasses cs) = classes_replace h cl cs"
| "class_step h cl (SetShadow name l) = classes_set_shadow h cl name l"
| "class_step h cl (ReplaceShadows ss) = classes_replace_shadows h cl ss"

lemma classes_change_wf:
  assumes "classes_change cl edit = (r, cl')" "classes_wf h cl"
    and "\<And>t. edit (cl_table cl) = Inr t \<Longrightarrow> class_table_wf h (cl_max cl) t"
  shows "classes_wf h cl' \<and> cl_max cl' = cl_max cl \<and> (\<forall>err. r = Inl err \<longrightarrow> cl' = cl)"
  using assms by (auto simp: classes_change_def classes_wf_def split: sum.splits)

lemma classes_set_wf:
  assumes wf: "classes_wf h cl" and run: "classes_set h cl name l = (r, cl')"
  shows "classes_wf h cl' \<and> cl_max cl' = cl_max cl \<and> (\<forall>err. r = Inl err \<longrightarrow> cl' = cl)"
proof (cases "name = [] \<or> (\<exists>err. to_core l = Inl err)")
  case True
  then show ?thesis using wf run by (auto simp: classes_set_def split: if_splits)
next
  case False
  then obtain core where core: "name \<noteq> []" "to_core l = Inr core" by (cases "to_core l") auto
  let ?t = "cl_table cl" and ?n = "cl_max cl" and ?hash = "class_hash h name"
  have t: "class_table_wf h ?n ?t" using wf by (simp add: classes_wf_def)
  then have ok: "named_ok h ?n (ct_named ?t)" "shadows_ok (ct_named ?t) (ct_shadows ?t)" by (simp_all add: class_table_wf_def)
  have "class_table_wf h ?n t'"
    if "(if \<not> om_has (ct_named ?t) ?hash \<and> length (ct_named ?t) = ?n then Inl (TooManyClasses ?n)
      else Inr (?t\<lparr>ct_named := om_put ?hash (name, l, core) (ct_named ?t)\<rparr>)) = Inr t'" for t'
  proof -
    have t': "t' = ?t\<lparr>ct_named := om_put ?hash (name, l, core) (ct_named ?t)\<rparr>"
      and room: "om_has (ct_named ?t) ?hash \<or> length (ct_named ?t) \<noteq> ?n" using that by (auto split: if_splits)
    have "length (om_put ?hash (name, l, core) (ct_named ?t)) \<le> ?n"
      using room ok(1) by (auto simp: named_ok_def length_om_put)
    then have "named_ok h ?n (ct_named t')" using named_ok_put [OF ok(1) core] by (simp add: t')
    moreover have "shadows_ok (ct_named t') (ct_shadows t')" using ok(2) by (auto simp: t' shadows_ok_def om_has_def)
    ultimately show ?thesis using t by (simp add: class_table_wf_def t')
  qed
  then show ?thesis using run core by (intro classes_change_wf [OF _ wf]) (auto simp: classes_set_def Let_def)
qed

lemma classes_remove_wf:
  assumes wf: "classes_wf h cl"
  shows "classes_wf h (snd (classes_remove h cl name)) \<and> cl_max (snd (classes_remove h cl name)) = cl_max cl"
proof -
  let ?t = "cl_table cl" and ?hash = "class_hash h name"
  have t: "class_table_wf h (cl_max cl) ?t" using wf by (simp add: classes_wf_def)
  have named: "named_ok h (cl_max cl) (om_del ?hash (ct_named ?t))"
    using t by (intro named_ok_del) (simp add: class_table_wf_def)
  have sh: "shadows_ok (om_del ?hash (ct_named ?t)) (if om_has (ct_named ?t) ?hash then om_del ?hash (ct_shadows ?t) else ct_shadows ?t)"
  proof (cases "om_has (ct_named ?t) ?hash")
    case True
    then show ?thesis using t by (auto simp: class_table_wf_def shadows_ok_def om_has_def)
  next
    case False
    then have "om_has (om_del ?hash (ct_named ?t)) c = om_has (ct_named ?t) c" for c by (auto simp: om_has_def)
    then show ?thesis using t False by (auto simp: class_table_wf_def shadows_ok_def)
  qed
  obtain r cl' where e: "classes_change cl (\<lambda>t. let t1 = t\<lparr>ct_named := om_del ?hash (ct_named t)\<rparr>
      in Inr (if om_has (ct_named ?t) ?hash then t1\<lparr>ct_shadows := om_del ?hash (ct_shadows t1)\<rparr> else t1)) = (r, cl')" by force
  have "classes_wf h cl' \<and> cl_max cl' = cl_max cl \<and> (\<forall>err. r = Inl err \<longrightarrow> cl' = cl)"
    by (rule classes_change_wf [OF e wf]) (use named sh t in \<open>auto simp: class_table_wf_def Let_def\<close>)
  then show ?thesis using e by (simp add: classes_remove_def Let_def)
qed

lemma classes_replace_wf:
  assumes wf: "classes_wf h cl" and run: "classes_replace h cl cs = (r, cl')"
  shows "classes_wf h cl' \<and> cl_max cl' = cl_max cl \<and> (\<forall>err. r = Inl err \<longrightarrow> cl' = cl)"
proof (cases "checked h cs (cl_max cl)")
  case (Inl err)
  then show ?thesis using wf run by (auto simp: classes_replace_def)
next
  case (Inr named)
  let ?sh = "om_retain (\<lambda>class _. class = 0 \<or> om_has (by_name h named) class) (ct_shadows (cl_table cl))"
  have t: "class_table_wf h (cl_max cl) (cl_table cl)" using wf by (simp add: classes_wf_def)
  then have "om_wf (ct_shadows (cl_table cl))" by (simp add: class_table_wf_def shadows_ok_def)
  then have "shadows_ok (by_name h named) ?sh"
    using t by (auto simp: class_table_wf_def shadows_ok_def om_get_retain split: option.splits if_splits)
  then show ?thesis using run Inr checked_ok [OF Inr] t
    by (intro classes_change_wf [OF _ wf]) (auto simp: classes_replace_def Let_def class_table_wf_def)
qed

lemma class_named_ok: "class_named h t name = Inr class \<Longrightarrow> class = 0 \<or> om_has (ct_named t) class"
  by (auto simp: class_named_def Let_def split: if_splits)

lemma classes_set_shadow_wf:
  assumes wf: "classes_wf h cl" and run: "classes_set_shadow h cl name l = (r, cl')"
  shows "classes_wf h cl' \<and> cl_max cl' = cl_max cl \<and> (\<forall>err. r = Inl err \<longrightarrow> cl' = cl)"
proof (cases "case l of None \<Rightarrow> Inr None
    | Some given \<Rightarrow> (case to_core given of Inl err \<Rightarrow> Inl err | Inr core \<Rightarrow> Inr (Some (given, core)))")
  case (Inl err)
  then show ?thesis using wf run by (auto simp: classes_set_shadow_def)
next
  case (Inr shadow)
  have sh: "to_core given = Inr core" if "shadow = Some (given, core)" for given core
    using Inr that by (auto split: option.splits sum.splits)
  have t: "class_table_wf h (cl_max cl) (cl_table cl)" using wf by (simp add: classes_wf_def)
  have ok: "shadows_ok (ct_named (cl_table cl)) (case shadow of
      Some s \<Rightarrow> om_put c s (ct_shadows (cl_table cl)) | None \<Rightarrow> om_del c (ct_shadows (cl_table cl)))"
    if "class_named h (cl_table cl) name = Inr c" for c
  proof (cases shadow)
    case None
    then show ?thesis using t by (simp add: class_table_wf_def shadows_ok_def)
  next
    case (Some s)
    obtain given core where s: "s = (given, core)" by force
    show ?thesis using t class_named_ok [OF that] sh [of given core] Some
      unfolding s class_table_wf_def shadows_ok_def by simp
  qed
  show ?thesis
  proof (rule classes_change_wf [OF _ wf])
    show "classes_change cl (\<lambda>t. case class_named h t name of Inl err \<Rightarrow> Inl err
        | Inr c \<Rightarrow> Inr (t\<lparr>ct_shadows := (case shadow of
            Some s \<Rightarrow> om_put c s (ct_shadows t) | None \<Rightarrow> om_del c (ct_shadows t))\<rparr>)) = (r, cl')"
      using run Inr by (simp add: classes_set_shadow_def)
  qed (use ok t in \<open>auto simp: class_table_wf_def split: sum.splits\<close>)
qed

lemma shadows_of_classes_ok:
  assumes "shadows_of_classes h t all ss = Inr all'" "shadows_ok (ct_named t) all"
    and "\<forall>(name, l, core) \<in> set ss. to_core l = Inr core"
  shows "shadows_ok (ct_named t) all'"
  using assms
proof (induction h t all ss rule: shadows_of_classes.induct)
  case (2 h t all name l core ss)
  obtain cls where c: "class_named h t name = Inr cls" "shadows_of_classes h t (om_put cls (l, core) all) ss = Inr all'"
    using "2.prems"(1) by (auto split: sum.splits)
  have "shadows_ok (ct_named t) (om_put cls (l, core) all)"
    using "2.prems" class_named_ok [OF c(1)] by (auto simp: shadows_ok_def)
  then show ?case using "2.IH" [OF c] "2.prems"(3) by simp
qed simp

lemma shadows_to_core_ok: "shadows_to_core ss = Inr xs \<Longrightarrow> \<forall>(name, l, core) \<in> set xs. to_core l = Inr core"
proof (induction ss arbitrary: xs rule: shadows_to_core.induct)
  case (2 name l ss)
  then obtain core rest where "to_core l = Inr core" "shadows_to_core ss = Inr rest" "xs = (name, l, core) # rest"
    by (auto split: sum.splits)
  then show ?case using 2 by auto
qed simp

lemma classes_replace_shadows_wf:
  assumes wf: "classes_wf h cl" and run: "classes_replace_shadows h cl ss = (r, cl')"
  shows "classes_wf h cl' \<and> cl_max cl' = cl_max cl \<and> (\<forall>err. r = Inl err \<longrightarrow> cl' = cl)"
proof (cases "shadows_to_core ss")
  case (Inl err)
  then show ?thesis using wf run by (auto simp: classes_replace_shadows_def)
next
  case (Inr xs)
  have t: "class_table_wf h (cl_max cl) (cl_table cl)" using wf by (simp add: classes_wf_def)
  have "shadows_ok (ct_named (cl_table cl)) all" if "shadows_of_classes h (cl_table cl) [] xs = Inr all" for all
    by (rule shadows_of_classes_ok [OF that _ shadows_to_core_ok [OF Inr]]) (simp add: shadows_ok_def)
  then show ?thesis using run Inr t
    by (intro classes_change_wf [OF _ wf]) (auto simp: classes_replace_shadows_def class_table_wf_def split: sum.splits)
qed

lemma class_step_wf:
  assumes wf: "classes_wf h cl" and run: "class_step h cl op = (r, cl')"
  shows "classes_wf h cl' \<and> cl_max cl' = cl_max cl \<and> (\<forall>err. r = Inl err \<longrightarrow> cl' = cl)"
proof (cases op)
  case (SetDefault l)
  have t: "class_table_wf h (cl_max cl) (cl_table cl)" using wf by (simp add: classes_wf_def)
  show ?thesis
  proof (cases "to_core l")
    case (Inr core)
    then show ?thesis using run SetDefault t
      by (intro classes_change_wf [OF _ wf]) (auto simp: classes_set_default_def class_table_wf_def)
  qed (use run SetDefault wf in \<open>auto simp: classes_set_default_def\<close>)
next
  case (RemoveClass name)
  then show ?thesis using run classes_remove_wf [OF wf, of name] by auto
qed (use run classes_set_wf [OF wf] classes_replace_wf [OF wf] classes_set_shadow_wf [OF wf]
    classes_replace_shadows_wf [OF wf] in auto)

section \<open>Key limits\<close>

definition key_limits_wf :: "key_limits \<Rightarrow> bool" where
  "key_limits_wf kl = (om_wf (kl_table kl) \<and> kl_count kl = length (kl_table kl) \<and> kl_count kl \<le> kl_max kl \<and>
     (\<forall>hash e. om_get (kl_table kl) hash = Some e \<longrightarrow> check_key_limit (snd (snd e)) = Inr ()))"

datatype key_limit_op = SetKey u64 entry | RemoveKey u64 | ReplaceKeys "(u64 \<times> entry) list"

fun key_limit_step :: "key_limits \<Rightarrow> key_limit_op \<Rightarrow> (guard_error + unit) \<times> key_limits" where
  "key_limit_step kl (SetKey hash e) = key_limits_set kl hash e"
| "key_limit_step kl (RemoveKey hash) = (Inr (), snd (key_limits_remove kl hash))"
| "key_limit_step kl (ReplaceKeys es) = key_limits_replace kl es"

lemma key_limits_collect_spec:
  "key_limits_collect n named es = Inr named' \<Longrightarrow> om_wf named \<Longrightarrow> length named \<le> n \<Longrightarrow>
    \<forall>hash e. om_get named hash = Some e \<longrightarrow> check_key_limit (snd (snd e)) = Inr () \<Longrightarrow>
    om_wf named' \<and> length named' \<le> n \<and> named' = fold (\<lambda>(hash, e). om_put hash e) es named \<and>
    (\<forall>hash e. om_get named' hash = Some e \<longrightarrow> check_key_limit (snd (snd e)) = Inr ())"
proof (induction n named es rule: key_limits_collect.induct)
  case (2 n named hash e es)
  have ok: "check_key_limit (snd (snd e)) = Inr ()" "length (om_put hash e named) \<le> n"
    "key_limits_collect n (om_put hash e named) es = Inr named'"
    using "2.prems"(1) by (auto simp: Let_def not_less split: if_splits sum.splits)
  have "\<forall>j x. om_get (om_put hash e named) j = Some x \<longrightarrow> check_key_limit (snd (snd x)) = Inr ()"
  proof (intro allI impI)
    fix j x assume "om_get (om_put hash e named) j = Some x"
    then have "j = hash \<and> x = e \<or> om_get named j = Some x" by (auto split: if_splits)
    then show "check_key_limit (snd (snd x)) = Inr ()" using "2.prems"(4) ok(1) by blast
  qed
  then show ?case using "2.IH" [OF ok(1) refl _ ok(3) _ ok(2)] "2.prems"(2) ok(2) by auto
qed simp

lemma key_limit_step_wf:
  assumes wf: "key_limits_wf kl" and run: "key_limit_step kl op = (r, kl')"
  shows "key_limits_wf kl' \<and> kl_max kl' = kl_max kl \<and> (\<forall>err. r = Inl err \<longrightarrow> kl' = kl)"
proof (cases op)
  case (SetKey hash e)
  then show ?thesis using wf run
    by (auto simp: key_limits_set_def key_limits_wf_def key_limits_swap_def length_om_put split: sum.splits if_splits)
next
  case (RemoveKey hash)
  then show ?thesis using wf run
    by (auto simp: key_limits_remove_def key_limits_wf_def key_limits_swap_def length_om_del split: if_splits)
next
  case (ReplaceKeys es)
  then show ?thesis using wf run key_limits_collect_spec [of "kl_max kl" "[]" es]
    by (auto simp: key_limits_replace_def key_limits_wf_def key_limits_swap_def split: sum.splits)
qed

section \<open>What is read\<close>

lemma class_lookup_given:
  assumes "class_table_wf h n t"
  shows "case om_get (ct_named t) class of
      Some (name, given, core) \<Rightarrow> class_lookup t class = (core, True) \<and> to_core given = Inr core \<and> class \<noteq> 0
    | None \<Rightarrow> class_lookup t class = (ct_default t, class = 0)"
proof (cases "om_get (ct_named t) class")
  case None
  then show ?thesis by (simp add: class_lookup_def)
next
  case (Some v)
  obtain name given core where v: "v = (name, given, core)" by (rule prod_cases3)
  have "class = class_hash h name" "name \<noteq> []" "to_core given = Inr core"
    using assms Some v by (auto simp: class_table_wf_def named_ok_def)
  moreover have "class_hash h name \<noteq> 0" using \<open>name \<noteq> []\<close> by (simp add: class_hash_zero)
  ultimately show ?thesis using Some v by (auto simp: class_lookup_def)
qed

text \<open>Two readings of one limit and its shadow: as given, and as the core takes them.\<close>

definition same_reading :: "user_limit \<times> user_limit option \<Rightarrow> resolved \<Rightarrow> bool" where
  "same_reading given r = (to_core (fst given) = Inr (rs_limit r) \<and>
     (case (snd given, rs_shadow r) of
        (None, None) \<Rightarrow> True | (Some s, Some core) \<Rightarrow> to_core s = Inr core | _ \<Rightarrow> False))"

lemma resolve_same:
  assumes wf: "class_table_wf h n t"
  shows "same_reading (class_resolve_given h t ov class key) (class_resolve h t ov class key)"
proof -
  have core: "to_core l = Inr core" if "om_get (ct_shadows t) c = Some (l, core)" for c l core
    using wf that by (auto simp: class_table_wf_def shadows_ok_def)
  have dflt: "to_core (ct_default_given t) = Inr (ct_default t)" using wf by (simp add: class_table_wf_def)
  define by_class where "by_class = (\<lambda>class. let (l, kn) = class_lookup t class; shadow_of = (if kn then class else 0)
      in \<lparr>rs_limit = l, rs_known = kn, rs_shadow = map_option snd (om_get (ct_shadows t) shadow_of)\<rparr>)"
  define given where "given = (\<lambda>class. let (l, shadow_of) = (case om_get (ct_named t) class of
          Some (name, given, core) \<Rightarrow> (given, class) | None \<Rightarrow> (ct_default_given t, 0))
      in (l, map_option fst (om_get (ct_shadows t) shadow_of)))"
  have same: "same_reading (given c) (by_class c)" for c
  proof (cases "om_get (ct_named t) c")
    case None
    then show ?thesis using class_lookup_given [OF wf, of c] dflt core
      by (cases "om_get (ct_shadows t) 0") (auto simp: same_reading_def given_def by_class_def)
  next
    case (Some v)
    then show ?thesis using class_lookup_given [OF wf, of c] core
      by (cases v; cases "om_get (ct_shadows t) c") (auto simp: same_reading_def given_def by_class_def)
  qed
  have own: "same_reading (l, None) \<lparr>rs_limit = core, rs_known = True, rs_shadow = None\<rparr>" if "to_core l = Inr core" for l core
    using that by (simp add: same_reading_def)
  show ?thesis
    unfolding class_resolve_given_def class_resolve_def
    unfolding given_def [symmetric] by_class_def [symmetric]
    unfolding Let_def
    using same own by (auto split: option.split key_limit.split sum.split)
qed

lemma limit_for_resolves:
  assumes wf: "classes_wf h cl"
  shows "class_limit_for h cl ov class key =
    (rs_limit (class_resolve h (cl_table cl) ov class key), rs_shadow (class_resolve h (cl_table cl) ov class key))"
proof (cases "cl_has_shadows cl \<or> om_has ov key")
  case False
  have "ct_shadows (cl_table cl) = []" using False wf by (simp add: classes_wf_def table_has_shadows_def)
  moreover have "om_get ov key = None" using False by (simp only: om_has_def not_not de_Morgan_disj)
  moreover have "class_limit_of cl class = fst (class_lookup (cl_table cl) class)"
    using wf by (simp add: class_limit_of_def classes_wf_def class_lookup_def)
  ultimately show ?thesis using False
    by (simp add: class_limit_for_def class_resolve_def Let_def split: prod.split)
qed (simp add: class_limit_for_def Let_def)

lemma strictest_fold:
  assumes "l = d \<or> l \<in> (snd \<circ> snd) ` set vs"
  defines "s \<equiv> foldl (\<lambda>s (name, given, l). \<lparr>l_rate = f64_min (l_rate s) (l_rate l), l_burst = min (l_burst s) (l_burst l)\<rparr>) d vs"
  shows "l_burst s \<le> l_burst l \<and> (l_rate l \<noteq> NaN \<longrightarrow> l_rate s \<noteq> NaN \<and> \<not> l_rate l < l_rate s)"
proof -
  have min: "z \<noteq> NaN \<longrightarrow> f64_min x y \<noteq> NaN \<and> \<not> z < f64_min x y" if "x \<noteq> NaN \<and> \<not> z < x \<or> y = z" for x y z :: f64
    using that by (cases x; cases y; cases z) (auto simp: f64_min_def f64_ops)
  have keep: "l_burst (foldl (\<lambda>s (name, given, l). \<lparr>l_rate = f64_min (l_rate s) (l_rate l), l_burst = min (l_burst s) (l_burst l)\<rparr>) a xs) \<le> l_burst l \<and>
      (l_rate l \<noteq> NaN \<longrightarrow> l_rate (foldl (\<lambda>s (name, given, l). \<lparr>l_rate = f64_min (l_rate s) (l_rate l), l_burst = min (l_burst s) (l_burst l)\<rparr>) a xs) \<noteq> NaN \<and>
        \<not> l_rate l < l_rate (foldl (\<lambda>s (name, given, l). \<lparr>l_rate = f64_min (l_rate s) (l_rate l), l_burst = min (l_burst s) (l_burst l)\<rparr>) a xs))"
    if "l_burst a \<le> l_burst l \<and> (l_rate l \<noteq> NaN \<longrightarrow> l_rate a \<noteq> NaN \<and> \<not> l_rate l < l_rate a) \<or> l \<in> (snd \<circ> snd) ` set xs" for a :: limit and xs :: "('x \<times> 'y \<times> limit) list"
    using that
  proof (induction xs arbitrary: a)
    case (Cons v xs)
    obtain name given m where v: "v = (name, given, m)" by (rule prod_cases3)
    let ?a = "\<lparr>l_rate = f64_min (l_rate a) (l_rate m), l_burst = min (l_burst a) (l_burst m)\<rparr>"
    have "l_burst ?a \<le> l_burst l \<and> (l_rate l \<noteq> NaN \<longrightarrow> l_rate ?a \<noteq> NaN \<and> \<not> l_rate l < l_rate ?a) \<or> l \<in> (snd \<circ> snd) ` set xs"
    proof (cases "l \<in> (snd \<circ> snd) ` set xs")
      case False
      then have "l_burst a \<le> l_burst l \<and> (l_rate l \<noteq> NaN \<longrightarrow> l_rate a \<noteq> NaN \<and> \<not> l_rate l < l_rate a) \<or> m = l"
        using Cons.prems by (auto simp: v)
      then have "l_burst ?a \<le> l_burst l" by (auto intro: min.coboundedI1 min.coboundedI2)
      moreover have "l_rate l \<noteq> NaN \<longrightarrow> l_rate ?a \<noteq> NaN \<and> \<not> l_rate l < l_rate ?a"
        using \<open>l_burst a \<le> l_burst l \<and> _ \<or> m = l\<close> min [of "l_rate a" "l_rate l" "l_rate m"] by auto
      ultimately show ?thesis by blast
    qed blast
    from Cons.IH [OF this] show ?case by (simp add: v)
  qed simp
  have "\<not> z < z" for z :: f64 by (cases z) (auto simp: f64_ops)
  then show ?thesis unfolding s_def using assms(1) by (intro keep) auto
qed

section \<open>Properties\<close>

lemma example_to_core: "to_core (limit_per_second 100) = Inr \<lparr>l_rate = limit_rate_per_sec (limit_per_second 100), l_burst = 5\<rparr>"
  by (simp add: to_core_def limit_per_second_def user_limit_new_def gcra_consts)

text \<open>
  C38. The classes. Whatever changes are made from a valid start, in any order: no more than \<open>max\<close> classes are kept, each
  under the hash of its name and with the limit the core takes for it, a shadow only for a class that is kept or the
  default, and the default and the flag beside the table agree with it. A change refused changes nothing.
\<close>

theorem classes_contract:
  assumes "to_core given = Inr dflt" "checked h cs n = Inr named"
    and "cl = fold (\<lambda>op cl. snd (class_step h cl op)) ops (classes_new h given dflt named n)"
  shows "classes_wf h cl \<and> length (classes_list cl) \<le> n \<and>
    (\<forall>op err cl'. class_step h cl op = (Inl err, cl') \<longrightarrow> cl' = cl)"
proof -
  have "classes_wf h (fold (\<lambda>op cl. snd (class_step h cl op)) ops cl0) \<and>
      cl_max (fold (\<lambda>op cl. snd (class_step h cl op)) ops cl0) = cl_max cl0" if "classes_wf h cl0" for cl0
    using that
  proof (induction ops arbitrary: cl0)
    case (Cons op ops)
    obtain r cl1 where s: "class_step h cl0 op = (r, cl1)" by force
    then show ?case using Cons.IH [of cl1] class_step_wf [OF Cons.prems s] by simp
  qed simp
  from this [OF classes_new_wf [OF assms(1,2)]] have cl: "classes_wf h cl" "cl_max cl = n"
    unfolding assms(3) by (simp_all add: classes_new_def)
  have "length (classes_list cl) \<le> n"
    using cl by (simp add: classes_list_def classes_wf_def class_table_wf_def named_ok_def)
  then show ?thesis using cl class_step_wf [OF cl(1)] by blast
qed

theorem classes_contract_witness:
  "length (classes_list (snd (class_step example_hashes (classes_new example_hashes (limit_per_second 100)
    \<lparr>l_rate = limit_rate_per_sec (limit_per_second 100), l_burst = 5\<rparr> [] 1) (SetClass [112] (limit_per_second 100))))) \<le> 1"
  using classes_contract [OF example_to_core, of example_hashes "[]" 1 "[]" _ "[SetClass [112] (limit_per_second 100)]"]
  by (simp add: checked_def)

text \<open>
  Readings agree. What is told of a key's limit and shadow as given is what the tick resolves, as the core takes
  them; the lookup of a key taking its first slot, which skips the table's lock when it can, gives the same; and no
  class's rate or burst is under the strictest.
\<close>

theorem readings_agree:
  assumes wf: "classes_wf h cl" and r: "r = class_resolve h (cl_table cl) overrides cls key"
  shows "same_reading (class_resolve_given h (cl_table cl) overrides cls key) r \<and>
    class_limit_for h cl overrides cls key = (rs_limit r, rs_shadow r) \<and>
    l_burst (strictest (cl_table cl)) \<le> l_burst (fst (class_lookup (cl_table cl) cls)) \<and>
    \<not> l_rate (fst (class_lookup (cl_table cl) cls)) < l_rate (strictest (cl_table cl))"
proof -
  let ?t = "cl_table cl"
  have t: "class_table_wf h (cl_max cl) ?t" using wf by (simp add: classes_wf_def)
  have "fst (class_lookup ?t cls) = ct_default ?t \<or> fst (class_lookup ?t cls) \<in> (snd \<circ> snd) ` set (map snd (ct_named ?t))"
    by (force simp: class_lookup_def dest: map_of_SomeD split: option.split)
  from strictest_fold [OF this]
  have s: "l_burst (strictest ?t) \<le> l_burst (fst (class_lookup ?t cls))"
    "l_rate (fst (class_lookup ?t cls)) \<noteq> NaN \<longrightarrow> \<not> l_rate (fst (class_lookup ?t cls)) < l_rate (strictest ?t)"
    unfolding strictest_def by blast+
  have "\<not> NaN < x" for x :: f64 by (cases x) (auto simp: f64_ops)
  then have "\<not> l_rate (fst (class_lookup ?t cls)) < l_rate (strictest ?t)"
    using s(2) by (cases "l_rate (fst (class_lookup ?t cls)) = NaN") simp_all
  then show ?thesis unfolding r
    using s(1) resolve_same [OF t, of overrides cls key] limit_for_resolves [OF wf, of overrides cls key] by (intro conjI)
qed

theorem readings_agree_witness:
  "class_limit_for example_hashes (classes_new example_hashes (limit_per_second 100)
     \<lparr>l_rate = limit_rate_per_sec (limit_per_second 100), l_burst = 5\<rparr> [] 1) [(7, [], [1], OwnLimit (limit_per_second 100))] 0 7 =
   (\<lparr>l_rate = limit_rate_per_sec (limit_per_second 100), l_burst = 5\<rparr>, None)"
proof -
  have "classes_wf example_hashes (classes_new example_hashes (limit_per_second 100)
      \<lparr>l_rate = limit_rate_per_sec (limit_per_second 100), l_burst = 5\<rparr> [] 1)"
    by (rule classes_new_wf [OF example_to_core, of _ "[]"]) (simp add: checked_def)
  from readings_agree [OF this refl, of "[(7, [], [1], OwnLimit (limit_per_second 100))]" 0 7]
  show ?thesis by (simp add: class_resolve_def Let_def example_to_core)
qed

text \<open>
  The limits of keys. Whatever changes are made from none: the count beside the map is its size, at most \<open>max\<close>, and
  every limit was checked. A change refused changes nothing; a whole set that is taken is the entries given, the last
  one of a key given twice.
\<close>

theorem key_limits_contract:
  assumes "kl = fold (\<lambda>op kl. snd (key_limit_step kl op)) ops (key_limits_new n)"
  shows "key_limits_wf kl \<and> kl_count kl = length (key_limits_list kl) \<and> kl_count kl \<le> n \<and>
    (\<forall>op err kl'. key_limit_step kl op = (Inl err, kl') \<longrightarrow> kl' = kl) \<and>
    (\<forall>es kl'. key_limits_replace kl es = (Inr (), kl') \<longrightarrow> kl_table kl' = fold (\<lambda>(hash, e). om_put hash e) es [])"
proof -
  have step: "key_limits_wf (fold (\<lambda>op kl. snd (key_limit_step kl op)) ops kl0) \<and>
      kl_max (fold (\<lambda>op kl. snd (key_limit_step kl op)) ops kl0) = kl_max kl0" if "key_limits_wf kl0" for kl0
    using that
  proof (induction ops arbitrary: kl0)
    case (Cons op ops)
    obtain r kl1 where s: "key_limit_step kl0 op = (r, kl1)" by force
    then show ?case using Cons.IH [of kl1] key_limit_step_wf [OF Cons.prems s] by simp
  qed simp
  have "key_limits_wf (key_limits_new n)" by (simp add: key_limits_wf_def key_limits_new_def)
  from step [OF this] have kl: "key_limits_wf kl" "kl_max kl = n" unfolding assms by (simp_all add: key_limits_new_def)
  have "kl_table kl' = fold (\<lambda>(hash, e). om_put hash e) es []" if "key_limits_replace kl es = (Inr (), kl')" for es kl'
    using that key_limits_collect_spec [of "kl_max kl" "[]" es]
    by (auto simp: key_limits_replace_def key_limits_swap_def split: sum.splits)
  moreover have "kl_count kl = length (key_limits_list kl)" "kl_count kl \<le> n"
    using kl by (simp_all add: key_limits_wf_def key_limits_list_def)
  ultimately show ?thesis using kl key_limit_step_wf [OF kl(1)] by blast
qed

theorem key_limits_contract_witness:
  "key_limits_wf (snd (key_limits_set (key_limits_new 1) 7 ([], [1], OfClass [112])))"
  using key_limits_contract [of _ "[SetKey 7 ([], [1], OfClass [112])]" 1] by simp

end
