(* ===== verification/Node_Invariant.thy ===== *)
theory Node_Invariant
  imports Limiter_Requests Node
begin

text \<open>
  The invariant of a node of \<open>rateguard-core/src/node.rs\<close>: its parts keep theirs, the demand it
  sends is within the wire limits, what it has to send fits a datagram, and it never probes itself.
  \<open>env_ok\<close> is what the node relies on outside the repository. \<open>keeps\<close> says that an operation
  returns and keeps the invariant; here for what composes and sends messages.
\<close>

section \<open>The demands a limiter reports\<close>

definition rate_wf :: "demand \<Rightarrow> bool" where
  "rate_wf d = (\<exists>r. d_rate d = Fin r \<and> 0 \<le> r \<and> r \<le> 2 ^ 95)"

definition rates_wf :: "limiter \<Rightarrow> bool" where
  "rates_wf lm = (\<forall>k st. om_get (lm_keys lm) k = Some st \<longrightarrow> rate_wf (ks_demand st))"

lemma rate_wf_simps [simp]:
  "rate_wf (record_attempt d) = rate_wf d" "rate_wf (record_attempts d n) = rate_wf d" "rate_wf (starting_at tc now)"
  by (simp_all add: rate_wf_def record_attempt_def record_attempts_def starting_at_def demand_new_def)

lemma rate_wf_tick: "exp_ok ex \<Longrightarrow> rate_wf d \<Longrightarrow> rate_wf (demand_tick ex d now)"
  using demand_tick_bounds by (fastforce simp: rate_wf_def)

lemma rates_wf_put: "rates_wf lm \<Longrightarrow> rate_wf (ks_demand st) \<Longrightarrow> rates_wf (put_key lm k st)"
  by (simp add: rates_wf_def)

lemma entry_rates: "rates_wf lm \<Longrightarrow> entry lm key l now n = Some (st, lm') \<Longrightarrow> rate_wf (ks_demand st) \<and> rates_wf lm'"
  by (auto simp: entry_def rates_wf_def Let_def split: bind_splits option.splits if_splits)

lemma check_in_rates:
  assumes "rates_wf lm" "check_in lm key l now n = Some (d, lm')"
  shows "rates_wf lm'"
proof -
  obtain st0 lm1 where e: "entry lm key l now n = Some (st0, lm1)" using assms(2) by (auto simp: check_in_def split: bind_splits)
  note w = entry_rates [OF assms(1) e]
  obtain st where "lm' = put_key lm1 key st" "ks_demand st = record_attempt (ks_demand st0)"
    using assms(2) by (auto simp: check_in_def e Let_def split: prod.splits if_splits)
  then show ?thesis using w by (simp add: rates_wf_put)
qed

lemma check_in_traced_rates:
  assumes "rates_wf lm" "check_in_traced lm key l sh now n = Some (r, lm')"
  shows "rates_wf lm'"
proof -
  obtain d lm1 where c: "check_in lm key l now n = Some (d, lm1)"
    using assms(2) by (auto simp: check_in_traced_def split: bind_splits)
  have wf: "rates_wf lm1" by (rule check_in_rates [OF assms(1) c])
  have "lm_keys lm' = lm_keys lm1 \<or> (\<exists>st st'. om_get (lm_keys lm1) key = Some st \<and> ks_demand st' = ks_demand st \<and>
      lm_keys lm' = om_put key st' (lm_keys lm1))"
  proof (cases sh)
    case None
    then show ?thesis using assms(2) by (auto simp: check_in_traced_def c)
  next
    case (Some l')
    obtain st q where st: "limit_validate l' = Some ()" "om_get (lm_keys lm1) key = Some st"
      "quota_for (rate_per_sec (ks_applied st) * l_rate l' / l_rate l) (l_burst l') = Some q"
      using assms(2) Some by (auto simp: check_in_traced_def c split: bind_splits)
    show ?thesis
    proof (cases "lm_keys lm' = lm_keys lm1")
      case False
      then have "lm_keys lm' = om_put key (st\<lparr>ks_shadow_denials := record_attempt (ks_shadow_denials st)\<rparr>) (lm_keys lm1)"
        using assms(2) unfolding check_in_traced_def Some
        by (auto simp: c st Let_def put_key_def split: prod.splits if_splits)
      moreover have "ks_demand (st\<lparr>ks_shadow_denials := record_attempt (ks_shadow_denials st)\<rparr>) = ks_demand st" by simp
      ultimately show ?thesis using st(2) by blast
    qed simp
  qed
  then show ?thesis using wf by (fastforce simp: rates_wf_def split: if_splits)
qed

lemma record_tally_rates:
  assumes "rates_wf lm" "record_tally lm key ty l now n = Some lm'"
  shows "rates_wf lm'"
proof -
  obtain st0 lm1 where e: "entry lm key l now n = Some (st0, lm1)" using assms(2) by (auto simp: record_tally_def split: bind_splits)
  show ?thesis using assms(2) entry_rates [OF assms(1) e] by (auto simp: record_tally_def e intro!: rates_wf_put)
qed

lemma tick_retain_all:
  assumes "\<forall>k st. om_get m k = Some st \<longrightarrow> P st" "\<And>st. P st \<Longrightarrow> P (tick_key ex now st)"
    and "tick_retain ex now n alpha at_peers ks m hs = Some (m', hs')"
  shows "\<forall>k st. om_get m' k = Some st \<longrightarrow> P st"
  using assms(1,3)
proof (induction ks arbitrary: m hs)
  case (Cons key ks)
  show ?case
  proof (cases "om_get m key")
    case None
    then show ?thesis using Cons by simp
  next
    case (Some st0)
    obtain m1 hs1 where m1: "tick_retain ex now n alpha at_peers ks m1 hs1 = Some (m', hs')"
      "m1 = om_put key (tick_key ex now st0) m \<or> m1 = om_del key m"
      using Cons.prems(2) Some by (auto simp: Let_def split: bind_splits prod.splits if_splits)
    have "\<forall>k st. om_get m1 k = Some st \<longrightarrow> P st"
      using m1(2) Cons.prems(1) assms(2) Some by (auto split: if_splits)
    then show ?thesis using Cons.IH m1(1) by blast
  qed
qed simp

lemma tick_quotas_all:
  assumes "\<forall>k st. om_get m k = Some st \<longrightarrow> P st" "\<And>st q. P st \<Longrightarrow> P (apply_quota st q now)"
    and "tick_quotas n now alpha beta cap at_peers shr hs ks m c = Some (m', c')"
  shows "\<forall>k st. om_get m' k = Some st \<longrightarrow> P st"
  using assms(1,3)
proof (induction ks arbitrary: m c)
  case (Cons key ks)
  show ?case
  proof (cases "om_get m key")
    case None
    then show ?thesis using Cons by simp
  next
    case (Some st0)
    obtain q c1 where m1: "tick_quotas n now alpha beta cap at_peers shr hs ks (om_put key (apply_quota st0 q now) m) c1 = Some (m', c')"
      using Cons.prems(2) Some by (auto split: bind_splits prod.splits)
    have "\<forall>k st. om_get (om_put key (apply_quota st0 q now) m) k = Some st \<longrightarrow> P st"
      using Cons.prems(1) assms(2) Some by (auto split: if_splits)
    then show ?thesis using Cons.IH m1 by blast
  qed
qed simp

lemma enforce_cap_all:
  "\<forall>k st. om_get (lm_keys lm) k = Some st \<longrightarrow> P st \<Longrightarrow>
    \<forall>k st. om_get (lm_keys (enforce_cap ex lm)) k = Some st \<longrightarrow> P st"
  by (auto simp: enforce_cap_def Let_def om_get_fold_del split: if_splits)

lemma tick_rates:
  assumes "exp_ok ex" "rates_wf lm" "tick_with_shares ex ord lm now n at_peers shr c = Some (lm', c')"
  shows "rates_wf lm'"
proof -
  let ?P = "\<lambda>st. rate_wf (ks_demand st)"
  obtain m hs m' where t: "tick_retain ex now (f64_of_nat n) (c_alpha (lm_config lm)) at_peers (ord (om_keys (lm_keys lm)))
      (lm_keys lm) (lm_hot_set lm) = Some (m, hs)"
    "tick_quotas n now (c_alpha (lm_config lm)) (c_floor_factor (lm_config lm)) (unwrap_or (lm_cap lm) PosInf) at_peers
      shr hs (ord (om_keys m)) m c = Some (m', c')"
    "lm_keys lm' = lm_keys (enforce_cap ex (lm\<lparr>lm_keys := m', lm_hot_set := hs, lm_last_tick := Some now\<rparr>))"
    using assms(3) by (auto simp: tick_with_shares_def Let_def split: bind_splits prod.splits if_splits)
  have "\<forall>k st. om_get (lm_keys lm) k = Some st \<longrightarrow> ?P st" using assms(2) by (simp add: rates_wf_def)
  then have "\<forall>k st. om_get m k = Some st \<longrightarrow> ?P st"
    by (rule tick_retain_all [OF _ _ t(1)]) (simp add: tick_key_def rate_wf_tick [OF assms(1)])
  then have "\<forall>k st. om_get m' k = Some st \<longrightarrow> ?P st"
    by (rule tick_quotas_all [OF _ _ t(2)]) (simp add: apply_quota_def)
  then have "\<forall>k st. om_get (lm_keys (lm\<lparr>lm_keys := m', lm_hot_set := hs, lm_last_tick := Some now\<rparr>)) k = Some st \<longrightarrow> ?P st"
    by simp
  then show ?thesis unfolding rates_wf_def t(3) by (rule enforce_cap_all)
qed

lemma f32_rate:
  assumes "0 \<le> r" "r \<le> 2 ^ 95"
  shows "is_rate (f32_of_f64 (Fin r))"
proof -
  have "rnd 24 (-149) r \<le> rnd 24 (-149) (2 powi 95)" using assms(2) by (intro rnd_mono) auto
  also have "\<dots> = 2 powi 95" by (rule rnd_pow2) auto
  finally have "rnd 24 (-149) r \<le> 2 ^ 95" by simp
  moreover have "(2::rat) ^ 95 < 2 powi 128" by simp
  ultimately have "rnd 24 (-149) r < 2 powi 128" by linarith
  moreover have "0 \<le> rnd 24 (-149) r" by (rule rnd_nonneg [OF assms(1)])
  moreover have "- (2 powi 128) < (0 :: rat)" by simp
  ultimately have "f32_of_f64 (Fin r) = Fin (rnd 24 (-149) r)"
    by (simp add: f32_of_f64_def f32_of_rat_def to_float_def Let_def not_le)
  then show ?thesis using \<open>0 \<le> rnd 24 (-149) r\<close> by (simp add: is_rate_def is_finite_def)
qed

text \<open>The demand a node may send: no more keys than a report carries, each at a rate.\<close>

definition demand_ok :: "key_demand list \<Rightarrow> bool" where
  "demand_ok ks = (length ks \<le> MAX_DEMAND_KEYS \<and> list_all (is_rate \<circ> kd_demand) ks)"

lemma config_validate_hot: "config_validate c = Some () \<Longrightarrow> c_hot_set_size c \<le> MAX_HOT_KEYS"
  by (auto simp: config_validate_def)

lemma hot_demand_ok:
  assumes wf: "limiter_wf lm" and rates: "rates_wf lm"
  shows "demand_ok (map (\<lambda>(key, rate, primary). \<lparr>kd_key = key, kd_demand = f32_of_f64 rate, kd_primary = primary\<rparr>) (hot_demand lm))"
proof -
  note d = limiter_wfD [OF wf]
  let ?hot = "filter (\<lambda>(key, st). is_hot (lm_hot_set lm) key) (lm_keys lm)"
  let ?rep = "map (\<lambda>(key, st). (key, d_rate (ks_demand st), is_primary (lm_hot_set lm) key)) ?hot"
  have om: "om_wf (lm_keys lm)" using d(2) by (simp add: keys_wf_def)
  have "set (map fst ?hot) \<subseteq> set (om_keys (hs_hot (lm_hot_set lm)))" by (force simp: is_hot_def om_has_keys)
  moreover have "distinct (map fst ?hot)" by (intro distinct_map_filter om_wf_distinct om)
  ultimately have "length (map fst ?hot) \<le> length (om_keys (hs_hot (lm_hot_set lm)))" by (intro distinct_length_mono)
  also have "\<dots> \<le> MAX_HOT_KEYS" using d(3,4) config_validate_hot [OF d(1)] by (simp add: hot_wf_def hot_len_def)
  finally have len: "length (hot_demand lm) \<le> MAX_DEMAND_KEYS"
    by (simp add: hot_demand_def MAX_HOT_KEYS_def MAX_DEMAND_KEYS_def)
  have "is_rate (f32_of_f64 rate)" if "(key, rate, primary) \<in> set (hot_demand lm)" for key rate primary
  proof -
    have "set_mset (mset (hot_demand lm)) = set_mset (mset ?rep)" unfolding hot_demand_def mset_sort_by by (rule refl)
    then have "set (hot_demand lm) = set ?rep" by (simp only: set_mset_mset)
    then have "(key, rate, primary) \<in> set ?rep" using that by simp
    then obtain st where "(key, st) \<in> set (lm_keys lm)" "rate = d_rate (ks_demand st)" by auto
    then have "rate_wf (ks_demand st)" using rates om by (simp add: rates_wf_def om_wf_distinct)
    then show ?thesis using \<open>rate = d_rate (ks_demand st)\<close> f32_rate by (auto simp: rate_wf_def)
  qed
  then have "is_rate (f32_of_f64 (fst (snd e)))" if "e \<in> set (hot_demand lm)" for e
    using that by (cases e) auto
  then have "list_all (\<lambda>e. is_rate (f32_of_f64 (fst (snd e)))) (hot_demand lm)" by (simp add: list_all_iff)
  then show ?thesis using len by (simp add: demand_ok_def list_all_length case_prod_beta)
qed

section \<open>What a node takes from outside\<close>

text \<open>The logarithm of a cluster size is a number of rounds; every size an address space holds has one under 400.\<close>

definition log10_ok :: "(f64 \<Rightarrow> f64) \<Rightarrow> bool" where
  "log10_ok lg = (\<forall>n. \<exists>y. lg (f64_of_nat n) = Fin y \<and> 0 \<le> y \<and> y \<le> 400)"

text \<open>A message within the limits of the wire format serialises, and fits a datagram.\<close>

definition messages_fit :: "(message \<Rightarrow> bytes option) \<Rightarrow> bool" where
  "messages_fit enc = (\<forall>m. check_limits m = Inr () \<longrightarrow> (\<exists>bytes. enc m = Some bytes \<and> length bytes \<le> MAX_DATAGRAM))"

definition env_ok :: "env \<Rightarrow> bool" where
  "env_ok env = (exp_ok (e_exp env) \<and> log10_ok (e_log10 env) \<and> (\<forall>xs. set (e_order env xs) = set xs) \<and>
     messages_fit (e_to_allocvec env))"

lemma retransmit_limit_total:
  assumes "log10_ok lg" "0 < n"
  shows "\<exists>lmt. retransmit_limit lg n = Some lmt \<and> 0 < lmt"
proof -
  obtain y where y: "lg (f64_of_nat (n + 1)) = Fin y" "0 \<le> y" "y \<le> 400" using assms(1) by (auto simp: log10_ok_def)
  let ?w = "word_of_f64 (f64_ceil (Fin y)) :: u32"
  have c: "0 \<le> \<lceil>y\<rceil>" "\<lceil>y\<rceil> \<le> 400" using y(2,3) by (simp_all add: ceiling_le_iff)
  then have "unat ?w \<le> 400"
  proof (cases "y = 0")
    case True
    then show ?thesis by (simp add: f64_ceil_def word_of_f64_def)
  next
    case False
    then have "?w = of_int \<lceil>y\<rceil>" using c y(2) by (auto simp: f64_ceil_def word_of_f64_def)
    then have "uint ?w = \<lceil>y\<rceil> mod 2 ^ 32" by (simp add: uint_word_of_int)
    also have "\<dots> = \<lceil>y\<rceil>" using c by (intro mod_pos_pos_trivial) simp_all
    finally have "uint ?w \<le> 400" using c(2) by linarith
    then show ?thesis unfolding unat_eq_nat_uint nat_le_iff by simp
  qed
  then have "1 \<le> unat (max ?w 1)" "unat (max ?w 1) \<le> 400" by (simp_all add: unat_max)
  then have "unat (RETRANSMIT_MULT * max ?w 1) = 4 * unat (max ?w 1)"
    by (simp add: RETRANSMIT_MULT_def unat_word_ariths)
  then have "0 < RETRANSMIT_MULT * max ?w 1" using \<open>1 \<le> unat (max ?w 1)\<close> by (simp add: word_less_nat_alt)
  then show ?thesis using assms(2) y(1) by (simp add: retransmit_limit_def)
qed

section \<open>Invariant\<close>

fun action_ok :: "action \<Rightarrow> bool" where
  "action_ok (SendTo peer bytes) = (length bytes \<le> MAX_DATAGRAM)"

definition node_wf :: "node \<Rightarrow> bool" where
  "node_wf s = (limiter_wf (n_limiter s) \<and> rates_wf (n_limiter s) \<and> table_wf (n_members s) \<and> gossip_wf (n_gossip s) \<and>
     peers_wf (n_peer_demand s) \<and> swim_validate (n_swim s) = Some () \<and> n_next s \<le> length (n_order s) \<and>
     demand_ok (n_own_demand s) \<and> (\<forall>pr. n_probe s = Some pr \<longrightarrow> pr_target pr \<noteq> mt_local (n_members s)) \<and>
     list_all action_ok (n_actions s))"

lemma node_wfD:
  assumes "node_wf s"
  shows "limiter_wf (n_limiter s)" "rates_wf (n_limiter s)" "table_wf (n_members s)" "gossip_wf (n_gossip s)"
    "peers_wf (n_peer_demand s)" "swim_validate (n_swim s) = Some ()" "n_next s \<le> length (n_order s)"
    "demand_ok (n_own_demand s)" "n_probe s = Some pr \<Longrightarrow> pr_target pr \<noteq> mt_local (n_members s)"
    "list_all action_ok (n_actions s)"
  using assms by (auto simp: node_wf_def)

text \<open>What no event changes: who the node is, its timeouts, the clock and whether it left.\<close>

definition same_node :: "node \<Rightarrow> node \<Rightarrow> bool" where
  "same_node s s' = (mt_local (n_members s') = mt_local (n_members s) \<and> n_swim s' = n_swim s \<and>
     n_last_now s' = n_last_now s \<and> n_left s' = n_left s \<and> n_seeds s' = n_seeds s)"

lemma same_node_refl [simp]: "same_node s s"
  by (simp add: same_node_def)

lemma same_node_trans: "same_node a b \<Longrightarrow> same_node b c \<Longrightarrow> same_node a c"
  by (simp add: same_node_def)

definition keeps :: "node \<Rightarrow> node option \<Rightarrow> bool" where
  "keeps s r = (\<exists>s'. r = Some s' \<and> node_wf s' \<and> same_node s s')"

lemma keeps_Some [simp]: "keeps s (Some s') \<longleftrightarrow> node_wf s' \<and> same_node s s'"
  by (simp add: keeps_def)

lemma keeps_bind:
  "keeps s r \<Longrightarrow> (\<And>s'. r = Some s' \<Longrightarrow> node_wf s' \<Longrightarrow> same_node s s' \<Longrightarrow> keeps s (f s')) \<Longrightarrow> keeps s (r \<bind> f)"
  by (auto simp: keeps_def)

lemma keeps_from: "keeps s' r \<Longrightarrow> same_node s s' \<Longrightarrow> keeps s r"
  using same_node_trans by (auto simp: keeps_def)

text \<open>Fields the invariant does not speak of.\<close>

lemma node_wf_simps [simp]:
  "node_wf (s\<lparr>n_rng := a1\<rparr>) = node_wf s" "node_wf (s\<lparr>n_seeds := a2\<rparr>) = node_wf s"
  "node_wf (s\<lparr>n_seq := a4\<rparr>) = node_wf s" "node_wf (s\<lparr>n_relays := a5\<rparr>) = node_wf s"
  "node_wf (s\<lparr>n_next_round_at := a6\<rparr>) = node_wf s" "node_wf (s\<lparr>n_next_reconnect_at := a7\<rparr>) = node_wf s"
  "node_wf (s\<lparr>n_last_round := a8\<rparr>) = node_wf s" "node_wf (s\<lparr>n_last_now := a9\<rparr>) = node_wf s"
  "node_wf (s\<lparr>n_round_number := b1\<rparr>) = node_wf s" "node_wf (s\<lparr>n_policy := b2\<rparr>) = node_wf s"
  "node_wf (s\<lparr>n_sizes := b3\<rparr>) = node_wf s" "node_wf (s\<lparr>n_held_size := b4\<rparr>) = node_wf s"
  "node_wf (s\<lparr>n_quorum_size := b5\<rparr>) = node_wf s" "node_wf (s\<lparr>n_quorum_memory := b6\<rparr>) = node_wf s"
  "node_wf (s\<lparr>n_without_quorum_since := b7\<rparr>) = node_wf s" "node_wf (s\<lparr>n_floored_until := b8\<rparr>) = node_wf s"
  "node_wf (s\<lparr>n_joined_at := b9\<rparr>) = node_wf s" "node_wf (s\<lparr>n_expects_peers := c1\<rparr>) = node_wf s"
  "node_wf (s\<lparr>n_last_heard := c2\<rparr>) = node_wf s" "node_wf (s\<lparr>n_reported := c3\<rparr>) = node_wf s"
  "node_wf (s\<lparr>n_behind := c4\<rparr>) = node_wf s" "node_wf (s\<lparr>n_introducing := c5\<rparr>) = node_wf s"
  "node_wf (s\<lparr>n_recent_shares := c6\<rparr>) = node_wf s" "node_wf (s\<lparr>n_left := c7\<rparr>) = node_wf s"
  "node_wf (s\<lparr>n_held := c8\<rparr>) = node_wf s" "node_wf (s\<lparr>n_identity_conflicts := c9\<rparr>) = node_wf s"
  "node_wf (s\<lparr>n_last_refused_at := d1\<rparr>) = node_wf s"
  by (simp_all add: node_wf_def)

lemma same_node_simps [simp]:
  "same_node s (t\<lparr>n_rng := a1\<rparr>) = same_node s t" "same_node s (t\<lparr>n_order := a2\<rparr>) = same_node s t"
  "same_node s (t\<lparr>n_next := a3\<rparr>) = same_node s t" "same_node s (t\<lparr>n_seq := a4\<rparr>) = same_node s t"
  "same_node s (t\<lparr>n_relays := a5\<rparr>) = same_node s t" "same_node s (t\<lparr>n_probe := a6\<rparr>) = same_node s t"
  "same_node s (t\<lparr>n_next_round_at := a7\<rparr>) = same_node s t" "same_node s (t\<lparr>n_next_reconnect_at := a8\<rparr>) = same_node s t"
  "same_node s (t\<lparr>n_last_round := a9\<rparr>) = same_node s t" "same_node s (t\<lparr>n_actions := b1\<rparr>) = same_node s t"
  "same_node s (t\<lparr>n_peer_demand := b2\<rparr>) = same_node s t" "same_node s (t\<lparr>n_round_number := b3\<rparr>) = same_node s t"
  "same_node s (t\<lparr>n_own_demand := b4\<rparr>) = same_node s t" "same_node s (t\<lparr>n_sizes := b5\<rparr>) = same_node s t"
  "same_node s (t\<lparr>n_held_size := b6\<rparr>) = same_node s t" "same_node s (t\<lparr>n_quorum_size := b7\<rparr>) = same_node s t"
  "same_node s (t\<lparr>n_without_quorum_since := b8\<rparr>) = same_node s t" "same_node s (t\<lparr>n_floored_until := b9\<rparr>) = same_node s t"
  "same_node s (t\<lparr>n_joined_at := c1\<rparr>) = same_node s t" "same_node s (t\<lparr>n_last_heard := c2\<rparr>) = same_node s t"
  "same_node s (t\<lparr>n_reported := c3\<rparr>) = same_node s t" "same_node s (t\<lparr>n_behind := c4\<rparr>) = same_node s t"
  "same_node s (t\<lparr>n_introducing := c5\<rparr>) = same_node s t" "same_node s (t\<lparr>n_recent_shares := c6\<rparr>) = same_node s t"
  "same_node s (t\<lparr>n_held := c7\<rparr>) = same_node s t" "same_node s (t\<lparr>n_identity_conflicts := c8\<rparr>) = same_node s t"
  "same_node s (t\<lparr>n_last_refused_at := c9\<rparr>) = same_node s t" "same_node s (t\<lparr>n_limiter := d1\<rparr>) = same_node s t"
  "same_node s (t\<lparr>n_gossip := d2\<rparr>) = same_node s t"
  "same_node s (t\<lparr>n_policy := d4\<rparr>) = same_node s t" "same_node s (t\<lparr>n_expects_peers := d5\<rparr>) = same_node s t"
  by (simp_all add: same_node_def)

lemma node_wf_with:
  "node_wf s \<Longrightarrow> gossip_wf g \<Longrightarrow> node_wf (s\<lparr>n_gossip := g\<rparr>)"
  "node_wf s \<Longrightarrow> peers_wf pd \<Longrightarrow> node_wf (s\<lparr>n_peer_demand := pd\<rparr>)"
  "node_wf s \<Longrightarrow> limiter_wf lm \<Longrightarrow> rates_wf lm \<Longrightarrow> node_wf (s\<lparr>n_limiter := lm\<rparr>)"
  "node_wf s \<Longrightarrow> table_wf mt \<Longrightarrow> mt_local mt = mt_local (n_members s) \<Longrightarrow> node_wf (s\<lparr>n_members := mt\<rparr>)"
  "node_wf s \<Longrightarrow> demand_ok ks \<Longrightarrow> node_wf (s\<lparr>n_own_demand := ks\<rparr>)"
  "node_wf s \<Longrightarrow> node_wf (s\<lparr>n_probe := None\<rparr>)"
  "node_wf s \<Longrightarrow> pr_target pr \<noteq> mt_local (n_members s) \<Longrightarrow> node_wf (s\<lparr>n_probe := Some pr\<rparr>)"
  "node_wf s \<Longrightarrow> node_wf (s\<lparr>n_actions := []\<rparr>)"
  "node_wf s \<Longrightarrow> n \<le> length ps \<Longrightarrow> node_wf (s\<lparr>n_order := ps, n_next := n\<rparr>)"
  by (simp_all add: node_wf_def)

section \<open>Messages within the limits\<close>

definition reports_ok :: "demand_report list \<Rightarrow> bool" where
  "reports_ok ds = (length ds \<le> MAX_REPORTS \<and> list_all report_ok ds)"

lemma check_limits_iff: "check_limits m = Inr () \<longleftrightarrow> length (updates_of m) \<le> MAX_UPDATES \<and> reports_ok (demand_of m)"
proof -
  consider "demand_of m = []" | r where "demand_of m = [r]" | r r' rs where "demand_of m = r # r' # rs"
    by (metis neq_Nil_conv)
  then show ?thesis
  proof cases
    case 1
    then show ?thesis by (auto simp: check_limits_def reports_ok_def Let_def MAX_REPORTS_def)
  next
    case 2
    then show ?thesis by (auto simp: check_limits_def reports_ok_def report_ok_def Let_def MAX_REPORTS_def)
  next
    case 3
    then show ?thesis by (auto simp: check_limits_def reports_ok_def Let_def MAX_REPORTS_def)
  qed
qed

lemma outgoing_demand_ok: "node_wf s \<Longrightarrow> reports_ok (outgoing_demand s)"
  using node_wfD(8) [of s] by (simp add: reports_ok_def outgoing_demand_def report_ok_def demand_ok_def MAX_REPORTS_def)

lemma decode_ok: "decode parse bytes = Inr m \<Longrightarrow> length (updates_of m) \<le> MAX_UPDATES \<and> reports_ok (demand_of m)"
  using check_limits_iff [of m] by (auto simp: decode_def split: if_splits option.splits prod.splits sum.splits)

section \<open>Sending\<close>

lemma send_msg_keeps:
  assumes "node_wf s" "env_ok env" "length (updates_of m) \<le> MAX_UPDATES" "reports_ok (demand_of m)"
  shows "keeps s (send_msg env s peer m)"
proof -
  have lim: "check_limits m = Inr ()" using assms(3,4) by (simp add: check_limits_iff)
  obtain bytes where b: "e_to_allocvec env m = Some bytes" "length bytes \<le> MAX_DATAGRAM"
    using assms(2) lim by (auto simp: env_ok_def messages_fit_def)
  have "send_msg env s peer m = Some (s\<lparr>n_actions := n_actions s @ [SendTo peer bytes]\<rparr>)"
    using lim b by (simp add: send_msg_def encode_def not_less)
  moreover have "node_wf (s\<lparr>n_actions := n_actions s @ [SendTo peer bytes]\<rparr>)" using assms(1) b(2) by (simp add: node_wf_def)
  ultimately show ?thesis by simp
qed

lemma push_gossip_keeps:
  assumes "node_wf s"
  shows "keeps s (push_gossip s u)"
proof -
  note g = node_wfD(4) [OF assms]
  obtain b g' where p: "push_news (n_gossip s) u = Some (b, g')"
    using push_news_total [OF g, of u] by (auto split: if_splits)
  then have "gossip_wf g'" using g by (auto simp: push_news_total [OF g] gossip_wf_put split: if_splits)
  then show ?thesis using p node_wf_with(1) [OF assms] by (simp add: push_gossip_def)
qed

lemma introduce_loop_spec:
  "introduce_loop mt dest latest us = (us', latest', told) \<Longrightarrow> length us \<le> MAX_UPDATES \<Longrightarrow>
    length us' \<le> MAX_UPDATES \<and> (\<exists>extra. us' = us @ extra)"
proof (induction mt dest latest us arbitrary: us' rule: introduce_loop.induct)
  case (1 mt dest latest us)
  show ?case
  proof (cases "length us < MAX_UPDATES")
    case True
    show ?thesis
    proof (cases "next_live_after mt latest")
      case None
      then show ?thesis using True "1.prems" by (subst (asm) introduce_loop.simps) simp
    next
      case (Some u)
      let ?us = "if u_member u \<noteq> dest \<and> list_all (\<lambda>v. u_member v \<noteq> u_member u) us then us @ [u] else us"
      have "introduce_loop mt dest (Some (u_member u)) ?us = (us', latest', told)"
        using True Some "1.prems"(1) by (subst (asm) introduce_loop.simps) simp
      moreover have "length ?us \<le> MAX_UPDATES" using True by simp
      ultimately obtain extra where "length us' \<le> MAX_UPDATES" "us' = ?us @ extra"
        using "1.IH" [OF True Some] by blast
      then show ?thesis by auto
    qed
  next
    case False
    then show ?thesis using "1.prems" by (subst (asm) introduce_loop.simps) simp
  qed
qed

text \<open>What a message carries about the peer it goes to.\<close>

definition accusation :: "node \<Rightarrow> peer_id \<Rightarrow> update option" where
  "accusation s dest = (case update_about (n_members s) dest of None \<Rightarrow> None
    | Some u \<Rightarrow> if u_status u \<noteq> status.Alive \<or> om_has (n_behind s) dest then Some u else None)"

text \<open>Every message opens with the sender's own record and holds at most \<open>MAX_UPDATES\<close>.\<close>

lemma outgoing_spec:
  assumes s: "node_wf s" and env: "env_ok env"
  shows "\<exists>us s'. outgoing env s dest = Some (us, s') \<and> length us \<le> MAX_UPDATES \<and> node_wf s' \<and> same_node s s' \<and>
    n_probe s' = n_probe s \<and> n_members s' = n_members s \<and> n_limiter s' = n_limiter s \<and>
    (\<exists>rest. us = own_update (n_members s) # rest) \<and> (\<forall>u. accusation s dest = Some u \<longrightarrow> u \<in> set us)"
proof -
  let ?own = "own_update (n_members s)"
  let ?acc = "accusation s dest"
  define room where "room = MAX_UPDATES - 1 - (if ?acc \<noteq> None then 1 else 0)"
  have own: "update_about (n_members s) (mt_local (n_members s)) = Some ?own" by (simp add: update_about_def)
  have pos: "0 < node_cluster_size s" by (simp add: node_cluster_size_def table_cluster_size_def cluster_size_of_def)
  obtain lmt where lmt: "retransmit_limit (e_log10 env) (node_cluster_size s) = Some lmt" "0 < lmt"
    using retransmit_limit_total [OF _ pos, of "e_log10 env"] env by (auto simp: env_ok_def)
  obtain g where g: "take_news (n_gossip s) room lmt =
      Some (map (\<lambda>m. p_update (the (om_get (n_gossip s) m))) (chosen (n_gossip s) room), g)" "gossip_wf g"
    using take_news_spec [OF node_wfD(4) [OF s] lmt(2)] by blast
  define news where "news = map (\<lambda>m. p_update (the (om_get (n_gossip s) m))) (chosen (n_gossip s) room)"
  define us1 where "us1 = ?own # filter (\<lambda>u. u \<noteq> ?own) news"
  define us2 where "us2 = (case ?acc of Some a \<Rightarrow> if a \<notin> set us1 then us1 @ [a] else us1 | None \<Rightarrow> us1)"
  let ?s1 = "s\<lparr>n_gossip := g\<rparr>"
  have s1: "node_wf ?s1" by (rule node_wf_with(1) [OF s g(2)])
  have "length news \<le> room" by (simp add: news_def length_chosen)
  then have "length (filter (\<lambda>u. u \<noteq> ?own) news) \<le> room" using length_filter_le order_trans by blast
  then have "length us1 \<le> 1 + room" by (simp add: us1_def)
  then have len: "length us2 \<le> MAX_UPDATES" by (auto simp: us2_def room_def MAX_UPDATES_def split: option.split)
  have head: "(\<exists>rest. us2 = ?own # rest) \<and> (\<forall>u. ?acc = Some u \<longrightarrow> u \<in> set us2)" by (auto simp: us2_def us1_def split: option.split)
  have out: "outgoing env s dest = Some (case om_get (n_introducing ?s1) dest of
        None \<Rightarrow> (us2, ?s1)
      | Some start \<Rightarrow>
          let (updates3, latest, all_told) = introduce_loop (n_members ?s1) dest start us2
          in (updates3, ?s1\<lparr>n_introducing :=
               (if all_told then om_del dest (n_introducing ?s1)
                else om_put dest latest (n_introducing ?s1))\<rparr>))"
    unfolding outgoing_def own Option.bind.simps Let_def accusation_def [symmetric] lmt(1) room_def [symmetric] g(1) prod.case
      news_def [symmetric] us1_def [symmetric] us2_def [symmetric] by (rule refl)
  show ?thesis
  proof (cases "om_get (n_introducing ?s1) dest")
    case None
    then show ?thesis using out len s1 head by simp
  next
    case (Some start)
    obtain us3 latest all_told where i: "introduce_loop (n_members ?s1) dest start us2 = (us3, latest, all_told)"
      by (rule prod_cases3)
    obtain extra where "length us3 \<le> MAX_UPDATES" "us3 = us2 @ extra" using introduce_loop_spec [OF i len] by blast
    then show ?thesis using out Some i s1 head by auto
  qed
qed

lemma next_seq_wf [simp]: "node_wf (snd (next_seq s)) = node_wf s" "same_node t (snd (next_seq s)) = same_node t s"
  "n_members (snd (next_seq s)) = n_members s"
  by (simp_all add: next_seq_def Let_def)

lemma ping_keeps:
  assumes s: "node_wf s" and env: "env_ok env" and target: "target \<noteq> mt_local (n_members s)"
  shows "keeps s (ping env s target now)"
proof -
  obtain seq s1 where q: "next_seq s = (seq, s1)" by force
  then have "s1 = snd (next_seq s)" by simp
  then have s1: "node_wf s1" "same_node s s1" "n_members s1 = n_members s" using s by simp_all
  let ?s2 = "s1\<lparr>n_probe := Some \<lparr>pr_target = target, pr_seq = seq, pr_sent_at = now, pr_helpers = None\<rparr>\<rparr>"
  have "node_wf ?s2" using s1 target by (intro node_wf_with(7)) simp_all
  then obtain us s3 where o: "outgoing env ?s2 target = Some (us, s3)" "length us \<le> MAX_UPDATES" "node_wf s3" "same_node ?s2 s3"
    using outgoing_spec [OF _ env] by blast
  have "same_node s s3" using same_node_trans [OF _ o(4), of s] s1(2) by simp
  moreover have "keeps s3 (send_msg env s3 target (Ping seq us (outgoing_demand s3)))"
    by (rule send_msg_keeps [OF o(3) env]) (simp_all add: o(2) outgoing_demand_ok [OF o(3)])
  ultimately show ?thesis by (simp add: ping_def q Let_def o(1) keeps_from)
qed

lemma ack_keeps:
  assumes s: "node_wf s" and env: "env_ok env"
  shows "keeps s (ack env s dest seq)"
proof -
  obtain us s1 where o: "outgoing env s dest = Some (us, s1)" "length us \<le> MAX_UPDATES" "node_wf s1" "same_node s s1"
    using outgoing_spec [OF s env] by blast
  have "keeps s1 (send_msg env s1 dest (Ack seq us (outgoing_demand s1)))"
    by (rule send_msg_keeps [OF o(3) env]) (simp_all add: o(2) outgoing_demand_ok [OF o(3)])
  then show ?thesis using o(4) by (simp add: ack_def o(1) keeps_from)
qed

lemma relay_ping_keeps:
  assumes s: "node_wf s" and env: "env_ok env"
  shows "keeps s (relay_ping env s requester seq target now)"
proof (cases "target = mt_local (n_members s)")
  case True
  then show ?thesis using ack_keeps [OF assms] by (simp add: relay_ping_def)
next
  case False
  obtain own s1 where q: "next_seq s = (own, s1)" by force
  then have "s1 = snd (next_seq s)" by simp
  then have s1: "node_wf s1" "same_node s s1" using s by simp_all
  let ?s2 = "s1\<lparr>n_relays := om_put own \<lparr>re_requester = requester, re_seq = seq, re_target = target,
      re_expires_at = now + sw_protocol_period (n_swim s1)\<rparr> (n_relays s1)\<rparr>"
  have s2: "node_wf ?s2" using s1(1) by simp
  obtain us s3 where o: "outgoing env ?s2 target = Some (us, s3)" "length us \<le> MAX_UPDATES" "node_wf s3" "same_node ?s2 s3"
    using outgoing_spec [OF s2 env] by blast
  have "same_node s s3" using same_node_trans [OF _ o(4), of s] s1(2) by simp
  moreover have "keeps s3 (send_msg env s3 target (Ping own us (outgoing_demand s3)))"
    by (rule send_msg_keeps [OF o(3) env]) (simp_all add: o(2) outgoing_demand_ok [OF o(3)])
  ultimately show ?thesis using False by (simp add: relay_ping_def q Let_def o(1) keeps_from)
qed

lemma send_ping_reqs_keeps:
  assumes "node_wf s" and env: "env_ok env"
  shows "keeps s (send_ping_reqs env s seq target hs) \<and>
    (\<forall>s'. send_ping_reqs env s seq target hs = Some s' \<longrightarrow> n_probe s' = n_probe s \<and> n_members s' = n_members s)"
  using assms(1)
proof (induction hs arbitrary: s)
  case (Cons h hs)
  obtain us s1 where o: "outgoing env s h = Some (us, s1)" "length us \<le> MAX_UPDATES" "node_wf s1" "same_node s s1"
    "n_probe s1 = n_probe s" "n_members s1 = n_members s"
    using outgoing_spec [OF Cons.prems env] by blast
  have "keeps s1 (send_msg env s1 h (PingReq seq target us (outgoing_demand s1)))"
    by (rule send_msg_keeps [OF o(3) env]) (simp_all add: o(2) outgoing_demand_ok [OF o(3)])
  then obtain s2 where s2: "send_msg env s1 h (PingReq seq target us (outgoing_demand s1)) = Some s2" "node_wf s2" "same_node s1 s2"
    by (auto simp: keeps_def)
  have f: "n_probe s2 = n_probe s1" "n_members s2 = n_members s1"
    using s2(1) by (auto simp: send_msg_def split: option.splits sum.splits)
  have "send_ping_reqs env s seq target (h # hs) = send_ping_reqs env s2 seq target hs" by (simp add: o(1) s2(1))
  moreover have "same_node s s2" using o(4) s2(3) by (rule same_node_trans)
  ultimately show ?case using Cons.IH [OF s2(2)] f o(5,6) keeps_from by auto
qed simp

end
