(* ===== verification/Node_Protocol.thy ===== *)
theory Node_Protocol
  imports Node_Invariant
begin

text \<open>
  Every step of the protocol of \<open>rateguard-core/src/node.rs\<close> returns and keeps the invariant of the
  node: the round, the escalation of a probe, and everything that receiving a datagram does.
\<close>

section \<open>The round\<close>

lemma take_live_from_spec:
  "take_live_from live ps i = (p, j) \<Longrightarrow> j \<le> i + length ps \<and> (\<forall>q. p = Some q \<longrightarrow> q \<in> set live)"
proof (induction ps arbitrary: i)
  case (Cons a ps)
  show ?case
  proof (cases "binary_search live a")
    case (Inl b)
    then show ?thesis using Cons.IH [of "Suc i"] Cons.prems by simp
  next
    case (Inr b)
    then have "a \<in> set live" by (auto simp: binary_search_def Let_def split: if_splits)
    then show ?thesis using Inr Cons.prems by auto
  qed
qed simp

lemma take_live_spec:
  assumes "node_wf s" "take_live s = (p, s')"
  shows "node_wf s' \<and> same_node s s' \<and> n_members s' = n_members s \<and> (\<forall>q. p = Some q \<longrightarrow> q \<noteq> mt_local (n_members s))"
proof -
  obtain j where t: "take_live_from (mt_live (n_members s)) (drop (n_next s) (n_order s)) (n_next s) = (p, j)" "s' = s\<lparr>n_next := j\<rparr>"
    using assms(2) by (auto simp: take_live_def Let_def split: prod.splits)
  note sp = take_live_from_spec [OF t(1)]
  have "mt_local (n_members s) \<notin> set (mt_live (n_members s))"
    using table_wfD(2,4) [OF node_wfD(3) [OF assms(1)]] by simp
  moreover have "j \<le> length (n_order s)" using sp node_wfD(7) [OF assms(1)] by simp
  ultimately show ?thesis using sp assms(1) by (auto simp: t(2) node_wf_def same_node_def)
qed

lemma next_target_spec:
  assumes "node_wf s" "next_target s = (p, s')"
  shows "node_wf s' \<and> same_node s s' \<and> n_members s' = n_members s \<and> (\<forall>q. p = Some q \<longrightarrow> q \<noteq> mt_local (n_members s))"
proof -
  obtain p1 s1 where t: "take_live s = (p1, s1)" by force
  note sp = take_live_spec [OF assms(1) t]
  show ?thesis
  proof (cases p1)
    case (Some q)
    then show ?thesis using sp assms(2) by (auto simp: next_target_def t)
  next
    case None
    obtain order r where sh: "shuffle (n_rng s1) (mt_live (n_members s1)) = (order, r)" by force
    let ?s2 = "s1\<lparr>n_order := order, n_rng := r, n_next := 0\<rparr>"
    have "?s2 = s1\<lparr>n_order := order, n_next := 0\<rparr>\<lparr>n_rng := r\<rparr>" by simp
    then have "node_wf ?s2" using node_wf_with(9) [of s1 0 order] sp by (simp only: node_wf_simps)
    moreover have "take_live ?s2 = (p, s')" using assms(2) None by (simp add: next_target_def t sh)
    ultimately have "node_wf s' \<and> same_node ?s2 s' \<and> n_members s' = n_members ?s2 \<and>
        (\<forall>q. p = Some q \<longrightarrow> q \<noteq> mt_local (n_members ?s2))" by (rule take_live_spec)
    then show ?thesis using sp by (auto simp: same_node_def)
  qed
qed

lemma random_lost_spec:
  assumes "node_wf s" "random_lost s = (p, s')"
  shows "node_wf s' \<and> same_node s s' \<and> n_members s' = n_members s \<and> (\<forall>q. p = Some q \<longrightarrow> q \<noteq> mt_local (n_members s))"
proof -
  define lost where "lost = dead_members (n_members s) @
      filter (\<lambda>seed. status_of (n_members s) seed = None) (map fst (n_seeds s))"
  have loc: "mt_local (n_members s) \<notin> set lost"
  proof -
    have "mt_local (n_members s) \<notin> set (om_keys (mt_members (n_members s)))"
      using node_wfD(3) [OF assms(1)] by (simp add: table_wf_def om_has_keys)
    then show ?thesis by (force simp: lost_def dead_members_def status_of_def)
  qed
  show ?thesis
  proof (cases "lost = []")
    case True
    then show ?thesis using assms by (auto simp: random_lost_def Let_def lost_def [symmetric])
  next
    case False
    obtain pick r where u: "up_to (n_rng s) (of_nat (length lost) - 1) = (pick, r)" by force
    have r: "p = Some (lost ! unat pick)" "s' = s\<lparr>n_rng := r\<rparr>"
      using assms(2) False by (simp_all add: random_lost_def Let_def lost_def [symmetric] u)
    have "unat pick < length lost"
    proof -
      have "pick \<le> of_nat (length lost) - 1" using up_to_le [of "n_rng s" "of_nat (length lost) - 1"] u by simp
      then have "unat pick \<le> unat (of_nat (length lost) - 1 :: u64)" by (simp add: word_le_nat_alt)
      moreover have "of_nat (length lost) - 1 = (of_nat (length lost - 1) :: u64)" using False by (simp add: of_nat_diff Suc_le_eq)
      ultimately have "unat pick \<le> (length lost - 1) mod 2 ^ 64" by (simp add: unat_of_nat)
      also have "\<dots> \<le> length lost - 1" by simp
      finally show ?thesis using False by (cases lost) auto
    qed
    then have "lost ! unat pick \<in> set lost" by simp
    then have "lost ! unat pick \<noteq> mt_local (n_members s)" using loc by metis
    then show ?thesis using assms(1) by (simp add: r)
  qed
qed

lemma probe_target_spec:
  assumes "node_wf s" "probe_target s now = (p, s')"
  shows "node_wf s' \<and> same_node s s' \<and> (\<forall>q. p = Some q \<longrightarrow> q \<noteq> mt_local (n_members s'))"
proof -
  have fall: "node_wf t' \<and> same_node t t' \<and> n_members t' = n_members t \<and> (\<forall>q. x = Some q \<longrightarrow> q \<noteq> mt_local (n_members t))"
    if "node_wf t" "(case next_target t of (Some target, s2) \<Rightarrow> (Some target, s2) | (None, s2) \<Rightarrow> random_lost s2) = (x, t')" for t t' x
  proof -
    obtain y t1 where t1: "next_target t = (y, t1)" by force
    note n = next_target_spec [OF that(1) t1]
    show ?thesis
    proof (cases y)
      case None
      then have "random_lost t1 = (x, t')" using that(2) t1 by simp
      with n random_lost_spec [of t1] show ?thesis by (fastforce simp: same_node_def)
    next
      case (Some z)
      then show ?thesis using that(2) t1 n by auto
    qed
  qed
  obtain l s1 where l: "random_lost s = (l, s1)" by force
  note ls = random_lost_spec [OF assms(1) l]
  show ?thesis
  proof (cases "n_next_reconnect_at s \<le> now")
    case False
    then show ?thesis using fall [OF assms(1)] assms(2) by (auto simp: probe_target_def Let_def)
  next
    case True
    show ?thesis
    proof (cases l)
      case None
      then show ?thesis using fall [of s1 p s'] assms(2) True l ls
        by (fastforce simp: probe_target_def Let_def same_node_def)
    next
      case (Some q)
      then show ?thesis using assms(2) True l ls by (auto simp: probe_target_def)
    qed
  qed
qed

lemma insert_order_keeps:
  assumes "node_wf s"
  shows "keeps s (insert_order s peer)"
proof -
  obtain d r where u: "up_to (n_rng s) (of_nat (length (n_order s) - n_next s)) = (d, r)" by force
  let ?o = "insert_at (n_next s + unat d) peer (n_order s)"
  have "n_next s \<le> length ?o" using node_wfD(7) [OF assms] by (simp add: insert_at_def)
  then have "node_wf (s\<lparr>n_order := ?o, n_rng := r\<rparr>)" using assms by (simp add: node_wf_def)
  then show ?thesis using node_wfD(7) [OF assms] assms u by (simp add: insert_order_def)
qed

lemma follow_each_keeps: "node_wf s \<Longrightarrow> keeps s (follow_each s cs now)"
proof (induction cs arbitrary: s)
  case (Cons c cs)
  show ?case
  proof (cases c)
    case (Joined p)
    have "keeps s (insert_order s p \<bind> (\<lambda>s1. follow_each s1 cs now))"
      by (rule keeps_bind [OF insert_order_keeps [OF Cons.prems]]) (rule keeps_from [OF Cons.IH])
    then show ?thesis using Joined by simp
  next
    case (Left p)
    let ?s1 = "s\<lparr>n_peer_demand := (if has_departed (n_members s) p then forget_peer (n_peer_demand s) p
        else peer_leave (n_peer_demand s) p now (hold_of (n_policy s)))\<rparr>"
    have "node_wf ?s1"
      using node_wfD(5) [OF Cons.prems] by (intro node_wf_with(2) Cons.prems) (simp add: forget_peer_wf peer_leave_wf)
    from keeps_from [OF Cons.IH [OF this], of s] show ?thesis by (simp add: Left)
  qed
qed simp

lemma follow_changes_keeps:
  assumes "node_wf s"
  shows "keeps s (follow_changes s now)"
proof -
  let ?s1 = "s\<lparr>n_members := (n_members s)\<lparr>mt_changes := []\<rparr>\<rparr>"
  have "node_wf ?s1" using node_wfD(3) [OF assms] by (intro node_wf_with(4) assms) simp_all
  moreover have "same_node s ?s1" by (simp add: same_node_def)
  ultimately show ?thesis using keeps_from [OF follow_each_keeps] by (simp add: follow_changes_def table_drain_def)
qed

lemma suspect_missed_keeps:
  assumes "node_wf s"
  shows "keeps s (suspect_missed s now)"
proof (cases "n_probe s")
  case None
  then show ?thesis using assms by (simp add: suspect_missed_def node_wf_with)
next
  case (Some missed)
  let ?s1 = "s\<lparr>n_probe := None\<rparr>"
  have s1: "node_wf ?s1" by (rule node_wf_with(6) [OF assms])
  have wf: "table_wf (n_members s)" by (rule node_wfD(3) [OF assms])
  obtain u mt where m: "suspect (n_members s) (pr_target missed) now = Some (u, mt)" "table_wf mt"
    "mt_local mt = mt_local (n_members s)"
  proof -
    have ne: "pr_target missed \<noteq> mt_local (n_members s)" by (rule node_wfD(9) [OF assms Some])
    show ?thesis
    proof (cases "\<exists>m. om_get (mt_members (n_members s)) (pr_target missed) = Some m \<and> m_status m = status.Alive")
      case True
      then obtain m where "om_get (mt_members (n_members s)) (pr_target missed) = Some m" "m_status m = status.Alive" by blast
      then show ?thesis
        using that [of _ "accept (n_members s) ((member_update m (pr_target missed))\<lparr>u_status := Suspect\<rparr>) now"]
        by (simp add: suspect_spec [OF wf ne] Let_def accept_wf [OF wf] ne)
    next
      case False
      then show ?thesis using that [of None "n_members s"] wf
        by (simp add: suspect_spec [OF wf ne] split: option.split)
    qed
  qed
  let ?s2 = "?s1\<lparr>n_members := mt\<rparr>"
  have s2: "node_wf ?s2" using m s1 by (intro node_wf_with(4)) simp_all
  moreover have "same_node s ?s2" using m(3) by (simp add: same_node_def)
  ultimately show ?thesis
    using Some m(1) keeps_from [OF push_gossip_keeps [OF s2]] by (cases u) (simp_all add: suspect_missed_def Let_def)
qed

lemma refresh_cap_keeps:
  assumes "node_wf s"
  shows "keeps s (Some (refresh_cap s now))"
proof -
  let ?lm = "set_cap (n_limiter s) (reduce_min (caps_of s (held_now s now)))"
  have "node_wf (s\<lparr>n_limiter := ?lm\<rparr>)"
    using node_wfD(1,2) [OF assms] by (intro node_wf_with(3) assms set_cap_wf) (simp_all add: rates_wf_def set_cap_def)
  then show ?thesis by (simp add: refresh_cap_def Let_def)
qed

lemma record_size_total: "\<exists>n h'. record_size h now sz = Some (n, h')"
  by (simp add: record_size_def pop_old_snoc max_size_Max Let_def)

lemma apply_policy_keeps:
  assumes "node_wf s"
  shows "keeps s (apply_policy s now)"
proof -
  obtain n h' where r: "record_size (n_sizes s) now (node_cluster_size s) = Some (n, h')"
    using record_size_total by blast
  define s2 where "s2 = (if 1 < node_cluster_size s \<and> n_joined_at (s\<lparr>n_held_size := n, n_sizes := h'\<rparr>) = None
      then s\<lparr>n_held_size := n, n_sizes := h'\<rparr>\<lparr>n_joined_at := Some now\<rparr> else s\<lparr>n_held_size := n, n_sizes := h'\<rparr>)"
  obtain quorum counted since where q: "quorum_test s2 now = (quorum, counted, since)" by (rule prod_cases3)
  define s3 where "s3 = s2\<lparr>n_without_quorum_since := since,
      n_quorum_size := (if quorum then known_for_quorum s2 else counted)\<rparr>"
  define s4 where "s4 = (if n_policy s3 = Quorum \<and> \<not> quorum
      then s3\<lparr>n_floored_until := now + stale_nanos s3 counted\<rparr> else s3)"
  have "node_wf s4" "same_node s s4" using assms by (simp_all add: s4_def s3_def s2_def)
  then have "keeps s (Some (refresh_cap s4 now))" using keeps_from refresh_cap_keeps by blast
  moreover have "apply_policy s now = Some (refresh_cap s4 now)"
    unfolding apply_policy_def Let_def r Option.bind.simps prod.case s2_def [symmetric] q
      s3_def [symmetric] s4_def [symmetric] by (rule refl)
  ultimately show ?thesis by simp
qed

lemma share_size_pos: "0 < share_size s"
  by (simp add: share_size_def allocation_size_def node_cluster_size_def table_cluster_size_def cluster_size_of_def Let_def less_max_iff_disj)

lemma apply_shares_keeps:
  assumes "node_wf s" "env_ok env"
  shows "keeps s (apply_shares env s now)"
proof -
  let ?sh = "\<lambda>recent key own l. delayed_share (n_recent_shares s) key
      (raw_share env s (share_size s) (informed_since s now now) (informed_keys s now) (as_of s) key own l) recent"
  have ord: "\<forall>xs. set (e_order env xs) = set xs" and ex: "exp_ok (e_exp env)" using assms(2) by (simp_all add: env_ok_def)
  obtain lm recent where t: "tick_with_shares (e_exp env) (e_order env) (n_limiter s) now (share_size s)
      (hot_at_peers (n_peer_demand s)) ?sh [] = Some (lm, recent)" "limiter_wf lm"
    using tick_with_shares_spec [OF node_wfD(1) [OF assms(1)] share_size_pos ord, of "e_exp env" now s
      "hot_at_peers (n_peer_demand s)" ?sh "[]"] by auto
  have "rates_wf lm" by (rule tick_rates [OF ex node_wfD(2) [OF assms(1)] t(1)])
  then have "node_wf (s\<lparr>n_limiter := lm\<rparr>)" by (intro node_wf_with(3) assms t(2))
  then show ?thesis by (simp add: apply_shares_def Let_def t(1))
qed

lemma report_demand_keeps:
  assumes "node_wf s"
  shows "keeps s (Some (report_demand s now))"
  using assms hot_demand_ok [OF node_wfD(1,2) [OF assms]]
  by (simp add: report_demand_def Let_def node_wf_def same_node_def)

lemma protocol_round_keeps:
  assumes s: "node_wf s" and env: "env_ok env"
  shows "keeps s (protocol_round env s now)"
proof -
  let ?s1 = "s\<lparr>n_next_round_at := now + sw_protocol_period (n_swim s), n_last_round := Some now\<rparr>"
  have "node_wf ?s1" using s by simp
  then obtain s2 where s2: "suspect_missed ?s1 now = Some s2" "node_wf s2" "same_node s s2"
    using suspect_missed_keeps [of ?s1 now] by (auto simp: keeps_def same_node_def)
  obtain s3 where s3: "apply_policy s2 now = Some s3" "node_wf s3" "same_node s2 s3"
    using apply_policy_keeps [OF s2(2)] by (auto simp: keeps_def)
  obtain s4 where s4: "apply_shares env s3 now = Some s4" "node_wf s4" "same_node s3 s4"
    using apply_shares_keeps [OF s3(2) env] by (auto simp: keeps_def)
  have r: "node_wf (report_demand s4 now)" "same_node s4 (report_demand s4 now)"
    using report_demand_keeps [OF s4(2)] by simp_all
  obtain s5 where s5: "follow_changes (report_demand s4 now) now = Some s5" "node_wf s5" "same_node (report_demand s4 now) s5"
    using follow_changes_keeps [OF r(1)] by (auto simp: keeps_def)
  define s6 where "s6 = s5\<lparr>n_peer_demand := expire_reports (n_peer_demand s5) now
      (saturating_add (stale_nanos s5 (allocation_size s5)) (hold_of (n_policy s5)))\<rparr>"
  have s6: "node_wf s6" unfolding s6_def by (intro node_wf_with(2) s5(2) expire_reports_wf node_wfD(5))
  have "same_node s5 s6" by (simp add: s6_def)
  then have same: "same_node s s6" using s2(3) s3(3) s4(3) r(2) s5(3) by (meson same_node_trans)
  obtain p s7 where p: "probe_target s6 now = (p, s7)" by force
  note s7 = probe_target_spec [OF s6 p]
  have e: "protocol_round env s now = (case p of Some target \<Rightarrow> ping env s7 target now | None \<Rightarrow> Some s7)"
    by (simp add: protocol_round_def Let_def s2(1) s3(1) s4(1) s5(1) s6_def [symmetric] p split: option.split)
  show ?thesis
  proof (cases p)
    case None
    then show ?thesis using e s7 same same_node_trans by auto
  next
    case (Some target)
    then have "keeps s7 (ping env s7 target now)" using s7 by (intro ping_keeps env) simp_all
    then show ?thesis using e Some s7 same keeps_from same_node_trans by simp
  qed
qed

lemma escalate_keeps:
  assumes s: "node_wf s" and env: "env_ok env"
  shows "keeps s (escalate env s now)"
proof (cases "n_probe s")
  case None
  then show ?thesis using s by (simp add: escalate_def)
next
  case (Some pr)
  show ?thesis
  proof (cases "pr_helpers pr \<noteq> None \<or> now < pr_sent_at pr + sw_ack_timeout (n_swim s)")
    case True
    then show ?thesis using Some s by (simp add: escalate_def)
  next
    case False
    let ?cs = "filter (\<lambda>p. p \<noteq> pr_target pr \<and> status_of (n_members s) p = Some status.Alive) (mt_live (n_members s))"
    obtain shuffled r where sh: "shuffle (n_rng s) ?cs = (shuffled, r)" by force
    let ?hs = "take (sw_indirect_probes (n_swim s)) shuffled" and ?s0 = "s\<lparr>n_rng := r\<rparr>"
    have s0: "node_wf ?s0" using s by simp
    obtain s1 where s1: "send_ping_reqs env ?s0 (pr_seq pr) (pr_target pr) ?hs = Some s1" "node_wf s1" "same_node ?s0 s1"
      using send_ping_reqs_keeps [OF s0 env, of "pr_seq pr" "pr_target pr" ?hs] by (auto simp: keeps_def)
    have p: "n_probe s1 = Some pr" "n_members s1 = n_members s"
      using send_ping_reqs_keeps [OF s0 env, of "pr_seq pr" "pr_target pr" ?hs] s1(1) Some by auto
    have "node_wf (s1\<lparr>n_probe := Some (pr\<lparr>pr_helpers := Some ?hs\<rparr>)\<rparr>)"
      using node_wfD(9) [OF s1(2) p(1)] by (intro node_wf_with(7) s1(2)) simp
    moreover have "same_node s s1" using s1(3) by (simp add: same_node_def)
    ultimately show ?thesis using False Some by (simp add: escalate_def Let_def sh s1(1) p(1))
  qed
qed

section \<open>Receiving\<close>

lemma with_members:
  assumes "node_wf s" "table_wf mt" "mt_local mt = mt_local (n_members s)"
  shows "node_wf (s\<lparr>n_members := mt\<rparr>)" "same_node s (s\<lparr>n_members := mt\<rparr>)"
  using assms by (simp_all add: node_wf_with same_node_def)

lemma learn_keeps:
  assumes "node_wf s"
  shows "keeps s (learn s u now)"
proof -
  obtain r mt where t: "table_apply (n_members s) u now = Some (r, mt)"
    using table_apply_total [OF node_wfD(3) [OF assms], of u now] by auto
  let ?s1 = "s\<lparr>n_members := mt\<rparr>"
  have s1: "node_wf ?s1" "same_node s ?s1"
    using with_members [OF assms] table_apply_wf [OF node_wfD(3) [OF assms] t] by simp_all
  show ?thesis
  proof (cases r)
    case Ignored
    then show ?thesis using s1 by (simp add: learn_def t)
  next
    case (Accepted st)
    then show ?thesis using keeps_from [OF push_gossip_keeps [OF s1(1)] s1(2)] by (simp add: learn_def t)
  next
    case (Refuted own)
    have s2: "node_wf (?s1\<lparr>n_identity_conflicts := k\<rparr>)" "same_node s (?s1\<lparr>n_identity_conflicts := k\<rparr>)" for k
      using s1 by simp_all
    have "keeps s (push_gossip (if u_status u = status.Alive
        then ?s1\<lparr>n_identity_conflicts := n_identity_conflicts ?s1 + 1\<rparr> else ?s1) own)"
      using keeps_from [OF push_gossip_keeps [OF s1(1)] s1(2)] keeps_from [OF push_gossip_keeps [OF s2(1)] s2(2)] by simp
    then show ?thesis by (simp only: learn_def t Refuted Let_def Option.bind.simps prod.case applied.case)
  next
    case Refused
    let ?s2 = "?s1\<lparr>n_last_refused_at := Some now\<rparr>"
    have s2: "node_wf ?s2" "same_node s ?s2" using s1 by simp_all
    have "keeps s (Some (refresh_cap ?s2 now))" by (rule keeps_from [OF refresh_cap_keeps [OF s2(1)] s2(2)])
    then show ?thesis using s1 s2 by (simp add: learn_def t Refused Let_def)
  qed
qed

lemma learn_all_keeps: "node_wf s \<Longrightarrow> keeps s (learn_all s us now)"
proof (induction us arbitrary: s)
  case (Cons u us)
  have "keeps s (learn s u now \<bind> (\<lambda>s1. learn_all s1 us now))"
    by (rule keeps_bind [OF learn_keeps [OF Cons.prems]]) (rule keeps_from [OF Cons.IH])
  then show ?case by simp
qed simp

lemma depart_keeps:
  assumes "node_wf s"
  shows "node_wf (depart s peer) \<and> same_node s (depart s peer)"
proof -
  obtain b mt where d: "table_depart (n_members s) peer = (b, mt)" by force
  have mt: "table_wf mt" "mt_local mt = mt_local (n_members s)"
    using table_depart_wf [OF node_wfD(3) [OF assms], of peer] d by simp_all
  let ?s0 = "s\<lparr>n_members := mt\<rparr>"
  have s0: "node_wf ?s0" "same_node s ?s0" by (rule with_members [OF assms mt])+
  have "node_wf (?s0\<lparr>n_peer_demand := forget_peer (n_peer_demand s) peer\<rparr>)"
    using node_wfD(5) [OF assms] by (intro node_wf_with(2) s0(1) forget_peer_wf)
  then show ?thesis using s0 by (simp add: depart_def d Let_def node_wf_def same_node_def split: option.split)
qed

lemma report_of_ok: "reports_ok ds \<Longrightarrow> report_of pid ds = Some r \<Longrightarrow> report_ok r"
  unfolding report_of_def reports_ok_def list_all_iff by (metis find_Some_iff nth_mem)

lemma relay_ack_keeps:
  assumes s: "node_wf s" and env: "env_ok env" and ds: "reports_ok ds"
  shows "keeps s (relay_ack env s sender seq ds)"
proof (cases "\<exists>r. om_get (n_relays s) seq = Some r \<and> re_target r = sender")
  case False
  then show ?thesis using s by (auto simp: relay_ack_def split: option.split)
next
  case True
  then obtain r where r: "om_get (n_relays s) seq = Some r" "re_target r = sender" by blast
  let ?s1 = "s\<lparr>n_relays := om_del seq (n_relays s)\<rparr>"
  have s1: "node_wf ?s1" using s by simp
  obtain us s2 where o: "outgoing env ?s1 (re_requester r) = Some (us, s2)" "length us \<le> MAX_UPDATES" "node_wf s2" "same_node ?s1 s2"
    using outgoing_spec [OF s1 env] by blast
  have "reports_ok (filter (\<lambda>report. dr_origin report = sender) ds)"
    using ds by (auto simp: reports_ok_def list_all_iff intro: order_trans [OF length_filter_le])
  then have "keeps s2 (send_msg env s2 (re_requester r) (Ack (re_seq r) us (filter (\<lambda>report. dr_origin report = sender) ds)))"
    by (intro send_msg_keeps o(3) env) (simp_all add: o(2))
  then have "keeps s (send_msg env s2 (re_requester r) (Ack (re_seq r) us (filter (\<lambda>report. dr_origin report = sender) ds)))"
    by (rule keeps_from) (use o(4) in \<open>simp add: same_node_def\<close>)
  then show ?thesis by (simp add: relay_ack_def r Let_def o(1))
qed

lemma acknowledged_keeps:
  assumes s: "node_wf s" and env: "env_ok env" and ds: "reports_ok ds"
  shows "keeps s (acknowledged env s sender seq ds now)"
proof -
  have take: "node_wf (s\<lparr>n_peer_demand := apply_report (n_peer_demand s) t r now\<rparr>)" if "report_of t ds = Some r" for t r
    using node_wfD(5) [OF s] report_of_ok [OF ds that] by (intro node_wf_with(2) s apply_report_wf)
  show ?thesis
    using relay_ack_keeps [OF assms, of sender seq] s
    by (auto simp: acknowledged_def Let_def intro!: node_wf_with(6) take split: option.split)
qed

lemma hear_sender_keeps:
  assumes s: "node_wf s" and ds: "reports_ok (demand_of m)"
  shows "node_wf (hear_sender s sender newcomer m now) \<and> same_node s (hear_sender s sender newcomer m now)"
proof -
  define s1 where "s1 = (if newcomer \<and> status_of (n_members s) sender = Some status.Alive
      then s\<lparr>n_introducing := om_put sender None (n_introducing s)\<rparr> else s)"
  define s2 where "s2 = (if status_of (n_members s1) sender \<noteq> None
      then s1\<lparr>n_last_heard := om_put sender now (n_last_heard s1)\<rparr> else s1)"
  have s2: "node_wf s2" "same_node s s2" using s by (simp_all add: s2_def s1_def)
  have "node_wf (s2\<lparr>n_peer_demand := apply_report (n_peer_demand s2) sender r now\<rparr>)"
    if "report_of sender (demand_of m) = Some r" for r
    using node_wfD(5) [OF s2(1)] report_of_ok [OF ds that] by (intro node_wf_with(2) s2(1) apply_report_wf)
  then show ?thesis using s2
    unfolding hear_sender_def s1_def [symmetric] Let_def s2_def [symmetric] by (simp split: option.split)
qed

lemma answer_keeps:
  assumes s: "node_wf s" and env: "env_ok env" and ds: "reports_ok (demand_of m)" and "\<And>us. m \<noteq> Leave us"
  shows "keeps s (answer env s sender m now)"
  using assms ack_keeps [OF s env] acknowledged_keeps [OF s env] relay_ping_keeps [OF s env]
  by (cases m) (auto simp: answer_def)

lemma receive_keeps:
  assumes s: "node_wf s" and env: "env_ok env"
  shows "keeps s (receive env s sender bytes now)"
proof (cases "decode (e_take_from_bytes env) bytes")
  case (Inl e)
  then show ?thesis using s by (simp add: receive_def)
next
  case (Inr m)
  note m = decode_ok [OF Inr]
  show ?thesis
  proof (cases "sender = mt_local (n_members s) \<or> \<not> valid_leave sender m")
    case True
    then show ?thesis using s Inr by (auto simp: receive_def)
  next
    case False
    let ?s1 = "mark_behind s sender m"
    let ?new = "\<not> is_live_status (status_of (n_members ?s1) sender)"
    have s1: "node_wf ?s1" "same_node s ?s1" using s by (simp_all add: mark_behind_def)
    obtain s2 where s2: "learn_all ?s1 (updates_of m) now = Some s2" "node_wf s2" "same_node ?s1 s2"
      using learn_all_keeps [OF s1(1)] by (auto simp: keeps_def)
    have same: "same_node s s2" using s1(2) s2(3) by (rule same_node_trans)
    let ?h = "hear_sender s2 sender ?new m now"
    have h: "node_wf ?h" "same_node s2 ?h" using hear_sender_keeps [OF s2(2)] m by simp_all
    have "keeps s (case m of Leave _ \<Rightarrow> Some (depart s2 sender) | _ \<Rightarrow> answer env ?h sender m now)"
    proof (cases "\<exists>us. m = Leave us")
      case True
      then show ?thesis using depart_keeps [OF s2(2)] same same_node_trans by auto
    next
      case False
      then have "keeps ?h (answer env ?h sender m now)" using answer_keeps [OF h(1) env] m by blast
      then have "keeps s (answer env ?h sender m now)" using same same_node_trans h(2) keeps_from by blast
      then show ?thesis using False by (cases m) auto
    qed
    then show ?thesis using False Inr by (simp add: receive_def Let_def s2(1))
  qed
qed

section \<open>Events\<close>

lemma push_all_keeps: "node_wf s \<Longrightarrow> keeps s (push_all s us)"
proof (induction us arbitrary: s)
  case (Cons u us)
  have "keeps s (push_gossip s u \<bind> (\<lambda>s1. push_all s1 us))"
    by (rule keeps_bind [OF push_gossip_keeps [OF Cons.prems]]) (rule keeps_from [OF Cons.IH])
  then show ?case by simp
qed simp

lemma tidy_keeps:
  assumes "node_wf s"
  shows "node_wf (tidy s now) \<and> same_node s (tidy s now)"
proof -
  let ?s1 = "s\<lparr>n_introducing := om_retain (\<lambda>p _. is_live_status (status_of (n_members s) p)) (n_introducing s)\<rparr>"
  have s1: "node_wf ?s1" using assms by simp
  obtain gone mt where f: "forget_dead (n_members s) now (sw_tombstone_ttl (n_swim s)) = (gone, mt)" by force
  have mt: "table_wf mt" "mt_local mt = mt_local (n_members s)"
    using forget_dead_wf [OF node_wfD(3) [OF assms], of now "sw_tombstone_ttl (n_swim s)"] f by simp_all
  have "node_wf (?s1\<lparr>n_members := mt\<rparr>)" "same_node s (?s1\<lparr>n_members := mt\<rparr>)"
    using with_members [OF s1 mt(1)] mt(2) by (simp_all add: same_node_def)
  then show ?thesis using f by (simp add: tidy_def Let_def)
qed

text \<open>What a tick does before the round.\<close>

lemma tick_before_round:
  assumes s: "node_wf s"
  obtains dead mt s1 where "expire_suspects (n_members s) now (sw_suspicion_timeout (n_swim s)) = Some (dead, mt)"
    "push_all (s\<lparr>n_members := mt\<rparr>) dead = Some s1" "node_wf (tidy s1 now)" "same_node s (tidy s1 now)"
proof -
  let ?to = "sw_suspicion_timeout (n_swim s)"
  have wf: "table_wf (n_members s)" by (rule node_wfD(3) [OF s])
  have "?to \<noteq> 0"
  proof -
    have "0 < sw_protocol_period (n_swim s) \<and> sw_protocol_period (n_swim s) \<le> ?to"
      using node_wfD(6) [OF s] by (auto simp: swim_validate_def)
    then have "0 < ?to" by (elim conjE) (rule less_le_trans)
    then show ?thesis by (simp only: word_gt_0)
  qed
  moreover obtain mt where mt: "apply_all (n_members s) (overdue (n_members s) now ?to) now = Some mt" "table_wf mt"
    "mt_local mt = mt_local (n_members s)"
    using apply_all_wf [OF wf] by blast
  ultimately have e: "expire_suspects (n_members s) now ?to = Some (overdue (n_members s) now ?to, mt)"
    by (simp add: expire_suspects_eq)
  note s0 = with_members [OF s mt(2,3)]
  obtain s1 where s1: "push_all (s\<lparr>n_members := mt\<rparr>) (overdue (n_members s) now ?to) = Some s1" "node_wf s1"
    "same_node (s\<lparr>n_members := mt\<rparr>) s1"
    using push_all_keeps [OF s0(1)] by (auto simp: keeps_def)
  have "node_wf (tidy s1 now)" "same_node s (tidy s1 now)"
    using tidy_keeps [OF s1(2), of now] s0(2) s1(3) same_node_trans by blast+
  with e s1(1) show thesis by (rule that)
qed

lemma node_tick_keeps:
  assumes s: "node_wf s" and env: "env_ok env"
  shows "keeps s (node_tick env s now)"
proof -
  obtain dead mt s1 where s1: "expire_suspects (n_members s) now (sw_suspicion_timeout (n_swim s)) = Some (dead, mt)"
    "push_all (s\<lparr>n_members := mt\<rparr>) dead = Some s1" "node_wf (tidy s1 now)" "same_node s (tidy s1 now)"
    by (rule tick_before_round [OF s])
  have "keeps s (if n_next_round_at (tidy s1 now) \<le> now then protocol_round env (tidy s1 now) now else Some (tidy s1 now))"
    using keeps_from [OF protocol_round_keeps [OF s1(3) env] s1(4)] s1(3,4) by simp
  then have "keeps s ((if n_next_round_at (tidy s1 now) \<le> now then protocol_round env (tidy s1 now) now else Some (tidy s1 now)) \<bind>
      (\<lambda>s3. escalate env s3 now))"
    by (rule keeps_bind) (rule keeps_from [OF escalate_keeps [OF _ env]])
  then show ?thesis by (simp only: node_tick_def s1(1,2) Let_def Option.bind.simps prod.case)
qed

lemma handle_keeps:
  assumes s: "node_wf s" and env: "env_ok env"
  shows "handle env s ev now = None \<longleftrightarrow> now < n_last_now s"
    "handle env s ev now = Some s' \<Longrightarrow> node_wf s' \<and> same_node (s\<lparr>n_last_now := now\<rparr>) s'"
proof -
  let ?s2 = "s\<lparr>n_last_now := now\<rparr>\<lparr>n_actions := []\<rparr>"
  have s2: "node_wf ?s2" using node_wf_with(8) [of "s\<lparr>n_last_now := now\<rparr>"] s by simp
  have k: "keeps ?s2 (case ev of Tick \<Rightarrow> node_tick env ?s2 now | MessageReceived sender bytes \<Rightarrow> receive env ?s2 sender bytes now)"
    using node_tick_keeps [OF s2 env] receive_keeps [OF s2 env] by (simp split: event.split)
  have e: "handle env s ev now = (if n_last_now s \<le> now then if n_left s then Some ?s2 else
      (case ev of Tick \<Rightarrow> node_tick env ?s2 now | MessageReceived sender bytes \<Rightarrow> receive env ?s2 sender bytes now) else None)"
    by (simp add: handle_def advance_def Let_def)
  show "handle env s ev now = None \<longleftrightarrow> now < n_last_now s" using k unfolding e keeps_def by auto
  show "node_wf s' \<and> same_node (s\<lparr>n_last_now := now\<rparr>) s'" if "handle env s ev now = Some s'"
    using k s2 that same_node_trans [of "s\<lparr>n_last_now := now\<rparr>" ?s2] unfolding e keeps_def by (auto split: if_splits)
qed

end
