(* ===== verification/Node_Contract.thy ===== *)
theory Node_Contract
  imports Node_Protocol
begin

text \<open>
  What a node of \<open>rateguard-core/src/node.rs\<close> promises, whatever calls are made on it and whatever
  datagrams reach it.
\<close>

section \<open>Leaving\<close>

lemma send_msg_spec:
  assumes "env_ok env" "length (updates_of m) \<le> MAX_UPDATES" "reports_ok (demand_of m)"
  shows "\<exists>bytes. e_to_allocvec env m = Some bytes \<and> length bytes \<le> MAX_DATAGRAM \<and>
    (\<forall>s peer. send_msg env s peer m = Some (s\<lparr>n_actions := n_actions s @ [SendTo peer bytes]\<rparr>))"
proof -
  have lim: "check_limits m = Inr ()" using assms(2,3) by (simp add: check_limits_iff)
  obtain bytes where "e_to_allocvec env m = Some bytes" "length bytes \<le> MAX_DATAGRAM"
    using assms(1) lim by (auto simp: env_ok_def messages_fit_def)
  then show ?thesis using lim by (simp add: send_msg_def encode_def not_less)
qed

lemma send_leaves_spec:
  assumes "\<And>s peer. send_msg env s peer (Leave [own]) = Some (s\<lparr>n_actions := n_actions s @ [SendTo peer bytes]\<rparr>)"
  shows "send_leaves env s own ps =
    Some (s\<lparr>n_actions := n_actions s @ concat (map (\<lambda>p. [SendTo p bytes, SendTo p bytes]) ps)\<rparr>)"
  by (induction ps arbitrary: s) (simp_all add: assms)

lemma node_leave_spec:
  assumes s: "node_wf s" and env: "env_ok env" and now: "n_last_now s \<le> now" and here: "\<not> n_left s"
  shows "\<exists>bytes. e_to_allocvec env (Leave [(own_update (n_members s))\<lparr>u_status := Dead\<rparr>]) = Some bytes \<and>
    length bytes \<le> MAX_DATAGRAM \<and>
    node_leave env s now = Some (s\<lparr>n_last_now := now, n_left := True,
      n_actions := concat (map (\<lambda>p. [SendTo p bytes, SendTo p bytes]) (mt_live (n_members s)))\<rparr>)"
proof -
  let ?own = "(own_update (n_members s))\<lparr>u_status := Dead\<rparr>"
  obtain bytes where b: "e_to_allocvec env (Leave [?own]) = Some bytes" "length bytes \<le> MAX_DATAGRAM"
    "\<forall>s peer. send_msg env s peer (Leave [?own]) = Some (s\<lparr>n_actions := n_actions s @ [SendTo peer bytes]\<rparr>)"
    using send_msg_spec [OF env, of "Leave [?own]"]
    by (auto simp: MAX_UPDATES_def reports_ok_def MAX_REPORTS_def)
  have own: "update_about (n_members s) (mt_local (n_members s)) = Some (own_update (n_members s))"
    by (simp add: update_about_def)
  have "node_leave env s now = send_leaves env (s\<lparr>n_last_now := now, n_actions := [], n_left := True\<rparr>) ?own (mt_live (n_members s))"
    using now here own by (simp add: node_leave_def advance_def Let_def)
  then show ?thesis using b send_leaves_spec [of env ?own bytes] by simp
qed

lemma node_leave_wf:
  assumes s: "node_wf s" and env: "env_ok env" and run: "node_leave env s now = Some s'"
  shows "node_wf s' \<and> mt_local (n_members s') = mt_local (n_members s) \<and> n_swim s' = n_swim s"
proof -
  have now: "n_last_now s \<le> now" using run by (auto simp: node_leave_def advance_def split: bind_splits if_splits)
  show ?thesis
  proof (cases "n_left s")
    case True
    then have "s' = s\<lparr>n_last_now := now, n_actions := []\<rparr>" using run now by (simp add: node_leave_def advance_def Let_def)
    then show ?thesis using s by (simp add: node_wf_def)
  next
    case False
    obtain bytes where "length bytes \<le> MAX_DATAGRAM" "s' = s\<lparr>n_last_now := now, n_left := True,
        n_actions := concat (map (\<lambda>p. [SendTo p bytes, SendTo p bytes]) (mt_live (n_members s)))\<rparr>"
      using node_leave_spec [OF s env now False] run by auto
    then show ?thesis using s by (auto simp: node_wf_def list_all_iff)
  qed
qed

section \<open>Every call\<close>

datatype node_call =
    Handle event nanos
  | LeaveCluster nanos
  | Introduce peer_id address
  | AddSeed peer_id address
  | RemoveSeed peer_id
  | ExpectPeers bool
  | SetPolicy partition_policy
  | SetQuorumMemory nanos
  | SetMaxMembers nat
  | CheckIn u64 limit nanos
  | CheckInTraced u64 limit "limit option" nanos
  | RecordTally u64 tally limit nanos

fun node_step :: "env \<Rightarrow> node \<Rightarrow> node_call \<Rightarrow> node option" where
  "node_step env s (Handle ev now) = handle env s ev now"
| "node_step env s (LeaveCluster now) = node_leave env s now"
| "node_step env s (Introduce peer addr) = introduce s peer addr"
| "node_step env s (AddSeed seed addr) = add_seed s seed addr"
| "node_step env s (RemoveSeed seed) = Some (remove_seed s seed)"
| "node_step env s (ExpectPeers expected) = Some (expect_peers s expected)"
| "node_step env s (SetPolicy policy) = Some (set_partition_policy s policy)"
| "node_step env s (SetQuorumMemory memory) = Some (set_quorum_memory s memory)"
| "node_step env s (SetMaxMembers n) = set_max_members s n"
| "node_step env s (CheckIn key l now) = map_option snd (node_check_in s key l now)"
| "node_step env s (CheckInTraced key l shadow now) = map_option snd (node_check_in_traced s key l shadow now)"
| "node_step env s (RecordTally key ty l now) = node_record s key ty l now"

fun node_run :: "env \<Rightarrow> node \<Rightarrow> node_call list \<Rightarrow> node option" where
  "node_run env s [] = Some s"
| "node_run env s (c # cs) = do { s1 \<leftarrow> node_step env s c; node_run env s1 cs }"

definition same_identity :: "node \<Rightarrow> node \<Rightarrow> bool" where
  "same_identity s s' = (mt_local (n_members s') = mt_local (n_members s) \<and> n_swim s' = n_swim s)"

lemma same_node_identity: "same_node s s' \<Longrightarrow> same_identity s s'"
  by (simp add: same_node_def same_identity_def)

lemma refreshed:
  assumes "node_wf s" "same_identity s0 s"
  shows "node_wf (refresh_cap s now) \<and> same_identity s0 (refresh_cap s now)"
  using refresh_cap_keeps [OF assms(1), of now] same_node_identity [of s "refresh_cap s now"] assms(2)
  by (simp add: same_identity_def)

lemma setup_wf:
  assumes s: "node_wf s"
  shows "introduce s peer addr = Some s' \<Longrightarrow> node_wf s' \<and> same_identity s s'"
    "add_seed s peer addr = Some s' \<Longrightarrow> node_wf s' \<and> same_identity s s'"
    "node_wf (remove_seed s peer) \<and> same_identity s (remove_seed s peer)"
    "node_wf (expect_peers s b) \<and> same_identity s (expect_peers s b)"
    "node_wf (set_partition_policy s policy) \<and> same_identity s (set_partition_policy s policy)"
    "node_wf (set_quorum_memory s memory) \<and> same_identity s (set_quorum_memory s memory)"
    "set_max_members s n = Some s' \<Longrightarrow> node_wf s' \<and> same_identity s s'"
proof -
  show "node_wf s' \<and> same_identity s s'" if run: "introduce s peer addr = Some s'"
  proof -
    obtain r mt where t: "table_apply (n_members s) \<lparr>u_member = peer, u_addr = addr, u_incarnation = 0, u_status = status.Alive\<rparr>
        (n_last_now s) = Some (r, mt)"
      "s' = (if r = Refused then refresh_cap (s\<lparr>n_members := mt\<rparr>\<lparr>n_last_refused_at := Some (n_last_now s)\<rparr>) (n_last_now s)
             else s\<lparr>n_members := mt\<rparr>)"
      using run by (auto simp: introduce_def Let_def split: bind_splits)
    have m: "node_wf (s\<lparr>n_members := mt\<rparr>)" "same_node s (s\<lparr>n_members := mt\<rparr>)"
      using with_members [OF s] table_apply_wf [OF node_wfD(3) [OF s] t(1)] by simp_all
    show ?thesis
      using m refreshed [of "s\<lparr>n_members := mt\<rparr>\<lparr>n_last_refused_at := Some (n_last_now s)\<rparr>" s "n_last_now s"] same_node_identity [OF m(2)]
      by (simp add: t(2) same_identity_def)
  qed
  show "node_wf s' \<and> same_identity s s'" if "add_seed s peer addr = Some s'"
    using that refreshed [of s s] refreshed [of "s\<lparr>n_seeds := n_seeds s @ [(peer, addr)]\<rparr>" s] s
    by (auto simp: add_seed_def Let_def same_identity_def split: if_splits)
  show "node_wf (remove_seed s peer) \<and> same_identity s (remove_seed s peer)"
    unfolding remove_seed_def Let_def by (rule refreshed) (simp_all add: s same_identity_def)
  show "node_wf (expect_peers s b) \<and> same_identity s (expect_peers s b)"
    unfolding expect_peers_def Let_def by (rule refreshed) (simp_all add: s same_identity_def)
  show "node_wf (set_partition_policy s policy) \<and> same_identity s (set_partition_policy s policy)"
    unfolding set_partition_policy_def Let_def by (rule refreshed) (simp_all add: s same_identity_def)
  show "node_wf (set_quorum_memory s memory) \<and> same_identity s (set_quorum_memory s memory)"
    using s by (simp add: set_quorum_memory_def same_identity_def)
  show "node_wf s' \<and> same_identity s s'" if "set_max_members s n = Some s'"
    using that node_wf_with(4) [OF s] node_wfD(3) [OF s]
    by (auto simp: set_max_members_def set_max_def same_identity_def split: bind_splits)
qed

lemma request_wf:
  assumes s: "node_wf s" and lm: "limiter_wf lm" "rates_wf lm"
  shows "node_wf (s\<lparr>n_last_now := now\<rparr>\<lparr>n_limiter := lm\<rparr>) \<and> same_identity s (s\<lparr>n_last_now := now\<rparr>\<lparr>n_limiter := lm\<rparr>)"
  using node_wf_with(3) [OF _ lm, of "s\<lparr>n_last_now := now\<rparr>"] s by (simp add: same_identity_def)

lemma node_step_wf:
  assumes s: "node_wf s" and env: "env_ok env" and run: "node_step env s c = Some s'"
  shows "node_wf s' \<and> same_identity s s'"
proof -
  note wf = node_wfD(1,2) [OF s]
  show ?thesis
  proof (cases c)
    case (Handle ev now)
    then show ?thesis using handle_keeps(2) [OF s env] run by (fastforce simp: same_node_def same_identity_def)
  next
    case (LeaveCluster now)
    then show ?thesis using node_leave_wf [OF s env] run by (simp add: same_identity_def)
  next
    case (CheckIn key l now)
    then obtain d lm where c: "check_in (n_limiter s) key l now (share_size (s\<lparr>n_last_now := now\<rparr>)) = Some (d, lm)"
      and s': "s' = s\<lparr>n_last_now := now\<rparr>\<lparr>n_limiter := lm\<rparr>"
      using run by (auto simp: node_check_in_def advance_def Let_def split: bind_splits if_splits)
    show ?thesis unfolding s' using check_in_wf [OF wf(1) c] check_in_rates [OF wf(2) c] by (intro request_wf s) simp_all
  next
    case (CheckInTraced key l shadow now)
    then obtain d lm where c: "check_in_traced (n_limiter s) key l shadow now (share_size (s\<lparr>n_last_now := now\<rparr>)) = Some (d, lm)"
      and s': "s' = s\<lparr>n_last_now := now\<rparr>\<lparr>n_limiter := lm\<rparr>"
      using run by (auto simp: node_check_in_traced_def advance_def Let_def split: bind_splits if_splits)
    show ?thesis unfolding s' using check_in_traced_wf [OF wf(1) c] check_in_traced_rates [OF wf(2) c] by (intro request_wf s) simp_all
  next
    case (RecordTally key ty l now)
    then obtain lm where c: "record_tally (n_limiter s) key ty l now (share_size (s\<lparr>n_last_now := now\<rparr>)) = Some lm"
      and s': "s' = s\<lparr>n_last_now := now\<rparr>\<lparr>n_limiter := lm\<rparr>"
      using run by (auto simp: node_record_def advance_def Let_def split: bind_splits if_splits)
    show ?thesis unfolding s' using record_tally_wf [OF wf(1) c] record_tally_rates [OF wf(2) c] by (intro request_wf s) simp_all
  qed (use run setup_wf [OF s] in auto)
qed

lemma node_run_wf:
  "node_wf s \<Longrightarrow> env_ok env \<Longrightarrow> node_run env s cs = Some s' \<Longrightarrow> node_wf s' \<and> same_identity s s'"
proof (induction cs arbitrary: s)
  case (Cons c cs)
  obtain s1 where s1: "node_step env s c = Some s1" "node_run env s1 cs = Some s'"
    using Cons.prems(3) by (auto split: bind_splits)
  note w = node_step_wf [OF Cons.prems(1,2) s1(1)]
  show ?case using Cons.IH [OF _ Cons.prems(2) s1(2)] w by (auto simp: same_identity_def)
qed (simp add: same_identity_def)

lemma node_new_wf:
  assumes "node_new c sw local addr seed = Some s"
  shows "node_wf s \<and> mt_local (n_members s) = local \<and> n_swim s = sw \<and> \<not> n_left s \<and> n_last_now s = 0"
proof -
  obtain lm mt where n: "swim_validate sw = Some ()" "limiter_new c = Some lm" "set_max (table_new local addr) DEFAULT_MAX_MEMBERS = Some mt"
    "n_limiter s = lm" "n_members s = mt" "n_gossip s = gossip_new" "n_swim s = sw" "n_order s = []" "n_next s = 0"
    "n_probe s = None" "n_actions s = []" "n_peer_demand s = peer_demand_new" "n_own_demand s = []" "n_left s = False" "n_last_now s = 0"
    using assms by (auto simp: node_new_def Let_def split: bind_splits prod.splits)
  have mt: "table_wf mt" "mt_local mt = local"
  proof -
    have "mt = (table_new local addr)\<lparr>mt_max := DEFAULT_MAX_MEMBERS\<rparr>"
      using n(3) by (auto simp: set_max_def split: bind_splits if_splits)
    then show "table_wf mt" "mt_local mt = local" by (simp_all only: table_wf_simps table_new_wf) (simp add: table_new_def)
  qed
  have "rates_wf lm" using n(2) by (auto simp: limiter_new_def rates_wf_def Let_def split: bind_splits)
  then show ?thesis using n mt limiter_new_wf [OF n(2)]
    by (simp add: node_wf_def gossip_new_def gossip_wf_def peer_demand_new_def peers_wf_def demand_ok_def)
qed

section \<open>What panics\<close>

text \<open>
  The time a call brings the node to, and when a call is a mistake of the caller: its time is before the last one, it
  names the node itself as a peer or seed, it leaves no room for a member, or a limit is of nothing or its burst
  is out of bounds.
\<close>

fun time_after :: "nanos \<Rightarrow> node_call \<Rightarrow> nanos" where
  "time_after latest (Handle ev now) = now"
| "time_after latest (LeaveCluster now) = now"
| "time_after latest (CheckIn key l now) = now"
| "time_after latest (CheckInTraced key l shadow now) = now"
| "time_after latest (RecordTally key ty l now) = now"
| "time_after latest _ = latest"

definition valid_limit :: "limit \<Rightarrow> bool" where
  "valid_limit l = (\<exists>r. l_rate l = Fin r \<and> 0 < r \<and> 0 < l_burst l \<and> l_burst l \<le> MAX_BURST)"

fun call_fine :: "peer_id \<Rightarrow> nanos \<Rightarrow> node_call \<Rightarrow> bool" where
  "call_fine local latest (Introduce peer addr) = (peer \<noteq> local)"
| "call_fine local latest (AddSeed seed addr) = (seed \<noteq> local)"
| "call_fine local latest (SetMaxMembers n) = (0 < n)"
| "call_fine local latest (CheckIn key l now) = (latest \<le> now \<and> valid_limit l)"
| "call_fine local latest (CheckInTraced key l shadow now) =
     (latest \<le> now \<and> valid_limit l \<and> (case shadow of None \<Rightarrow> True | Some sh \<Rightarrow> valid_limit sh))"
| "call_fine local latest (RecordTally key ty l now) = (latest \<le> now \<and> valid_limit l)"
| "call_fine local latest c = (latest \<le> time_after latest c)"

fun calls_fine :: "peer_id \<Rightarrow> nanos \<Rightarrow> node_call list \<Rightarrow> bool" where
  "calls_fine local latest [] = True"
| "calls_fine local latest (c # cs) = (call_fine local latest c \<and> calls_fine local (time_after latest c) cs)"

lemma valid_limit_iff: "valid_limit l \<longleftrightarrow> limit_ok l"
  by (auto simp: valid_limit_def limit_ok_def limit_validate_def is_finite_def f64_ops split: f64.splits)

lemma entry_iff: "0 < n \<Longrightarrow> (\<exists>r. entry lm key l now n = Some r) \<longleftrightarrow> valid_limit l"
proof -
  assume n: "0 < n"
  show ?thesis
  proof (cases "limit_ok l")
    case True
    then show ?thesis using entry_spec [OF True n] valid_limit_iff by blast
  next
    case False
    then show ?thesis by (simp add: entry_def limit_validate_cases valid_limit_iff)
  qed
qed

lemma check_in_iff: "0 < n \<Longrightarrow> check_in lm key l now n = None \<longleftrightarrow> \<not> valid_limit l"
  using entry_iff [of n lm key l now]
  by (cases "entry lm key l now n") (auto simp: check_in_def Let_def split: prod.splits)

lemma record_tally_iff: "0 < n \<Longrightarrow> record_tally lm key ty l now n = None \<longleftrightarrow> \<not> valid_limit l"
  using entry_iff [of n lm key l now]
  by (cases "entry lm key l now n") (auto simp: record_tally_def split: prod.splits)

lemma check_in_traced_iff:
  assumes "0 < n"
  shows "check_in_traced lm key l shadow now n = None \<longleftrightarrow>
    \<not> (valid_limit l \<and> (case shadow of None \<Rightarrow> True | Some sh \<Rightarrow> valid_limit sh))"
proof (cases "check_in lm key l now n")
  case None
  then show ?thesis using check_in_iff [OF assms, of lm key l now] by (simp add: check_in_traced_def)
next
  case (Some r)
  then obtain d lm1 where c: "check_in lm key l now n = Some (d, lm1)" by (cases r) simp
  then have v: "valid_limit l" using check_in_iff [OF assms, of lm key l now] by auto
  have "om_get (lm_keys lm1) key \<noteq> None"
    using c by (auto simp: check_in_def Let_def put_key_def split: bind_splits prod.splits)
  then obtain st where st: "om_get (lm_keys lm1) key = Some st" by blast
  show ?thesis
  proof (cases shadow)
    case None
    then show ?thesis using v by (simp add: check_in_traced_def c)
  next
    case (Some sh)
    show ?thesis
    proof (cases "limit_ok sh")
      case True
      then obtain q where "quota_for (rate_per_sec (ks_applied st) * l_rate sh / l_rate l) (l_burst sh) = Some q"
        using quota_for_limit by blast
      then show ?thesis using True v Some by (simp add: check_in_traced_def c st limit_validate_cases valid_limit_iff Let_def split_beta)
    next
      case False
      then show ?thesis using Some by (simp add: check_in_traced_def c limit_validate_cases valid_limit_iff)
    qed
  qed
qed

lemma node_leave_iff: "node_wf s \<Longrightarrow> env_ok env \<Longrightarrow> node_leave env s now = None \<longleftrightarrow> now < n_last_now s"
proof -
  assume s: "node_wf s" and env: "env_ok env"
  show ?thesis
  proof (cases "n_last_now s \<le> now \<and> \<not> n_left s")
    case True
    then show ?thesis using node_leave_spec [OF s env, of now] by auto
  next
    case False
    then show ?thesis by (cases "n_last_now s \<le> now") (auto simp: node_leave_def advance_def Let_def)
  qed
qed

lemma node_step_iff:
  assumes s: "node_wf s" and env: "env_ok env"
  shows "node_step env s c = None \<longleftrightarrow> \<not> call_fine (mt_local (n_members s)) (n_last_now s) c"
proof (cases c)
  case (Handle ev now)
  then show ?thesis using handle_keeps(1) [OF s env, of ev now] by auto
next
  case (LeaveCluster now)
  then show ?thesis using node_leave_iff [OF s env, of now] by auto
next
  case (Introduce peer addr)
  then show ?thesis
    using table_apply_total [OF node_wfD(3) [OF s], of "\<lparr>u_member = peer, u_addr = addr, u_incarnation = 0, u_status = status.Alive\<rparr>" "n_last_now s"]
    by (auto simp: introduce_def Let_def split: bind_splits)
next
  case (CheckIn key l now)
  then show ?thesis using check_in_iff [OF share_size_pos, of "n_limiter s" key l now "s\<lparr>n_last_now := now\<rparr>"]
    by (auto simp: node_check_in_def advance_def not_le split: bind_splits)
next
  case (CheckInTraced key l shadow now)
  then show ?thesis using check_in_traced_iff [OF share_size_pos, of "n_limiter s" key l shadow now "s\<lparr>n_last_now := now\<rparr>"]
    by (auto simp: node_check_in_traced_def advance_def not_le split: bind_splits)
next
  case (RecordTally key ty l now)
  then show ?thesis using record_tally_iff [OF share_size_pos, of "n_limiter s" key ty l now "s\<lparr>n_last_now := now\<rparr>"]
    by (auto simp: node_record_def advance_def not_le split: bind_splits)
qed (auto simp: add_seed_def set_max_members_def set_max_def Let_def split: bind_splits)

lemma node_step_time:
  assumes s: "node_wf s" and env: "env_ok env" and run: "node_step env s c = Some s'"
  shows "n_last_now s' = time_after (n_last_now s) c"
proof (cases c)
  case (Handle ev now)
  then show ?thesis using handle_keeps(2) [OF s env] run by (fastforce simp: same_node_def)
next
  case (LeaveCluster now)
  have now: "n_last_now s \<le> now" using run LeaveCluster by (auto simp: node_leave_def advance_def split: bind_splits if_splits)
  show ?thesis using run LeaveCluster now node_leave_spec [OF s env now]
    by (cases "n_left s") (auto simp: node_leave_def advance_def Let_def)
qed (use run in \<open>auto simp: introduce_def add_seed_def remove_seed_def expect_peers_def set_partition_policy_def
    set_quorum_memory_def set_max_members_def refresh_cap_def node_check_in_def node_check_in_traced_def node_record_def
    advance_def Let_def split: bind_splits if_splits prod.splits\<close>)

lemma node_run_progress:
  assumes env: "env_ok env"
  shows "node_wf s \<Longrightarrow> (case node_run env s cs of
      None \<Rightarrow> \<not> calls_fine (mt_local (n_members s)) (n_last_now s) cs
    | Some s' \<Rightarrow> calls_fine (mt_local (n_members s)) (n_last_now s) cs \<and> n_last_now s' = foldl time_after (n_last_now s) cs)"
proof (induction cs arbitrary: s)
  case (Cons c cs)
  show ?case
  proof (cases "node_step env s c")
    case None
    then show ?thesis using node_step_iff [OF Cons.prems env, of c] by simp
  next
    case (Some s1)
    have fine: "call_fine (mt_local (n_members s)) (n_last_now s) c" using node_step_iff [OF Cons.prems env, of c] Some by simp
    have s1: "node_wf s1" "mt_local (n_members s1) = mt_local (n_members s)" "n_last_now s1 = time_after (n_last_now s) c"
      using node_step_wf [OF Cons.prems env Some] node_step_time [OF Cons.prems env Some] by (simp_all add: same_identity_def)
    then show ?thesis using Cons.IH [OF s1(1)] fine by (simp add: Some split: option.splits)
  qed
qed simp

section \<open>The cap of a round\<close>

lemma reduce_min_least:
  assumes "reduce_min xs = Some c" "x \<in> set xs"
  shows "\<not> x < c"
proof -
  have step: "x = NaN \<or> (f64_min a y \<noteq> NaN \<and> \<not> x < f64_min a y)" if "x = NaN \<or> (a \<noteq> NaN \<and> \<not> x < a) \<or> x = y" for x a y
    using that by (cases x; cases a; cases y) (auto simp: f64_min_def f64_ops)
  have fold: "x = NaN \<or> (foldl f64_min a ys \<noteq> NaN \<and> \<not> x < foldl f64_min a ys)"
    if "x = NaN \<or> (a \<noteq> NaN \<and> \<not> x < a) \<or> x \<in> set ys" for a ys
    using that
  proof (induction ys arbitrary: a)
    case (Cons y ys)
    show ?case
    proof (cases "x \<in> set ys")
      case True
      then show ?thesis using Cons.IH [of "f64_min a y"] by simp
    next
      case False
      then have "x = NaN \<or> (f64_min a y \<noteq> NaN \<and> \<not> x < f64_min a y)" using step [of x a y] Cons.prems by auto
      then show ?thesis using Cons.IH [of "f64_min a y"] unfolding foldl.simps by blast
    qed
  qed simp
  obtain y ys where ys: "xs = y # ys" "c = foldl f64_min y ys" using assms(1) by (cases xs) auto
  have "\<not> z < z" for z :: f64 by (cases z) (auto simp: f64_ops)
  then have "x = NaN \<or> (y \<noteq> NaN \<and> \<not> x < y) \<or> x \<in> set ys" using assms(2) ys(1) by auto
  then have "x = NaN \<or> \<not> x < c" unfolding ys(2) using fold [of y ys] by blast
  then show ?thesis by (cases c) (auto simp: f64_ops)
qed

text \<open>What the cap is computed from, and the limiter under it.\<close>

definition same_cap :: "node \<Rightarrow> node \<Rightarrow> bool" where
  "same_cap s s' = (n_limiter s' = n_limiter s \<and> n_seeds s' = n_seeds s \<and> mt_live (n_members s') = mt_live (n_members s) \<and>
     mt_max (n_members s') = mt_max (n_members s) \<and> n_held_size s' = n_held_size s \<and>
     n_last_refused_at s' = n_last_refused_at s \<and> n_swim s' = n_swim s \<and> n_last_now s' = n_last_now s \<and>
     n_quorum_size s' = n_quorum_size s \<and> n_held s' = n_held s \<and> n_joined_at s' = n_joined_at s \<and>
     n_expects_peers s' = n_expects_peers s \<and> n_policy s' = n_policy s \<and> n_floored_until s' = n_floored_until s \<and>
     n_last_heard s' = n_last_heard s)"

lemma same_cap_refl [simp]: "same_cap s s"
  by (simp add: same_cap_def)

lemma same_cap_trans: "same_cap a b \<Longrightarrow> same_cap b c \<Longrightarrow> same_cap a c"
  by (simp add: same_cap_def)

text \<open>What holds a node back, and the cap for it, are read off these.\<close>

lemma caps_of_cong:
  assumes "same_cap (s\<lparr>n_limiter := lm, n_held := h0\<rparr>) (s'\<lparr>n_limiter := lm, n_held := h0\<rparr>)"
    and "lm_config (n_limiter s') = lm_config (n_limiter s)"
  shows "caps_of s' h = caps_of s h" "held_now s' now = held_now s now"
proof -
  note same = assms(1) [unfolded same_cap_def, simplified]
  have a: "allocation_size s' = allocation_size s"
    using same by (simp add: allocation_size_def node_cluster_size_def table_cluster_size_def)
  have r: "refusing s' now = refusing s now" for now unfolding refusing_def using same by (simp split: option.split)
  have "share_size s' = share_size s" using same by (simp add: share_size_def a r Let_def)
  then show "caps_of s' h = caps_of s h" unfolding caps_of_def floor_of_def assms(2) using same by simp
  have "informed_since s' since now = informed_since s since now" for since
    unfolding informed_since_def a stale_nanos_def using same by simp
  then show "held_now s' now = held_now s now" unfolding held_now_def r using same by simp
qed

lemma caps_of_same: "same_cap s s' \<Longrightarrow> caps_of s' h = caps_of s h \<and> held_now s' now = held_now s now"
  by (intro conjI caps_of_cong [where lm = "n_limiter s" and ?h0.0 = "n_held s"]) (simp_all add: same_cap_def)

lemma send_msg_cap: "send_msg env s peer m = Some s' \<Longrightarrow> same_cap s s'"
  by (auto simp: send_msg_def same_cap_def split: option.splits sum.splits)

lemma outgoing_cap: "outgoing env s dest = Some (us, s') \<Longrightarrow> same_cap s s'"
  by (auto simp: outgoing_def same_cap_def Let_def split: bind_splits option.splits prod.splits)

lemma ping_cap:
  assumes "ping env s target now = Some s'"
  shows "same_cap s s'"
proof -
  obtain us s3 where o: "outgoing env ((snd (next_seq s))\<lparr>n_probe := Some \<lparr>pr_target = target, pr_seq = fst (next_seq s),
      pr_sent_at = now, pr_helpers = None\<rparr>\<rparr>) target = Some (us, s3)"
    "send_msg env s3 target (Ping (fst (next_seq s)) us (outgoing_demand s3)) = Some s'"
    using assms by (auto simp: ping_def Let_def split: bind_splits prod.splits)
  have "same_cap s s3" using outgoing_cap [OF o(1)] by (simp add: same_cap_def next_seq_def Let_def)
  then show ?thesis using send_msg_cap [OF o(2)] by (rule same_cap_trans)
qed

lemma take_live_cap: "same_cap s (snd (take_live s))"
  by (simp add: take_live_def Let_def same_cap_def split: prod.split)

lemma random_lost_cap: "same_cap s (snd (random_lost s))"
  by (simp add: random_lost_def Let_def same_cap_def split: prod.split)

lemma next_target_cap: "same_cap s (snd (next_target s))"
proof -
  obtain p s1 where t: "take_live s = (p, s1)" by force
  then have s1: "same_cap s s1" using take_live_cap [of s] by simp
  have "same_cap s1 (snd (take_live (s1\<lparr>n_order := order, n_rng := r, n_next := 0\<rparr>)))" for order r
    using take_live_cap [of "s1\<lparr>n_order := order, n_rng := r, n_next := 0\<rparr>"] by (simp add: same_cap_def)
  then show ?thesis using same_cap_trans [OF s1] s1 by (simp add: next_target_def t split: option.split prod.split)
qed

lemma probe_target_cap: "same_cap s (snd (probe_target s now))"
proof -
  have fall: "same_cap t (snd (case next_target t of (Some x, s2) \<Rightarrow> (Some x, s2) | (None, s2) \<Rightarrow> random_lost s2))" for t
  proof -
    obtain p t1 where n: "next_target t = (p, t1)" by force
    then have "same_cap t t1" using next_target_cap [of t] by simp
    then show ?thesis using same_cap_trans random_lost_cap by (auto simp: n split: option.split)
  qed
  obtain l s1 where l: "random_lost s = (l, s1)" by force
  then have s1: "same_cap s s1" using random_lost_cap [of s] by simp
  then have "same_cap s (s1\<lparr>n_next_reconnect_at := t\<rparr>)" for t by (simp add: same_cap_def)
  then show ?thesis using fall [of s] same_cap_trans [OF s1 fall [of s1]]
    by (auto simp: probe_target_def Let_def l split: option.split)
qed

lemma follow_each_cap: "follow_each s cs now = Some s' \<Longrightarrow> same_cap s s'"
proof (induction cs arbitrary: s)
  case (Cons c cs)
  obtain s1 where "follow_each s1 cs now = Some s'" "same_cap s s1"
    using Cons.prems by (cases c) (auto simp: insert_order_def same_cap_def Let_def split: bind_splits if_splits prod.splits)
  then show ?case using Cons.IH same_cap_trans by blast
qed simp

lemma refresh_cap_caps:
  "lm_cap (n_limiter (refresh_cap s now)) = reduce_min (caps_of s (held_now s now))"
  "n_held (refresh_cap s now) = held_now s now"
  "caps_of (refresh_cap s now) h = caps_of s h"
  "held_now (refresh_cap s now) now = held_now s now"
proof -
  show "lm_cap (n_limiter (refresh_cap s now)) = reduce_min (caps_of s (held_now s now))"
    "n_held (refresh_cap s now) = held_now s now"
    by (simp_all add: refresh_cap_def Let_def set_cap_def)
  have "same_cap (s\<lparr>n_limiter := lm, n_held := h0\<rparr>) ((refresh_cap s now)\<lparr>n_limiter := lm, n_held := h0\<rparr>)" for lm h0
    by (simp add: refresh_cap_def Let_def same_cap_def)
  moreover have "lm_config (n_limiter (refresh_cap s now)) = lm_config (n_limiter s)"
    by (simp add: refresh_cap_def Let_def set_cap_def)
  ultimately show "caps_of (refresh_cap s now) h = caps_of s h" "held_now (refresh_cap s now) now = held_now s now"
    by (rule caps_of_cong)+
qed

text \<open>After the round the cap is the least of the floors for what holds the node back, and no key is above it.\<close>

lemma protocol_round_cap:
  assumes s: "node_wf s" and env: "env_ok env" and run: "protocol_round env s now = Some s'"
  shows "lm_cap (n_limiter s') = reduce_min (caps_of s' (held_now s' now)) \<and> n_held s' = held_now s' now \<and>
    (\<forall>k st. om_get (lm_keys (n_limiter s')) k = Some st \<longrightarrow> under_cap (unwrap_or (lm_cap (n_limiter s')) PosInf) st)"
proof -
  let ?s1 = "s\<lparr>n_next_round_at := now + sw_protocol_period (n_swim s), n_last_round := Some now\<rparr>"
  have "node_wf ?s1" using s by simp
  then obtain s2 where s2: "suspect_missed ?s1 now = Some s2" "node_wf s2"
    using suspect_missed_keeps [of ?s1 now] by (auto simp: keeps_def)
  obtain s3 where s3: "apply_policy s2 now = Some s3" "node_wf s3"
    using apply_policy_keeps [OF s2(2)] by (auto simp: keeps_def)
  obtain t where t: "s3 = refresh_cap t now"
    using s3(1) by (auto simp: apply_policy_def Let_def split: bind_splits prod.splits if_splits)
  have cap3: "lm_cap (n_limiter s3) = reduce_min (caps_of s3 (held_now s3 now))" "n_held s3 = held_now s3 now"
    by (simp_all add: t refresh_cap_caps)
  have ord: "\<forall>xs. set (e_order env xs) = set xs" using env by (simp add: env_ok_def)
  define shares where "shares = (\<lambda>recent key own l. delayed_share (n_recent_shares s3) key
      (raw_share env s3 (share_size s3) (informed_since s3 now now) (informed_keys s3 now) (as_of s3) key own l) recent)"
  obtain lm recent where l: "tick_with_shares (e_exp env) (e_order env) (n_limiter s3) now (share_size s3)
      (hot_at_peers (n_peer_demand s3)) shares [] = Some (lm, recent)"
    "lm_config lm = lm_config (n_limiter s3)" "lm_cap lm = lm_cap (n_limiter s3)"
    "\<forall>k st. om_get (lm_keys lm) k = Some st \<longrightarrow> under_cap (unwrap_or (lm_cap (n_limiter s3)) PosInf) st"
    using tick_with_shares_spec [OF node_wfD(1) [OF s3(2)] share_size_pos ord, of "e_exp env" now s3
      "hot_at_peers (n_peer_demand s3)" shares "[]"] by auto
  define s4 where "s4 = s3\<lparr>n_limiter := lm, n_recent_shares := recent\<rparr>"
  have s4: "apply_shares env s3 now = Some s4" by (simp add: apply_shares_def Let_def l(1) [unfolded shares_def] s4_def)
  have wf4: "node_wf s4" using apply_shares_keeps [OF s3(2) env, of now] s4 by simp
  obtain s5 where s5: "follow_changes (report_demand s4 now) now = Some s5"
    using follow_changes_keeps [of "report_demand s4 now"] report_demand_keeps [OF wf4] by (auto simp: keeps_def)
  define s6 where "s6 = s5\<lparr>n_peer_demand := expire_reports (n_peer_demand s5) now
      (saturating_add (stale_nanos s5 (allocation_size s5)) (hold_of (n_policy s5)))\<rparr>"
  obtain p s7 where p: "probe_target s6 now = (p, s7)" by force
  have e: "(case p of Some target \<Rightarrow> ping env s7 target now | None \<Rightarrow> Some s7) = Some s'"
    using run by (simp add: protocol_round_def Let_def s2(1) s3(1) s4 s5(1) s6_def [symmetric] p split: option.splits)
  have "same_cap s4 s5" using follow_each_cap s5
    by (fastforce simp: follow_changes_def table_drain_def same_cap_def report_demand_def Let_def)
  then have "same_cap s4 s6" by (simp add: s6_def same_cap_def)
  then have "same_cap s4 s7" using probe_target_cap [of s6 now] p same_cap_trans by fastforce
  moreover have "same_cap s7 s'" using e ping_cap by (auto split: option.splits)
  ultimately have same: "same_cap s4 s'" by (rule same_cap_trans)
  have "same_cap (s3\<lparr>n_limiter := lm, n_held := h0\<rparr>) (s4\<lparr>n_limiter := lm, n_held := h0\<rparr>)" for lm h0
    by (simp add: s4_def same_cap_def)
  moreover have "lm_config (n_limiter s4) = lm_config (n_limiter s3)" using l(2) by (simp add: s4_def)
  ultimately have "caps_of s4 h = caps_of s3 h" "held_now s4 now = held_now s3 now" for h by (rule caps_of_cong)+
  then have "caps_of s' h = caps_of s3 h" "held_now s' now = held_now s3 now" for h
    using caps_of_same [OF same] by simp_all
  then show ?thesis using same l(3,4) cap3 by (simp add: same_cap_def s4_def)
qed

lemma send_ping_reqs_cap: "send_ping_reqs env s seq target helpers = Some s' \<Longrightarrow> same_cap s s'"
proof (induction helpers arbitrary: s)
  case (Cons helper hs)
  obtain us s1 s2 where "outgoing env s helper = Some (us, s1)"
    "send_msg env s1 helper (PingReq seq target us (outgoing_demand s1)) = Some s2" "send_ping_reqs env s2 seq target hs = Some s'"
    using Cons.prems by (auto split: bind_splits)
  then show ?case using outgoing_cap send_msg_cap Cons.IH same_cap_trans by metis
qed simp

lemma escalate_cap:
  assumes "escalate env s now = Some s'"
  shows "same_cap s s'"
proof (cases "s' = s")
  case False
  then obtain r seq target hs s1 helpers where
    "send_ping_reqs env (s\<lparr>n_rng := r\<rparr>) seq target hs = Some s1"
    "s' = s1\<lparr>n_probe := map_option (\<lambda>p. p\<lparr>pr_helpers := Some helpers\<rparr>) (n_probe s1)\<rparr>"
    using assms by (auto simp: escalate_def Let_def split: option.splits if_splits prod.splits bind_splits)
  then show ?thesis using send_ping_reqs_cap [of env "s\<lparr>n_rng := r\<rparr>" seq target hs s1] by (simp add: same_cap_def)
qed simp

lemma push_all_round: "push_all s us = Some s' \<Longrightarrow> n_next_round_at s' = n_next_round_at s"
  by (induction us arbitrary: s) (fastforce simp: push_gossip_def split: bind_splits)+

text \<open>So does the tick that makes the round.\<close>

lemma due_tick_cap:
  assumes s: "node_wf s" and env: "env_ok env" and due: "\<not> n_left s" "n_next_round_at s \<le> now"
    and run: "handle env s Tick now = Some s'"
  shows "lm_cap (n_limiter s') = reduce_min (caps_of s' (held_now s' now)) \<and> n_held s' = held_now s' now \<and> n_last_now s' = now \<and>
    (\<forall>k st. om_get (lm_keys (n_limiter s')) k = Some st \<longrightarrow> under_cap (unwrap_or (lm_cap (n_limiter s')) PosInf) st)"
proof -
  let ?s = "s\<lparr>n_last_now := now, n_actions := []\<rparr>"
  have wf: "node_wf ?s" using s by (simp add: node_wf_def)
  obtain dead mt s1 where pre: "expire_suspects (n_members ?s) now (sw_suspicion_timeout (n_swim ?s)) = Some (dead, mt)"
    "push_all (?s\<lparr>n_members := mt\<rparr>) dead = Some s1" "node_wf (tidy s1 now)"
    by (rule tick_before_round [OF wf])
  obtain s3 where parts:
    "(if n_next_round_at (tidy s1 now) \<le> now then protocol_round env (tidy s1 now) now else Some (tidy s1 now)) = Some s3"
    "escalate env s3 now = Some s'"
    using run due pre(1,2) by (auto simp: handle_def advance_def node_tick_def Let_def split: bind_splits if_splits)
  have "n_next_round_at (tidy s1 now) = n_next_round_at s1" by (simp add: tidy_def Let_def split: prod.split)
  then have "n_next_round_at (tidy s1 now) \<le> now" using push_all_round [OF pre(2)] due(2) by simp
  then have r: "protocol_round env (tidy s1 now) now = Some s3" using parts(1) by simp
  have "n_last_now s' = now" using handle_keeps(2) [OF s env run] by (simp add: same_node_def)
  have e: "n_limiter s' = n_limiter s3" "n_held s' = n_held s3" "caps_of s' h = caps_of s3 h"
    "held_now s' now = held_now s3 now" for h
    using escalate_cap [OF parts(2)] caps_of_same [OF escalate_cap [OF parts(2)]] by (simp_all add: same_cap_def)
  show ?thesis unfolding e using protocol_round_cap [OF pre(3) env r] \<open>n_last_now s' = now\<close> by blast
qed

section \<open>Why a node is held back\<close>

text \<open>The reasons, and the members the floor is a part of for each: what is known of the cluster at that time.\<close>

datatype reason = Joining | Learning | WithoutQuorum | MembersFull

definition first_contact :: "node \<Rightarrow> nanos" where
  "first_contact s = (case n_joined_at s of None \<Rightarrow> 0 | Some t \<Rightarrow> t)"

definition refused_lately :: "node \<Rightarrow> bool" where
  "refused_lately s = (\<exists>t. n_last_refused_at s = Some t \<and> n_last_now s < saturating_add t (sw_tombstone_ttl (n_swim s)))"

definition counted_members :: "node \<Rightarrow> nat" where
  "counted_members s = max (max (1 + length (mt_live (n_members s))) (n_held_size s))
     (if refused_lately s then mt_max (n_members s) else 0)"

fun held_for :: "node \<Rightarrow> reason \<Rightarrow> bool" where
  "held_for s Joining = (n_policy s \<noteq> Optimistic \<and> n_joined_at s = None \<and> (n_expects_peers s \<or> n_seeds s \<noteq> []))"
| "held_for s Learning =
     ((n_joined_at s \<noteq> None \<or> \<not> n_expects_peers s \<and> n_seeds s = []) \<and>
      n_last_now s < first_contact s + stale_after_rounds (max (1 + length (mt_live (n_members s))) (n_held_size s)) *
        sw_protocol_period (n_swim s) \<and>
      (\<exists>peer \<in> set (mt_live (n_members s)). \<forall>t. om_get (n_last_heard s) peer = Some t \<longrightarrow> t \<le> first_contact s))"
| "held_for s WithoutQuorum = (n_policy s = Quorum \<and> n_last_now s < n_floored_until s)"
| "held_for s MembersFull = refused_lately s"

fun members_for :: "node \<Rightarrow> reason \<Rightarrow> nat" where
  "members_for s Joining = 1 + length (n_seeds s)"
| "members_for s Learning = counted_members s"
| "members_for s WithoutQuorum = n_quorum_size s"
| "members_for s MembersFull = counted_members s"

definition floor_for :: "node \<Rightarrow> reason \<Rightarrow> f64" where
  "floor_for s r = c_floor_factor (lm_config (n_limiter s)) / f64_of_nat (members_for s r)"

lemma refused_lately_iff: "refusing s (n_last_now s) \<longleftrightarrow> refused_lately s"
  by (simp add: refusing_def refused_lately_def split: option.split)

lemma counted_members_eq: "share_size s = counted_members s"
  by (simp add: share_size_def counted_members_def allocation_size_def node_cluster_size_def table_cluster_size_def
      cluster_size_of_def refused_lately_iff Let_def)

lemma held_for_eq:
  "held_now s (n_last_now s) = \<lparr>hd_joining = held_for s Joining, hd_learning = held_for s Learning,
     hd_without_quorum = held_for s WithoutQuorum, hd_members_full = held_for s MembersFull\<rparr>"
proof -
  have "\<not> informed_since s (first_contact s) (n_last_now s) \<longleftrightarrow>
      n_last_now s < first_contact s + stale_after_rounds (max (1 + length (mt_live (n_members s))) (n_held_size s)) *
        sw_protocol_period (n_swim s) \<and>
      (\<exists>peer \<in> set (mt_live (n_members s)). \<forall>t. om_get (n_last_heard s) peer = Some t \<longrightarrow> t \<le> first_contact s)"
    by (auto simp: informed_since_def stale_nanos_def allocation_size_def node_cluster_size_def table_cluster_size_def
        cluster_size_of_def list_all_iff not_le not_less split: option.splits)
  moreover have "unwrap_or (n_joined_at s) 0 = first_contact s" by (simp add: first_contact_def unwrap_or_def split: option.split)
  ultimately show ?thesis by (auto simp: held_now_def Let_def refused_lately_iff)
qed

lemma ex_reason: "(\<exists>r. P r) \<longleftrightarrow> P Joining \<or> P Learning \<or> P WithoutQuorum \<or> P MembersFull"
proof
  assume "\<exists>r. P r"
  then obtain r where "P r" ..
  then show "P Joining \<or> P Learning \<or> P WithoutQuorum \<or> P MembersFull" by (cases r) simp_all
qed blast

lemma caps_of_reasons:
  "x \<in> set (caps_of s (held_now s (n_last_now s))) \<longleftrightarrow> (\<exists>r. held_for s r \<and> x = floor_for s r)"
  unfolding held_for_eq caps_of_def floor_for_def floor_of_def counted_members_eq ex_reason
  by (auto simp del: held_for.simps)

lemma f64_min_member: "f64_min a b \<in> {a, b}"
  by (simp add: f64_min_def)

lemma reduce_min_member: "reduce_min xs = Some c \<Longrightarrow> c \<in> set xs"
proof -
  have "foldl f64_min a ys \<in> insert a (set ys)" for a ys
  proof (induction ys arbitrary: a)
    case (Cons y ys)
    then show ?case using f64_min_member [of a y] by fastforce
  qed simp
  then show "reduce_min xs = Some c \<Longrightarrow> c \<in> set xs" by (cases xs) auto
qed

section \<open>Properties\<close>

definition example_env :: env where
  "example_env = \<lparr>e_exp = (\<lambda>x. Fin 0), e_log10 = (\<lambda>x. Fin 1), e_order = (\<lambda>xs. xs),
     e_to_allocvec = (\<lambda>m. Some [of_nat (length (updates_of m))]), e_take_from_bytes = (\<lambda>bytes. None)\<rparr>"

lemma example_env_ok: "env_ok example_env"
  by (simp add: env_ok_def example_env_def exp_ok_def log10_ok_def messages_fit_def MAX_DATAGRAM_def)

lemma example_node: "\<exists>s. node_new example_config swim_default 1 (V4 [10, 0, 0, 1] 7000) 42 = Some s"
  by (simp add: node_new_def swim_validate_def swim_default_def ONE_MS_def set_max_def DEFAULT_MAX_MEMBERS_def
      example_new Let_def split: prod.split)

text \<open>
  C24. A node panics only for a mistake of its caller. Whatever calls are made on a node just made, in any order, and
  whatever datagrams its peers sent it, it panics exactly if one of the calls is such a mistake: its time is before that of
  the last one, it introduces the node to itself or makes it its own seed, it sets room for no member, or a limit of a
  request or of its shadow is not valid. No event and no datagram is one. Otherwise limiter, member table, gossip and
  peers' demand keep their invariants, the node keeps its identity and configuration, its clock is at the last time it was
  told, and every datagram it has to send fits \<open>MAX_DATAGRAM\<close>.
\<close>

theorem node_contract:
  assumes env: "env_ok env" and start: "node_new c sw local addr seed = Some s0"
  shows "case node_run env s0 calls of
      None \<Rightarrow> \<not> calls_fine local 0 calls
    | Some s \<Rightarrow> calls_fine local 0 calls \<and> node_wf s \<and> mt_local (n_members s) = local \<and> n_swim s = sw \<and>
        n_last_now s = foldl time_after 0 calls \<and>
        list_all (\<lambda>action. case action of SendTo peer bytes \<Rightarrow> length bytes \<le> MAX_DATAGRAM) (n_actions s)"
proof -
  note s0 = node_new_wf [OF start]
  show ?thesis
  proof (cases "node_run env s0 calls")
    case None
    then show ?thesis using node_run_progress [OF env, of s0 calls] s0 by simp
  next
    case (Some s)
    have s: "node_wf s" "same_identity s0 s" using node_run_wf [OF _ env Some] s0 by blast+
    have "list_all (\<lambda>action. case action of SendTo peer bytes \<Rightarrow> length bytes \<le> MAX_DATAGRAM) (n_actions s)"
      using node_wfD(10) [OF s(1)] by (auto simp: list_all_iff split: action.split)
    then show ?thesis using node_run_progress [OF env, of s0 calls] s0 s Some by (simp add: same_identity_def)
  qed
qed

theorem node_contract_witness:
  "\<exists>s. node_new example_config swim_default 1 (V4 [10, 0, 0, 1] 7000) 42 = Some s \<and>
    (\<exists>s'. node_run example_env s [AddSeed 2 (V4 [10, 0, 0, 2] 7000), SetMaxMembers 1, Handle (MessageReceived 2 [1, 2, 3]) 5,
      CheckIn 7 \<lparr>l_rate = Fin 10, l_burst = 5\<rparr> 6, Handle Tick 7, LeaveCluster 8] = Some s' \<and> node_wf s' \<and> n_last_now s' = 8) \<and>
    node_run example_env s [Handle Tick 7, SetMaxMembers 0] = None"
proof -
  let ?calls = "[AddSeed 2 (V4 [10, 0, 0, 2] 7000), SetMaxMembers 1, Handle (MessageReceived 2 [1, 2, 3]) 5,
      CheckIn 7 \<lparr>l_rate = Fin 10, l_burst = 5\<rparr> 6, Handle Tick 7, LeaveCluster 8]"
  obtain s where s: "node_new example_config swim_default 1 (V4 [10, 0, 0, 1] 7000) 42 = Some s" using example_node by blast
  have fine: "calls_fine 1 0 ?calls"
    by (simp add: valid_limit_def MAX_BURST_def BURST_BITS_def INTERVAL_BITS_def UNIT_BITS_def)
  have "\<exists>s'. node_run example_env s ?calls = Some s' \<and> node_wf s' \<and> n_last_now s' = 8"
    using node_contract [OF example_env_ok s, of ?calls] fine
    by (cases "node_run example_env s ?calls") (simp_all del: node_run.simps calls_fine.simps)
  moreover have "\<not> calls_fine 1 0 [Handle Tick 7, SetMaxMembers 0]" by simp
  then have "node_run example_env s [Handle Tick 7, SetMaxMembers 0] = None"
    using node_contract [OF example_env_ok s, of "[Handle Tick 7, SetMaxMembers 0]"]
    by (cases "node_run example_env s [Handle Tick 7, SetMaxMembers 0]") (simp_all del: node_run.simps calls_fine.simps)
  ultimately show ?thesis using s by blast
qed

text \<open>
  C25. The floor. After the tick that makes a protocol round, the cap is the least of the floors for the reasons the node is
  held back at that time, and there is none exactly if there is no reason: it has seeds or expects peers and has joined
  nobody, unless its policy is optimistic; some live peer was not heard since it joined, for as long as a report counts;
  under the quorum policy, the time it is to stay at the floor for want of a majority is not over; its full table refused
  a member within the time a dead one is kept. The floor is the configured part of the limit over the members counted for
  that reason. The node reports these reasons, and leaves no key on a quota above the cap.
\<close>

theorem round_holds_the_floor:
  assumes "node_wf s" "env_ok env" "\<not> n_left s" "n_next_round_at s \<le> now" "handle env s Tick now = Some s'"
  shows "(case lm_cap (n_limiter s') of
      None \<Rightarrow> \<forall>r. \<not> held_for s' r
    | Some cap \<Rightarrow> (\<exists>r. held_for s' r \<and> cap = floor_for s' r) \<and> (\<forall>r. held_for s' r \<longrightarrow> \<not> floor_for s' r < cap)) \<and>
    n_held s' = \<lparr>hd_joining = held_for s' Joining, hd_learning = held_for s' Learning,
      hd_without_quorum = held_for s' WithoutQuorum, hd_members_full = held_for s' MembersFull\<rparr> \<and>
    (\<forall>key st. om_get (lm_keys (n_limiter s')) key = Some st \<longrightarrow>
      under_cap (case lm_cap (n_limiter s') of None \<Rightarrow> PosInf | Some cap \<Rightarrow> cap) st)"
proof -
  note r = due_tick_cap [OF assms]
  have now: "n_last_now s' = now" using r by blast
  have cap: "lm_cap (n_limiter s') = reduce_min (caps_of s' (held_now s' now))" using r by blast
  note floors = caps_of_reasons [of _ s', unfolded now]
  have "case lm_cap (n_limiter s') of
      None \<Rightarrow> \<forall>r. \<not> held_for s' r
    | Some cap \<Rightarrow> (\<exists>r. held_for s' r \<and> cap = floor_for s' r) \<and> (\<forall>r. held_for s' r \<longrightarrow> \<not> floor_for s' r < cap)"
  proof (cases "reduce_min (caps_of s' (held_now s' now))")
    case None
    then have "caps_of s' (held_now s' now) = []" by (cases "caps_of s' (held_now s' now)") simp_all
    then have "\<not> held_for s' r" for r using floors [of "floor_for s' r"] by auto
    then show ?thesis using None cap by simp
  next
    case (Some c)
    have "\<exists>r. held_for s' r \<and> c = floor_for s' r" using reduce_min_member [OF Some] floors by simp
    moreover have "\<not> floor_for s' r < c" if "held_for s' r" for r
      using reduce_min_least [OF Some] floors [of "floor_for s' r"] that by blast
    ultimately show ?thesis using Some cap by simp
  qed
  moreover have "\<forall>key st. om_get (lm_keys (n_limiter s')) key = Some st \<longrightarrow>
      under_cap (case lm_cap (n_limiter s') of None \<Rightarrow> PosInf | Some cap \<Rightarrow> cap) st"
  proof -
    have e: "(case lm_cap (n_limiter s') of None \<Rightarrow> PosInf | Some cap \<Rightarrow> cap) = unwrap_or (lm_cap (n_limiter s')) PosInf"
      by (simp add: unwrap_or_def split: option.split)
    show ?thesis unfolding e using r by blast
  qed
  moreover have "n_held s' = held_now s' now" using r by blast
  ultimately show ?thesis using held_for_eq [of s', unfolded now] by (simp only: simp_thms)
qed

theorem round_holds_the_floor_witness:
  "\<exists>s s'. handle example_env s Tick 5 = Some s' \<and>
    (case lm_cap (n_limiter s') of None \<Rightarrow> \<not> held_for s' Learning | Some cap \<Rightarrow> \<exists>r. cap = floor_for s' r)"
proof -
  obtain s where "node_new example_config swim_default 1 (V4 [10, 0, 0, 1] 7000) 42 = Some s" using example_node by blast
  then have s: "node_wf s" "\<not> n_left s" "n_last_now s = 0" "n_next_round_at s \<le> 5"
    using node_new_wf by (blast, blast, blast, auto simp: node_new_def Let_def split: bind_splits prod.splits)
  obtain s' where s': "handle example_env s Tick 5 = Some s'"
    using handle_keeps(1) [OF s(1) example_env_ok, of Tick 5] s(3) by (cases "handle example_env s Tick 5") auto
  from round_holds_the_floor [OF s(1) example_env_ok s(2,4) s']
  have "case lm_cap (n_limiter s') of None \<Rightarrow> \<not> held_for s' Learning | Some cap \<Rightarrow> \<exists>r. cap = floor_for s' r"
    by (cases "lm_cap (n_limiter s')") (simp_all del: held_for.simps, blast)
  with s' show ?thesis by blast
qed

text \<open>
  What a message carries. Composing one never panics; it opens with the sender's own record, holds at most
  \<open>MAX_UPDATES\<close> records, tells a peer held to be suspect or dead, or known to be behind, what is held about it, and
  touches neither the member table nor the limiter.
\<close>

theorem message_carries:
  assumes "node_wf s" "env_ok env"
  shows "\<exists>rest s'. outgoing env s dest = Some (own_update (n_members s) # rest, s') \<and> length rest < MAX_UPDATES \<and>
    (\<forall>u. update_about (n_members s) dest = Some u \<and> (u_status u \<noteq> status.Alive \<or> om_has (n_behind s) dest) \<longrightarrow>
      u \<in> insert (own_update (n_members s)) (set rest)) \<and>
    n_members s' = n_members s \<and> n_limiter s' = n_limiter s"
  using outgoing_spec [OF assms, of dest] by (auto simp: accusation_def)

theorem message_carries_witness:
  "\<exists>s rest s'. outgoing example_env s 2 = Some (own_update (n_members s) # rest, s') \<and> length rest < MAX_UPDATES"
proof -
  obtain s where "node_new example_config swim_default 1 (V4 [10, 0, 0, 1] 7000) 42 = Some s" using example_node by blast
  then have "node_wf s" using node_new_wf by blast
  from message_carries [OF this example_env_ok, of 2] show ?thesis by blast
qed

text \<open>
  Leaving. A node that leaves tells every live peer twice that it is dead, in its own record, and is done: whatever
  event comes later changes nothing but its clock, and nothing more is sent.
\<close>

theorem leaving_is_final:
  assumes "node_wf s" "env_ok env" "\<not> n_left s" "n_last_now s \<le> now"
  shows "\<exists>s' bytes. node_leave env s now = Some s' \<and>
    e_to_allocvec env (Leave [(own_update (n_members s))\<lparr>u_status := Dead\<rparr>]) = Some bytes \<and>
    n_actions s' = concat (map (\<lambda>peer. [SendTo peer bytes, SendTo peer bytes]) (mt_live (n_members s))) \<and>
    (\<forall>ev later. now \<le> later \<longrightarrow> handle env s' ev later = Some (s'\<lparr>n_last_now := later, n_actions := []\<rparr>) \<and>
      node_leave env s' later = Some (s'\<lparr>n_last_now := later, n_actions := []\<rparr>))"
proof -
  obtain bytes where b: "e_to_allocvec env (Leave [(own_update (n_members s))\<lparr>u_status := Dead\<rparr>]) = Some bytes"
    and l: "node_leave env s now = Some (s\<lparr>n_last_now := now, n_left := True,
      n_actions := concat (map (\<lambda>p. [SendTo p bytes, SendTo p bytes]) (mt_live (n_members s)))\<rparr>)" (is "_ = Some ?s'")
    using node_leave_spec [OF assms(1,2,4,3)] by blast
  have "handle env ?s' ev later = Some (?s'\<lparr>n_last_now := later, n_actions := []\<rparr>) \<and>
      node_leave env ?s' later = Some (?s'\<lparr>n_last_now := later, n_actions := []\<rparr>)" if "now \<le> later" for ev later
    using that by (simp add: handle_def node_leave_def advance_def Let_def)
  then show ?thesis unfolding l using b by (intro exI [of _ ?s'] exI [of _ bytes]) simp
qed

theorem leaving_is_final_witness:
  "\<exists>s s'. node_leave example_env s 5 = Some s' \<and> handle example_env s' Tick 6 = Some (s'\<lparr>n_last_now := 6, n_actions := []\<rparr>)"
proof -
  obtain s where "node_new example_config swim_default 1 (V4 [10, 0, 0, 1] 7000) 42 = Some s" using example_node by blast
  note s = node_new_wf [OF this]
  obtain s' where s': "node_leave example_env s 5 = Some s'"
    "\<forall>ev later. 5 \<le> later \<longrightarrow> handle example_env s' ev later = Some (s'\<lparr>n_last_now := later, n_actions := []\<rparr>)"
    using leaving_is_final [of s example_env 5] s example_env_ok by auto
  have "handle example_env s' Tick 6 = Some (s'\<lparr>n_last_now := 6, n_actions := []\<rparr>)" using s'(2) by simp
  with s'(1) show ?thesis by blast
qed

text \<open>
  Stray datagrams. What does not decode, a message from the node itself, and a leave that is not the sender's own
  record of its death change nothing but the clock, and nothing is sent.
\<close>

theorem stray_datagrams_ignored:
  assumes "n_last_now s \<le> now"
    and "sender = mt_local (n_members s) \<or> (\<exists>e. decode (e_take_from_bytes env) bytes = Inl e) \<or>
      (\<exists>m. decode (e_take_from_bytes env) bytes = Inr m \<and> \<not> valid_leave sender m)"
  shows "handle env s (MessageReceived sender bytes) now = Some (s\<lparr>n_last_now := now, n_actions := []\<rparr>)"
  using assms by (auto simp: handle_def advance_def receive_def Let_def)

theorem stray_datagrams_ignored_witness:
  "\<exists>s. n_last_now s = 0 \<and> handle example_env s (MessageReceived 2 [1, 2, 3]) 5 = Some (s\<lparr>n_last_now := 5, n_actions := []\<rparr>)"
proof -
  obtain s where s: "node_new example_config swim_default 1 (V4 [10, 0, 0, 1] 7000) 42 = Some s" using example_node by blast
  have "n_last_now s = 0" using node_new_wf [OF s] by blast
  then show ?thesis
    using stray_datagrams_ignored [of s 5 2 example_env "[1, 2, 3]"] by (auto simp: decode_def example_env_def)
qed

end
