(* ===== verification/Guard_Contract.thy ===== *)
theory Guard_Contract
  imports Guard Driver Class_Contract Key_Table_Contract Node_Contract
begin

text \<open>
  What the request path of the runtime promises (\<open>rateguard/src/guard.rs\<close>): the invariant of what a guard and its
  background task share, what one check does to it, and that the checks of one key are limited whatever else is asked.
\<close>

section \<open>Slots\<close>

definition packed_ok :: "u64 \<Rightarrow> bool" where
  "packed_ok w = (\<exists>q. quota_wf q \<and> pack q = Some w)"

definition slot_ok :: "slot \<Rightarrow> bool" where
  "slot_ok s = (packed_ok (a_quota (sl_gcra s)) \<and> (s_quota (sl_shadow s) = 0 \<or> packed_ok (s_quota (sl_shadow s))))"

lemma packed_unpack: "packed_ok w \<Longrightarrow> \<exists>q. quota_wf q \<and> unpack w = Some q"
  using unpack_pack_wf by (fastforce simp: packed_ok_def)

lemma packed_pack: "quota_wf q \<Longrightarrow> \<exists>w. pack q = Some w \<and> packed_ok w"
  using unpack_pack_wf [of q] by (auto simp: packed_ok_def)

lemma atomic_set_quota_packed:
  assumes "packed_ok (a_quota a)" "quota_wf q"
  shows "\<exists>a'. atomic_set_quota a q now = Some a' \<and> pack q = Some (a_quota a')"
proof -
  obtain w where w: "pack q = Some w" using packed_pack [OF assms(2)] by blast
  obtain old where "unpack (a_quota a) = Some old" using packed_unpack [OF assms(1)] by blast
  then show ?thesis using w by (cases "a_quota a = w") (simp_all add: atomic_set_quota_def)
qed

lemma shadow_set_packed:
  assumes s: "s_quota s = 0 \<or> packed_ok (s_quota s)" and q: "\<forall>new. q = Some new \<longrightarrow> quota_wf new"
  shows "\<exists>s'. shadow_set s q now = Some s' \<and> (case q of None \<Rightarrow> s_quota s' = 0 | Some new \<Rightarrow> pack new = Some (s_quota s'))"
proof (cases q)
  case None
  then show ?thesis by (simp add: shadow_set_def)
next
  case (Some new)
  obtain w where w: "pack new = Some w" using packed_pack [of new] q Some by blast
  show ?thesis
  proof (cases "s_quota s = w \<or> s_quota s = 0")
    case True
    then show ?thesis using Some w by (auto simp: shadow_set_def)
  next
    case False
    then obtain old where "unpack (s_quota s) = Some old" using s packed_unpack by blast
    then show ?thesis using Some w False by (simp add: shadow_set_def)
  qed
qed

definition same_slot :: "slot \<Rightarrow> slot \<Rightarrow> bool" where
  "same_slot s s' = (sl_key s' = sl_key s \<and> sl_class s' = sl_class s \<and> sl_counts s' = sl_counts s \<and>
     sl_shadow_denials s' = sl_shadow_denials s)"

lemma same_slot_refl [simp]: "same_slot s s"
  by (simp add: same_slot_def)

lemma same_slot_trans: "same_slot a b \<Longrightarrow> same_slot b c \<Longrightarrow> same_slot a c"
  by (simp add: same_slot_def)

lemma slot_set_quota_ok:
  assumes "slot_ok s" "quota_wf q"
  shows "\<exists>s'. slot_set_quota s q now = Some s' \<and> slot_ok s' \<and> same_slot s s' \<and> sl_shadow s' = sl_shadow s \<and>
    pack q = Some (a_quota (sl_gcra s'))"
proof -
  obtain a where "atomic_set_quota (sl_gcra s) q now = Some a" "pack q = Some (a_quota a)"
    using atomic_set_quota_packed [of "sl_gcra s" q now] assms by (auto simp: slot_ok_def)
  then show ?thesis using assms by (auto simp: slot_set_quota_def slot_ok_def same_slot_def packed_ok_def)
qed

lemma slot_set_shadow_ok:
  assumes "slot_ok s" "\<forall>new. q = Some new \<longrightarrow> quota_wf new"
  shows "\<exists>s'. slot_set_shadow s q now = Some s' \<and> slot_ok s' \<and> same_slot s s' \<and> sl_gcra s' = sl_gcra s"
proof -
  obtain g where g: "shadow_set (sl_shadow s) q now = Some g"
    "case q of None \<Rightarrow> s_quota g = 0 | Some new \<Rightarrow> pack new = Some (s_quota g)"
    using shadow_set_packed [of "sl_shadow s" q now] assms by (auto simp: slot_ok_def)
  then have "s_quota g = 0 \<or> packed_ok (s_quota g)" using assms(2) by (auto simp: packed_ok_def split: option.splits)
  then show ?thesis using g(1) assms(1) by (simp add: slot_set_shadow_def slot_ok_def same_slot_def)
qed

lemma slot_set_both_ok:
  assumes "slot_ok s" "quota_wf q" "\<forall>new. shadow = Some new \<longrightarrow> quota_wf new"
  shows "\<exists>s'. slot_set_both s q shadow now = Some s' \<and> slot_ok s' \<and> same_slot s s' \<and> pack q = Some (a_quota (sl_gcra s'))"
proof -
  obtain s1 where s1: "slot_set_quota s q now = Some s1" "slot_ok s1" "same_slot s s1" "pack q = Some (a_quota (sl_gcra s1))"
    using slot_set_quota_ok [OF assms(1,2)] by blast
  obtain s2 where s2: "slot_set_shadow s1 shadow now = Some s2" "slot_ok s2" "same_slot s1 s2" "sl_gcra s2 = sl_gcra s1"
    using slot_set_shadow_ok [OF s1(2) assms(3)] by blast
  show ?thesis using s1 s2 same_slot_trans [OF s1(3) s2(3)] by (simp add: slot_set_both_def)
qed

section \<open>Limits\<close>

definition burst_ok :: "limit \<Rightarrow> bool" where
  "burst_ok l = (0 < l_burst l \<and> l_burst l \<le> MAX_BURST)"

lemma per_second_ok: "0 < b \<Longrightarrow> b \<le> MAX_BURST \<Longrightarrow> \<exists>q. per_second r b = Some q \<and> quota_wf q \<and> q_burst q = b"
  using quota_for_total [of b r] by (simp add: quota_for_def)

lemma shadow_quota_ok: "\<forall>sh. shadow = Some sh \<longrightarrow> burst_ok sh \<Longrightarrow>
    \<exists>q. shadow_quota main l shadow = Some q \<and> (\<forall>new. q = Some new \<longrightarrow> quota_wf new)"
proof (cases shadow)
  case (Some sh)
  assume "\<forall>sh. shadow = Some sh \<longrightarrow> burst_ok sh"
  then obtain q where "per_second (rate_per_sec main * l_rate sh / l_rate l) (l_burst sh) = Some q" "quota_wf q"
    using per_second_ok [of "l_burst sh"] Some by (auto simp: burst_ok_def)
  then show ?thesis using Some by (simp add: shadow_quota_def)
qed (simp add: shadow_quota_def)

text \<open>Every limit given was made by the constructors, which see to the burst.\<close>

definition classes_made :: "classes \<Rightarrow> bool" where
  "classes_made cl = (user_limit_wf (ct_default_given (cl_table cl)) \<and>
     (\<forall>(hash, name, l, core) \<in> set (ct_named (cl_table cl)). user_limit_wf l) \<and>
     (\<forall>(class, l, core) \<in> set (ct_shadows (cl_table cl)). user_limit_wf l))"

definition entry_made :: "entry \<Rightarrow> bool" where
  "entry_made e = (case snd (snd e) of OwnLimit l \<Rightarrow> user_limit_wf l | OfClass name \<Rightarrow> True)"

definition key_limits_made :: "key_limits \<Rightarrow> bool" where
  "key_limits_made kl = (\<forall>(hash, e) \<in> set (kl_table kl). entry_made e)"

lemma core_burst: "user_limit_wf l \<Longrightarrow> to_core l = Inr core \<Longrightarrow> burst_ok core \<and> limit_ok core"
  using to_core_ok [of l core] limit_ok_burst [of core] by (simp add: burst_ok_def)

definition limits_wf :: "hashes \<Rightarrow> classes \<Rightarrow> key_limits \<Rightarrow> bool" where
  "limits_wf h cl kl = (classes_wf h cl \<and> classes_made cl \<and> key_limits_wf kl \<and> key_limits_made kl)"

lemma given_made:
  assumes "limits_wf h cl kl"
  shows "user_limit_wf (fst (class_resolve_given h (cl_table cl) (kl_table kl) class key)) \<and>
    (\<forall>s. snd (class_resolve_given h (cl_table cl) (kl_table kl) class key) = Some s \<longrightarrow> user_limit_wf s)"
proof -
  let ?t = "cl_table cl"
  have made: "user_limit_wf (ct_default_given ?t)" "om_get (ct_named ?t) c = Some (name, l, core) \<Longrightarrow> user_limit_wf l"
    "om_get (ct_shadows ?t) c = Some (l', core') \<Longrightarrow> user_limit_wf l'"
    "om_get (kl_table kl) k = Some (a, b, OwnLimit l'') \<Longrightarrow> user_limit_wf l''"
    for c name l core l' core' k a b l''
    using assms by (auto simp: limits_wf_def classes_made_def key_limits_made_def entry_made_def dest!: map_of_SomeD)
  define given where "given = (\<lambda>class. let (l, shadow_of) = (case om_get (ct_named ?t) class of
          Some (name, given, core) \<Rightarrow> (given, class) | None \<Rightarrow> (ct_default_given ?t, 0))
      in (l, map_option fst (om_get (ct_shadows ?t) shadow_of)))"
  have by_class: "user_limit_wf (fst (given c)) \<and> (\<forall>s. snd (given c) = Some s \<longrightarrow> user_limit_wf s)" for c
    using made by (auto simp: given_def split: option.split)
  show ?thesis
    unfolding class_resolve_given_def
    unfolding given_def [symmetric]
    unfolding Let_def
    using by_class made(4) by (auto split: option.split key_limit.split sum.split)
qed

lemma resolve_ok:
  assumes "limits_wf h cl kl"
  shows "limit_ok (rs_limit (class_resolve h (cl_table cl) (kl_table kl) cls key))"
    "burst_ok (rs_limit (class_resolve h (cl_table cl) (kl_table kl) cls key))"
    "rs_shadow (class_resolve h (cl_table cl) (kl_table kl) cls key) = Some sh \<Longrightarrow> burst_ok sh"
proof -
  have "class_table_wf h (cl_max cl) (cl_table cl)" using assms by (simp add: limits_wf_def classes_wf_def)
  note same = resolve_same [OF this, of "kl_table kl" cls key] and made = given_made [OF assms, of cls key]
  show "limit_ok (rs_limit (class_resolve h (cl_table cl) (kl_table kl) cls key))"
    "burst_ok (rs_limit (class_resolve h (cl_table cl) (kl_table kl) cls key))"
    "rs_shadow (class_resolve h (cl_table cl) (kl_table kl) cls key) = Some sh \<Longrightarrow> burst_ok sh"
    using same made core_burst by (auto simp: same_reading_def split: option.splits)
qed

lemma strictest_keeps:
  "burst_ok d \<Longrightarrow> \<forall>(name, given, l) \<in> set xs. burst_ok l \<Longrightarrow>
    burst_ok (foldl (\<lambda>s (name, given, l). \<lparr>l_rate = f64_min (l_rate s) (l_rate l), l_burst = min (l_burst s) (l_burst l)\<rparr>) d xs)"
proof (induction xs arbitrary: d)
  case (Cons x xs)
  obtain name given l where x: "x = (name, given, l)" by (rule prod_cases3)
  have "burst_ok \<lparr>l_rate = f64_min (l_rate d) (l_rate l), l_burst = min (l_burst d) (l_burst l)\<rparr>"
    using Cons.prems by (simp add: x burst_ok_def min_le_iff_disj)
  then show ?case using Cons by (simp add: x)
qed simp

lemma strictest_burst:
  assumes "limits_wf h cl kl"
  shows "burst_ok (strictest (cl_table cl))"
proof -
  let ?t = "cl_table cl"
  have d: "burst_ok (ct_default ?t)"
    using assms core_burst by (auto simp: limits_wf_def classes_wf_def class_table_wf_def classes_made_def)
  have "\<forall>(name, given, l) \<in> set (map snd (ct_named ?t)). burst_ok l"
  proof clarsimp
    fix hash name given l
    assume e: "(hash, name, given, l) \<in> set (ct_named ?t)"
    have "om_get (ct_named ?t) hash = Some (name, given, l)"
      using e assms by (auto simp: limits_wf_def classes_wf_def class_table_wf_def named_ok_def om_wf_distinct)
    then have "to_core given = Inr l"
      using assms by (auto simp: limits_wf_def classes_wf_def class_table_wf_def named_ok_def)
    moreover have "user_limit_wf given" using e assms by (auto simp: limits_wf_def classes_made_def)
    ultimately show "burst_ok l" using core_burst by blast
  qed
  then show ?thesis unfolding strictest_def using d by (intro strictest_keeps)
qed

section \<open>What is shared\<close>

definition table_ok :: "hashes \<Rightarrow> key_table \<Rightarrow> bool" where
  "table_ok h t = (key_table_wf h t \<and> (\<forall>s \<in> set (kt_slots t). slot_ok s) \<and> slot_ok (kt_overflow t))"

definition shared_wf :: "hashes \<Rightarrow> shared \<Rightarrow> bool" where
  "shared_wf h sh = (table_ok h (sh_table sh) \<and> limits_wf h (sh_classes sh) (sh_key_limits sh) \<and> packed_ok (sh_free_quota sh))"

definition slot_there :: "key_table \<Rightarrow> slot_ref \<Rightarrow> bool" where
  "slot_there t r = (case r of InTable i \<Rightarrow> i < length (kt_slots t) | Overflow \<Rightarrow> True)"

lemma slot_at_ok: "table_ok h t \<Longrightarrow> slot_there t r \<Longrightarrow> slot_ok (slot_at t r)"
  by (auto simp: table_ok_def slot_there_def slot_at_def split: slot_ref.splits)

lemma slot_at_set: "slot_there t r \<Longrightarrow> slot_at (set_slot t r s) r = s"
  "r' \<noteq> r \<Longrightarrow> slot_at (set_slot t r s) r' = slot_at t r'"
  by (cases r; simp add: slot_at_def set_slot_def slot_there_def put_slot_def)
    (cases r; cases r'; simp add: slot_at_def set_slot_def put_slot_def)

lemma slot_ok_wf: "slot_ok s \<Longrightarrow> slot_wf s"
  using packed_unpack by (auto simp: slot_ok_def slot_wf_def)

lemma key_table_wf_same:
  assumes wf: "key_table_wf h t" and t': "kt_buckets t' = kt_buckets t" "kt_seed t' = kt_seed t" "length (kt_slots t') = length (kt_slots t)"
    and keys: "\<And>i. i < length (kt_slots t) \<Longrightarrow> key_at t' i = key_at t i"
    and slots: "\<And>i. i < length (kt_slots t) \<Longrightarrow> slot_wf (kt_slots t' ! i)"
  shows "key_table_wf h t'"
proof -
  have "candidates h t' key = candidates h t key" for key by (simp add: candidates_def buckets_of_def t')
  then show ?thesis using wf keys slots by (simp add: key_table_wf_def t')
qed

lemma table_find_same:
  assumes "kt_buckets t' = kt_buckets t" "kt_seed t' = kt_seed t" "\<And>i. i \<in> set (candidates h t key) \<Longrightarrow> key_at t' i = key_at t i"
  shows "table_find h t' key = table_find h t key"
proof -
  have "candidates h t' key = candidates h t key" by (simp add: candidates_def buckets_of_def assms)
  then show ?thesis unfolding table_find_def by (rule find_cong) (simp add: assms(3))
qed

lemma set_slot_keys: "slot_there t r \<Longrightarrow> sl_key s = sl_key (slot_at t r) \<Longrightarrow> key_at (set_slot t r s) i = key_at t i"
  by (cases r) (auto simp: set_slot_def slot_there_def slot_at_def key_at_def put_slot_def nth_list_update)

lemma set_slot_ok:
  assumes t: "table_ok h t" "slot_there t r" and s: "slot_ok s" "sl_key s = sl_key (slot_at t r)"
  shows "table_ok h (set_slot t r s)" "table_find h (set_slot t r s) key = table_find h t key"
proof -
  have wf: "key_table_wf h t" using t(1) by (simp add: table_ok_def)
  have shape: "kt_buckets (set_slot t r s) = kt_buckets t" "kt_seed (set_slot t r s) = kt_seed t"
    "length (kt_slots (set_slot t r s)) = length (kt_slots t)"
    by (simp_all add: set_slot_def put_slot_def split: slot_ref.splits)
  have keys: "key_at (set_slot t r s) i = key_at t i" for i by (rule set_slot_keys [OF t(2) s(2)])
  have slots: "slot_ok (kt_slots (set_slot t r s) ! i)" if "i < length (kt_slots t)" for i
    using t s(1) that by (cases r) (auto simp: set_slot_def slot_there_def put_slot_def nth_list_update table_ok_def)
  have "key_table_wf h (set_slot t r s)"
    by (rule key_table_wf_same [OF wf shape keys]) (use slots slot_ok_wf in blast)
  moreover have "slot_ok (kt_overflow (set_slot t r s))" using t(1) s(1) by (cases r) (simp_all add: set_slot_def put_slot_def table_ok_def)
  moreover have "\<forall>x \<in> set (kt_slots (set_slot t r s)). slot_ok x"
    using slots shape(3) by (metis in_set_conv_nth)
  ultimately show "table_ok h (set_slot t r s)" by (simp add: table_ok_def)
  show "table_find h (set_slot t r s) key = table_find h t key"
    by (rule table_find_same [OF shape(1,2) keys])
qed

section \<open>A check\<close>

lemma decide_spec:
  fixes dry now s
  defines "d \<equiv> fst (atomic_check (sl_gcra s) now)" and "sd \<equiv> fst (shadow_check (sl_shadow s) now)"
  assumes dec: "decide dry now s = (ans, s')"
  shows "ck_decision ans = (if dry then Allowed else decision_at d now)"
    "ck_shadow ans = map_option (\<lambda>d. decision_at d now) sd"
    "sl_gcra s' = snd (atomic_check (sl_gcra s) now)" "sl_shadow s' = snd (shadow_check (sl_shadow s) now)"
    "sl_key s' = sl_key s" "sl_class s' = sl_class s"
    "sl_counts s' = sl_counts s + (if d = Allow then 0 else DENIAL)"
    "sl_shadow_denials s' = sl_shadow_denials s + (if sd = None \<or> sd = Some Allow then 0 else 1)"
  using dec unfolding d_def sd_def decide_def Let_def
  by (auto simp: count_denial_def count_shadow_denial_def decision_at_def split: prod.splits decision.splits option.splits)

lemma check_quota_kept [simp]: "a_quota (snd (atomic_check a now)) = a_quota a" "s_quota (snd (shadow_check s now)) = s_quota s"
  by (auto simp: atomic_check_def shadow_check_def split: prod.split)

lemma decide_ok:
  assumes "slot_ok s"
  shows "slot_ok (snd (decide dry now s))"
proof -
  obtain ans s' where "decide dry now s = (ans, s')" by force
  from decide_spec [OF this] this show ?thesis using assms by (simp add: slot_ok_def)
qed

lemma fresh_quota_ok:
  assumes "shared_wf h sh"
  shows "\<exists>q shadow. fresh_quota h sh cls key = Some (q, shadow) \<and> quota_wf q \<and> (\<forall>new. shadow = Some new \<longrightarrow> quota_wf new)"
proof -
  have lim: "limits_wf h (sh_classes sh) (sh_key_limits sh)" using assms by (simp add: shared_wf_def)
  let ?r = "class_resolve h (cl_table (sh_classes sh)) (kl_table (sh_key_limits sh)) cls key"
  let ?l = "if key_limits_is_empty (sh_key_limits sh) \<and> \<not> cl_has_shadows (sh_classes sh)
         then (class_limit_of (sh_classes sh) cls, None)
         else class_limit_for h (sh_classes sh) (kl_table (sh_key_limits sh)) cls key"
  have cls: "class_limit_for h (sh_classes sh) (kl_table (sh_key_limits sh)) cls key = (rs_limit ?r, rs_shadow ?r)"
    using lim by (intro limit_for_resolves) (simp add: limits_wf_def)
  have "?l = (rs_limit ?r, rs_shadow ?r)"
  proof (cases "key_limits_is_empty (sh_key_limits sh) \<and> \<not> cl_has_shadows (sh_classes sh)")
    case True
    then have "kl_table (sh_key_limits sh) = []"
      using lim by (simp add: limits_wf_def key_limits_wf_def key_limits_is_empty_def)
    then have "class_limit_for h (sh_classes sh) (kl_table (sh_key_limits sh)) cls key = (class_limit_of (sh_classes sh) cls, None)"
      using True by (simp add: class_limit_for_def)
    then show ?thesis using True cls by simp
  qed (simp only: cls if_False)
  then obtain l shadow where l: "?l = (l, shadow)" "burst_ok l" "\<forall>s. shadow = Some s \<longrightarrow> burst_ok s"
    using resolve_ok [OF lim, of cls key] by blast
  obtain q where q: "per_second (l_rate l * sh_fresh_factor sh) (l_burst l) = Some q" "quota_wf q"
    using per_second_ok [of "l_burst l"] l(2) by (auto simp: burst_ok_def)
  obtain qs where "shadow_quota q l shadow = Some qs" "\<forall>new. qs = Some new \<longrightarrow> quota_wf new"
    using shadow_quota_ok [OF l(3)] by blast
  then show ?thesis unfolding fresh_quota_def l(1) using q by simp
qed

lemma dress_ok:
  assumes wf: "shared_wf h sh" and s: "slot_ok s" "sl_key s = key"
  shows "\<exists>q shadow s'. fresh_quota h sh cls key = Some (q, shadow) \<and> quota_wf q \<and> dress_slot h sh cls key now s = Some s' \<and>
    slot_ok s' \<and> same_slot s s' \<and> atomic_set_quota (sl_gcra s) q now = Some (sl_gcra s')"
proof -
  obtain q shadow where q: "fresh_quota h sh cls key = Some (q, shadow)" "quota_wf q" "\<forall>new. shadow = Some new \<longrightarrow> quota_wf new"
    using fresh_quota_ok [OF wf] by blast
  obtain s1 where s1: "slot_set_quota s q now = Some s1" "slot_ok s1" "same_slot s s1"
    using slot_set_quota_ok [OF s(1) q(2)] by blast
  obtain s2 where s2: "slot_set_shadow s1 shadow now = Some s2" "slot_ok s2" "same_slot s1 s2" "sl_gcra s2 = sl_gcra s1"
    using slot_set_shadow_ok [OF s1(2) q(3)] by blast
  have "sl_key s2 = key" using s(2) s1(3) s2(3) by (simp add: same_slot_def)
  moreover have "atomic_set_quota (sl_gcra s) q now = Some (sl_gcra s1)"
    using s1(1) by (auto simp: slot_set_quota_def split: bind_splits)
  ultimately show ?thesis using q s1 s2 same_slot_trans [OF s1(3) s2(3)] by (simp add: dress_slot_def)
qed

text \<open>Where a check finds its slot, and the table with the slot taken.\<close>

lemma claim_places:
  assumes t: "table_ok h t" and key: "key \<noteq> EMPTY" "key \<noteq> BUSY"
  obtains (Found) i where "table_find h t key = Some i" "i < length (kt_slots t)" "key_at t i = key"
      "table_claim h t key = Some (InTable i, False, t)"
    | (Full) "table_find h t key = None" "\<forall>i \<in> set (candidates h t key). key_at t i \<noteq> EMPTY"
      "table_claim h t key = Some (Overflow, False, t)"
    | (Taken) i where "table_find h t key = None" "i \<in> set (candidates h t key)" "key_at t i = EMPTY" "i < length (kt_slots t)"
      "table_claim h t key = Some (InTable i, True, put_slot t i ((kt_slots t ! i)\<lparr>sl_key := key\<rparr>))"
      "table_ok h (put_slot t i ((kt_slots t ! i)\<lparr>sl_key := key\<rparr>))"
      "table_find h (put_slot t i ((kt_slots t ! i)\<lparr>sl_key := key\<rparr>)) key = Some i"
      "\<forall>k. k \<noteq> EMPTY \<longrightarrow> k \<noteq> key \<longrightarrow> table_find h (put_slot t i ((kt_slots t ! i)\<lparr>sl_key := key\<rparr>)) k = table_find h t k"
proof -
  have wf: "key_table_wf h t" using t by (simp add: table_ok_def)
  show thesis
  proof (cases rule: table_claim_cases [OF wf key(1), case_names F1 F2 F3])
    case (F1 i)
    then show thesis using Found table_find_iff [OF wf key(1)] by blast
  next
    case F2
    then show thesis by (rule Full)
  next
    case (F3 i)
    have i: "i < length (kt_slots t)" using key_table_wfD(7) [OF wf F3(1)] .
    let ?s = "(kt_slots t ! i)\<lparr>sl_key := key\<rparr>"
    have "slot_ok ?s" using t i by (simp add: table_ok_def slot_ok_def)
    then have "\<forall>s \<in> set (kt_slots (put_slot t i ?s)). slot_ok s"
      using t set_update_subset_insert [of "kt_slots t" i ?s] by (auto simp: put_slot_def table_ok_def)
    moreover note take = take_wf [OF wf key F3(2,1,3)]
    moreover have "slot_ok (kt_overflow (put_slot t i ?s))" using t by (simp add: put_slot_def table_ok_def)
    ultimately have "table_ok h (put_slot t i ?s)" by (simp add: table_ok_def)
    then show thesis using Taken [OF F3(2,1,3) i F3(4)] take by blast
  qed
qed

lemma tell_class_simps [simp]:
  "sl_key (tell_class r cls s) = sl_key s" "sl_gcra (tell_class r cls s) = sl_gcra s" "sl_shadow (tell_class r cls s) = sl_shadow s"
  "sl_counts (tell_class r cls s) = sl_counts s + ATTEMPT" "sl_shadow_denials (tell_class r cls s) = sl_shadow_denials s"
  "sl_class (tell_class r cls s) = (if is_overflow r then sl_class s else cls)"
  by (simp_all add: tell_class_def count_attempt_def)

lemma tell_class_ok: "slot_ok (tell_class r cls s) = slot_ok s"
  by (simp add: slot_ok_def)

text \<open>A check on a slot claimed: what is written goes to that slot only.\<close>

lemma check_claimed:
  assumes wf: "shared_wf h sh" and claim: "table_claim h (sh_table sh) key = Some (r, taken, t)"
    and t: "table_ok h t" "slot_there t r" and taken: "taken \<Longrightarrow> sl_key (slot_at t r) = key"
  obtains s ans s' where
    "(if taken then dress_slot h sh cls key now (tell_class r cls (slot_at t r)) else Some (tell_class r cls (slot_at t r))) = Some s"
    "slot_ok s" "same_slot (tell_class r cls (slot_at t r)) s" "taken \<or> sl_gcra s = sl_gcra (slot_at t r)"
    "\<not> taken \<or> (\<exists>q shadow. fresh_quota h sh cls key = Some (q, shadow) \<and> atomic_set_quota (sl_gcra (slot_at t r)) q now = Some (sl_gcra s))"
    "decide (sh_dry_run sh) now s = (ans, s')"
    "check_hashed h sh cls key now = Some (ans, sh\<lparr>sh_table := set_slot t r s'\<rparr>)"
    "shared_wf h (sh\<lparr>sh_table := set_slot t r s'\<rparr>)" "table_find h (set_slot t r s') k = table_find h t k"
    "\<forall>i. key_at (set_slot t r s') i = key_at t i"
proof -
  let ?s1 = "tell_class r cls (slot_at t r)"
  have s1: "slot_ok ?s1" using slot_at_ok [OF t] by (simp add: tell_class_ok)
  have "\<exists>s. (if taken then dress_slot h sh cls key now ?s1 else Some ?s1) = Some s \<and> slot_ok s \<and> same_slot ?s1 s \<and>
      (taken \<or> sl_gcra s = sl_gcra (slot_at t r)) \<and>
      (\<not> taken \<or> (\<exists>q shadow. fresh_quota h sh cls key = Some (q, shadow) \<and> atomic_set_quota (sl_gcra (slot_at t r)) q now = Some (sl_gcra s)))"
  proof (cases taken)
    case True
    then have "sl_key ?s1 = key" using taken by simp
    from dress_ok [OF wf s1 this, of cls now] show ?thesis using True by auto
  qed (simp add: s1)
  then obtain s where s: "(if taken then dress_slot h sh cls key now ?s1 else Some ?s1) = Some s" "slot_ok s" "same_slot ?s1 s"
    "taken \<or> sl_gcra s = sl_gcra (slot_at t r)"
    "\<not> taken \<or> (\<exists>q shadow. fresh_quota h sh cls key = Some (q, shadow) \<and> atomic_set_quota (sl_gcra (slot_at t r)) q now = Some (sl_gcra s))"
    by blast
  obtain ans s' where d: "decide (sh_dry_run sh) now s = (ans, s')" by force
  have s': "slot_ok s'" using decide_ok [OF s(2), of "sh_dry_run sh" now] d by simp
  have own: "sl_key s' = sl_key (slot_at t r)" using decide_spec(5) [OF d] s(3) by (simp add: same_slot_def)
  note set = set_slot_ok [OF t s' own]
  have "check_hashed h sh cls key now = Some (ans, sh\<lparr>sh_table := set_slot t r s'\<rparr>)"
    unfolding check_hashed_def claim using s(1) d by (simp add: Let_def)
  moreover have "shared_wf h (sh\<lparr>sh_table := set_slot t r s'\<rparr>)" using wf set(1) by (simp add: shared_wf_def)
  ultimately show thesis using that [OF s d] set(2) set_slot_keys [OF t(2) own] by blast
qed

section \<open>Any checks\<close>

fun check_each :: "hashes \<Rightarrow> shared \<Rightarrow> (u64 \<times> u64 \<times> nanos) list \<Rightarrow> (checked_request list \<times> shared) option" where
  "check_each h sh [] = Some ([], sh)"
| "check_each h sh ((cls, key, now) # reqs) = do {
     (ans, sh1) \<leftarrow> check_hashed h sh cls key now;
     (answers, sh2) \<leftarrow> check_each h sh1 reqs;
     Some (ans # answers, sh2)
   }"

definition of_key :: "u64 \<Rightarrow> (u64 \<times> u64 \<times> nanos) list \<Rightarrow> nanos list" where
  "of_key key reqs = map (\<lambda>(cls, k, now). now) (filter (\<lambda>(cls, k, now). k = key) reqs)"

definition answers_to :: "u64 \<Rightarrow> (u64 \<times> u64 \<times> nanos) list \<Rightarrow> checked_request list \<Rightarrow> user_decision list" where
  "answers_to key reqs answers = map (\<lambda>(req, ans). ck_decision ans) (filter (\<lambda>((cls, k, now), ans). k = key) (zip reqs answers))"

definition keys_ok :: "(u64 \<times> u64 \<times> nanos) list \<Rightarrow> bool" where
  "keys_ok reqs = (\<forall>(cls, key, now) \<in> set reqs. key \<noteq> EMPTY \<and> key \<noteq> BUSY)"

text \<open>One check, seen from a key that has a slot.\<close>

lemma check_seen_from:
  assumes wf: "shared_wf h sh" and key: "key \<noteq> EMPTY" "key \<noteq> BUSY"
    and k: "k \<noteq> EMPTY" "table_find h (sh_table sh) k = Some i"
  shows "\<exists>ans sh'. check_hashed h sh cls key now = Some (ans, sh') \<and> shared_wf h sh' \<and> sh_dry_run sh' = sh_dry_run sh \<and>
    table_find h (sh_table sh') k = Some i \<and>
    (if k = key
     then sl_gcra (kt_slots (sh_table sh') ! i) = snd (atomic_check (sl_gcra (kt_slots (sh_table sh) ! i)) now) \<and>
       ck_decision ans = (if sh_dry_run sh then Allowed
         else decision_at (fst (atomic_check (sl_gcra (kt_slots (sh_table sh) ! i)) now)) now)
     else kt_slots (sh_table sh') ! i = kt_slots (sh_table sh) ! i)"
proof -
  let ?t = "sh_table sh"
  have t: "table_ok h ?t" using wf by (simp add: shared_wf_def)
  then have tw: "key_table_wf h ?t" by (simp add: table_ok_def)
  have at: "i < length (kt_slots ?t)" "key_at ?t i = k" using table_find_iff [OF tw k(1)] k(2) by blast+
  have slots: "kt_slots (set_slot t r s) ! i = kt_slots t ! i" if "r \<noteq> InTable i" for t r s
    using slot_at_set(2) [of "InTable i" r t s] that by (auto simp: slot_at_def)
  show ?thesis
  proof (cases rule: claim_places [OF t key, case_names Found Full Taken])
    case (Found j)
    have there: "slot_there ?t (InTable j)" using Found(2) by (simp add: slot_there_def)
    obtain s ans s' where c0: "False \<or> sl_gcra s = sl_gcra (slot_at ?t (InTable j))" and c: "decide (sh_dry_run sh) now s = (ans, s')"
      "check_hashed h sh cls key now = Some (ans, sh\<lparr>sh_table := set_slot ?t (InTable j) s'\<rparr>)"
      "shared_wf h (sh\<lparr>sh_table := set_slot ?t (InTable j) s'\<rparr>)" "table_find h (set_slot ?t (InTable j) s') k = table_find h ?t k"
      by (rule check_claimed [OF wf Found(4) t there, of cls now k]) (simp, rule that)
    have c1: "sl_gcra s = sl_gcra (kt_slots ?t ! j)" using c0 by (simp add: slot_at_def)
    have "k = key \<longleftrightarrow> j = i"
    proof
      assume "k = key"
      then show "j = i" using Found(1) k(2) by simp
    next
      assume "j = i"
      then show "k = key" unfolding at(2) [symmetric] Found(3) [symmetric] by (rule arg_cong [OF sym])
    qed
    moreover have "kt_slots (set_slot ?t (InTable j) s') ! j = s'" using slot_at_set(1) [OF there] by (simp add: slot_at_def)
    ultimately show ?thesis using c c1 k(2) decide_spec(1,3) [OF c(1)] slots [of "InTable j" ?t s'] by auto
  next
    case Full
    have there: "slot_there ?t Overflow" by (simp add: slot_there_def)
    obtain s ans s' where c: "decide (sh_dry_run sh) now s = (ans, s')"
      "check_hashed h sh cls key now = Some (ans, sh\<lparr>sh_table := set_slot ?t Overflow s'\<rparr>)"
      "shared_wf h (sh\<lparr>sh_table := set_slot ?t Overflow s'\<rparr>)" "table_find h (set_slot ?t Overflow s') k = table_find h ?t k"
      by (rule check_claimed [OF wf Full(3) t there, of cls now k]) (simp, rule that)
    then show ?thesis using Full(1) k(2) slots [of Overflow ?t s'] by auto
  next
    case (Taken j)
    let ?t' = "put_slot ?t j ((kt_slots ?t ! j)\<lparr>sl_key := key\<rparr>)"
    have there: "slot_there ?t' (InTable j)" using Taken(4) by (simp add: slot_there_def)
    have mine: "sl_key (slot_at ?t' (InTable j)) = key" using Taken(4) by (simp add: slot_at_def put_slot_def)
    obtain s ans s' where c: "decide (sh_dry_run sh) now s = (ans, s')"
      "check_hashed h sh cls key now = Some (ans, sh\<lparr>sh_table := set_slot ?t' (InTable j) s'\<rparr>)"
      "shared_wf h (sh\<lparr>sh_table := set_slot ?t' (InTable j) s'\<rparr>)" "table_find h (set_slot ?t' (InTable j) s') k = table_find h ?t' k"
      by (rule check_claimed [OF wf Taken(5,6) there mine, of cls now k]) (rule that)
    have "k \<noteq> key" "j \<noteq> i" using Taken(1,3) k at(2) by auto
    then have "table_find h ?t' k = Some i" "kt_slots ?t' ! i = kt_slots ?t ! i" using Taken(8) k by (simp_all add: put_slot_def)
    then show ?thesis using c \<open>k \<noteq> key\<close> \<open>j \<noteq> i\<close> slots [of "InTable j" ?t' s'] by auto
  qed
qed

lemma check_each_isolated:
  assumes "shared_wf h sh" "keys_ok reqs" and k: "k \<noteq> EMPTY" "table_find h (sh_table sh) k = Some i"
  shows "\<exists>answers sh'. check_each h sh reqs = Some (answers, sh') \<and> shared_wf h sh' \<and> length answers = length reqs \<and>
    answers_to k reqs answers = map2 (\<lambda>d now. if sh_dry_run sh then Allowed else decision_at d now)
      (fst (run_checks atomic_check (sl_gcra (kt_slots (sh_table sh) ! i)) (of_key k reqs))) (of_key k reqs)"
  using assms(1,2) k(2)
proof (induction reqs arbitrary: sh)
  case Nil
  then show ?case by (simp add: answers_to_def of_key_def)
next
  case (Cons req reqs)
  obtain cls key now where req: "req = (cls, key, now)" by (rule prod_cases3)
  have ok: "key \<noteq> EMPTY" "key \<noteq> BUSY" "keys_ok reqs" using Cons.prems(2) by (simp_all add: keys_ok_def req)
  obtain ans sh1 where c: "check_hashed h sh cls key now = Some (ans, sh1)" "shared_wf h sh1" "sh_dry_run sh1 = sh_dry_run sh"
    "table_find h (sh_table sh1) k = Some i"
    "if k = key
     then sl_gcra (kt_slots (sh_table sh1) ! i) = snd (atomic_check (sl_gcra (kt_slots (sh_table sh) ! i)) now) \<and>
       ck_decision ans = (if sh_dry_run sh then Allowed
         else decision_at (fst (atomic_check (sl_gcra (kt_slots (sh_table sh) ! i)) now)) now)
     else kt_slots (sh_table sh1) ! i = kt_slots (sh_table sh) ! i"
    using check_seen_from [OF Cons.prems(1) ok(1,2) k(1) Cons.prems(3), of cls now] by blast
  from Cons.IH [OF c(2) ok(3) c(4)] obtain answers sh' where IH: "check_each h sh1 reqs = Some (answers, sh')" "shared_wf h sh'"
    "length answers = length reqs"
    "answers_to k reqs answers = map2 (\<lambda>d now. if sh_dry_run sh then Allowed else decision_at d now)
      (fst (run_checks atomic_check (sl_gcra (kt_slots (sh_table sh1) ! i)) (of_key k reqs))) (of_key k reqs)"
    unfolding c(3) by blast
  have "check_each h sh (req # reqs) = Some (ans # answers, sh')" by (simp add: req c(1) IH(1))
  moreover have "answers_to k (req # reqs) (ans # answers) =
      map2 (\<lambda>d now. if sh_dry_run sh then Allowed else decision_at d now)
        (fst (run_checks atomic_check (sl_gcra (kt_slots (sh_table sh) ! i)) (of_key k (req # reqs)))) (of_key k (req # reqs))"
  proof (cases "k = key")
    case True
    then show ?thesis using c(5) IH(4) by (simp add: answers_to_def of_key_def req split_beta)
  next
    case False
    then show ?thesis using c(5) IH(4) by (simp add: answers_to_def of_key_def req)
  qed
  ultimately show ?case using IH(2,3) by auto
qed

section \<open>Properties\<close>

text \<open>
  C18. A check. On a guard whose state is valid it never panics and keeps it valid. The decision is that of the GCRA of the
  slot the key has, of the slot it takes, at its class's quota for a new key, or of the overflow slot; in a dry run the
  request is admitted all the same. One attempt is counted there, and one denial if the GCRA denied, dry run or not;
  the slot is told its class, and every other slot stays as it is.
\<close>

theorem guard_check_decides:
  assumes wf: "shared_wf h sh" and key: "key \<noteq> EMPTY" "key \<noteq> BUSY"
  shows "\<exists>r g ans sh'. check_hashed h sh cls key now = Some (ans, sh') \<and> shared_wf h sh' \<and>
    (case table_find h (sh_table sh) key of
       Some i \<Rightarrow> r = InTable i \<and> g = sl_gcra (kt_slots (sh_table sh) ! i)
     | None \<Rightarrow>
         if \<forall>i \<in> set (candidates h (sh_table sh) key). key_at (sh_table sh) i \<noteq> EMPTY
         then r = Overflow \<and> g = sl_gcra (kt_overflow (sh_table sh))
         else \<exists>i q shadow. r = InTable i \<and> i \<in> set (candidates h (sh_table sh) key) \<and> key_at (sh_table sh) i = EMPTY \<and>
           fresh_quota h sh cls key = Some (q, shadow) \<and>
           atomic_set_quota (sl_gcra (kt_slots (sh_table sh) ! i)) q now = Some g \<and>
           table_find h (sh_table sh') key = Some i) \<and>
    ck_decision ans = (if sh_dry_run sh then Allowed else decision_at (fst (atomic_check g now)) now) \<and>
    sl_gcra (slot_at (sh_table sh') r) = snd (atomic_check g now) \<and>
    sl_counts (slot_at (sh_table sh') r) = sl_counts (slot_at (sh_table sh) r) + ATTEMPT +
      (if fst (atomic_check g now) = Allow then 0 else DENIAL) \<and>
    (r \<noteq> Overflow \<longrightarrow> sl_class (slot_at (sh_table sh') r) = cls) \<and>
    (\<forall>r'. r' \<noteq> r \<longrightarrow> slot_at (sh_table sh') r' = slot_at (sh_table sh) r')"
proof -
  let ?t = "sh_table sh"
  have t: "table_ok h ?t" using wf by (simp add: shared_wf_def)
  have wrote: "sl_gcra (slot_at (set_slot t r s') r) = snd (atomic_check (sl_gcra s) now) \<and>
      sl_counts (slot_at (set_slot t r s') r) = sl_counts (slot_at t r) + ATTEMPT +
        (if fst (atomic_check (sl_gcra s) now) = Allow then 0 else DENIAL) \<and>
      (r \<noteq> Overflow \<longrightarrow> sl_class (slot_at (set_slot t r s') r) = cls) \<and>
      (\<forall>r'. r' \<noteq> r \<longrightarrow> slot_at (set_slot t r s') r' = slot_at t r') \<and>
      ck_decision ans = (if sh_dry_run sh then Allowed else decision_at (fst (atomic_check (sl_gcra s) now)) now)"
    if "slot_there t r" "same_slot (tell_class r cls (slot_at t r)) s" "decide (sh_dry_run sh) now s = (ans, s')" for t r s s' ans
    using decide_spec [OF that(3)] that(2) slot_at_set(1) [OF that(1)]
    by (simp add: same_slot_def is_overflow_def slot_at_set(2))
  show ?thesis
  proof (cases rule: claim_places [OF t key, case_names Found Full Taken])
    case (Found i)
    have there: "slot_there ?t (InTable i)" using Found(2) by (simp add: slot_there_def)
    obtain s ans s' where c: "same_slot (tell_class (InTable i) cls (slot_at ?t (InTable i))) s"
      "False \<or> sl_gcra s = sl_gcra (slot_at ?t (InTable i))" "decide (sh_dry_run sh) now s = (ans, s')"
      "check_hashed h sh cls key now = Some (ans, sh\<lparr>sh_table := set_slot ?t (InTable i) s'\<rparr>)"
      "shared_wf h (sh\<lparr>sh_table := set_slot ?t (InTable i) s'\<rparr>)"
      by (rule check_claimed [OF wf Found(4) t there, of cls now key]) (simp, rule that)
    have g: "sl_gcra s = sl_gcra (kt_slots ?t ! i)" using c(2) by (simp add: slot_at_def)
    show ?thesis
      by (rule exI [of _ "InTable i"], rule exI [of _ "sl_gcra s"], rule exI [of _ ans],
          rule exI [of _ "sh\<lparr>sh_table := set_slot ?t (InTable i) s'\<rparr>"])
        (use wrote [OF there c(1,3)] c(4,5) g Found(1) in simp)
  next
    case Full
    have there: "slot_there ?t Overflow" by (simp add: slot_there_def)
    obtain s ans s' where c: "same_slot (tell_class Overflow cls (slot_at ?t Overflow)) s"
      "False \<or> sl_gcra s = sl_gcra (slot_at ?t Overflow)" "decide (sh_dry_run sh) now s = (ans, s')"
      "check_hashed h sh cls key now = Some (ans, sh\<lparr>sh_table := set_slot ?t Overflow s'\<rparr>)"
      "shared_wf h (sh\<lparr>sh_table := set_slot ?t Overflow s'\<rparr>)"
      by (rule check_claimed [OF wf Full(3) t there, of cls now key]) (simp, rule that)
    have g: "sl_gcra s = sl_gcra (kt_overflow ?t)" using c(2) by (simp add: slot_at_def)
    show ?thesis
      by (rule exI [of _ Overflow], rule exI [of _ "sl_gcra s"], rule exI [of _ ans],
          rule exI [of _ "sh\<lparr>sh_table := set_slot ?t Overflow s'\<rparr>"])
        (use wrote [OF there c(1,3)] c(4,5) g Full(1,2) in simp)
  next
    case (Taken i)
    let ?t' = "put_slot ?t i ((kt_slots ?t ! i)\<lparr>sl_key := key\<rparr>)"
    have there: "slot_there ?t' (InTable i)" using Taken(4) by (simp add: slot_there_def)
    have at: "slot_at ?t' (InTable i) = (kt_slots ?t ! i)\<lparr>sl_key := key\<rparr>" using Taken(4) by (simp add: slot_at_def put_slot_def)
    have mine: "sl_key (slot_at ?t' (InTable i)) = key" by (simp add: at)
    have other: "slot_at ?t' r' = slot_at ?t r'" if "r' \<noteq> InTable i" for r'
      using that by (cases r') (simp_all add: slot_at_def put_slot_def)
    obtain s ans s' where c: "same_slot (tell_class (InTable i) cls (slot_at ?t' (InTable i))) s"
      "\<not> True \<or> (\<exists>q shadow. fresh_quota h sh cls key = Some (q, shadow) \<and>
        atomic_set_quota (sl_gcra (slot_at ?t' (InTable i))) q now = Some (sl_gcra s))"
      "decide (sh_dry_run sh) now s = (ans, s')"
      "check_hashed h sh cls key now = Some (ans, sh\<lparr>sh_table := set_slot ?t' (InTable i) s'\<rparr>)"
      "shared_wf h (sh\<lparr>sh_table := set_slot ?t' (InTable i) s'\<rparr>)"
      "table_find h (set_slot ?t' (InTable i) s') key = table_find h ?t' key"
      by (rule check_claimed [OF wf Taken(5,6) there mine, of cls now key]) (rule that)
    obtain q shadow where q: "fresh_quota h sh cls key = Some (q, shadow)"
      "atomic_set_quota (sl_gcra (kt_slots ?t ! i)) q now = Some (sl_gcra s)"
      using c(2) by (auto simp: at)
    have "slot_at ?t (InTable i) = kt_slots ?t ! i" by (simp add: slot_at_def)
    moreover have "\<not> (\<forall>i \<in> set (candidates h ?t key). key_at ?t i \<noteq> EMPTY)" using Taken(2,3) by blast
    ultimately show ?thesis
      by (intro exI [of _ "InTable i"] exI [of _ "sl_gcra s"] exI [of _ ans] exI [of _ "sh\<lparr>sh_table := set_slot ?t' (InTable i) s'\<rparr>"])
        (use wrote [OF there c(1,3)] c(4-6) q Taken(1,2,3,7) at other in auto)
  qed
qed

definition example_shared :: shared where
  "example_shared = \<lparr>sh_table = example_key_table, sh_cluster_size = 1, sh_running = True, sh_most_denied = 10, sh_dry_run = False,
     sh_report = \<lparr>rp_stats = \<lparr>st_admitted = 0, st_denied = 0, st_overflowed = 0, st_cluster_size = 1, st_counted_size = 1,
         st_suspects = 0, st_tracked_keys = 0, st_hot_keys = 0, st_held = held_default, st_since_last_round = None,
         st_running = True, st_dry_run = False, st_most_denied = [], st_most_shadow_denied = [], st_unknown_class = 0,
         st_shadow_denied = 0, st_gossip_auth = Off, st_rejected_datagrams = rejected_none, st_identity_conflicts = 0,
         st_members_refused = 0\<rparr>, rp_attempts = 0, rp_last_round = None\<rparr>,
     sh_classes = classes_new example_hashes (limit_per_second 100)
       \<lparr>l_rate = limit_rate_per_sec (limit_per_second 100), l_burst = 5\<rparr> [] 1,
     sh_key_limits = key_limits_new 1, sh_fresh_factor = 1, sh_free_quota = the (pack example_quota), sh_auth = auth_off, sh_salt = None\<rparr>"

lemma example_limits_wf: "limits_wf example_hashes (sh_classes example_shared) (sh_key_limits example_shared)"
proof -
  have "classes_wf example_hashes (sh_classes example_shared)"
    unfolding example_shared_def by (simp, rule classes_new_wf [OF example_to_core, of _ "[]"]) (simp add: checked_def)
  moreover have "classes_made (sh_classes example_shared)"
    using user_limit_made(1) [of 100 Second]
    by (simp add: example_shared_def classes_made_def classes_new_def by_name_def limit_per_second_def)
  ultimately show ?thesis
    by (simp add: limits_wf_def example_shared_def key_limits_wf_def key_limits_made_def key_limits_new_def)
qed

lemma key_table_new_ok:
  assumes "quota_wf q" "key_table_new n q seed = Some t"
  shows "table_ok h t"
proof -
  obtain s where s: "slot_new q = Some s" "kt_overflow t = s" "set (kt_slots t) \<subseteq> {s}"
    using assms(2) set_replicate_conv_if subset_refl by (fastforce simp: key_table_new_def Let_def split: bind_splits if_splits)
  obtain w where w: "pack q = Some w" "packed_ok w" using packed_pack [OF assms(1)] by blast
  have "slot_ok s" using s(1) w by (auto simp: slot_new_def atomic_new_def slot_ok_def shadow_new_def)
  then show ?thesis using key_table_new_wf [OF assms] s(2,3) by (auto simp: table_ok_def)
qed

lemma example_shared_wf: "shared_wf example_hashes example_shared"
proof -
  obtain w where w: "pack example_quota = Some w" "packed_ok w" using packed_pack [OF example_quota_wf] by blast
  have "table_ok example_hashes example_key_table" by (rule key_table_new_ok [OF example_quota_wf example_key_table])
  then show ?thesis using example_limits_wf w by (simp add: shared_wf_def) (simp add: example_shared_def)
qed

theorem guard_check_decides_witness:
  "\<exists>ans sh'. check_hashed example_hashes example_shared 0 42 1000 = Some (ans, sh') \<and> shared_wf example_hashes sh'"
  using guard_check_decides [OF example_shared_wf, of 42 0 1000] by (auto simp: EMPTY_def BUSY_def)

lemma count_allowed:
  "length ds = length nows \<Longrightarrow> count_list (map2 (\<lambda>d now. decision_at d now) ds nows) Allowed = count_list ds Allow"
  by (induction ds nows rule: list_induct2) (auto simp: decision_at_def split: decision.splits)

lemma run_checks_length: "length (fst (run_checks check s reqs)) = length reqs"
  by (induction reqs arbitrary: s) (simp_all add: split_beta Let_def)

section \<open>A key without a slot\<close>

text \<open>There is no room for a key: every slot it might take is taken.\<close>

definition no_room :: "hashes \<Rightarrow> key_table \<Rightarrow> u64 \<Rightarrow> bool" where
  "no_room h t key = (\<forall>i \<in> set (candidates h t key). key_at t i \<noteq> EMPTY)"

lemma candidates_same [simp]:
  "candidates h (set_slot t r s) key = candidates h t key" "candidates h (put_slot t i s) key = candidates h t key"
  by (simp_all add: candidates_def buckets_of_def set_slot_def put_slot_def split: slot_ref.split)

lemma overflow_same [simp]: "kt_overflow (put_slot t i s) = kt_overflow t" "kt_overflow (set_slot t (InTable i) s) = kt_overflow t"
  "kt_overflow (set_slot t Overflow s) = s"
  by (simp_all add: put_slot_def set_slot_def)

text \<open>One check, seen from a key that has no slot: it takes one if there is room, else it is decided by the overflow slot.\<close>

lemma check_seen_without:
  fixes now :: nanos
  assumes wf: "shared_wf h sh" and key: "key \<noteq> EMPTY" "key \<noteq> BUSY"
    and k: "k \<noteq> EMPTY" "table_find h (sh_table sh) k = None"
  defines "over \<equiv> sl_gcra (kt_overflow (sh_table sh))"
    and "says \<equiv> \<lambda>g. if sh_dry_run sh then Allowed else decision_at (fst (atomic_check g now)) now"
  shows "\<exists>ans t'. check_hashed h sh cls key now = Some (ans, sh\<lparr>sh_table := t'\<rparr>) \<and> shared_wf h (sh\<lparr>sh_table := t'\<rparr>) \<and>
    (no_room h (sh_table sh) k \<longrightarrow> no_room h t' k) \<and>
    (sl_gcra (kt_overflow t') = over \<or> sl_gcra (kt_overflow t') = snd (atomic_check over now)) \<and>
    (if k \<noteq> key then table_find h t' k = None
     else if no_room h (sh_table sh) k
     then table_find h t' k = None \<and> sl_gcra (kt_overflow t') = snd (atomic_check over now) \<and> ck_decision ans = says over
     else \<exists>i q shadow g. table_find h t' k = Some i \<and> fresh_quota h sh cls k = Some (q, shadow) \<and> quota_wf q \<and>
       pack q = Some (a_quota g) \<and> sl_gcra (kt_slots t' ! i) = snd (atomic_check g now) \<and> ck_decision ans = says g)"
proof -
  let ?t = "sh_table sh"
  have t: "table_ok h ?t" using wf by (simp add: shared_wf_def)
  show ?thesis
  proof (cases rule: claim_places [OF t key, case_names Found Full Taken])
    case (Found j)
    have there: "slot_there ?t (InTable j)" using Found(2) by (simp add: slot_there_def)
    obtain ans s' where c: "check_hashed h sh cls key now = Some (ans, sh\<lparr>sh_table := set_slot ?t (InTable j) s'\<rparr>)"
      "shared_wf h (sh\<lparr>sh_table := set_slot ?t (InTable j) s'\<rparr>)" "table_find h (set_slot ?t (InTable j) s') k = table_find h ?t k"
      "\<forall>i. key_at (set_slot ?t (InTable j) s') i = key_at ?t i"
      by (rule check_claimed [OF wf Found(4) t there, of cls now k]) (simp, rule that)
    moreover have "k \<noteq> key" using Found(1) k(2) by auto
    ultimately show ?thesis using k(2)
      by (intro exI [of _ ans] exI [of _ "set_slot ?t (InTable j) s'"]) (simp add: no_room_def over_def)
  next
    case Full
    have there: "slot_there ?t Overflow" by (simp add: slot_there_def)
    obtain s ans s' where c: "same_slot (tell_class Overflow cls (slot_at ?t Overflow)) s"
      "False \<or> sl_gcra s = sl_gcra (slot_at ?t Overflow)" "decide (sh_dry_run sh) now s = (ans, s')"
      "check_hashed h sh cls key now = Some (ans, sh\<lparr>sh_table := set_slot ?t Overflow s'\<rparr>)"
      "shared_wf h (sh\<lparr>sh_table := set_slot ?t Overflow s'\<rparr>)" "table_find h (set_slot ?t Overflow s') k = table_find h ?t k"
      "\<forall>i. key_at (set_slot ?t Overflow s') i = key_at ?t i"
      by (rule check_claimed [OF wf Full(3) t there, of cls now k]) (simp, rule that)
    have g: "sl_gcra s = over" using c(2) by (simp add: slot_at_def over_def)
    have "k = key \<longrightarrow> no_room h ?t k" using Full(2) by (simp add: no_room_def)
    then show ?thesis using c(4-7) decide_spec(1,3) [OF c(3)] g k(2)
      by (intro exI [of _ ans] exI [of _ "set_slot ?t Overflow s'"]) (auto simp: no_room_def says_def)
  next
    case (Taken j)
    let ?t' = "put_slot ?t j ((kt_slots ?t ! j)\<lparr>sl_key := key\<rparr>)"
    have there: "slot_there ?t' (InTable j)" using Taken(4) by (simp add: slot_there_def)
    have mine: "sl_key (slot_at ?t' (InTable j)) = key" using Taken(4) by (simp add: slot_at_def put_slot_def)
    obtain s ans s' where c:
      "\<not> True \<or> (\<exists>q shadow. fresh_quota h sh cls key = Some (q, shadow) \<and>
        atomic_set_quota (sl_gcra (slot_at ?t' (InTable j))) q now = Some (sl_gcra s))"
      "decide (sh_dry_run sh) now s = (ans, s')"
      "check_hashed h sh cls key now = Some (ans, sh\<lparr>sh_table := set_slot ?t' (InTable j) s'\<rparr>)"
      "shared_wf h (sh\<lparr>sh_table := set_slot ?t' (InTable j) s'\<rparr>)" "table_find h (set_slot ?t' (InTable j) s') k = table_find h ?t' k"
      "\<forall>i. key_at (set_slot ?t' (InTable j) s') i = key_at ?t' i"
      by (rule check_claimed [OF wf Taken(5,6) there mine, of cls now k]) (rule that)
    have kept: "no_room h ?t k \<longrightarrow> no_room h (set_slot ?t' (InTable j) s') k"
    proof -
      have "key_at ?t' i = (if i = j then key else key_at ?t i)" for i
        using Taken(4) by (simp add: key_at_def put_slot_def nth_list_update)
      then show ?thesis using c(6) key(1) by (simp add: no_room_def)
    qed
    have "sl_gcra (kt_slots (set_slot ?t' (InTable j) s') ! j) = snd (atomic_check (sl_gcra s) now)"
      using slot_at_set(1) [OF there, of s'] decide_spec(3) [OF c(2)] by (simp add: slot_at_def)
    moreover obtain q shadow where q: "fresh_quota h sh cls key = Some (q, shadow)" "quota_wf q"
      "atomic_set_quota (sl_gcra (slot_at ?t' (InTable j))) q now = Some (sl_gcra s)"
      using c(1) fresh_quota_ok [OF wf, of cls key] by auto
    moreover have "pack q = Some (a_quota (sl_gcra s))"
    proof -
      have "slot_ok (slot_at ?t' (InTable j))" by (rule slot_at_ok [OF Taken(6) there])
      then have "packed_ok (a_quota (sl_gcra (slot_at ?t' (InTable j))))" by (simp only: slot_ok_def)
      from atomic_set_quota_packed [OF this q(2), of now] show ?thesis unfolding q(3) by blast
    qed
    moreover have "k = key \<longrightarrow> \<not> no_room h ?t k" using Taken(2,3) by (auto simp: no_room_def)
    moreover have "k \<noteq> key \<longrightarrow> table_find h ?t' k = None" using Taken(8) k by simp
    ultimately show ?thesis using c(3-5) kept Taken(7) decide_spec(1) [OF c(2)]
      by (intro exI [of _ ans] exI [of _ "set_slot ?t' (InTable j) s'"]) (auto simp: over_def says_def)
  qed
qed

text \<open>The answers a key gets, request by request.\<close>

lemma of_key_Cons: "of_key k ((cls, key, now) # reqs) = (if key = k then [now] else []) @ of_key k reqs"
  by (simp add: of_key_def)

lemma answers_to_Cons:
  "answers_to k ((cls, key, now) # reqs) (ans # answers) = (if key = k then [ck_decision ans] else []) @ answers_to k reqs answers"
  by (simp add: answers_to_def)

lemma check_each_Cons:
  assumes "check_hashed h sh cls key now = Some (ans, sh1)" "check_each h sh1 reqs = Some (answers, sh2)"
  shows "check_each h sh ((cls, key, now) # reqs) = Some (ans # answers, sh2)"
  using assms by simp

text \<open>A key without room is held to the quota of the overflow slot, whoever else is decided by it.\<close>

abbreviation over_gcra :: "shared \<Rightarrow> atomic_gcra" where
  "over_gcra sh \<equiv> sl_gcra (kt_overflow (sh_table sh))"

lemma check_each_overflows:
  assumes "shared_wf h sh" "keys_ok reqs" and k: "k \<noteq> EMPTY" "table_find h (sh_table sh) k = None" "no_room h (sh_table sh) k"
    and dry: "\<not> sh_dry_run sh" and debt: "packed.debt lo n (over_gcra sh)"
    and window: "\<forall>now \<in> set (of_key k reqs). lo \<le> unat now \<and> unat now \<le> hi"
    and big: "hi + unat (snd (decode_quota (a_quota (over_gcra sh)))) < u64_max"
  shows "\<exists>answers sh'. check_each h sh reqs = Some (answers, sh') \<and> shared_wf h sh' \<and>
    packed.within_window lo hi (over_gcra sh) n (count_list (answers_to k reqs answers) Allowed)"
  using assms
proof (induction reqs arbitrary: sh n)
  case Nil
  then show ?case by (simp add: answers_to_def packed.within_window_def)
next
  case (Cons req reqs)
  obtain cls key now where req: "req = (cls, key, now)" by (rule prod_cases3)
  have ok: "key \<noteq> EMPTY" "key \<noteq> BUSY" "keys_ok reqs" using Cons.prems(2) by (simp_all add: keys_ok_def req)
  let ?g = "over_gcra sh" and ?d = "fst (atomic_check (over_gcra sh) now)"
  obtain ans t' where c: "check_hashed h sh cls key now = Some (ans, sh\<lparr>sh_table := t'\<rparr>)" "shared_wf h (sh\<lparr>sh_table := t'\<rparr>)"
    "no_room h t' k" "sl_gcra (kt_overflow t') = ?g \<or> sl_gcra (kt_overflow t') = snd (atomic_check ?g now)"
    "table_find h t' k = None"
    "k = key \<longrightarrow> sl_gcra (kt_overflow t') = snd (atomic_check ?g now) \<and> ck_decision ans = decision_at ?d now"
    using check_seen_without [OF Cons.prems(1) ok(1,2) k(1) Cons.prems(4), of cls now] Cons.prems(5,6) by (auto split: if_splits)
  let ?sh1 = "sh\<lparr>sh_table := t'\<rparr>" and ?m = "if k = key \<and> ?d = Allow then Suc n else n"
  have times: "\<forall>now \<in> set (of_key k reqs). lo \<le> unat now \<and> unat now \<le> hi" "k = key \<Longrightarrow> lo \<le> unat now \<and> unat now \<le> hi"
    using Cons.prems(8) by (auto simp: req of_key_Cons)
  have "packed.debt lo ?m (over_gcra ?sh1)"
    using c(4,6) Cons.prems(7) packed.debt_kept [OF Cons.prems(7), of now] packed.debt_grown [OF Cons.prems(7) _ _ _ Cons.prems(9), of now]
      times(2) by auto
  moreover have "hi + unat (snd (decode_quota (a_quota (over_gcra ?sh1)))) < u64_max" using c(4) Cons.prems(9) by auto
  ultimately obtain answers sh' where IH: "check_each h ?sh1 reqs = Some (answers, sh')" "shared_wf h sh'"
    "packed.within_window lo hi (over_gcra ?sh1) ?m (count_list (answers_to k reqs answers) Allowed)"
    using Cons.IH [OF c(2) ok(3) k(1) _ _ _ _ times(1), of ?m] c(3,5) Cons.prems(6) by auto
  have "packed.within_window lo hi ?g n (count_list (answers_to k (req # reqs) (ans # answers)) Allowed)"
  proof (cases "k = key")
    case True
    have "count_list (answers_to k (req # reqs) (ans # answers)) Allowed =
        (if ?d = Allow then 1 else 0) + count_list (answers_to k reqs answers) Allowed"
      using True c(6) by (simp add: req answers_to_Cons decision_at_def split: decision.split)
    then show ?thesis
      using packed.within_step [OF Cons.prems(7,9), of now] times(2) c(6) IH(3) True by simp
  next
    case False
    then have "packed.within_window lo hi ?g n (count_list (answers_to k reqs answers) Allowed)"
      using IH(3) c(4) packed.within_other by auto
    then show ?thesis using False by (simp add: req answers_to_Cons)
  qed
  then show ?case using check_each_Cons [OF c(1) IH(1)] IH(2) by (auto simp: req)
qed

text \<open>The quota a key is held to: that of its slot, if it has one; if there is no room for it, that of the overflow slot; else,
  as it finds room or not at its first request, that of a new key of the class of that request or that of the overflow slot.\<close>

definition first_class :: "u64 \<Rightarrow> (u64 \<times> u64 \<times> nanos) list \<Rightarrow> u64" where
  "first_class key reqs = (case List.find (\<lambda>(cls, k, now). k = key) reqs of Some (cls, k, now) \<Rightarrow> cls | None \<Rightarrow> 0)"

definition held_to :: "hashes \<Rightarrow> shared \<Rightarrow> (u64 \<times> u64 \<times> nanos) list \<Rightarrow> u64 \<Rightarrow> quota \<Rightarrow> bool" where
  "held_to h sh reqs key q = (case table_find h (sh_table sh) key of
     Some i \<Rightarrow> pack q = Some (a_quota (sl_gcra (kt_slots (sh_table sh) ! i)))
   | None \<Rightarrow> pack q = Some (a_quota (over_gcra sh)) \<or>
       \<not> no_room h (sh_table sh) key \<and> (\<exists>shadow. fresh_quota h sh (first_class key reqs) key = Some (q, shadow)))"

definition quota_bound :: "quota \<Rightarrow> nat \<Rightarrow> nat \<Rightarrow> nat" where
  "quota_bound q lo hi = unat (q_burst q) + (hi - lo) div unat (q_interval q)"

lemma admitted_bound:
  assumes q: "quota_wf q" "pack q = Some (a_quota a)" and "lo \<le> hi" "packed.within_window lo hi a 0 m"
  shows "m \<le> quota_bound q lo hi"
  using packed.within_count [OF assms(4), of "unat (q_burst q)"] tau_nanos_le [of q] quota_wf_pos [OF q(1)] assms(3)
  by (simp add: decode_of_pack [OF q] quota_bound_def)

lemma tolerance_fits:
  assumes "quota_wf q" "pack q = Some w" "hi < 2 ^ 63"
  shows "hi + unat (snd (decode_quota w)) < u64_max"
  using assms(3) by (simp add: decode_of_pack [OF assms(1,2)] unat_tau_nanos)

lemma new_key_limited:
  assumes "shared_wf h sh" "keys_ok reqs" and k: "k \<noteq> EMPTY" "table_find h (sh_table sh) k = None"
    and dry: "\<not> sh_dry_run sh" and window: "\<forall>now \<in> set (of_key k reqs). lo \<le> unat now \<and> unat now \<le> hi" "lo \<le> hi" "hi < 2 ^ 63"
  shows "\<exists>answers sh' q. check_each h sh reqs = Some (answers, sh') \<and> shared_wf h sh' \<and> quota_wf q \<and> held_to h sh reqs k q \<and>
    count_list (answers_to k reqs answers) Allowed \<le> quota_bound q lo hi"
  using assms(1,2,4,5,6)
proof (induction reqs arbitrary: sh)
  case Nil
  then obtain q where "quota_wf q" "pack q = Some (a_quota (over_gcra sh))"
    by (auto simp: shared_wf_def table_ok_def slot_ok_def packed_ok_def)
  then show ?case using Nil by (auto simp: answers_to_def held_to_def intro!: exI [of _ q])
next
  case (Cons req reqs)
  obtain q0 where q0: "quota_wf q0" "pack q0 = Some (a_quota (over_gcra sh))"
    using Cons.prems(1) by (auto simp: shared_wf_def table_ok_def slot_ok_def packed_ok_def)
  show ?case
  proof (cases "no_room h (sh_table sh) k")
    case True
    have "packed.debt lo 0 (over_gcra sh)" by (simp add: packed.debt_def)
    from check_each_overflows [OF Cons.prems(1,2) k(1) Cons.prems(3) True Cons.prems(4) this Cons.prems(5) tolerance_fits [OF q0 window(3)]]
    obtain answers sh' where "check_each h sh (req # reqs) = Some (answers, sh')" "shared_wf h sh'"
      "packed.within_window lo hi (over_gcra sh) 0 (count_list (answers_to k (req # reqs) answers) Allowed)" by blast
    then show ?thesis using admitted_bound [OF q0 window(2)] q0 Cons.prems(3) by (auto simp: held_to_def)
  next
    case room: False
    obtain cls key now where req: "req = (cls, key, now)" by (rule prod_cases3)
    have ok: "key \<noteq> EMPTY" "key \<noteq> BUSY" "keys_ok reqs" using Cons.prems(2) by (simp_all add: keys_ok_def req)
    have times: "\<forall>now \<in> set (of_key k reqs). lo \<le> unat now \<and> unat now \<le> hi"
      using Cons.prems(5) by (auto simp: req of_key_Cons)
    show ?thesis
    proof (cases "k = key")
      case False
      obtain ans t' where c: "check_hashed h sh cls key now = Some (ans, sh\<lparr>sh_table := t'\<rparr>)" "shared_wf h (sh\<lparr>sh_table := t'\<rparr>)"
        "sl_gcra (kt_overflow t') = over_gcra sh \<or> sl_gcra (kt_overflow t') = snd (atomic_check (over_gcra sh) now)"
        "table_find h t' k = None"
        using check_seen_without [OF Cons.prems(1) ok(1,2) k(1) Cons.prems(3), of cls now] False by auto
      obtain answers sh' q where IH: "check_each h (sh\<lparr>sh_table := t'\<rparr>) reqs = Some (answers, sh')" "shared_wf h sh'" "quota_wf q"
        "held_to h (sh\<lparr>sh_table := t'\<rparr>) reqs k q" "count_list (answers_to k reqs answers) Allowed \<le> quota_bound q lo hi"
        using Cons.IH [OF c(2) ok(3) _ _ times] c(4) Cons.prems(4) by auto
      have "a_quota (sl_gcra (kt_overflow t')) = a_quota (over_gcra sh)" using c(3) by auto
      moreover have "first_class k (req # reqs) = first_class k reqs" using False by (simp add: first_class_def req)
      moreover have "fresh_quota h (sh\<lparr>sh_table := t'\<rparr>) = fresh_quota h sh" by (intro ext) (simp add: fresh_quota_def cong: if_cong)
      ultimately have "held_to h sh (req # reqs) k q" using IH(4) c(4) Cons.prems(3) room by (auto simp: held_to_def)
      moreover have "answers_to k (req # reqs) (ans # answers) = answers_to k reqs answers"
        using False by (simp add: req answers_to_Cons)
      ultimately show ?thesis using check_each_Cons [OF c(1) IH(1)] IH(2,3,5) by (auto simp: req)
    next
      case True
      obtain ans t' i q shadow g where c: "check_hashed h sh cls key now = Some (ans, sh\<lparr>sh_table := t'\<rparr>)"
        "shared_wf h (sh\<lparr>sh_table := t'\<rparr>)" "table_find h t' k = Some i" "fresh_quota h sh cls k = Some (q, shadow)" "quota_wf q"
        "pack q = Some (a_quota g)" "sl_gcra (kt_slots t' ! i) = snd (atomic_check g now)"
        "ck_decision ans = decision_at (fst (atomic_check g now)) now"
        using check_seen_without [OF Cons.prems(1) ok(1,2) k(1) Cons.prems(3), of cls now] True room Cons.prems(4) by auto
      obtain answers sh' where a: "check_each h (sh\<lparr>sh_table := t'\<rparr>) reqs = Some (answers, sh')" "shared_wf h sh'"
        "answers_to k reqs answers = map2 decision_at (fst (run_checks atomic_check (snd (atomic_check g now)) (of_key k reqs))) (of_key k reqs)"
        using check_each_isolated [OF c(2) ok(3) k(1), of i] c(3,7) Cons.prems(4) by auto
      have all: "answers_to k (req # reqs) (ans # answers) =
          map2 decision_at (fst (run_checks atomic_check g (of_key k (req # reqs)))) (of_key k (req # reqs))"
        using True a(3) c(8) by (simp add: req answers_to_Cons of_key_Cons split_beta Let_def)
      have "count_list (answers_to k (req # reqs) (ans # answers)) Allowed = admitted atomic_check g (of_key k (req # reqs))"
        unfolding all admitted_def by (rule count_allowed) (simp add: run_checks_length)
      moreover have "packed.debt lo 0 g" by (simp add: packed.debt_def)
      ultimately have "count_list (answers_to k (req # reqs) (ans # answers)) Allowed \<le> quota_bound q lo hi"
        using admitted_bound [OF c(5,6) window(2)] packed.window_debt [OF Cons.prems(5) tolerance_fits [OF c(5,6) window(3)]] by simp
      moreover have "held_to h sh (req # reqs) k q"
        using c(4) room Cons.prems(3) True by (auto simp: held_to_def first_class_def req)
      ultimately show ?thesis using check_each_Cons [OF c(1) a(1)] a(2) c(5) by (auto simp: req)
    qed
  qed
qed

text \<open>In a dry run every request is allowed.\<close>

lemma check_dry:
  assumes wf: "shared_wf h sh" and key: "key \<noteq> EMPTY" "key \<noteq> BUSY" and dry: "sh_dry_run sh"
  shows "\<exists>ans sh'. check_hashed h sh cls key now = Some (ans, sh') \<and> shared_wf h sh' \<and> sh_dry_run sh' \<and> ck_decision ans = Allowed"
proof (cases "table_find h (sh_table sh) key")
  case None
  from check_seen_without [OF wf key key(1) None, of cls now] show ?thesis using dry by (auto split: if_splits)
next
  case (Some i)
  from check_seen_from [OF wf key key(1) Some, of cls now] show ?thesis using dry by auto
qed

lemma check_each_dry:
  assumes "shared_wf h sh" "keys_ok reqs" "sh_dry_run sh"
  shows "\<exists>answers sh'. check_each h sh reqs = Some (answers, sh') \<and> shared_wf h sh' \<and>
    list_all (\<lambda>d. d = Allowed) (answers_to key reqs answers)"
  using assms
proof (induction reqs arbitrary: sh)
  case Nil
  then show ?case by (simp add: answers_to_def)
next
  case (Cons req reqs)
  obtain cls k now where req: "req = (cls, k, now)" by (rule prod_cases3)
  have ok: "k \<noteq> EMPTY" "k \<noteq> BUSY" "keys_ok reqs" using Cons.prems(2) by (simp_all add: keys_ok_def req)
  obtain ans sh1 where c: "check_hashed h sh cls k now = Some (ans, sh1)" "shared_wf h sh1" "sh_dry_run sh1" "ck_decision ans = Allowed"
    using check_dry [OF Cons.prems(1) ok(1,2) Cons.prems(3)] by blast
  obtain answers sh' where IH: "check_each h sh1 reqs = Some (answers, sh')" "shared_wf h sh'"
    "list_all (\<lambda>d. d = Allowed) (answers_to key reqs answers)"
    using Cons.IH [OF c(2) ok(3) c(3)] by blast
  have "list_all (\<lambda>d. d = Allowed) (answers_to key (req # reqs) (ans # answers))"
    using c(4) IH(3) by (simp add: req answers_to_Cons)
  then show ?case using check_each_Cons [OF c(1) IH(1)] IH(2) by (auto simp: req)
qed

text \<open>
  C17. Each key is held to its quota, whatever else is asked. Between two ticks, in any run of checks of any keys and
  classes, nothing panics, and in a window \<open>[lo, hi]\<close> of its requests a key is admitted at most the burst of a quota
  and one more for each interval of the window. The quota is that of the slot the key has; if it has none, that of a new
  key of the class it is first asked for, or that of the overflow slot, which all keys without room share. A key that has
  a slot is answered as if its requests were alone. In a dry run every request is allowed instead.
\<close>

theorem guard_limits_keys:
  assumes wf: "shared_wf h sh" "keys_ok reqs" and key: "key \<noteq> EMPTY"
    and window: "\<forall>now \<in> set (of_key key reqs). lo \<le> unat now \<and> unat now \<le> hi" "lo \<le> hi" "hi < 2 ^ 63"
  shows "\<exists>answers sh'. check_each h sh reqs = Some (answers, sh') \<and> shared_wf h sh' \<and>
    (if sh_dry_run sh then list_all (\<lambda>d. d = Allowed) (answers_to key reqs answers)
     else (\<exists>q. quota_wf q \<and> held_to h sh reqs key q \<and>
         count_list (answers_to key reqs answers) Allowed \<le> unat (q_burst q) + (hi - lo) div unat (q_interval q)) \<and>
       (case table_find h (sh_table sh) key of None \<Rightarrow> True | Some i \<Rightarrow> answers_to key reqs answers =
         map2 decision_at (fst (run_checks atomic_check (sl_gcra (kt_slots (sh_table sh) ! i)) (of_key key reqs))) (of_key key reqs)))"
proof (cases "sh_dry_run sh")
  case True
  then show ?thesis using check_each_dry [OF wf True, of key] by auto
next
  case dry: False
  show ?thesis
  proof (cases "table_find h (sh_table sh) key")
    case None
    then show ?thesis using new_key_limited [OF wf key None dry window] dry by (auto simp: quota_bound_def)
  next
    case (Some i)
    let ?a = "sl_gcra (kt_slots (sh_table sh) ! i)"
    obtain answers sh' where c: "check_each h sh reqs = Some (answers, sh')" "shared_wf h sh'"
      "answers_to key reqs answers = map2 decision_at (fst (run_checks atomic_check ?a (of_key key reqs))) (of_key key reqs)"
      using check_each_isolated [OF wf key Some] dry by auto
    have t: "table_ok h (sh_table sh)" using wf(1) by (simp add: shared_wf_def)
    then have "i < length (kt_slots (sh_table sh))" using table_find_iff [of h "sh_table sh" key i] key Some by (simp add: table_ok_def)
    then have "slot_ok (kt_slots (sh_table sh) ! i)" using t by (simp add: table_ok_def)
    then obtain q where q: "quota_wf q" "pack q = Some (a_quota ?a)" by (auto simp: slot_ok_def packed_ok_def)
    have "count_list (answers_to key reqs answers) Allowed = admitted atomic_check ?a (of_key key reqs)"
      unfolding c(3) admitted_def by (rule count_allowed) (simp add: run_checks_length)
    moreover have "packed.debt lo 0 ?a" by (simp add: packed.debt_def)
    ultimately have "count_list (answers_to key reqs answers) Allowed \<le> quota_bound q lo hi"
      using admitted_bound [OF q window(2)] packed.window_debt [OF window(1) tolerance_fits [OF q window(3)]] by simp
    moreover have "held_to h sh reqs key q" using q(2) Some by (simp add: held_to_def)
    ultimately show ?thesis using c q(1) Some dry by (auto simp: quota_bound_def)
  qed
qed

theorem guard_limits_keys_witness:
  "\<exists>answers sh' q. check_each example_hashes example_shared [(0, 42, 1000), (0, 7, 1001), (0, 42, 2000)] = Some (answers, sh') \<and>
    held_to example_hashes example_shared [(0, 42, 1000), (0, 7, 1001), (0, 42, 2000)] 42 q \<and>
    count_list (answers_to 42 [(0, 42, 1000), (0, 7, 1001), (0, 42, 2000)] answers) Allowed \<le> unat (q_burst q) + 1000 div unat (q_interval q)"
proof -
  let ?reqs = "[(0, 42, 1000), (0, 7, 1001), (0, 42, 2000)] :: (u64 \<times> u64 \<times> nanos) list"
  have reqs: "keys_ok ?reqs" "\<forall>now \<in> set (of_key 42 ?reqs). 1000 \<le> unat now \<and> unat now \<le> 2000"
    by (simp_all add: keys_ok_def of_key_def EMPTY_def BUSY_def)
  have "(1000 :: nat) \<le> 2000" "(2000 :: nat) < 2 ^ 63" "(42 :: u64) \<noteq> EMPTY" by (simp_all add: EMPTY_def)
  moreover have "\<not> sh_dry_run example_shared" by (simp add: example_shared_def)
  ultimately show ?thesis using guard_limits_keys [OF example_shared_wf reqs(1) _ reqs(2)] by force
qed

end
