(* ===== verification/Driver_Contract.thy ===== *)
theory Driver_Contract
  imports Guard_Contract
begin

text \<open>
  What the background task promises (\<open>rateguard/src/driver.rs\<close>): what of a datagram the node hears, what a tick counts
  and which quotas it leaves, the floor a guard is left on, and the seeds that follow their names.
\<close>

section \<open>Screening\<close>

text \<open>What was parsed, some of its records dropped, is serialised to what is parsed back.\<close>

definition codec_ok :: "env \<Rightarrow> bool" where
  "codec_ok env = (\<forall>bytes m rest keep b. e_take_from_bytes env bytes = Some (m, rest) \<longrightarrow>
     e_to_allocvec env (with_updates m (filter keep (updates_of m))) = Some b \<longrightarrow>
     e_take_from_bytes env b = Some (with_updates m (filter keep (updates_of m)), []))"

lemma with_updates_simps [simp]:
  "updates_of (with_updates m us) = us" "demand_of (with_updates m us) = demand_of m"
  by (cases m; simp)+

lemma with_updates_same [simp]: "with_updates m (updates_of m) = m"
  by (cases m) simp_all

lemma check_limits_fewer:
  "check_limits m = Inr () \<Longrightarrow> length us \<le> length (updates_of m) \<Longrightarrow> check_limits (with_updates m us) = Inr ()"
  by (auto simp: check_limits_def Let_def split: if_splits)

lemma decode_limits: "decode take_from_bytes bytes = Inr m \<Longrightarrow> check_limits m = Inr ()"
  by (auto simp: decode_def split: if_splits option.splits sum.splits)

lemma screen_spec:
  assumes env: "env_ok env" "codec_ok env"
  shows "(screen h env bytes = Some None \<and>
      (\<forall>m u us. decode (e_take_from_bytes env) bytes = Inr m \<longrightarrow> updates_of m = u # us \<longrightarrow> \<not> own_id h u)) \<or>
    (\<exists>sc m u us. screen h env bytes = Some (Some sc) \<and> decode (e_take_from_bytes env) bytes = Inr m \<and>
      updates_of m = u # us \<and> own_id h u \<and> sc_from sc = u_member u \<and>
      decode (e_take_from_bytes env) (sc_bytes sc) = Inr (with_updates m (filter (own_id h) (u # us))) \<and>
      (list_all (own_id h) us \<longrightarrow> sc_bytes sc = bytes) \<and>
      sc_dropped sc = of_nat (length (filter (Not \<circ> own_id h) us)))"
proof (cases "decode (e_take_from_bytes env) bytes")
  case (Inl e)
  then show ?thesis by (simp add: screen_def)
next
  case (Inr m)
  show ?thesis
  proof (cases "updates_of m")
    case Nil
    then show ?thesis using Inr by (simp add: screen_def)
  next
    case (Cons u us)
    consider "\<not> own_id h u" | "own_id h u" "list_all (own_id h) us" | "own_id h u" "\<not> list_all (own_id h) us" by blast
    then show ?thesis
    proof cases
      case 1
      then show ?thesis using Inr Cons by (simp add: screen_def)
    next
      case 2
      have "filter (own_id h) us = us" "filter (Not \<circ> own_id h) us = []"
        using 2(2) by (simp_all add: list_all_iff filter_id_conv filter_empty_conv)
      moreover have "with_updates m (u # us) = m" unfolding Cons [symmetric] by simp
      ultimately show ?thesis using Inr Cons 2 by (intro disjI2) (simp add: screen_def)
    next
      case 3
      let ?m = "with_updates m (filter (own_id h) (u # us))"
      have "check_limits ?m = Inr ()"
        using decode_limits [OF Inr] by (rule check_limits_fewer) (simp add: Cons length_filter_le le_SucI)
      then obtain b where b: "e_to_allocvec env ?m = Some b" "length b \<le> MAX_DATAGRAM" "check_limits ?m = Inr ()"
        using env(1) by (auto simp: env_ok_def messages_fit_def)
      then have "encode (e_to_allocvec env) ?m = Some (Inr b)" by (simp add: encode_def)
      moreover obtain rest where "e_take_from_bytes env bytes = Some (m, rest)"
        using Inr by (auto simp: decode_def split: if_splits option.splits sum.splits)
      then have "e_take_from_bytes env b = Some (?m, [])" using env(2) b(1) unfolding codec_ok_def Cons [symmetric] by blast
      then have "decode (e_take_from_bytes env) b = Inr ?m" using b by (simp add: decode_def)
      moreover have "length us - length (filter (own_id h) us) = length (filter (Not \<circ> own_id h) us)"
        using sum_length_filter_compl [of "own_id h" us] by (simp add: comp_def)
      ultimately show ?thesis using Inr Cons 3 by (intro disjI2) (simp add: screen_def Let_def)
    qed
  qed
qed

section \<open>A datagram\<close>

definition refused :: "rejected_datagrams \<Rightarrow> u64" where
  "refused rj = rj_unsigned rj + rj_bad_tag rj + rj_malformed rj"

lemma required_opened:
  assumes "au_mode a = Required" "open_frame hmac a datagram = Inr m"
  shows "\<exists>mac \<in> set (au_macs a). datagram = [MARKER, VERSION] @ m @ take TAG_LEN (hmac mac ([MARKER, VERSION] @ m))"
proof -
  have "datagram \<noteq> []" "hd datagram = MARKER" using assms by (auto simp: open_frame_def split: if_splits)
  then obtain tag where t: "datagram = [MARKER, VERSION] @ m @ tag" "length tag = TAG_LEN"
    using open_Inr_shape [OF assms(2)] by blast
  have "\<exists>mac \<in> set (au_macs a). take TAG_LEN (hmac mac ([MARKER, VERSION] @ m)) = tag"
    using assms unfolding t(1) open_signed [OF t(2)] by (simp split: if_splits)
  then show ?thesis using t(1) by blast
qed

text \<open>
  C19. What reaches the node. A datagram is either refused, counted once, and the node left as it was; or the node hears a
  message in which every record names its member by the ID its address gives, the sender's own the first: all those of the
  message that was sent, the others dropped and counted, and in the mode \<open>Required\<close> the datagram carried the tag of one of
  the secrets. Nothing panics unless the clock runs backwards. What was parsed is
  only asked to parse again once it is serialised with records dropped.
\<close>

theorem node_hears_screened:
  assumes env: "env_ok env" "codec_ok env" and node: "node_wf node" "n_last_now node \<le> now"
  shows "\<exists>actions node' rj'. driver_receive hmac h env node a datagram now rj = Some (actions, node', rj') \<and> node_wf node' \<and>
    (node' = node \<and> actions = [] \<and> refused rj' = refused rj + 1 \<and> rj_mismatched_records rj' = rj_mismatched_records rj \<or>
     (\<exists>message m heard bytes. open_frame hmac a datagram = Inr message \<and>
       decode (e_take_from_bytes env) message = Inr m \<and> decode (e_take_from_bytes env) bytes = Inr heard \<and>
       handle env node (MessageReceived (u_member (hd (updates_of m))) bytes) now = Some node' \<and> actions = n_actions node' \<and>
       heard = with_updates m (filter (own_id h) (updates_of m)) \<and> hd (updates_of heard) = hd (updates_of m) \<and>
       refused rj' = refused rj \<and> rj_mismatched_records rj' =
         rj_mismatched_records rj + of_nat (length (filter (Not \<circ> own_id h) (updates_of m))) \<and>
       (au_mode a = Required \<longrightarrow> (\<exists>mac \<in> set (au_macs a).
         datagram = [MARKER, VERSION] @ message @ take TAG_LEN (hmac mac ([MARKER, VERSION] @ message))))))"
proof (cases "open_frame hmac a datagram")
  case (Inl reason)
  then show ?thesis using node(1) by (cases reason) (simp_all add: driver_receive_def refused_def)
next
  case (Inr message)
  from screen_spec [OF env, of h message] show ?thesis
  proof (elim disjE exE conjE)
    assume "screen h env message = Some None"
    then show ?thesis using Inr node(1) by (simp add: driver_receive_def refused_def)
  next
    fix sc m u us
    assume sc: "screen h env message = Some (Some sc)" and m: "decode (e_take_from_bytes env) message = Inr m"
      "updates_of m = u # us" "own_id h u" and sender: "sc_from sc = u_member u"
      and heard: "decode (e_take_from_bytes env) (sc_bytes sc) = Inr (with_updates m (filter (own_id h) (u # us)))"
      and dropped: "sc_dropped sc = of_nat (length (filter (Not \<circ> own_id h) us))"
    obtain node' where node': "handle env node (MessageReceived (u_member u) (sc_bytes sc)) now = Some node'" "node_wf node'"
      using handle_keeps [OF node(1) env(1), of "MessageReceived (u_member u) (sc_bytes sc)" now] node(2)
      by (cases "handle env node (MessageReceived (u_member u) (sc_bytes sc)) now") auto
    let ?rj = "rj\<lparr>rj_mismatched_records := rj_mismatched_records rj + sc_dropped sc\<rparr>"
    have "driver_receive hmac h env node a datagram now rj = Some (n_actions node', node', ?rj)"
      using Inr sc sender node'(1) by (simp add: driver_receive_def)
    moreover have "refused ?rj = refused rj" by (simp add: refused_def)
    moreover have "au_mode a = Required \<longrightarrow> (\<exists>mac \<in> set (au_macs a).
        datagram = [MARKER, VERSION] @ message @ take TAG_LEN (hmac mac ([MARKER, VERSION] @ message)))"
      using required_opened [OF _ Inr] by blast
    ultimately show ?thesis
      using node' m heard dropped Inr
      by (intro exI [of _ "n_actions node'"] exI [of _ node'] exI [of _ ?rj] conjI disjI2 exI [of _ message] exI [of _ m]
          exI [of _ "with_updates m (filter (own_id h) (u # us))"] exI [of _ "sc_bytes sc"]) simp_all
  qed
qed

definition example_record :: "peer_id \<Rightarrow> update" where
  "example_record member = \<lparr>u_member = member, u_addr = V4 [10, 0, 0, 2] 7000, u_incarnation = 0, u_status = status.Alive\<rparr>"

definition example_message :: "bool \<Rightarrow> bool \<Rightarrow> message" where
  "example_message own forged =
     Ack 3 ((if own then [example_record 1] else []) @ (if forged then [example_record 5] else [])) []"

definition codec_env :: env where
  "codec_env = example_env\<lparr>
     e_to_allocvec := (\<lambda>m. Some [if m = example_message False False then 0 else if m = example_message True False then 1
       else if m = example_message False True then 2 else if m = example_message True True then 3 else 4]),
     e_take_from_bytes := (\<lambda>bs. if bs = [0] then Some (example_message False False, []) else
       if bs = [1] then Some (example_message True False, []) else if bs = [2] then Some (example_message False True, [])
       else if bs = [3] then Some (example_message True True, []) else None)\<rparr>"

lemma codec_env_ok: "env_ok codec_env" "codec_ok codec_env"
proof -
  show "env_ok codec_env"
    using example_env_ok by (simp add: env_ok_def codec_env_def messages_fit_def MAX_DATAGRAM_def)
  show "codec_ok codec_env"
    unfolding codec_ok_def
  proof (intro allI impI)
    fix bytes m rest keep b
    assume m: "e_take_from_bytes codec_env bytes = Some (m, rest)"
      and b: "e_to_allocvec codec_env (with_updates m (filter keep (updates_of m))) = Some b"
    obtain own forged where "m = example_message own forged"
      using m by (auto simp: codec_env_def split: if_splits)
    then have "with_updates m (filter keep (updates_of m)) =
        example_message (own \<and> keep (example_record 1)) (forged \<and> keep (example_record 5))"
      by (simp add: example_message_def)
    then show "e_take_from_bytes codec_env b = Some (with_updates m (filter keep (updates_of m)), [])"
      using b by (cases "own \<and> keep (example_record 1)"; cases "forged \<and> keep (example_record 5)")
        (auto simp: codec_env_def example_message_def example_record_def)
  qed
qed

lemma other_node: "\<exists>s. node_new example_config swim_default 2 (V4 [10, 0, 0, 1] 7000) 42 = Some s"
  by (simp add: node_new_def swim_validate_def swim_default_def ONE_MS_def set_max_def DEFAULT_MAX_MEMBERS_def
      example_new Let_def split: prod.split)

lemma example_screened: "screen example_hashes codec_env [3] = Some (Some \<lparr>sc_from = 1, sc_bytes = [1], sc_dropped = 1\<rparr>)"
proof -
  have own: "own_id example_hashes (example_record 1)" "\<not> own_id example_hashes (example_record 5)"
    by (simp_all add: own_id_def example_record_def peer_id_of_def example_hashes_def)
  have "decode (e_take_from_bytes codec_env) [3] = Inr (example_message True True)"
    by (simp add: decode_def codec_env_def MAX_DATAGRAM_def check_limits_def example_message_def MAX_UPDATES_def
        MAX_REPORTS_def MAX_DEMAND_KEYS_def)
  moreover have "encode (e_to_allocvec codec_env) (example_message True False) = Some (Inr [1])"
    by (simp add: encode_def codec_env_def MAX_DATAGRAM_def check_limits_def example_message_def example_record_def MAX_UPDATES_def
        MAX_REPORTS_def MAX_DEMAND_KEYS_def)
  ultimately show ?thesis using own
    by (simp add: screen_def example_message_def) (simp add: example_record_def)
qed

theorem node_hears_screened_witness:
  "\<exists>node node' rj'. node_new example_config swim_default 2 (V4 [10, 0, 0, 1] 7000) 42 = Some node \<and>
    driver_receive (\<lambda>mac data. []) example_hashes codec_env node auth_off [3] 5 rejected_none = Some (n_actions node', node', rj') \<and>
    node_wf node' \<and> handle codec_env node (MessageReceived 1 [1]) 5 = Some node' \<and> rj_mismatched_records rj' = 1"
proof -
  obtain node where node: "node_new example_config swim_default 2 (V4 [10, 0, 0, 1] 7000) 42 = Some node" using other_node by blast
  have wf: "node_wf node" "n_last_now node \<le> 5" using node_new_wf [OF node] by simp_all
  have "open_frame (\<lambda>mac data. []) auth_off [3] = Inr [3]" by (simp add: open_frame_def auth_off_def MARKER_def)
  then have run: "driver_receive (\<lambda>mac data. []) example_hashes codec_env node auth_off [3] 5 rejected_none = do {
      node' \<leftarrow> handle codec_env node (MessageReceived 1 [1]) 5;
      Some (n_actions node', node', rejected_none\<lparr>rj_mismatched_records := 1\<rparr>) }"
    by (simp add: driver_receive_def example_screened rejected_none_def)
  obtain actions node' rj' where r: "driver_receive (\<lambda>mac data. []) example_hashes codec_env node auth_off [3] 5 rejected_none =
      Some (actions, node', rj')" "node_wf node'"
    using node_hears_screened [OF codec_env_ok wf, of "\<lambda>mac data. []" example_hashes auth_off "[3]" rejected_none] by blast
  then have "handle codec_env node (MessageReceived 1 [1]) 5 = Some node'" "actions = n_actions node'" "rj_mismatched_records rj' = 1"
    unfolding run by (auto split: bind_splits)
  then show ?thesis using node r by blast
qed

section \<open>Visiting the slots\<close>

abbreviation in_use :: "slot \<Rightarrow> bool" where
  "in_use s \<equiv> sl_key s \<noteq> EMPTY \<and> sl_key s \<noteq> BUSY"

lemma visit_taken_spec:
  assumes step: "\<And>s x. s \<in> set ss \<Longrightarrow> in_use s \<Longrightarrow> Q x \<Longrightarrow> \<exists>s' x'. f (sl_key s) s x = Some (s', x') \<and> after s s' \<and> Q x'"
    and x: "Q x"
  shows "\<exists>ss' x'. visit_taken f ss x = Some (ss', x') \<and> Q x' \<and> length ss' = length ss \<and>
    (\<forall>i < length ss. if in_use (ss ! i) then after (ss ! i) (ss' ! i) else ss' ! i = ss ! i)"
  using assms
proof (induction ss arbitrary: x)
  case (Cons s ss)
  obtain s' x' where s': "(if in_use s then f (sl_key s) s x else Some (s, x)) = Some (s', x')" "Q x'"
    "if in_use s then after s s' else s' = s"
    using Cons.prems(1) [of s x] Cons.prems(2) by (cases "in_use s") auto
  obtain ss' x'' where ss': "visit_taken f ss x' = Some (ss', x'')" "Q x''" "length ss' = length ss"
    "\<forall>i < length ss. if in_use (ss ! i) then after (ss ! i) (ss' ! i) else ss' ! i = ss ! i"
    using Cons.IH [OF Cons.prems(1) s'(2)] by auto
  have "visit_taken f (s # ss) x = Some (s' # ss', x'')" using s'(1) ss'(1) by simp
  moreover have "\<forall>i < length (s # ss). if in_use ((s # ss) ! i) then after ((s # ss) ! i) ((s' # ss') ! i) else (s' # ss') ! i = (s # ss) ! i"
    using s'(3) ss'(4) by (auto simp: nth_Cons' less_Suc_eq_0_disj)
  ultimately show ?case using ss' by (intro exI [of _ "s' # ss'"] exI [of _ x'']) simp
qed simp

lemma visit_free_spec:
  assumes "\<And>s. s \<in> set ss \<Longrightarrow> sl_key s = EMPTY \<Longrightarrow> \<exists>s'. f s = Some s' \<and> after s s'"
  shows "\<exists>ss'. visit_free f ss = Some ss' \<and> length ss' = length ss \<and>
    (\<forall>i < length ss. if sl_key (ss ! i) = EMPTY then after (ss ! i) (ss' ! i) else ss' ! i = ss ! i)"
  using assms
proof (induction ss)
  case (Cons s ss)
  obtain s' where s': "(if sl_key s = EMPTY then f s else Some s) = Some s'" "if sl_key s = EMPTY then after s s' else s' = s"
    using Cons.prems [of s] by (cases "sl_key s = EMPTY") auto
  obtain ss' where ss': "visit_free f ss = Some ss'" "length ss' = length ss"
    "\<forall>i < length ss. if sl_key (ss ! i) = EMPTY then after (ss ! i) (ss' ! i) else ss' ! i = ss ! i"
    using Cons.IH [OF Cons.prems] by auto
  have "\<forall>i < length (s # ss). if sl_key ((s # ss) ! i) = EMPTY then after ((s # ss) ! i) ((s' # ss') ! i) else (s' # ss') ! i = (s # ss) ! i"
    using s'(2) ss'(3) by (auto simp: nth_Cons' less_Suc_eq_0_disj)
  then show ?case using s'(1) ss' by (intro exI [of _ "s' # ss'"]) simp
qed simp

section \<open>A table whose slots were set or freed\<close>

lemma key_table_wf_fewer:
  assumes wf: "key_table_wf h t" and shape: "kt_buckets t' = kt_buckets t" "kt_seed t' = kt_seed t" "length (kt_slots t') = length (kt_slots t)"
    and keys: "\<And>i. i < length (kt_slots t) \<Longrightarrow> key_at t' i = key_at t i \<or> key_at t' i = EMPTY"
    and slots: "\<And>i. i < length (kt_slots t) \<Longrightarrow> slot_wf (kt_slots t' ! i)"
  shows "key_table_wf h t'"
proof -
  have "candidates h t' key = candidates h t key" for key by (simp add: candidates_def buckets_of_def shape)
  moreover have "key_at t' i \<noteq> BUSY" if "i < length (kt_slots t)" for i
    using keys [OF that] key_table_wfD(6) [OF wf that] by (auto simp: EMPTY_def BUSY_def)
  moreover have "i \<in> set (candidates h t (key_at t' i))" if "i < length (kt_slots t)" "key_at t' i \<noteq> EMPTY" for i
    using keys [OF that(1)] key_table_wfD(4) [OF wf that(1)] that(2) by auto
  moreover have "i = j" if "i < length (kt_slots t)" "j < length (kt_slots t)" "key_at t' i = key_at t' j" "key_at t' i \<noteq> EMPTY" for i j
    using keys [OF that(1)] keys [OF that(2)] key_table_wfD(5) [OF wf that(1,2)] that(3,4) by metis
  ultimately show ?thesis
    using slots key_table_wfD(1,2) [OF wf] unfolding key_table_wf_def shape by (intro conjI allI impI) simp_all
qed

lemma table_ok_fewer:
  assumes t: "table_ok h t" and shape: "kt_buckets t' = kt_buckets t" "kt_seed t' = kt_seed t" "length (kt_slots t') = length (kt_slots t)"
    and keys: "\<And>i. i < length (kt_slots t) \<Longrightarrow> key_at t' i = key_at t i \<or> key_at t' i = EMPTY"
    and slots: "\<And>i. i < length (kt_slots t) \<Longrightarrow> slot_ok (kt_slots t' ! i)" and over: "slot_ok (kt_overflow t')"
  shows "table_ok h t'"
proof -
  have "key_table_wf h t'"
    by (rule key_table_wf_fewer [OF _ shape keys]) (use t slots slot_ok_wf in \<open>auto simp: table_ok_def\<close>)
  moreover have "\<forall>s \<in> set (kt_slots t'). slot_ok s" using slots shape(3) by (metis in_set_conv_nth)
  ultimately show ?thesis using over by (simp add: table_ok_def)
qed

text \<open>The quota a slot runs on.\<close>

definition runs_on :: "slot \<Rightarrow> quota \<Rightarrow> bool" where
  "runs_on s q = (pack q = Some (a_quota (sl_gcra s)))"

lemma set_rest_spec:
  assumes t: "table_ok h t" and q: "quota_wf q"
  shows "\<exists>t'. set_rest t q now = Some t' \<and> table_ok h t' \<and> length (kt_slots t') = length (kt_slots t) \<and>
    (\<forall>i < length (kt_slots t). same_slot (kt_slots t ! i) (kt_slots t' ! i) \<and>
      (if key_at t i = EMPTY then runs_on (kt_slots t' ! i) q else kt_slots t' ! i = kt_slots t ! i)) \<and>
    same_slot (kt_overflow t) (kt_overflow t') \<and> runs_on (kt_overflow t') q"
proof -
  have ok: "s \<in> set (kt_slots t) \<Longrightarrow> slot_ok s" "slot_ok (kt_overflow t)" for s using t by (simp_all add: table_ok_def)
  have "\<exists>s'. slot_set_quota s q now = Some s' \<and> (slot_ok s' \<and> same_slot s s' \<and> runs_on s' q)" if "s \<in> set (kt_slots t)" for s
    using slot_set_quota_ok [OF ok(1) [OF that] q, of now] by (auto simp: runs_on_def)
  from visit_free_spec [of "kt_slots t" "\<lambda>s. slot_set_quota s q now" "\<lambda>s s'. slot_ok s' \<and> same_slot s s' \<and> runs_on s' q", OF this]
  obtain ss where ss: "visit_free (\<lambda>s. slot_set_quota s q now) (kt_slots t) = Some ss" "length ss = length (kt_slots t)"
    "\<forall>i < length (kt_slots t). if sl_key (kt_slots t ! i) = EMPTY
      then slot_ok (ss ! i) \<and> same_slot (kt_slots t ! i) (ss ! i) \<and> runs_on (ss ! i) q else ss ! i = kt_slots t ! i"
    by blast
  obtain over where over: "slot_set_quota (kt_overflow t) q now = Some over" "slot_ok over" "same_slot (kt_overflow t) over" "runs_on over q"
    using slot_set_quota_ok [OF ok(2) q, of now] by (auto simp: runs_on_def)
  let ?t = "t\<lparr>kt_slots := ss, kt_overflow := over\<rparr>"
  have each: "slot_ok (ss ! i) \<and> same_slot (kt_slots t ! i) (ss ! i) \<and> (if key_at t i = EMPTY then runs_on (ss ! i) q else ss ! i = kt_slots t ! i)"
    if "i < length (kt_slots t)" for i
    using ss(3) that ok(1) by (cases "sl_key (kt_slots t ! i) = EMPTY") (auto simp: key_at_def)
  have "table_ok h ?t"
    by (rule table_ok_fewer [OF t]) (use each ss(2) over(2) in \<open>auto simp: key_at_def same_slot_def\<close>)
  then show ?thesis using ss(1,2) over each by (intro exI [of _ ?t]) (simp add: set_rest_def)
qed

section \<open>A tick\<close>

lemma node_record_ok:
  assumes "node_wf node" "n_last_now node \<le> now" "limit_ok l"
  shows "\<exists>node'. node_record node key ty l now = Some node' \<and> node_wf node' \<and> n_last_now node' = now \<and>
    n_members node' = n_members node \<and> n_seeds node' = n_seeds node"
proof -
  let ?n = "share_size (node\<lparr>n_last_now := now\<rparr>)"
  obtain cold where "entry (n_limiter node) key l now ?n =
      Some (entered (n_limiter node) key l now cold, put_key (n_limiter node) key (entered (n_limiter node) key l now cold))"
    using entry_spec [OF assms(3) share_size_pos] by blast
  then obtain lm where "record_tally (n_limiter node) key ty l now ?n = Some lm" by (simp add: record_tally_def)
  then have run: "node_record node key ty l now = Some (node\<lparr>n_last_now := now\<rparr>\<lparr>n_limiter := lm\<rparr>)"
    using assms(2) by (simp add: node_record_def advance_def)
  have "node_wf (node\<lparr>n_last_now := now\<rparr>\<lparr>n_limiter := lm\<rparr>)"
    using \<open>record_tally _ _ _ _ _ _ = Some lm\<close> record_tally_wf [OF node_wfD(1) [OF assms(1)]] record_tally_rates [OF node_wfD(2) [OF assms(1)]]
    by (intro node_wf_with) (auto simp: assms(1))
  then show ?thesis using run by auto
qed

lemma take_counts_slot: "snd (take_counts s) = s\<lparr>sl_counts := 0, sl_shadow_denials := 0\<rparr>"
  by (simp add: take_counts_def)

definition tallied :: "(tally \<Rightarrow> u64) \<Rightarrow> slot list \<Rightarrow> u64" where
  "tallied f ss = sum_list (map (\<lambda>s. f (fst (take_counts s))) (filter in_use ss))"

lemma tallied_simps [simp]: "tallied f [] = 0"
  "tallied f (s # ss) = (if in_use s then f (fst (take_counts s)) else 0) + tallied f ss"
  by (simp_all add: tallied_def)

lemma collect_counts:
  "visit_taken (collect_slot h sh now) ss (node, cn) = Some (ss', node', cn') \<Longrightarrow>
    cn_attempts cn' = cn_attempts cn + tallied t_attempts ss \<and> cn_denied cn' = cn_denied cn + tallied t_denials ss \<and>
    cn_shadow_denied cn' = cn_shadow_denied cn + tallied t_shadow_denials ss"
proof (induction ss arbitrary: node cn ss')
  case (Cons s ss)
  obtain s1 node1 cn1 ss1 where run: "(if in_use s then collect_slot h sh now (sl_key s) s (node, cn) else Some (s, node, cn)) = Some (s1, node1, cn1)"
    "visit_taken (collect_slot h sh now) ss (node1, cn1) = Some (ss1, node', cn')"
    using Cons.prems by (auto split: bind_splits)
  have "cn_attempts cn1 = cn_attempts cn + (if in_use s then t_attempts (fst (take_counts s)) else 0) \<and>
      cn_denied cn1 = cn_denied cn + (if in_use s then t_denials (fst (take_counts s)) else 0) \<and>
      cn_shadow_denied cn1 = cn_shadow_denied cn + (if in_use s then t_shadow_denials (fst (take_counts s)) else 0)"
    using run(1) by (auto simp: collect_slot_def Let_def split_beta split: if_splits bind_splits)
  then show ?case using Cons.IH [OF run(2)] by (simp add: add.assoc)
qed simp

lemma collect_spec:
  assumes lim: "limits_wf h (sh_classes sh) (sh_key_limits sh)" and node: "node_wf node" "n_last_now node \<le> now"
  shows "\<exists>ss' node' cn'. visit_taken (collect_slot h sh now) ss (node, cn) = Some (ss', node', cn') \<and> node_wf node' \<and>
    n_last_now node' \<le> now \<and> n_members node' = n_members node \<and> n_seeds node' = n_seeds node \<and>
    cn_rejected cn' = cn_rejected cn \<and> length ss' = length ss \<and>
    (\<forall>i < length ss. if in_use (ss ! i) then ss' ! i = snd (take_counts (ss ! i)) else ss' ! i = ss ! i)"
proof -
  let ?Q = "\<lambda>(nd, c). node_wf nd \<and> n_last_now nd \<le> now \<and> n_members nd = n_members node \<and> n_seeds nd = n_seeds node \<and>
    cn_rejected c = cn_rejected cn"
  have "\<exists>s' x'. collect_slot h sh now (sl_key s) s x = Some (s', x') \<and> s' = snd (take_counts s) \<and> ?Q x'"
    if "in_use s" "?Q x" for s x
  proof -
    obtain nd c where x: "x = (nd, c)" by force
    let ?r = "class_resolve h (cl_table (sh_classes sh)) (kl_table (sh_key_limits sh)) (sl_class s) (sl_key s)"
    have nd: "node_wf nd" "n_last_now nd \<le> now" "n_members nd = n_members node" "n_seeds nd = n_seeds node"
      "cn_rejected c = cn_rejected cn" using that(2) by (simp_all add: x)
    obtain nd' where "node_record nd (sl_key s) (fst (take_counts s)) (rs_limit ?r) now = Some nd'" "node_wf nd'" "n_last_now nd' = now"
      "n_members nd' = n_members nd" "n_seeds nd' = n_seeds nd"
      using node_record_ok [OF nd(1,2) resolve_ok(1) [OF lim, of "sl_class s" "sl_key s"]] by blast
    then show ?thesis using nd by (simp add: collect_slot_def x Let_def split_beta)
  qed
  then show ?thesis
    using visit_taken_spec [of ss ?Q "collect_slot h sh now" "\<lambda>s s'. s' = snd (take_counts s)" "(node, cn)"] node by auto
qed

lemma new_key_quota_ok:
  assumes "burst_ok l"
  shows "\<exists>q. new_key_quota_in node l = Some q \<and> quota_wf q"
  using per_second_ok [of "l_burst l"] assms share_size_pos [of node]
  by (fastforce simp: new_key_quota_in_def new_key_quota_def cold_quota_def quota_for_def burst_ok_def)

lemma node_quota_ok: "node_wf node \<Longrightarrow> node_quota node key = Some q \<Longrightarrow> quota_wf q"
  using node_wfD(1) [of node] by (auto simp: node_quota_def quota_of_def limiter_wf_def keys_wf_def ks_wf_def)

lemma slot_release_ok:
  assumes "slot_ok s" "sl_key s = key" "quota_wf q"
  shows "\<exists>s'. slot_release s key q = Some s' \<and> slot_ok s' \<and> sl_key s' = EMPTY \<and> runs_on s' q \<and> \<not> has_counts s'"
proof -
  obtain w where "pack q = Some w" "packed_ok w" using packed_pack [OF assms(3)] by blast
  then show ?thesis using assms(1,2)
    by (simp add: slot_release_def atomic_reset_def slot_ok_def shadow_reset_def runs_on_def has_counts_def)
qed

text \<open>What a slot in use is after a tick.\<close>

definition settled :: "hashes \<Rightarrow> shared \<Rightarrow> node \<Rightarrow> quota \<Rightarrow> slot \<Rightarrow> slot \<Rightarrow> bool" where
  "settled h sh node new_key s s' = (case node_quota node (sl_key s) of
     Some q \<Rightarrow> same_slot s s' \<and> runs_on s' q
   | None \<Rightarrow> sl_key s' = EMPTY \<and> \<not> has_counts s' \<and> runs_on s' new_key \<or>
       same_slot s s' \<and> (\<exists>q. runs_on s' q \<and> new_key_quota_in node (rs_limit (class_resolve h (cl_table (sh_classes sh))
         (kl_table (sh_key_limits sh)) (sl_class s) (sl_key s))) = Some q))"

lemma settle_spec:
  assumes lim: "limits_wf h (sh_classes sh) (sh_key_limits sh)" and node: "node_wf node" and new: "quota_wf new_key" and s: "slot_ok s"
  shows "\<exists>s'. settle_slot h sh node new_key now (sl_key s) s = Some s' \<and> slot_ok s' \<and> settled h sh node new_key s s'"
proof -
  let ?r = "class_resolve h (cl_table (sh_classes sh)) (kl_table (sh_key_limits sh)) (sl_class s) (sl_key s)"
  note r = resolve_ok [OF lim, of "sl_class s" "sl_key s"]
  have shadow: "\<exists>q'. shadow_quota q (rs_limit ?r) (rs_shadow ?r) = Some q' \<and> (\<forall>new. q' = Some new \<longrightarrow> quota_wf new)" for q
    by (rule shadow_quota_ok) (use r(3) in blast)
  show ?thesis
  proof (cases "node_quota node (sl_key s)")
    case (Some q)
    obtain q' where q': "(if table_has_shadows (cl_table (sh_classes sh)) then shadow_quota q (rs_limit ?r) (rs_shadow ?r) else Some None) = Some q'"
      "\<forall>new. q' = Some new \<longrightarrow> quota_wf new"
      using shadow [of q] by (cases "table_has_shadows (cl_table (sh_classes sh))") auto
    obtain s' where "slot_set_both s q q' now = Some s'" "slot_ok s'" "same_slot s s'" "pack q = Some (a_quota (sl_gcra s'))"
      using slot_set_both_ok [OF s node_quota_ok [OF node Some] q'(2), of now] by blast
    then show ?thesis using Some q'(1) by (simp add: settle_slot_def Let_def settled_def runs_on_def)
  next
    case None
    show ?thesis
    proof (cases "\<not> atomic_has_debt (sl_gcra s) now \<and> \<not> has_counts s")
      case True
      obtain s' where "slot_release s (sl_key s) new_key = Some s'" "slot_ok s'" "sl_key s' = EMPTY" "runs_on s' new_key" "\<not> has_counts s'"
        using slot_release_ok [OF s refl new] by blast
      then show ?thesis using None True by (simp add: settle_slot_def settled_def Let_def)
    next
      case False
      obtain q where q: "new_key_quota_in node (rs_limit ?r) = Some q" "quota_wf q" using new_key_quota_ok [OF r(2)] by blast
      obtain q' where q': "shadow_quota q (rs_limit ?r) (rs_shadow ?r) = Some q'" "\<forall>new. q' = Some new \<longrightarrow> quota_wf new"
        using shadow [of q] by blast
      obtain s' where "slot_set_both s q q' now = Some s'" "slot_ok s'" "same_slot s s'" "pack q = Some (a_quota (sl_gcra s'))"
        using slot_set_both_ok [OF s q(2) q'(2), of now] by blast
      then show ?thesis using None False q(1) q'(1) by (auto simp: settle_slot_def settled_def Let_def runs_on_def)
    qed
  qed
qed

lemma settle_each:
  assumes lim: "limits_wf h (sh_classes sh) (sh_key_limits sh)" and node: "node_wf node" and new: "quota_wf new_key"
    and ss: "\<forall>s \<in> set ss. slot_ok s"
  shows "\<exists>ss'. visit_taken (\<lambda>key s u. map_option (\<lambda>s'. (s', u)) (settle_slot h sh node new_key now key s)) ss () = Some (ss', ()) \<and>
    length ss' = length ss \<and> (\<forall>i < length ss. slot_ok (ss' ! i) \<and>
      (if in_use (ss ! i) then settled h sh node new_key (ss ! i) (ss' ! i) else ss' ! i = ss ! i))"
proof -
  let ?f = "\<lambda>key s u. map_option (\<lambda>s'. (s', u)) (settle_slot h sh node new_key now key s)"
  have "\<exists>s' x'. ?f (sl_key s) s x = Some (s', x') \<and> (slot_ok s' \<and> settled h sh node new_key s s') \<and> True" if "s \<in> set ss" for s and x :: unit
    using settle_spec [OF lim node new, of s now] ss that by auto
  then obtain ss' where "visit_taken ?f ss () = Some (ss', ())" "length ss' = length ss"
    "\<forall>i < length ss. if in_use (ss ! i) then slot_ok (ss' ! i) \<and> settled h sh node new_key (ss ! i) (ss' ! i) else ss' ! i = ss ! i"
    using visit_taken_spec [of ss "\<lambda>x. True" ?f "\<lambda>s s'. slot_ok s' \<and> settled h sh node new_key s s'" "()"] by auto
  moreover have "slot_ok (ss' ! i)" if "i < length ss" for i
    using calculation(3) that ss by (cases "in_use (ss ! i)") auto
  ultimately show ?thesis by (intro exI [of _ ss']) auto
qed

text \<open>What a tick leaves of one slot.\<close>

definition after_tick :: "hashes \<Rightarrow> shared \<Rightarrow> node \<Rightarrow> quota \<Rightarrow> slot \<Rightarrow> slot \<Rightarrow> bool" where
  "after_tick h sh node new_key s s' =
     (if sl_key s = EMPTY then sl_key s' = EMPTY \<and> runs_on s' new_key
      else \<not> has_counts s' \<and> (case node_quota node (sl_key s) of
          Some q \<Rightarrow> sl_key s' = sl_key s \<and> runs_on s' q
        | None \<Rightarrow> sl_key s' = EMPTY \<and> runs_on s' new_key \<or>
            sl_key s' = sl_key s \<and> (\<exists>q. runs_on s' q \<and> new_key_quota_in node (rs_limit (class_resolve h (cl_table (sh_classes sh))
              (kl_table (sh_key_limits sh)) (sl_class s) (sl_key s))) = Some q)))"

lemma after_tick_chain:
  assumes busy: "sl_key s \<noteq> BUSY"
    and s1: "if in_use s then s1 = snd (take_counts s) else s1 = s"
    and s2: "if in_use s1 then settled h sh node new_key s1 s2 else s2 = s1"
    and s3: "same_slot s2 s3" "if sl_key s2 = EMPTY then runs_on s3 new_key else s3 = s2"
  shows "after_tick h sh node new_key s s3"
proof (cases "sl_key s = EMPTY")
  case True
  then have "s1 = s" "s2 = s" using s1 s2 by simp_all
  then show ?thesis using True s3 by (simp add: after_tick_def same_slot_def)
next
  case False
  then have s1': "s1 = snd (take_counts s)" "sl_key s1 = sl_key s" "sl_class s1 = sl_class s" "sl_counts s1 = 0"
    using s1 busy by (simp_all add: take_counts_slot)
  then have settled: "settled h sh node new_key s1 s2" using s2 False busy by simp
  show ?thesis
  proof (cases "sl_key s2 = EMPTY")
    case True
    then have "node_quota node (sl_key s) = None" "\<not> has_counts s2"
      using settled False s1'(2) by (auto simp: settled_def same_slot_def split: option.splits)
    then show ?thesis using True False s3 by (simp add: after_tick_def same_slot_def has_counts_def)
  next
    case False': False
    then have "s3 = s2" using s3(2) by simp
    then show ?thesis
      using settled False False' s1' by (auto simp: settled_def after_tick_def same_slot_def has_counts_def split: option.splits)
  qed
qed

lemma after_tick_quota:
  assumes "after_tick h sh node new_key s s'"
  shows "if sl_key s = EMPTY then sl_key s' = EMPTY \<and> runs_on s' new_key
      else (case node_quota node (sl_key s) of
          Some q \<Rightarrow> sl_key s' = sl_key s \<and> runs_on s' q
        | None \<Rightarrow> sl_key s' = EMPTY \<and> runs_on s' new_key \<or>
            sl_key s' = sl_key s \<and> (\<exists>q. new_key_quota_in node (rs_limit (class_resolve h (cl_table (sh_classes sh))
              (kl_table (sh_key_limits sh)) (sl_class s) (sl_key s))) = Some q \<and> runs_on s' q))"
proof (cases "sl_key s = EMPTY")
  case True
  then show ?thesis using assms by (simp add: after_tick_def)
next
  case key: False
  show ?thesis
  proof (cases "node_quota node (sl_key s)")
    case None
    show ?thesis using assms unfolding after_tick_def if_not_P [OF key] None option.case by blast
  next
    case (Some q)
    show ?thesis using assms unfolding after_tick_def if_not_P [OF key] Some option.case by blast
  qed
qed

lemma sync_spec:
  assumes env: "env_ok env" and node: "node_wf node" "n_last_now node \<le> now" and wf: "shared_wf h sh"
  obtains node' sh' new_key where "driver_sync h env node sh rj now = Some (n_actions node', node', sh')" "node_wf node'" "shared_wf h sh'"
    "n_last_now node' = now" "mt_local (n_members node') = mt_local (n_members node)" "n_seeds node' = n_seeds node"
    "new_key_quota_in node' (strictest (cl_table (sh_classes sh))) = Some new_key"
    "length (kt_slots (sh_table sh')) = length (kt_slots (sh_table sh))"
    "\<forall>i < length (kt_slots (sh_table sh)). after_tick h sh node' new_key (kt_slots (sh_table sh) ! i) (kt_slots (sh_table sh') ! i)"
    "\<not> has_counts (kt_overflow (sh_table sh'))" "runs_on (kt_overflow (sh_table sh')) new_key" "pack new_key = Some (sh_free_quota sh')"
    "rp_attempts (sh_report sh') = rp_attempts (sh_report sh) + tallied t_attempts (kt_slots (sh_table sh)) +
       t_attempts (fst (take_counts (kt_overflow (sh_table sh))))"
    "st_denied (rp_stats (sh_report sh')) = st_denied (rp_stats (sh_report sh)) + tallied t_denials (kt_slots (sh_table sh)) +
       t_denials (fst (take_counts (kt_overflow (sh_table sh))))"
    "st_shadow_denied (rp_stats (sh_report sh')) =
       st_shadow_denied (rp_stats (sh_report sh)) + tallied t_shadow_denials (kt_slots (sh_table sh))"
    "sh_cluster_size sh' = node_cluster_size node'" "sh_fresh_factor sh' = node_new_key_factor node'"
    "sh_classes sh' = sh_classes sh" "sh_key_limits sh' = sh_key_limits sh" "sh_auth sh' = sh_auth sh"
proof -
  let ?t = "sh_table sh"
  have t: "table_ok h ?t" and lim: "limits_wf h (sh_classes sh) (sh_key_limits sh)" using wf by (simp_all add: shared_wf_def)
  define cn where "cn = \<lparr>cn_attempts = 0, cn_denied = 0, cn_overflowed = 0, cn_unknown_class = 0, cn_shadow_denied = 0, cn_rejected = rj\<rparr>"
  obtain ss1 node1 cn1 where c: "visit_taken (collect_slot h sh now) (kt_slots ?t) (node, cn) = Some (ss1, node1, cn1)" "node_wf node1"
    "n_last_now node1 \<le> now" "n_members node1 = n_members node" "n_seeds node1 = n_seeds node" "length ss1 = length (kt_slots ?t)"
    "\<forall>i < length (kt_slots ?t). if in_use (kt_slots ?t ! i) then ss1 ! i = snd (take_counts (kt_slots ?t ! i)) else ss1 ! i = kt_slots ?t ! i"
    using collect_spec [OF lim node, of "kt_slots ?t" cn] by blast
  note counts = collect_counts [OF c(1)]
  obtain node2 where n2: "handle env node1 Tick now = Some node2" "node_wf node2" "n_last_now node2 = now"
    "mt_local (n_members node2) = mt_local (n_members node)" "n_seeds node2 = n_seeds node"
    using handle_keeps [OF c(2) env, of Tick now] c(3-5) by (cases "handle env node1 Tick now") (auto simp: same_node_def)
  obtain new_key where new: "new_key_quota_in node2 (strictest (cl_table (sh_classes sh))) = Some new_key" "quota_wf new_key"
    using new_key_quota_ok [OF strictest_burst [OF lim]] by blast
  obtain w where w: "pack new_key = Some w" "packed_ok w" using packed_pack [OF new(2)] by blast
  have ok1: "slot_ok (ss1 ! i)" if "i < length ss1" for i
    using c(6,7) t that by (cases "in_use (kt_slots ?t ! i)") (auto simp: table_ok_def take_counts_slot slot_ok_def)
  then have "\<forall>s \<in> set ss1. slot_ok s" by (metis in_set_conv_nth)
  from settle_each [OF lim n2(2) new(2) this] obtain ss2 where
    s: "visit_taken (\<lambda>key s u. map_option (\<lambda>s'. (s', u)) (settle_slot h sh node2 new_key now key s)) ss1 () = Some (ss2, ())"
    "length ss2 = length ss1" "\<forall>i < length ss1. slot_ok (ss2 ! i) \<and>
      (if in_use (ss1 ! i) then settled h sh node2 new_key (ss1 ! i) (ss2 ! i) else ss2 ! i = ss1 ! i)"
    by blast
  let ?over = "snd (take_counts (kt_overflow ?t))"
  let ?t2 = "?t\<lparr>kt_slots := ss2, kt_overflow := ?over\<rparr>"
  have keys: "sl_key (ss2 ! i) = sl_key (kt_slots ?t ! i) \<or> sl_key (ss2 ! i) = EMPTY" if "i < length (kt_slots ?t)" for i
  proof -
    have k: "sl_key (ss1 ! i) = sl_key (kt_slots ?t ! i)"
      using c(7) that by (cases "in_use (kt_slots ?t ! i)") (auto simp: take_counts_slot)
    show ?thesis
      using s(3) c(6) that k by (cases "in_use (ss1 ! i)") (auto simp: settled_def same_slot_def split: option.splits)
  qed
  have "table_ok h ?t2"
    by (rule table_ok_fewer [OF t]) (use keys s(2,3) c(6) t in \<open>auto simp: key_at_def table_ok_def take_counts_slot slot_ok_def\<close>)
  from set_rest_spec [OF this new(2), of now] obtain t3 where t3: "set_rest ?t2 new_key now = Some t3" "table_ok h t3"
    "length (kt_slots t3) = length ss2"
    "\<forall>i < length ss2. same_slot (ss2 ! i) (kt_slots t3 ! i) \<and>
      (if sl_key (ss2 ! i) = EMPTY then runs_on (kt_slots t3 ! i) new_key else kt_slots t3 ! i = ss2 ! i)"
    "same_slot ?over (kt_overflow t3)" "runs_on (kt_overflow t3) new_key"
    by (auto simp: key_at_def)
  have each: "after_tick h sh node2 new_key (kt_slots ?t ! i) (kt_slots t3 ! i)" if i: "i < length (kt_slots ?t)" for i
  proof (rule after_tick_chain [of _ "ss1 ! i" _ _ _ _ "ss2 ! i"])
    show "sl_key (kt_slots ?t ! i) \<noteq> BUSY" using key_table_wfD(6) [of h ?t i] t i by (simp add: table_ok_def key_at_def)
  qed (use c(6,7) s(2,3) t3(4) i in auto)
  define cn2 where "cn2 = cn1\<lparr>cn_attempts := cn_attempts cn1 + t_attempts (fst (take_counts (kt_overflow ?t))),
    cn_denied := cn_denied cn1 + t_denials (fst (take_counts (kt_overflow ?t))),
    cn_overflowed := t_attempts (fst (take_counts (kt_overflow ?t)))\<rparr>"
  define sh' where "sh' = (driver_report env node2 sh cn2)\<lparr>sh_fresh_factor := node_new_key_factor node2, sh_free_quota := w,
    sh_table := t3, sh_cluster_size := node_cluster_size node2\<rparr>"
  have run: "driver_sync h env node sh rj now = Some (n_actions node2, node2, sh')"
    using c(1) n2(1) new(1) w(1) s(1) t3(1)
    by (simp add: driver_sync_def Let_def split_beta cn_def [symmetric] cn2_def [symmetric] sh'_def)
  have "shared_wf h sh'" using wf t3(2) w(2) by (simp add: sh'_def shared_wf_def driver_report_def Let_def)
  moreover have "\<not> has_counts (kt_overflow t3)" using t3(5) by (simp add: same_slot_def take_counts_slot has_counts_def)
  ultimately show thesis
    using that [OF run n2(2) _ n2(3-5) new(1)] each t3(3,6) s(2) c(6) w(1) counts
    by (simp add: sh'_def driver_report_def Let_def cn2_def cn_def add.assoc)
qed

text \<open>
  C21. A tick counts every request once. It never panics on a clock that does not run backwards, and keeps the node and
  what is shared valid. The attempts and denials reported grow by exactly those the slots and the overflow slot held,
  which hold none afterwards; the shadow's denials by those of the slots.
\<close>

theorem tick_counts_once:
  assumes env: "env_ok env" and node: "node_wf node" "n_last_now node \<le> now" and wf: "shared_wf h sh"
  shows "\<exists>actions node' sh'. driver_sync h env node sh rj now = Some (actions, node', sh') \<and> node_wf node' \<and> shared_wf h sh' \<and>
    rp_attempts (sh_report sh') = rp_attempts (sh_report sh) + tallied t_attempts (kt_slots (sh_table sh)) +
      t_attempts (fst (take_counts (kt_overflow (sh_table sh)))) \<and>
    st_denied (rp_stats (sh_report sh')) = st_denied (rp_stats (sh_report sh)) + tallied t_denials (kt_slots (sh_table sh)) +
      t_denials (fst (take_counts (kt_overflow (sh_table sh)))) \<and>
    st_shadow_denied (rp_stats (sh_report sh')) =
      st_shadow_denied (rp_stats (sh_report sh)) + tallied t_shadow_denials (kt_slots (sh_table sh)) \<and>
    (\<forall>i < length (kt_slots (sh_table sh)). key_at (sh_table sh) i \<noteq> EMPTY \<longrightarrow> \<not> has_counts (kt_slots (sh_table sh') ! i)) \<and>
    \<not> has_counts (kt_overflow (sh_table sh'))"
proof -
  obtain node' sh' new_key where r: "driver_sync h env node sh rj now = Some (n_actions node', node', sh')" "node_wf node'" "shared_wf h sh'"
    "\<forall>i < length (kt_slots (sh_table sh)). after_tick h sh node' new_key (kt_slots (sh_table sh) ! i) (kt_slots (sh_table sh') ! i)"
    "\<not> has_counts (kt_overflow (sh_table sh'))"
    "rp_attempts (sh_report sh') = rp_attempts (sh_report sh) + tallied t_attempts (kt_slots (sh_table sh)) +
       t_attempts (fst (take_counts (kt_overflow (sh_table sh))))"
    "st_denied (rp_stats (sh_report sh')) = st_denied (rp_stats (sh_report sh)) + tallied t_denials (kt_slots (sh_table sh)) +
       t_denials (fst (take_counts (kt_overflow (sh_table sh))))"
    "st_shadow_denied (rp_stats (sh_report sh')) =
       st_shadow_denied (rp_stats (sh_report sh)) + tallied t_shadow_denials (kt_slots (sh_table sh))"
    by (rule sync_spec [OF env node wf, of rj])
  have "\<forall>i < length (kt_slots (sh_table sh)). key_at (sh_table sh) i \<noteq> EMPTY \<longrightarrow> \<not> has_counts (kt_slots (sh_table sh') ! i)"
    using r(4) by (auto simp: after_tick_def key_at_def)
  then show ?thesis using r by blast
qed

text \<open>
  C20. After a tick every slot runs on the quota the core decided. A key the core tracks is on its share; one it does not
  track has lost its slot, or, still in debt, is on the quota of a new key of its class; a free slot and the overflow slot
  are on the strictest quota of a new key of any class, which is also what free slots are told to carry.
\<close>

theorem tick_sets_quotas:
  assumes env: "env_ok env" and node: "node_wf node" "n_last_now node \<le> now" and wf: "shared_wf h sh"
    and run: "driver_sync h env node sh rj now = Some (actions, node', sh')" and t: "t = sh_table sh" "t' = sh_table sh'"
    and resolve: "\<And>i. lmt i = rs_limit (class_resolve h (cl_table (sh_classes sh)) (kl_table (sh_key_limits sh)) (sl_class (kt_slots t ! i)) (key_at t i))"
  shows "\<exists>new_key. new_key_quota_in node' (strictest (cl_table (sh_classes sh))) = Some new_key \<and>
    (\<forall>i < length (kt_slots t). if key_at t i = EMPTY then key_at t' i = EMPTY \<and> runs_on (kt_slots t' ! i) new_key
      else (case node_quota node' (key_at t i) of
          Some q \<Rightarrow> key_at t' i = key_at t i \<and> runs_on (kt_slots t' ! i) q
        | None \<Rightarrow> key_at t' i = EMPTY \<and> runs_on (kt_slots t' ! i) new_key \<or>
            key_at t' i = key_at t i \<and> (\<exists>q. new_key_quota_in node' (lmt i) = Some q \<and> runs_on (kt_slots t' ! i) q))) \<and>
    runs_on (kt_overflow t') new_key \<and> pack new_key = Some (sh_free_quota sh') \<and>
    sh_cluster_size sh' = node_cluster_size node' \<and> sh_fresh_factor sh' = node_new_key_factor node'"
proof -
  obtain node2 sh2 new_key where r: "driver_sync h env node sh rj now = Some (n_actions node2, node2, sh2)"
    "new_key_quota_in node2 (strictest (cl_table (sh_classes sh))) = Some new_key"
    "\<forall>i < length (kt_slots (sh_table sh)). after_tick h sh node2 new_key (kt_slots (sh_table sh) ! i) (kt_slots (sh_table sh2) ! i)"
    "runs_on (kt_overflow (sh_table sh2)) new_key" "pack new_key = Some (sh_free_quota sh2)"
    "sh_cluster_size sh2 = node_cluster_size node2" "sh_fresh_factor sh2 = node_new_key_factor node2"
    by (rule sync_spec [OF env node wf, of rj])
  have same: "node2 = node'" "sh2 = sh'" using r(1) run by simp_all
  have "if key_at t i = EMPTY then key_at t' i = EMPTY \<and> runs_on (kt_slots t' ! i) new_key
      else (case node_quota node' (key_at t i) of
          Some q \<Rightarrow> key_at t' i = key_at t i \<and> runs_on (kt_slots t' ! i) q
        | None \<Rightarrow> key_at t' i = EMPTY \<and> runs_on (kt_slots t' ! i) new_key \<or>
            key_at t' i = key_at t i \<and> (\<exists>q. new_key_quota_in node' (lmt i) = Some q \<and> runs_on (kt_slots t' ! i) q))"
    if "i < length (kt_slots t)" for i
  proof -
    have a: "after_tick h sh node' new_key (kt_slots t ! i) (kt_slots t' ! i)"
      using r(3) that by (simp add: t same)
    show ?thesis unfolding key_at_def resolve by (rule after_tick_quota [OF a])
  qed
  then show ?thesis using r(2,4-7) unfolding same t by blast
qed

lemma node_leave_ok:
  assumes "node_wf node" "env_ok env" "n_last_now node \<le> later"
  shows "\<exists>node'. node_leave env node later = Some node' \<and> node_wf node'"
proof -
  have "\<exists>node'. node_leave env node later = Some node'"
  proof (cases "n_left node")
    case True
    then show ?thesis using assms(3) by (simp add: node_leave_def advance_def Let_def)
  next
    case False
    then show ?thesis using node_leave_spec [OF assms False] by blast
  qed
  then show ?thesis using node_leave_wf [OF assms(1,2)] by blast
qed

theorem tick_counts_once_witness:
  "\<exists>node node' sh'. node_new example_config swim_default 1 (V4 [10, 0, 0, 1] 7000) 42 = Some node \<and>
    driver_sync example_hashes example_env node example_shared rejected_none 5 = Some (n_actions node', node', sh') \<and>
    shared_wf example_hashes sh' \<and> \<not> has_counts (kt_overflow (sh_table sh'))"
proof -
  obtain node where node: "node_new example_config swim_default 1 (V4 [10, 0, 0, 1] 7000) 42 = Some node" using example_node by blast
  have "node_wf node" "n_last_now node \<le> 5" using node_new_wf [OF node] by simp_all
  from tick_counts_once [OF example_env_ok this example_shared_wf, of rejected_none] sync_spec [OF example_env_ok this example_shared_wf, of rejected_none]
  show ?thesis using node by fastforce
qed

theorem tick_sets_quotas_witness:
  "\<exists>node actions node' sh' new_key. node_new example_config swim_default 1 (V4 [10, 0, 0, 1] 7000) 42 = Some node \<and>
    driver_sync example_hashes example_env node example_shared rejected_none 5 = Some (actions, node', sh') \<and>
    new_key_quota_in node' (strictest (cl_table (sh_classes example_shared))) = Some new_key \<and>
    runs_on (kt_overflow (sh_table sh')) new_key"
proof -
  obtain node where node: "node_new example_config swim_default 1 (V4 [10, 0, 0, 1] 7000) 42 = Some node" using example_node by blast
  have wf: "node_wf node" "n_last_now node \<le> 5" using node_new_wf [OF node] by simp_all
  obtain actions node' sh' where run: "driver_sync example_hashes example_env node example_shared rejected_none 5 = Some (actions, node', sh')"
    by (rule sync_spec [OF example_env_ok wf example_shared_wf, of rejected_none])
  from tick_sets_quotas [OF example_env_ok wf example_shared_wf run refl refl refl] show ?thesis using node run by blast
qed

section \<open>The floor\<close>

lemma floor_quota_ok: "burst_ok l \<Longrightarrow> \<exists>q. floor_quota c n l = Some q \<and> quota_wf q"
  using per_second_ok [of "l_burst l"] by (fastforce simp: floor_quota_def burst_ok_def)

text \<open>A key's limit, as the classes and the limits of keys resolve it.\<close>

abbreviation limit_in :: "hashes \<Rightarrow> shared \<Rightarrow> slot \<Rightarrow> limit" where
  "limit_in h sh s \<equiv> rs_limit (class_resolve h (cl_table (sh_classes sh)) (kl_table (sh_key_limits sh)) (sl_class s) (sl_key s))"

lemma floor_each:
  assumes lim: "limits_wf h (sh_classes sh) (sh_key_limits sh)" and ss: "\<forall>s \<in> set ss. slot_ok s"
  shows "\<exists>ss'. visit_taken (\<lambda>key s u. do {
            let r = class_resolve h (cl_table (sh_classes sh)) (kl_table (sh_key_limits sh)) (sl_class s) key;
            q \<leftarrow> floor_quota c n (rs_limit r);
            shadow \<leftarrow> shadow_quota q (rs_limit r) (rs_shadow r);
            s' \<leftarrow> slot_set_both s q shadow now;
            Some (s', u)
          }) ss () = Some (ss', ()) \<and> length ss' = length ss \<and> (\<forall>i < length ss. slot_ok (ss' ! i) \<and>
      (if in_use (ss ! i) then same_slot (ss ! i) (ss' ! i) \<and> (\<exists>q. floor_quota c n (limit_in h sh (ss ! i)) = Some q \<and> runs_on (ss' ! i) q)
       else ss' ! i = ss ! i))"
    (is "\<exists>ss'. visit_taken ?f ss () = _ \<and> _")
proof -
  let ?after = "\<lambda>s s'. slot_ok s' \<and> same_slot s s' \<and> (\<exists>q. floor_quota c n (limit_in h sh s) = Some q \<and> runs_on s' q)"
  have "\<exists>s' x'. ?f (sl_key s) s x = Some (s', x') \<and> ?after s s' \<and> True" if "s \<in> set ss" for s and x :: unit
  proof -
    let ?r = "class_resolve h (cl_table (sh_classes sh)) (kl_table (sh_key_limits sh)) (sl_class s) (sl_key s)"
    note r = resolve_ok [OF lim, of "sl_class s" "sl_key s"]
    obtain q where q: "floor_quota c n (rs_limit ?r) = Some q" "quota_wf q" using floor_quota_ok [OF r(2)] by blast
    obtain q' where q': "shadow_quota q (rs_limit ?r) (rs_shadow ?r) = Some q'" "\<forall>new. q' = Some new \<longrightarrow> quota_wf new"
      using shadow_quota_ok [of "rs_shadow ?r" q "rs_limit ?r"] r(3) by blast
    obtain s' where "slot_set_both s q q' now = Some s'" "slot_ok s'" "same_slot s s'" "pack q = Some (a_quota (sl_gcra s'))"
      using slot_set_both_ok [OF _ q(2) q'(2), of s now] ss \<open>s \<in> set ss\<close> by blast
    then show ?thesis using q(1) q'(1) by (simp add: runs_on_def Let_def)
  qed
  then obtain ss' where "visit_taken ?f ss () = Some (ss', ())" "length ss' = length ss"
    "\<forall>i < length ss. if in_use (ss ! i) then ?after (ss ! i) (ss' ! i) else ss' ! i = ss ! i"
    using visit_taken_spec [of ss "\<lambda>x. True" ?f ?after "()"] by auto
  moreover have "slot_ok (ss' ! i)" if "i < length ss" for i
    using calculation(3) that ss by (cases "in_use (ss ! i)") auto
  ultimately show ?thesis by (intro exI [of _ ss']) auto
qed

lemma hold_at_floor_spec:
  assumes wf: "shared_wf h sh" and t: "t = sh_table sh" and n: "n = max (sh_cluster_size sh) 1"
  obtains sh' least where "hold_at_floor h sh c now = Some sh'" "shared_wf h sh'"
    "floor_quota c n (strictest (cl_table (sh_classes sh))) = Some least"
    "length (kt_slots (sh_table sh')) = length (kt_slots t)"
    "\<forall>i < length (kt_slots t). same_slot (kt_slots t ! i) (kt_slots (sh_table sh') ! i) \<and>
      (if key_at t i = EMPTY then runs_on (kt_slots (sh_table sh') ! i) least
       else \<exists>q. floor_quota c n (limit_in h sh (kt_slots t ! i)) = Some q \<and> runs_on (kt_slots (sh_table sh') ! i) q)"
    "same_slot (kt_overflow t) (kt_overflow (sh_table sh'))" "runs_on (kt_overflow (sh_table sh')) least"
    "pack least = Some (sh_free_quota sh')" "sh_fresh_factor sh' = c_floor_factor c / f64_of_nat n"
    "sh_auth sh' = sh_auth sh" "sh_classes sh' = sh_classes sh" "sh_key_limits sh' = sh_key_limits sh" "sh_dry_run sh' = sh_dry_run sh"
proof -
  have tok: "table_ok h t" and lim: "limits_wf h (sh_classes sh) (sh_key_limits sh)" using wf by (simp_all add: shared_wf_def t)
  obtain least where least: "floor_quota c n (strictest (cl_table (sh_classes sh))) = Some least" "quota_wf least"
    using floor_quota_ok [OF strictest_burst [OF lim]] by blast
  obtain w where w: "pack least = Some w" "packed_ok w" using packed_pack [OF least(2)] by blast
  have "\<forall>s \<in> set (kt_slots t). slot_ok s" using tok by (simp add: table_ok_def)
  from floor_each [OF lim this, of c n now] obtain ss where ss:
    "visit_taken (\<lambda>key s u. do {
            let r = class_resolve h (cl_table (sh_classes sh)) (kl_table (sh_key_limits sh)) (sl_class s) key;
            q \<leftarrow> floor_quota c n (rs_limit r);
            shadow \<leftarrow> shadow_quota q (rs_limit r) (rs_shadow r);
            s' \<leftarrow> slot_set_both s q shadow now;
            Some (s', u)
          }) (kt_slots t) () = Some (ss, ())" "length ss = length (kt_slots t)"
    "\<forall>i < length (kt_slots t). slot_ok (ss ! i) \<and>
      (if in_use (kt_slots t ! i) then same_slot (kt_slots t ! i) (ss ! i) \<and>
         (\<exists>q. floor_quota c n (limit_in h sh (kt_slots t ! i)) = Some q \<and> runs_on (ss ! i) q)
       else ss ! i = kt_slots t ! i)"
    by blast
  have key: "sl_key (ss ! i) = key_at t i" if "i < length (kt_slots t)" for i
    using ss(3) that by (cases "in_use (kt_slots t ! i)") (auto simp: key_at_def same_slot_def)
  have "table_ok h (t\<lparr>kt_slots := ss\<rparr>)"
    by (rule table_ok_fewer [OF tok]) (use key ss(2,3) tok in \<open>simp_all add: key_at_def table_ok_def\<close>)
  from set_rest_spec [OF this least(2), of now] obtain t3 where t3: "set_rest (t\<lparr>kt_slots := ss\<rparr>) least now = Some t3" "table_ok h t3"
    "length (kt_slots t3) = length ss"
    "\<forall>i < length ss. same_slot (ss ! i) (kt_slots t3 ! i) \<and>
      (if sl_key (ss ! i) = EMPTY then runs_on (kt_slots t3 ! i) least else kt_slots t3 ! i = ss ! i)"
    "same_slot (kt_overflow t) (kt_overflow t3)" "runs_on (kt_overflow t3) least"
    by (auto simp: key_at_def)
  have each: "same_slot (kt_slots t ! i) (kt_slots t3 ! i) \<and>
      (if key_at t i = EMPTY then runs_on (kt_slots t3 ! i) least
       else \<exists>q. floor_quota c n (limit_in h sh (kt_slots t ! i)) = Some q \<and> runs_on (kt_slots t3 ! i) q)"
    if i: "i < length (kt_slots t)" for i
  proof (cases "key_at t i = EMPTY")
    case True
    then have "ss ! i = kt_slots t ! i" using ss(3) i by (simp add: key_at_def)
    moreover have "sl_key (ss ! i) = EMPTY" using key [OF i] True by simp
    ultimately show ?thesis using True t3(4) ss(2) i by metis
  next
    case False
    then have "in_use (kt_slots t ! i)" using key_table_wfD(6) [of h t i] tok i by (simp add: table_ok_def key_at_def)
    moreover have "kt_slots t3 ! i = ss ! i" using t3(4) ss(2) i key [OF i] False by simp
    ultimately show ?thesis using ss(3) i False by simp
  qed
  define sh' where "sh' = sh\<lparr>sh_fresh_factor := c_floor_factor c / f64_of_nat n, sh_free_quota := w, sh_table := t3\<rparr>"
  have "hold_at_floor h sh c now = Some sh'"
    using least(1) w(1) ss(1) t3(1) by (simp add: hold_at_floor_def Let_def sh'_def t [symmetric] n [symmetric] del: One_nat_def)
  moreover have "shared_wf h sh'" using wf t3(2) w(2) by (simp add: sh'_def shared_wf_def)
  ultimately show thesis using that least(1) t3(3,5,6) ss(2) each w(1) by (simp add: sh'_def)
qed

text \<open>
  At the floor: the guard runs no longer; each slot in use is on the floor of its own limit, the free slots and the overflow
  slot are on the strictest floor, and a slot taken from now on is sized from the floor too.
\<close>

definition at_floor :: "hashes \<Rightarrow> config \<Rightarrow> shared \<Rightarrow> shared \<Rightarrow> bool" where
  "at_floor h c sh sh' = (let t = sh_table sh; t' = sh_table sh'; n = max (sh_cluster_size sh) 1 in
     \<not> sh_running sh' \<and> shared_wf h sh' \<and> sh_fresh_factor sh' = c_floor_factor c / f64_of_nat n \<and>
     (\<exists>least. floor_quota c n (strictest (cl_table (sh_classes sh))) = Some least \<and>
       pack least = Some (sh_free_quota sh') \<and> runs_on (kt_overflow t') least \<and>
       length (kt_slots t') = length (kt_slots t) \<and>
       (\<forall>i < length (kt_slots t). same_slot (kt_slots t ! i) (kt_slots t' ! i) \<and>
         (if key_at t i = EMPTY then runs_on (kt_slots t' ! i) least
          else \<exists>q. floor_quota c n (limit_in h sh (kt_slots t ! i)) = Some q \<and> runs_on (kt_slots t' ! i) q))))"

lemma hold_at_floor_floors:
  assumes wf: "shared_wf h sh"
  shows "\<exists>sh'. hold_at_floor h sh c now = Some sh' \<and> at_floor h c sh (sh'\<lparr>sh_running := False\<rparr>)"
proof -
  obtain sh' least where f: "hold_at_floor h sh c now = Some sh'" "shared_wf h sh'"
    "floor_quota c (max (sh_cluster_size sh) 1) (strictest (cl_table (sh_classes sh))) = Some least"
    "length (kt_slots (sh_table sh')) = length (kt_slots (sh_table sh))"
    "\<forall>i < length (kt_slots (sh_table sh)). same_slot (kt_slots (sh_table sh) ! i) (kt_slots (sh_table sh') ! i) \<and>
      (if key_at (sh_table sh) i = EMPTY then runs_on (kt_slots (sh_table sh') ! i) least
       else \<exists>q. floor_quota c (max (sh_cluster_size sh) 1) (limit_in h sh (kt_slots (sh_table sh) ! i)) = Some q \<and>
         runs_on (kt_slots (sh_table sh') ! i) q)"
    "runs_on (kt_overflow (sh_table sh')) least" "pack least = Some (sh_free_quota sh')"
    "sh_fresh_factor sh' = c_floor_factor c / f64_of_nat (max (sh_cluster_size sh) 1)"
    by (rule hold_at_floor_spec [OF wf refl refl, of c now])
  have "shared_wf h (sh'\<lparr>sh_running := False\<rparr>)" using f(2) by (simp add: shared_wf_def)
  then have "at_floor h c sh (sh'\<lparr>sh_running := False\<rparr>)" using f(3-) by (simp add: at_floor_def Let_def del: One_nat_def)
  with f(1) show ?thesis by blast
qed

text \<open>What the task keeps for leaving is what the guards had set when it last finished an event.\<close>

lemma driver_step_auth: "driver_step hmac h env dv ev now = Some (sent, dv') \<Longrightarrow> dv_auth dv' = sh_auth (dv_shared dv')"
  by (auto simp: driver_step_def Let_def split: bind_splits prod.splits)

text \<open>
  C22. A guard whose node leaves is at the floor before its peers hear of it: whenever a datagram is sent, the guard, if
  there still is one, is already at the floor, and stays there; no key is lost and nothing panics. Each live peer with an
  address is told twice that the node is dead, also when no guard is left, under the secrets and mode the task last
  read.
\<close>

theorem leaving_holds_the_floor:
  assumes env: "env_ok env" and node: "node_wf (dv_node dv)" "n_last_now (dv_node dv) \<le> later" "\<not> n_left (dv_node dv)"
    and wf: "shared_wf h (dv_shared dv)"
  shows "\<exists>sent dv' bytes. driver_leave hmac h env dv guard_there now later = Some (sent, dv') \<and>
    list_all (\<lambda>(sh, to, datagram).
      if guard_there then at_floor h (lm_config (n_limiter (dv_node dv))) (dv_shared dv) sh else sh = dv_shared dv) sent \<and>
    (if guard_there then at_floor h (lm_config (n_limiter (dv_node dv))) (dv_shared dv) (dv_shared dv')
     else dv_shared dv' = dv_shared dv) \<and>
    e_to_allocvec env (Leave [(own_update (n_members (dv_node dv)))\<lparr>u_status := Dead\<rparr>]) = Some bytes \<and>
    map snd sent = concat (map (\<lambda>peer. case node_address (dv_node dv) peer of
        None \<Rightarrow> []
      | Some a \<Rightarrow> replicate 2 (socket_of_address a, seal hmac (dv_auth dv) bytes)) (mt_live (n_members (dv_node dv)))) \<and>
    node_wf (dv_node dv') \<and> n_left (dv_node dv')"
proof -
  let ?c = "lm_config (n_limiter (dv_node dv))"
  obtain sh' where f: "hold_at_floor h (dv_shared dv) ?c now = Some sh'" "at_floor h ?c (dv_shared dv) (sh'\<lparr>sh_running := False\<rparr>)"
    using hold_at_floor_floors [OF wf] by blast
  obtain bytes where b: "e_to_allocvec env (Leave [(own_update (n_members (dv_node dv)))\<lparr>u_status := Dead\<rparr>]) = Some bytes"
    and l: "node_leave env (dv_node dv) later = Some (dv_node dv\<lparr>n_last_now := later, n_left := True,
      n_actions := concat (map (\<lambda>p. [SendTo p bytes, SendTo p bytes]) (mt_live (n_members (dv_node dv))))\<rparr>)" (is "_ = Some ?node")
    using node_leave_spec [OF node(1) env node(2,3)] by blast
  define sh1 where "sh1 = (if guard_there then sh'\<lparr>sh_running := False\<rparr> else dv_shared dv)"
  have "node_wf ?node" using node_leave_wf [OF node(1) env l] by (rule conjunct1)
  moreover have "driver_leave hmac h env dv guard_there now later =
      Some (map (Pair sh1) (driver_send hmac ?node (n_actions ?node) (dv_auth dv)), dv\<lparr>dv_node := ?node, dv_shared := sh1\<rparr>)"
    using f(1) l by (simp add: driver_leave_def sh1_def Let_def)
  moreover have "driver_send hmac ?node (n_actions ?node) (dv_auth dv) = concat (map (\<lambda>peer. case node_address (dv_node dv) peer of
        None \<Rightarrow> []
      | Some a \<Rightarrow> replicate 2 (socket_of_address a, seal hmac (dv_auth dv) bytes)) (mt_live (n_members (dv_node dv))))"
  proof -
    have "node_address ?node = node_address (dv_node dv)" by (simp add: node_address_def fun_eq_iff split: option.split)
    moreover have "driver_send hmac ?node (concat (map (\<lambda>p. [SendTo p bytes, SendTo p bytes]) ps)) (dv_auth dv) =
      concat (map (\<lambda>peer. case node_address ?node peer of
        None \<Rightarrow> []
      | Some a \<Rightarrow> replicate 2 (socket_of_address a, seal hmac (dv_auth dv) bytes)) ps)" for ps
      by (induction ps) (simp_all add: driver_send_def numeral_2_eq_2 split: option.split)
    ultimately show ?thesis by simp
  qed
  moreover have "if guard_there then at_floor h ?c (dv_shared dv) sh1 else sh1 = dv_shared dv"
    using f(2) by (simp add: sh1_def)
  moreover have "map snd (map (Pair sh1) ds) = ds" for ds :: "(socket_addr \<times> bytes) list"
    by (induction ds) simp_all
  ultimately show ?thesis using b
    by (intro exI [of _ "map (Pair sh1) (driver_send hmac ?node (n_actions ?node) (dv_auth dv))"]
        exI [of _ "dv\<lparr>dv_node := ?node, dv_shared := sh1\<rparr>"] exI [of _ bytes]) (simp add: list_all_iff)
qed

theorem leaving_holds_the_floor_witness:
  "\<exists>dv sent dv'. sh_running (dv_shared dv) \<and> driver_leave (\<lambda>mac data. []) example_hashes example_env dv True 5 6 = Some (sent, dv') \<and>
    at_floor example_hashes example_config (dv_shared dv) (dv_shared dv')"
proof -
  obtain node where node: "node_new example_config swim_default 1 (V4 [10, 0, 0, 1] 7000) 42 = Some node" using example_node by blast
  note s = node_new_wf [OF node]
  have c: "lm_config (n_limiter node) = example_config"
    using node by (auto simp: node_new_def example_new example_limiter_def Let_def split: bind_splits prod.splits)
  let ?dv = "\<lparr>dv_node = node, dv_names = names_new 1, dv_shared = example_shared, dv_rejected = rejected_none, dv_auth = auth_off\<rparr>"
  have "node_wf (dv_node ?dv)" "n_last_now (dv_node ?dv) \<le> 6" "\<not> n_left (dv_node ?dv)" "shared_wf example_hashes (dv_shared ?dv)"
    using s example_shared_wf by simp_all
  from leaving_holds_the_floor [OF example_env_ok this, of "\<lambda>mac data. []" True 5]
  have "\<exists>sent dv'. driver_leave (\<lambda>mac data. []) example_hashes example_env ?dv True 5 6 = Some (sent, dv') \<and>
      at_floor example_hashes example_config (dv_shared ?dv) (dv_shared dv')"
    by (auto simp: c)
  moreover have "sh_running (dv_shared ?dv)" by (simp add: example_shared_def)
  ultimately show ?thesis by blast
qed

section \<open>The seeds\<close>

abbreviation seed_ids :: "node \<Rightarrow> peer_id set" where
  "seed_ids node \<equiv> fst ` set (n_seeds node)"

text \<open>What a change of the seeds keeps of a node.\<close>

definition same_clock :: "node \<Rightarrow> node \<Rightarrow> bool" where
  "same_clock s s' = (mt_local (n_members s') = mt_local (n_members s) \<and> n_last_now s' = n_last_now s)"

lemma same_clock_refl [simp]: "same_clock s s"
  by (simp add: same_clock_def)

lemma same_clock_trans: "same_clock a b \<Longrightarrow> same_clock b c \<Longrightarrow> same_clock a c"
  by (simp add: same_clock_def)

lemma seed_changes:
  assumes "node_wf s"
  shows "seed \<noteq> mt_local (n_members s) \<Longrightarrow> \<exists>s'. add_seed s seed addr = Some s' \<and> node_wf s' \<and> same_clock s s' \<and>
      seed_ids s' = insert seed (seed_ids s)"
    "node_wf (remove_seed s seed) \<and> same_clock s (remove_seed s seed) \<and> seed_ids (remove_seed s seed) = seed_ids s - {seed}"
    "node_wf (expect_peers s b) \<and> same_clock s (expect_peers s b) \<and> seed_ids (expect_peers s b) = seed_ids s"
proof -
  show "\<exists>s'. add_seed s seed addr = Some s' \<and> node_wf s' \<and> same_clock s s' \<and> seed_ids s' = insert seed (seed_ids s)"
    if away: "seed \<noteq> mt_local (n_members s)"
  proof -
    obtain s' where run: "add_seed s seed addr = Some s'" using away by (simp add: add_seed_def Let_def)
    then have "same_clock s s' \<and> seed_ids s' = insert seed (seed_ids s)"
      by (auto simp: add_seed_def refresh_cap_def same_clock_def Let_def list_ex_iff split: if_splits intro: rev_image_eqI)
    then show ?thesis using run setup_wf(2) [OF assms run] by blast
  qed
  show "node_wf (remove_seed s seed) \<and> same_clock s (remove_seed s seed) \<and> seed_ids (remove_seed s seed) = seed_ids s - {seed}"
    using setup_wf(3) [OF assms, of seed] by (auto simp: remove_seed_def refresh_cap_def same_clock_def Let_def)
  show "node_wf (expect_peers s b) \<and> same_clock s (expect_peers s b) \<and> seed_ids (expect_peers s b) = seed_ids s"
    using setup_wf(4) [OF assms, of b] by (auto simp: expect_peers_def refresh_cap_def same_clock_def Let_def)
qed

definition named_ids :: "hashes \<Rightarrow> names \<Rightarrow> socket_addr list \<Rightarrow> peer_id set" where
  "named_ids h nm as = (\<lambda>a. peer_id_of h (address_of_socket a)) ` set as - {nm_local nm} - fst ` set (nm_kept nm)"

lemma named_ids_simps [simp]: "named_ids h nm [] = {}"
  "named_ids h nm (a # as) = (let seed = peer_id_of h (address_of_socket a) in
     if seed = nm_local nm \<or> om_has (nm_kept nm) seed then named_ids h nm as else insert seed (named_ids h nm as))"
  by (auto simp: named_ids_def Let_def om_has_keys)

lemma set_steps:
  "x \<notin> A \<Longrightarrow> x \<notin> B \<Longrightarrow> insert x S \<union> (N - insert x A - B) = S \<union> (insert x N - A - B)"
  "x \<in> A \<or> x \<in> B \<Longrightarrow> N - insert x A - B = insert x N - A - B"
  "insert x A \<union> N = A \<union> insert x N"
  "A \<subseteq> S \<Longrightarrow> S \<union> (C - A) - (A - C) = S - A \<union> C"
  by auto

lemma add_current_spec:
  assumes "node_wf node" "nm_local nm = mt_local (n_members node)" "om_wf current"
  shows "\<exists>current' node'. add_current h nm as current node = Some (current', node') \<and> node_wf node' \<and> same_clock node node' \<and>
    om_wf current' \<and> fst ` set current' = fst ` set current \<union> named_ids h nm as \<and>
    seed_ids node' = seed_ids node \<union> (named_ids h nm as - fst ` set current - fst ` set (nm_added nm))"
  using assms
proof (induction as arbitrary: current node)
  case (Cons a as)
  let ?seed = "peer_id_of h (address_of_socket a)"
  show ?case
  proof (cases "?seed = nm_local nm \<or> om_has (nm_kept nm) ?seed")
    case True
    then show ?thesis using Cons.IH [OF Cons.prems] by (simp add: Let_def)
  next
    case mine: False
    then have ids: "named_ids h nm (a # as) = insert ?seed (named_ids h nm as)" by (simp add: Let_def)
    let ?next = "om_put ?seed () current"
    show ?thesis
    proof (cases "\<not> om_has current ?seed \<and> \<not> om_has (nm_added nm) ?seed")
      case True
      obtain s1 where s1: "add_seed node ?seed (address_of_socket a) = Some s1" "node_wf s1" "same_clock node s1"
        "seed_ids s1 = insert ?seed (seed_ids node)"
        using seed_changes(1) [OF Cons.prems(1)] mine Cons.prems(2) by metis
      have "nm_local nm = mt_local (n_members s1)" using Cons.prems(2) s1(3) by (simp add: same_clock_def)
      from Cons.IH [OF s1(2) this om_wf_put [OF Cons.prems(3)], of ?seed "()"]
      obtain current' node' where r: "add_current h nm as ?next s1 = Some (current', node')" "node_wf node'" "same_clock s1 node'"
        "om_wf current'" "fst ` set current' = fst ` set ?next \<union> named_ids h nm as"
        "seed_ids node' = seed_ids s1 \<union> (named_ids h nm as - fst ` set ?next - fst ` set (nm_added nm))"
        by (elim exE conjE) (rule that)
      have run: "add_current h nm (a # as) current node = Some (current', node')"
        using mine True s1(1) r(1) by (simp add: Let_def)
      have "?seed \<notin> fst ` set current" "?seed \<notin> fst ` set (nm_added nm)" using True by (simp_all add: om_has_keys)
      then have "seed_ids node' = seed_ids node \<union> (named_ids h nm (a # as) - fst ` set current - fst ` set (nm_added nm))"
        unfolding ids r(6) s1(4) set_keys_om_put by (rule set_steps(1))
      moreover have "fst ` set current' = fst ` set current \<union> named_ids h nm (a # as)"
        unfolding ids r(5) set_keys_om_put by (rule set_steps(3))
      ultimately show ?thesis using run r(2,4) same_clock_trans [OF s1(3) r(3)] by blast
    next
      case False
      from Cons.IH [OF Cons.prems(1,2) om_wf_put [OF Cons.prems(3)], of ?seed "()"]
      obtain current' node' where r: "add_current h nm as ?next node = Some (current', node')" "node_wf node'" "same_clock node node'"
        "om_wf current'" "fst ` set current' = fst ` set ?next \<union> named_ids h nm as"
        "seed_ids node' = seed_ids node \<union> (named_ids h nm as - fst ` set ?next - fst ` set (nm_added nm))"
        by (elim exE conjE) (rule that)
      have run: "add_current h nm (a # as) current node = Some (current', node')"
        using mine False r(1) by (auto simp: Let_def)
      have "?seed \<in> fst ` set current \<or> ?seed \<in> fst ` set (nm_added nm)" using False by (simp add: om_has_keys)
      then have "seed_ids node' = seed_ids node \<union> (named_ids h nm (a # as) - fst ` set current - fst ` set (nm_added nm))"
        unfolding ids r(6) set_keys_om_put by (simp only: set_steps(2))
      moreover have "fst ` set current' = fst ` set current \<union> named_ids h nm (a # as)"
        unfolding ids r(5) set_keys_om_put by (rule set_steps(3))
      ultimately show ?thesis using run r(2-4) by blast
    qed
  qed
qed simp

lemma remove_seeds:
  "node_wf s \<Longrightarrow> node_wf (foldl remove_seed s gone) \<and> same_clock s (foldl remove_seed s gone) \<and>
    seed_ids (foldl remove_seed s gone) = seed_ids s - set gone"
proof (induction gone arbitrary: s)
  case (Cons seed gone)
  note r = seed_changes(2) [OF Cons.prems, of seed]
  then show ?case using Cons.IH [of "remove_seed s seed"] same_clock_trans by auto
qed simp

lemma keep_last_length: "length (keep_last olds found) = length olds"
  by (induction olds found rule: keep_last.induct) auto

lemma keep_last_nth:
  "length olds = length found \<Longrightarrow> i < length found \<Longrightarrow>
    keep_last olds found ! i = (case found ! i of Some new \<Rightarrow> new | None \<Rightarrow> olds ! i)"
  by (induction olds found arbitrary: i rule: keep_last.induct) (auto simp: nth_Cons' split: option.split)

definition names_wf :: "names \<Rightarrow> node \<Rightarrow> bool" where
  "names_wf nm node = (nm_local nm = mt_local (n_members node) \<and> om_wf (nm_added nm) \<and> fst ` set (nm_added nm) \<subseteq> seed_ids node)"

lemma names_follow:
  assumes node: "node_wf node" and nm: "names_wf nm node"
  shows "\<exists>nm' node'. names_update h nm node found = Some (nm', node') \<and> node_wf node' \<and> names_wf nm' node' \<and>
    length (nm_last nm') = length found \<and>
    (\<forall>i < length found. nm_last nm' ! i =
      (case found ! i of Some new \<Rightarrow> new | None \<Rightarrow> if i < length (nm_last nm) then nm_last nm ! i else [])) \<and>
    fst ` set (nm_added nm') = named_ids h nm (concat (nm_last nm')) \<and>
    seed_ids node' = seed_ids node - fst ` set (nm_added nm) \<union> fst ` set (nm_added nm') \<and>
    n_last_now node' = n_last_now node"
proof -
  define alone where "alone = (if only_me h nm found then saturating_add (nm_alone nm) 1 else 0)"
  define node1 where "node1 = (if alone = ALONE_AFTER then expect_peers node False else node)"
  define resized where "resized = take (length found) (nm_last nm @ replicate (length found - length (nm_last nm)) [])"
  define lst where "lst = keep_last resized found"
  have node1: "node_wf node1" "same_clock node node1" "seed_ids node1 = seed_ids node"
    using seed_changes(3) [OF node, of False] node by (simp_all add: node1_def)
  have len: "length resized = length found" by (simp add: resized_def)
  have old: "resized ! i = (if i < length (nm_last nm) then nm_last nm ! i else [])" if "i < length found" for i
    using that by (simp add: resized_def nth_append)
  have last: "lst ! i = (case found ! i of Some new \<Rightarrow> new | None \<Rightarrow> if i < length (nm_last nm) then nm_last nm ! i else [])"
    if "i < length found" for i
    using keep_last_nth [OF len that] old [OF that] by (simp add: lst_def split: option.split)
  have "nm_local nm = mt_local (n_members node1)" using nm node1(2) by (simp add: names_wf_def same_clock_def)
  from add_current_spec [OF node1(1) this om_wf_Nil, of h "concat lst"]
  obtain current node2 where c: "add_current h nm (concat lst) [] node1 = Some (current, node2)" "node_wf node2" "same_clock node1 node2"
    "om_wf current" "fst ` set current = named_ids h nm (concat lst)"
    "seed_ids node2 = seed_ids node1 \<union> (named_ids h nm (concat lst) - fst ` set (nm_added nm))"
    by auto
  define gone where "gone = filter (\<lambda>seed. \<not> om_has current seed) (om_keys (nm_added nm))"
  define node' where "node' = foldl remove_seed node2 gone"
  note r = remove_seeds [OF c(2), of gone, folded node'_def]
  have gone: "set gone = fst ` set (nm_added nm) - fst ` set current" by (auto simp: gone_def om_has_keys)
  define nm' where "nm' = nm\<lparr>nm_alone := alone, nm_last := lst, nm_added := current\<rparr>"
  have run: "names_update h nm node found = Some (nm', node')"
    using c(1) unfolding names_update_def alone_def [symmetric] Let_def node1_def [symmetric] resized_def [symmetric] lst_def [symmetric]
    by (simp add: gone_def node'_def nm'_def)
  have sub: "fst ` set (nm_added nm) \<subseteq> seed_ids node" using nm by (simp add: names_wf_def)
  have seeds: "seed_ids node' = seed_ids node - fst ` set (nm_added nm) \<union> fst ` set current"
  proof -
    have "seed_ids node' = seed_ids node2 - set gone" using r by (elim conjE)
    also have "\<dots> = seed_ids node \<union> (fst ` set current - fst ` set (nm_added nm)) - (fst ` set (nm_added nm) - fst ` set current)"
      unfolding gone c(6) c(5) [symmetric] node1(3) by (rule refl)
    also have "\<dots> = seed_ids node - fst ` set (nm_added nm) \<union> fst ` set current" by (rule set_steps(4) [OF sub])
    finally show ?thesis .
  qed
  have clock: "same_clock node node'"
    using same_clock_trans [OF same_clock_trans [OF node1(2) c(3)] conjunct1 [OF conjunct2 [OF r]]] .
  then have "names_wf nm' node'"
    using nm seeds c(4) by (auto simp: names_wf_def nm'_def same_clock_def)
  moreover have "length (nm_last nm') = length found" using len by (simp add: nm'_def lst_def keep_last_length)
  moreover have "named_ids h nm = named_ids h nm'" by (rule ext) (simp add: named_ids_def nm'_def)
  then have "fst ` set (nm_added nm') = named_ids h nm (concat (nm_last nm'))" using c(5) by (simp add: nm'_def)
  moreover have "nm_last nm' = lst" "nm_added nm' = current" by (simp_all add: nm'_def)
  ultimately show ?thesis using run r last seeds clock unfolding same_clock_def
    by (intro exI [of _ nm'] exI [of _ node'] conjI) simp_all
qed

text \<open>
  C23. The seeds follow their names. After any lookup, failed for some names or not, the seeds are those not given by name,
  and those the names resolve to now: for each name the addresses of the last lookup that did not fail, but for this node
  and for seeds given by address. Nothing panics, and the node stays valid.
\<close>

theorem seeds_follow_names:
  assumes node: "node_wf node" and nm: "names_wf nm node"
  shows "\<exists>nm' node'. names_update h nm node found = Some (nm', node') \<and> node_wf node' \<and> names_wf nm' node' \<and>
    length (nm_last nm') = length found \<and>
    (\<forall>i < length found. nm_last nm' ! i =
      (case found ! i of Some new \<Rightarrow> new | None \<Rightarrow> if i < length (nm_last nm) then nm_last nm ! i else [])) \<and>
    fst ` set (nm_added nm') = named_ids h nm (concat (nm_last nm')) \<and>
    seed_ids node' = seed_ids node - fst ` set (nm_added nm) \<union> fst ` set (nm_added nm') \<and>
    n_last_now node' = n_last_now node"
  using names_follow [OF node nm] .

theorem seeds_follow_names_witness:
  "\<exists>node nm' node'. node_new example_config swim_default 1 (V4 [10, 0, 0, 1] 7000) 42 = Some node \<and>
    names_update example_hashes (names_new 1) node [None, Some []] = Some (nm', node') \<and> nm_last nm' = [[], []]"
proof -
  obtain node where node: "node_new example_config swim_default 1 (V4 [10, 0, 0, 1] 7000) 42 = Some node" using example_node by blast
  note s = node_new_wf [OF node]
  have "node_wf node" "names_wf (names_new 1) node" using s by (simp_all add: names_wf_def names_new_def)
  from seeds_follow_names [OF this, of example_hashes "[None, Some []]"]
  obtain nm' node' where r: "names_update example_hashes (names_new 1) node [None, Some []] = Some (nm', node')"
    "length (nm_last nm') = length [None, Some ([] :: socket_addr list)]"
    "\<forall>i < length [None, Some ([] :: socket_addr list)]. nm_last nm' ! i = (case [None, Some []] ! i of Some new \<Rightarrow> new
      | None \<Rightarrow> if i < length (nm_last (names_new 1)) then nm_last (names_new 1) ! i else [])"
    by (elim exE conjE) (rule that)
  have "nm_last nm' ! 0 = []" "nm_last nm' ! 1 = []" using r(3) by (simp_all add: names_new_def)
  then have "nm_last nm' = [[], []]" using r(2) by (auto simp: length_Suc_conv)
  then show ?thesis using node r(1) by blast
qed

text \<open>What a round finds does not depend on the order in which the lookups finish.\<close>

lemma resolve_round_nth:
  assumes "i < n" "\<And>a b. Some (i, a) \<in> set finished \<Longrightarrow> Some (i, b) \<in> set finished \<Longrightarrow> a = b"
  shows "resolve_round n finished ! i = (if \<exists>a. Some (i, a) \<in> set finished then (THE a. Some (i, a) \<in> set finished) else None)"
proof -
  have gen: "length all = n \<Longrightarrow> (\<And>a b. Some (i, a) \<in> set xs \<Longrightarrow> Some (i, b) \<in> set xs \<Longrightarrow> a = b) \<Longrightarrow>
      (\<forall>a. Some (i, a) \<in> set xs \<longrightarrow>
        foldl (\<lambda>all fin. case fin of None \<Rightarrow> all | Some (i, addrs) \<Rightarrow> all[i := addrs]) all xs ! i = a) \<and>
      ((\<forall>a. Some (i, a) \<notin> set xs) \<longrightarrow>
        foldl (\<lambda>all fin. case fin of None \<Rightarrow> all | Some (i, addrs) \<Rightarrow> all[i := addrs]) all xs ! i = all ! i)" for all :: found and xs
  proof (induction xs rule: rev_induct)
    case (snoc x xs)
    let ?all = "foldl (\<lambda>all fin. case fin of None \<Rightarrow> all | Some (i, addrs) \<Rightarrow> all[i := addrs]) all xs"
    have len: "length (foldl (\<lambda>all fin. case fin of None \<Rightarrow> all | Some (i, addrs) \<Rightarrow> all[i := addrs]) all ys) = length all" for ys :: "(nat \<times> socket_addr list option) option list"
      by (induction ys rule: rev_induct) (auto split: option.split)
    have IH: "(\<forall>a. Some (i, a) \<in> set xs \<longrightarrow> ?all ! i = a) \<and> ((\<forall>a. Some (i, a) \<notin> set xs) \<longrightarrow> ?all ! i = all ! i)"
      using snoc.IH [OF snoc.prems(1)] snoc.prems(2) by simp
    show ?case
    proof (cases x)
      case None
      then show ?thesis using IH by simp
    next
      case (Some e)
      obtain j addrs where e: "e = (j, addrs)" by force
      show ?thesis
      proof (cases "j = i")
        case True
        then have "i < length ?all" using assms(1) snoc.prems(1) len by simp
        then show ?thesis using snoc.prems(2) Some e True by auto
      next
        case False
        then show ?thesis using IH Some e by simp
      qed
    qed
  qed simp
  show ?thesis
  proof (cases "\<exists>a. Some (i, a) \<in> set finished")
    case True
    then obtain a where a: "Some (i, a) \<in> set finished" by blast
    have "(THE a. Some (i, a) \<in> set finished) = a" using assms(2) a by blast
    then show ?thesis using gen [of "replicate n None" finished] assms(2) a by (auto simp: resolve_round_def)
  next
    case False
    then show ?thesis using gen [of "replicate n None" finished] assms by (auto simp: resolve_round_def)
  qed
qed

end
