(* ===== verification/Runtime_Contract.thy ===== *)
theory Runtime_Contract
  imports Driver_Contract
begin

text \<open>
  The guard and its background task together: any requests, changes and events, in any order, keep every invariant and
  never panic.
\<close>

section \<open>What a change tells was made by the constructors\<close>

lemma set_om_put: "set (om_put k v m) \<subseteq> insert (k, v) (set m)"
  by (induction k v m rule: om_put.induct) auto

lemma ball_om_put: "\<forall>e \<in> set m. P e \<Longrightarrow> P (k, v) \<Longrightarrow> \<forall>e \<in> set (om_put k v m). P e"
  using set_om_put [of k v m] by blast

lemma ball_om_del: "\<forall>e \<in> set m. P e \<Longrightarrow> \<forall>e \<in> set (om_del k m). P e"
  by (simp add: om_del_def)

lemma ball_om_retain: "\<forall>e \<in> set m. P e \<Longrightarrow> \<forall>e \<in> set (om_retain p m). P e"
  by (simp add: om_retain_def)

definition named_made :: "u64 \<times> bytes \<times> user_limit \<times> limit \<Rightarrow> bool" where
  "named_made e = user_limit_wf (fst (snd (snd e)))"

definition shadow_made :: "u64 \<times> user_limit \<times> limit \<Rightarrow> bool" where
  "shadow_made e = user_limit_wf (fst (snd e))"

definition given_made_wf :: "bytes \<times> user_limit \<Rightarrow> bool" where
  "given_made_wf c = user_limit_wf (snd c)"

definition core_made :: "bytes \<times> user_limit \<times> limit \<Rightarrow> bool" where
  "core_made c = user_limit_wf (fst (snd c))"

lemma made_simps: "named_made (hash, name, l, core) = user_limit_wf l" "shadow_made (cls, l, core) = user_limit_wf l"
  "given_made_wf (name, l) = user_limit_wf l" "core_made (name, l, core) = user_limit_wf l"
  by (simp_all add: named_made_def shadow_made_def given_made_wf_def core_made_def)

lemma checked_from_made:
  "checked_from h n named cs = Inr named' \<Longrightarrow> \<forall>e \<in> set named. named_made e \<Longrightarrow> (\<forall>c \<in> set cs. given_made_wf c) \<Longrightarrow>
    \<forall>e \<in> set named'. named_made e"
proof (induction h n named cs rule: checked_from.induct)
  case (2 h n named name l cs)
  obtain core where core: "name \<noteq> []" "to_core l = Inr core" "length (om_put (class_hash h name) (name, l, core) named) \<le> n"
    "checked_from h n (om_put (class_hash h name) (name, l, core) named) cs = Inr named'"
    using "2.prems"(1) by (auto simp: Let_def not_less split: if_splits sum.splits)
  moreover have "\<forall>e \<in> set (om_put (class_hash h name) (name, l, core) named). named_made e"
    using "2.prems"(2,3) by (intro ball_om_put) (simp_all add: made_simps)
  ultimately show ?case using "2.IH" [OF core(1,2) refl] "2.prems"(3) by simp
qed simp

lemma by_name_made:
  "\<forall>c \<in> set cs. core_made c \<Longrightarrow> \<forall>e \<in> set acc. named_made e \<Longrightarrow>
    \<forall>e \<in> set (fold (\<lambda>(name, given, l). om_put (class_hash h name) (name, given, l)) cs acc). named_made e"
proof (induction cs arbitrary: acc)
  case (Cons c cs)
  obtain name l core where c: "c = (name, l, core)" by (rule prod_cases3)
  have "\<forall>e \<in> set (om_put (class_hash h name) (name, l, core) acc). named_made e"
    by (rule ball_om_put [OF Cons.prems(2)]) (use Cons.prems(1) c in \<open>simp add: made_simps\<close>)
  then show ?case using Cons.IH [of "om_put (class_hash h name) (name, l, core) acc"] Cons.prems(1) by (simp add: c)
qed simp

lemma checked_made:
  assumes "checked h cs n = Inr named" "(\<forall>c \<in> set cs. given_made_wf c)"
  shows "\<forall>e \<in> set (by_name h named). named_made e"
proof -
  obtain m where m: "checked_from h n [] cs = Inr m" "named = map snd m"
    using assms(1) by (auto simp: checked_def split: sum.splits)
  have "\<forall>e \<in> set m. named_made e" using checked_from_made [OF m(1) _ assms(2)] by simp
  then have "\<forall>c \<in> set named. core_made c" using m(2) by (auto simp: named_made_def core_made_def)
  then show ?thesis unfolding by_name_def by (rule by_name_made) simp
qed

lemma shadows_to_core_made:
  "shadows_to_core ss = Inr xs \<Longrightarrow> (\<forall>c \<in> set ss. given_made_wf c) \<Longrightarrow> \<forall>c \<in> set xs. core_made c"
proof (induction ss arbitrary: xs rule: shadows_to_core.induct)
  case (2 name l ss)
  obtain core rest where "to_core l = Inr core" "shadows_to_core ss = Inr rest" "xs = (name, l, core) # rest"
    using "2.prems"(1) by (auto split: sum.splits)
  then show ?case using "2.IH" "2.prems"(2) by (simp add: made_simps)
qed simp

lemma shadows_of_classes_made:
  "shadows_of_classes h t all ss = Inr all' \<Longrightarrow> \<forall>e \<in> set all. shadow_made e \<Longrightarrow> \<forall>c \<in> set ss. core_made c \<Longrightarrow>
    \<forall>e \<in> set all'. shadow_made e"
proof (induction h t all ss rule: shadows_of_classes.induct)
  case (2 h t all name l core ss)
  obtain class_of where c: "class_named h t name = Inr class_of" "shadows_of_classes h t (om_put class_of (l, core) all) ss = Inr all'"
    using "2.prems"(1) by (auto split: sum.splits)
  have "\<forall>e \<in> set (om_put class_of (l, core) all). shadow_made e"
    by (rule ball_om_put [OF "2.prems"(2)]) (use "2.prems"(3) in \<open>simp add: made_simps\<close>)
  then show ?case using "2.IH" [OF c] "2.prems"(3) by simp
qed simp

definition class_op_made :: "class_op \<Rightarrow> bool" where
  "class_op_made op = (case op of SetClass name l \<Rightarrow> user_limit_wf l | RemoveClass name \<Rightarrow> True | SetDefault l \<Rightarrow> user_limit_wf l
     | ReplaceClasses cs \<Rightarrow> (\<forall>c \<in> set cs. given_made_wf c) | SetShadow name l \<Rightarrow> (\<forall>given. l = Some given \<longrightarrow> user_limit_wf given)
     | ReplaceShadows ss \<Rightarrow> (\<forall>c \<in> set ss. given_made_wf c))"

definition table_made :: "class_table \<Rightarrow> bool" where
  "table_made t = (user_limit_wf (ct_default_given t) \<and> (\<forall>e \<in> set (ct_named t). named_made e) \<and> (\<forall>e \<in> set (ct_shadows t). shadow_made e))"

lemma classes_made_table: "classes_made cl = table_made (cl_table cl)"
  by (auto simp: classes_made_def table_made_def named_made_def shadow_made_def split_beta)

lemma classes_change_made:
  assumes "classes_made cl" "\<And>t. edit (cl_table cl) = Inr t \<Longrightarrow> table_made t"
  shows "classes_made (snd (classes_change cl edit))"
  using assms by (cases "edit (cl_table cl)") (simp_all add: classes_change_def classes_made_table)

lemma class_step_made:
  assumes made: "classes_made cl" and op: "class_op_made op"
  shows "classes_made (snd (class_step h cl op))"
proof -
  let ?t = "cl_table cl"
  have t: "user_limit_wf (ct_default_given ?t)" "\<forall>e \<in> set (ct_named ?t). named_made e" "\<forall>e \<in> set (ct_shadows ?t). shadow_made e"
    using made by (simp_all add: classes_made_table table_made_def)
  show ?thesis
  proof (cases op)
    case (SetClass name l)
    have l: "user_limit_wf l" using op SetClass by (simp add: class_op_made_def)
    have "\<forall>e \<in> set (om_put (class_hash h name) (name, l, core) (ct_named ?t)). named_made e" for core
      by (rule ball_om_put [OF t(2)]) (simp add: l made_simps)
    then show ?thesis using made t
      by (auto simp: SetClass classes_set_def Let_def table_made_def split: sum.split if_splits intro!: classes_change_made)
  next
    case (RemoveClass name)
    show ?thesis using made t ball_om_del [OF t(2)] ball_om_del [OF t(3)]
      by (auto simp: RemoveClass classes_remove_def Let_def table_made_def split: if_splits intro!: classes_change_made)
  next
    case (SetDefault l)
    have l: "user_limit_wf l" using op SetDefault by (simp add: class_op_made_def)
    then show ?thesis using made t
      by (auto simp: SetDefault classes_set_default_def table_made_def split: sum.split intro!: classes_change_made)
  next
    case (ReplaceClasses cs)
    have cs: "(\<forall>c \<in> set cs. given_made_wf c)" using op ReplaceClasses by (simp add: class_op_made_def)
    show ?thesis
    proof (cases "checked h cs (cl_max cl)")
      case (Inr named)
      show ?thesis using made t checked_made [OF Inr cs] ball_om_retain [OF t(3)]
        by (auto simp: ReplaceClasses classes_replace_def Inr Let_def table_made_def intro!: classes_change_made)
    qed (simp add: ReplaceClasses classes_replace_def made)
  next
    case (SetShadow name l)
    have l: "\<And>given. l = Some given \<Longrightarrow> user_limit_wf given" using op SetShadow by (simp add: class_op_made_def)
    have put: "\<forall>e \<in> set (om_put class_of (given, core) (ct_shadows ?t)). shadow_made e" if "l = Some given" for given core class_of
      by (rule ball_om_put [OF t(3)]) (simp add: l [OF that] made_simps)
    show ?thesis using made t put ball_om_del [OF t(3)]
      by (auto simp: SetShadow classes_set_shadow_def table_made_def split: option.splits sum.splits intro!: classes_change_made)
  next
    case (ReplaceShadows ss)
    have ss: "(\<forall>c \<in> set ss. given_made_wf c)" using op ReplaceShadows by (simp add: class_op_made_def)
    show ?thesis
    proof (cases "shadows_to_core ss")
      case (Inr xs)
      show ?thesis using made t shadows_of_classes_made [OF _ _ shadows_to_core_made [OF Inr ss], of h ?t "[]"]
        by (auto simp: ReplaceShadows classes_replace_shadows_def Inr table_made_def split: sum.splits intro!: classes_change_made)
    qed (simp add: ReplaceShadows classes_replace_shadows_def made)
  qed
qed

definition key_limit_op_made :: "key_limit_op \<Rightarrow> bool" where
  "key_limit_op_made op = (case op of SetKey hash e \<Rightarrow> entry_made e | RemoveKey hash \<Rightarrow> True
     | ReplaceKeys es \<Rightarrow> (\<forall>(hash, e) \<in> set es. entry_made e))"

lemma key_limits_collect_made:
  "key_limits_collect n named es = Inr named' \<Longrightarrow> \<forall>(hash, e) \<in> set named. entry_made e \<Longrightarrow> \<forall>(hash, e) \<in> set es. entry_made e \<Longrightarrow>
    \<forall>(hash, e) \<in> set named'. entry_made e"
proof (induction n named es rule: key_limits_collect.induct)
  case (2 n named hash e es)
  have ok: "check_key_limit (snd (snd e)) = Inr ()" "length (om_put hash e named) \<le> n"
    "key_limits_collect n (om_put hash e named) es = Inr named'"
    using "2.prems"(1) by (auto simp: Let_def not_less split: if_splits sum.splits)
  have "\<forall>(hash, e) \<in> set (om_put hash e named). entry_made e"
    using ball_om_put [OF "2.prems"(2), of hash e] "2.prems"(3) by simp
  then show ?case using "2.IH" [OF ok(1) refl _ ok(3)] "2.prems"(3) ok(2) by simp
qed simp

lemma key_limit_step_made:
  assumes made: "key_limits_made kl" and op: "key_limit_op_made op"
  shows "key_limits_made (snd (key_limit_step kl op))"
proof (cases op)
  case (SetKey hash e)
  have "\<forall>(hash, e) \<in> set (om_put hash e (kl_table kl)). entry_made e"
    using made op SetKey by (intro ball_om_put) (simp_all add: key_limits_made_def key_limit_op_made_def)
  then show ?thesis using made
    by (simp add: SetKey key_limits_set_def key_limits_made_def key_limits_swap_def split: sum.split)
next
  case (RemoveKey hash)
  show ?thesis using made by (auto simp: RemoveKey key_limits_remove_def key_limits_made_def key_limits_swap_def om_del_def)
next
  case (ReplaceKeys es)
  then show ?thesis using made op key_limits_collect_made [of "kl_max kl" "[]" es]
    by (auto simp: key_limits_replace_def key_limits_made_def key_limits_swap_def key_limit_op_made_def split: sum.split)
qed

section \<open>The runtime\<close>

text \<open>
  A guard and its background task: requests and changes of the limits come between the events the task handles. A change
  of classes is one of \<open>set_class\<close>, \<open>remove_class\<close>, \<open>set_limit\<close>, \<open>set_classes\<close>, \<open>set_shadow\<close> and \<open>set_shadows\<close> of the guard,
  a change of the limits of keys one of \<open>set_key_limit\<close>, \<open>remove_key_limit\<close> and \<open>set_key_limits\<close>.
\<close>

datatype runtime_call =
    Request bytes bytes nanos
  | ChangeClasses class_op
  | ChangeKeyLimits key_limit_op
  | SetDryRun bool
  | SetSecrets gossip_auth "secret list"
  | Handled driver_event nanos

fun runtime_step :: "(secret \<Rightarrow> bytes \<Rightarrow> bytes) \<Rightarrow> hashes \<Rightarrow> env \<Rightarrow> driver \<Rightarrow> runtime_call \<Rightarrow> driver option" where
  "runtime_step hmac h env dv (Request cls key now) =
     map_option (\<lambda>(d, sh). dv\<lparr>dv_shared := sh\<rparr>) (guard_check_in h (dv_shared dv) cls key now)"
| "runtime_step hmac h env dv (ChangeClasses op) =
     Some (dv\<lparr>dv_shared := snd (on_classes (dv_shared dv) (class_step h (sh_classes (dv_shared dv)) op))\<rparr>)"
| "runtime_step hmac h env dv (ChangeKeyLimits op) =
     Some (dv\<lparr>dv_shared := snd (on_key_limits (dv_shared dv) (key_limit_step (sh_key_limits (dv_shared dv)) op))\<rparr>)"
| "runtime_step hmac h env dv (SetDryRun on) = Some (dv\<lparr>dv_shared := guard_set_dry_run (dv_shared dv) on\<rparr>)"
| "runtime_step hmac h env dv (SetSecrets mode secrets) =
     Some (dv\<lparr>dv_shared := snd (guard_set_gossip_auth (dv_shared dv) mode secrets)\<rparr>)"
| "runtime_step hmac h env dv (Handled ev now) = map_option snd (driver_step hmac h env dv ev now)"

fun runtime_run :: "(secret \<Rightarrow> bytes \<Rightarrow> bytes) \<Rightarrow> hashes \<Rightarrow> env \<Rightarrow> driver \<Rightarrow> runtime_call list \<Rightarrow> driver option" where
  "runtime_run hmac h env dv [] = Some dv"
| "runtime_run hmac h env dv (c # cs) = do { dv1 \<leftarrow> runtime_step hmac h env dv c; runtime_run hmac h env dv1 cs }"

text \<open>The clock of the task does not run backwards, and limits are made by their constructors.\<close>

fun calls_ok :: "nanos \<Rightarrow> runtime_call list \<Rightarrow> bool" where
  "calls_ok latest [] = True"
| "calls_ok latest (c # cs) = (case c of
     Handled ev now \<Rightarrow> latest \<le> now \<and> calls_ok now cs
   | ChangeClasses op \<Rightarrow> class_op_made op \<and> calls_ok latest cs
   | ChangeKeyLimits op \<Rightarrow> key_limit_op_made op \<and> calls_ok latest cs
   | _ \<Rightarrow> calls_ok latest cs)"

definition runtime_wf :: "hashes \<Rightarrow> driver \<Rightarrow> bool" where
  "runtime_wf h dv = (node_wf (dv_node dv) \<and> shared_wf h (dv_shared dv) \<and> names_wf (dv_names dv) (dv_node dv))"

lemma screen_total:
  assumes "env_ok env"
  shows "screen h env bytes \<noteq> None"
proof (cases "decode (e_take_from_bytes env) bytes")
  case (Inl e)
  then show ?thesis by (simp add: screen_def)
next
  case (Inr m)
  show ?thesis
  proof (cases "updates_of m")
    case Nil
    then show ?thesis using Inr by (simp add: screen_def)
  next
    case (Cons u us)
    let ?m = "with_updates m (filter (own_id h) (u # us))"
    have "check_limits ?m = Inr ()"
      using decode_limits [OF Inr] by (rule check_limits_fewer) (simp add: Cons length_filter_le le_SucI)
    then obtain b where b: "e_to_allocvec env ?m = Some b" "length b \<le> MAX_DATAGRAM" "check_limits ?m = Inr ()"
      using assms by (auto simp: env_ok_def messages_fit_def)
    then have "encode (e_to_allocvec env) ?m = Some (Inr b)" by (simp add: encode_def)
    then show ?thesis using Inr Cons by (auto simp: screen_def Let_def)
  qed
qed

text \<open>What the branches of the loop keep of the node.\<close>

lemma same_seeds: "names_wf nm node \<Longrightarrow> mt_local (n_members node') = mt_local (n_members node) \<Longrightarrow> n_seeds node' = n_seeds node \<Longrightarrow>
    names_wf nm node'"
  by (simp add: names_wf_def)

lemma driver_receive_ok:
  assumes env: "env_ok env" and node: "node_wf node" "n_last_now node \<le> now" and nm: "names_wf nm node"
  shows "\<exists>actions node' rj'. driver_receive hmac h env node a datagram now rj = Some (actions, node', rj') \<and> node_wf node' \<and>
    n_last_now node' \<le> now \<and> names_wf nm node'"
proof (cases "open_frame hmac a datagram")
  case (Inl reason)
  then show ?thesis using node nm by (cases reason) (simp_all add: driver_receive_def)
next
  case (Inr message)
  obtain result where s: "screen h env message = Some result" using screen_total [OF env, of h message] by blast
  show ?thesis
  proof (cases result)
    case None
    then show ?thesis using Inr s node nm by (simp add: driver_receive_def)
  next
    case (Some sc)
    note k = handle_keeps [OF node(1) env, of "MessageReceived (sc_from sc) (sc_bytes sc)" now]
    obtain node' where node': "handle env node (MessageReceived (sc_from sc) (sc_bytes sc)) now = Some node'"
      using k(1) node(2) by (cases "handle env node (MessageReceived (sc_from sc) (sc_bytes sc)) now") auto
    have "node_wf node'" "n_last_now node' \<le> now" "names_wf nm node'"
      using k(2) [OF node'] nm by (simp_all add: same_node_def names_wf_def)
    then show ?thesis using Inr s Some node' by (simp add: driver_receive_def)
  qed
qed

lemma names_update_ok:
  assumes "node_wf node" "names_wf nm node"
  obtains nm' node' where "names_update h nm node found = Some (nm', node')" "node_wf node'" "names_wf nm' node'"
    "n_last_now node' = n_last_now node"
  using names_follow [OF assms, of h found] by (elim exE conjE) (rule that)

lemma driver_event_ok:
  assumes env: "env_ok env" and wf: "runtime_wf h dv" and now: "n_last_now (dv_node dv) \<le> now"
  shows "\<exists>actions dv'. driver_event_step hmac h env dv ev now = Some (actions, dv') \<and> runtime_wf h dv' \<and>
    n_last_now (dv_node dv') \<le> now"
proof -
  have parts: "node_wf (dv_node dv)" "shared_wf h (dv_shared dv)" "names_wf (dv_names dv) (dv_node dv)"
    using wf by (simp_all add: runtime_wf_def)
  show ?thesis
  proof (cases ev)
    case (Datagram bytes)
    obtain actions node' rj' where "driver_receive hmac h env (dv_node dv) (sh_auth (dv_shared dv)) bytes now (dv_rejected dv) =
        Some (actions, node', rj')" "node_wf node'" "n_last_now node' \<le> now" "names_wf (dv_names dv) node'"
      using driver_receive_ok [OF env parts(1) now parts(3)] by blast
    then show ?thesis using parts(2) by (simp add: Datagram runtime_wf_def)
  next
    case ReceiveFailed
    then show ?thesis using wf now by simp
  next
    case TickDue
    obtain node' sh' where s: "driver_sync h env (dv_node dv) (dv_shared dv) (dv_rejected dv) now = Some (n_actions node', node', sh')"
      "node_wf node'" "shared_wf h sh'" "n_last_now node' = now" "mt_local (n_members node') = mt_local (n_members (dv_node dv))"
      "n_seeds node' = n_seeds (dv_node dv)"
      by (rule sync_spec [OF env parts(1) now parts(2), of "dv_rejected dv"])
    have "names_wf (dv_names dv) node'" using parts(3) s(5,6) by (rule same_seeds)
    then show ?thesis using s(1-4) by (simp add: TickDue runtime_wf_def)
  next
    case (LookedUp found)
    obtain nm' node' where "names_update h (dv_names dv) (dv_node dv) found = Some (nm', node')" "node_wf node'" "names_wf nm' node'"
      "n_last_now node' = n_last_now (dv_node dv)"
      by (rule names_update_ok [OF parts(1,3)])
    then show ?thesis using parts(2) now by (simp add: LookedUp runtime_wf_def)
  next
    case (Asked hash)
    then show ?thesis using wf now by simp
  qed
qed

lemma check_hashed_ok:
  assumes wf: "shared_wf h sh" and key: "key \<noteq> EMPTY" "key \<noteq> BUSY"
  shows "\<exists>ans sh'. check_hashed h sh cls key now = Some (ans, sh') \<and> shared_wf h sh'"
proof -
  have t: "table_ok h (sh_table sh)" using wf by (simp add: shared_wf_def)
  show ?thesis
  proof (cases rule: claim_places [OF t key, case_names Found Full Taken])
    case (Found i)
    have "slot_there (sh_table sh) (InTable i)" using Found(2) by (simp add: slot_there_def)
    then show ?thesis by (rule check_claimed [OF wf Found(4) t, of cls now key]) blast+
  next
    case Full
    have "slot_there (sh_table sh) Overflow" by (simp add: slot_there_def)
    then show ?thesis by (rule check_claimed [OF wf Full(3) t, of cls now key]) blast+
  next
    case (Taken i)
    let ?t' = "put_slot (sh_table sh) i ((kt_slots (sh_table sh) ! i)\<lparr>sl_key := key\<rparr>)"
    have "slot_there ?t' (InTable i)" "sl_key (slot_at ?t' (InTable i)) = key"
      using Taken(4) by (simp_all add: slot_there_def slot_at_def put_slot_def)
    then show ?thesis by (rule check_claimed [OF wf Taken(5,6), of cls now key]) blast+
  qed
qed

lemma request_ok:
  assumes "shared_wf h sh"
  shows "\<exists>d sh'. guard_check_in h sh cls key now = Some (d, sh') \<and> shared_wf h sh'"
proof -
  let ?c = "class_hash h cls"
  let ?key = "guard_hash h sh ?c key"
  have key: "?key \<noteq> EMPTY" "?key \<noteq> BUSY"
    using salted_hash_free [of h "sh_salt sh" ?c key] by (simp_all add: guard_hash_def EMPTY_def BUSY_def)
  have "\<exists>ans sh'. check_hashed h sh ?c ?key now = Some (ans, sh') \<and> shared_wf h sh'"
    by (rule check_hashed_ok [OF assms key])
  then show ?thesis by (auto simp: guard_check_in_def guard_check_in_traced_def Let_def)
qed

lemma runtime_step_ok:
  assumes env: "env_ok env" and wf: "runtime_wf h dv" and latest: "n_last_now (dv_node dv) \<le> latest" and ok: "calls_ok latest (c # cs)"
  shows "\<exists>dv' later. runtime_step hmac h env dv c = Some dv' \<and> runtime_wf h dv' \<and> n_last_now (dv_node dv') \<le> later \<and> calls_ok later cs"
proof -
  let ?sh = "dv_shared dv"
  have sh: "shared_wf h ?sh" using wf by (simp add: runtime_wf_def)
  have lim: "classes_wf h (sh_classes ?sh)" "classes_made (sh_classes ?sh)" "key_limits_wf (sh_key_limits ?sh)"
    "key_limits_made (sh_key_limits ?sh)"
    using sh by (simp_all add: shared_wf_def limits_wf_def)
  show ?thesis
  proof (cases c)
    case (Request cls key now)
    then show ?thesis using request_ok [OF sh, of cls key now] wf latest ok by (auto simp: runtime_wf_def)
  next
    case (ChangeClasses op)
    have "classes_wf h (snd (class_step h (sh_classes ?sh) op))"
      using class_step_wf [OF lim(1)] by (cases "class_step h (sh_classes ?sh) op") auto
    moreover have "classes_made (snd (class_step h (sh_classes ?sh) op))"
      using class_step_made [OF lim(2)] ok ChangeClasses by simp
    ultimately show ?thesis using ChangeClasses wf latest ok
      by (auto simp: runtime_wf_def shared_wf_def limits_wf_def on_classes_def)
  next
    case (ChangeKeyLimits op)
    have "key_limits_wf (snd (key_limit_step (sh_key_limits ?sh) op))"
      using key_limit_step_wf [OF lim(3)] by (cases "key_limit_step (sh_key_limits ?sh) op") auto
    moreover have "key_limits_made (snd (key_limit_step (sh_key_limits ?sh) op))"
      using key_limit_step_made [OF lim(4)] ok ChangeKeyLimits by simp
    ultimately show ?thesis using ChangeKeyLimits wf latest ok
      by (auto simp: runtime_wf_def shared_wf_def limits_wf_def on_key_limits_def)
  next
    case (SetDryRun on)
    then show ?thesis using wf latest ok by (auto simp: runtime_wf_def shared_wf_def guard_set_dry_run_def)
  next
    case (SetSecrets mode secrets)
    then show ?thesis using wf latest ok
      by (auto simp: runtime_wf_def shared_wf_def guard_set_gossip_auth_def split: sum.splits)
  next
    case (Handled ev now)
    have "n_last_now (dv_node dv) \<le> now" "calls_ok now cs" using latest ok Handled by auto
    moreover from driver_event_ok [OF env wf this(1), of hmac ev]
    obtain actions dv' where "driver_event_step hmac h env dv ev now = Some (actions, dv')" "runtime_wf h dv'"
      "n_last_now (dv_node dv') \<le> now"
      by blast
    ultimately show ?thesis using Handled by (auto simp: driver_step_def runtime_wf_def Let_def)
  qed
qed

text \<open>
  The guard and its background task together. Whatever requests come, from whatever clocks, whatever limits, keys,
  secrets and modes are set between them, and whatever datagrams, ticks and lookups the task handles on a clock that does
  not run backwards, nothing panics, and node, slots, classes, limits of keys and seeds keep their invariants: no key
  has two slots, every slot is on a valid quota, and every limit is a valid one.
\<close>

lemma runtime_run_ok:
  assumes "env_ok env" "runtime_wf h dv" "n_last_now (dv_node dv) \<le> start" "calls_ok start calls"
  shows "\<exists>dv'. runtime_run hmac h env dv calls = Some dv' \<and> runtime_wf h dv'"
  using assms(2-)
proof (induction calls arbitrary: dv start)
  case (Cons c cs)
  obtain dv1 later where "runtime_step hmac h env dv c = Some dv1" "runtime_wf h dv1" "n_last_now (dv_node dv1) \<le> later" "calls_ok later cs"
    using runtime_step_ok [OF assms(1) Cons.prems, of hmac] by blast
  then show ?case using Cons.IH by simp
qed simp

end
