(* ===== verification/Builder_Contract.thy ===== *)
theory Builder_Contract
  imports Builder Runtime_Contract
begin

text \<open>
  What a builder promises (\<open>rateguard/src/config.rs\<close>): when its settings are accepted, that they are well formed, and that
  a guard that is started never panics.
\<close>

section \<open>The error monad\<close>

text \<open>What a chain of checks comes to, read off one check at a time.\<close>

named_theorems accepted_iff "when a check or a chain of checks accepts"

lemma and_then_Inr [accepted_iff]: "and_then r f = Inr y \<longleftrightarrow> (\<exists>x. r = Inr x \<and> f x = Inr y)"
  by (simp add: and_then_def split: sum.split)

lemma refuse_if_Inr [accepted_iff]: "refuse_if c err = Inr u \<longleftrightarrow> \<not> c"
  by (simp add: refuse_if_def)

lemma ok_or_Inr [accepted_iff]: "ok_or x err = Inr y \<longleftrightarrow> x = Some y"
  by (simp add: ok_or_def split: option.split)

lemma let_Inr [accepted_iff]: "(let x = v in f x) = Inr y \<longleftrightarrow> f v = Inr y"
  by simp

lemma relabelled_Inr [accepted_iff]: "(case r of Inl e \<Rightarrow> Inl (g e) | Inr a \<Rightarrow> Inr a) = Inr x \<longleftrightarrow> r = Inr x"
  by (simp split: sum.split)

section \<open>Addresses\<close>

lemma sort_seeds_wf: "sort_seeds texts = Inr (seeds, names) \<Longrightarrow> \<forall>a \<in> set seeds. socket_wf a"
proof (induction texts arbitrary: seeds names)
  case (Cons t ts)
  obtain s seeds' names' where s: "read_seed t = Some s" "sort_seeds ts = Inr (seeds', names')"
    "(seeds, names) = (case s of SeedAddress address \<Rightarrow> (address # seeds', names') | SeedName host port \<Rightarrow> (seeds', (host, port) # names'))"
    using Cons.prems by (auto split: option.splits sum.splits)
  have "socket_wf a" if "s = SeedAddress a" for a
    using s(1) that parse_socket_wf by (auto simp: read_seed_def Let_def split: option.splits bind_splits if_splits)
  then show ?case using Cons.IH [OF s(2)] s(3) by (auto split: seed_text.splits)
qed simp

lemma settled_addresses_iff:
  "settled_addresses b = Inr (bound, advertise) \<longleftrightarrow>
    (\<exists>text. bu_bind b = Some text \<and> parse_socket text = Some bound) \<and>
    (case bu_advertise b of Some text \<Rightarrow> parse_socket text = Some advertise | None \<Rightarrow> advertise = bound) \<and>
    \<not> socket_unspecified advertise \<and>
    (bu_advertise b = None \<or> socket_port advertise \<noteq> 0 \<and> socket_port bound \<noteq> 0)"
  by (auto simp: settled_addresses_def address_in_def accepted_iff split: option.splits)

section \<open>What a builder is told\<close>

definition hot_keys_of :: "builder \<Rightarrow> nat" where "hot_keys_of b = unwrap_or (bu_hot_keys b) MAX_DEMAND_KEYS"
definition tracked_keys_of :: "builder \<Rightarrow> nat" where "tracked_keys_of b = unwrap_or (bu_tracked_keys b) 4096"
definition max_classes_of :: "builder \<Rightarrow> nat" where "max_classes_of b = unwrap_or (bu_max_classes b) 64"
definition max_key_limits_of :: "builder \<Rightarrow> nat" where "max_key_limits_of b = unwrap_or (bu_max_key_limits b) 4096"
definition most_denied_of :: "builder \<Rightarrow> nat" where "most_denied_of b = unwrap_or (bu_most_denied b) 10"
definition max_members_of :: "builder \<Rightarrow> nat" where "max_members_of b = unwrap_or (bu_max_members b) DEFAULT_MAX_MEMBERS"
definition period_of :: "builder \<Rightarrow> nanos" where "period_of b = nanos_of (unwrap_or (bu_period b) (200 * 1000000))"

definition given_limit :: "builder \<Rightarrow> user_limit option" where
  "given_limit b = map_option (\<lambda>given. case bu_burst b of Some burst \<Rightarrow> with_burst given burst | None \<Rightarrow> given) (bu_limit b)"

definition salt_of :: "builder \<Rightarrow> guard_error + bytes option" where
  "salt_of b = (case bu_salt b of None \<Rightarrow> Inr None | Some (Inl n) \<Rightarrow> Inl (ShortSalt n) | Some (Inr salt) \<Rightarrow> Inr (Some salt))"

text \<open>When its settings are accepted, and what they are.\<close>

lemma settings_iff:
  "builder_settings h b = Inr st \<longleftrightarrow>
    settled_addresses b = Inr (se_bind st, se_advertise st) \<and> sort_seeds (bu_seeds b) = Inr (se_seeds st, se_names st) \<and>
    given_limit b = Some (se_default_limit st) \<and> to_core (se_default_limit st) = Inr (c_limit (se_core st)) \<and>
    0 < hot_keys_of b \<and> hot_keys_of b \<le> MAX_DEMAND_KEYS \<and> hot_keys_of b \<le> tracked_keys_of b \<and>
    tracked_keys_of b \<le> MAX_TRACKED_KEYS \<and> max_classes_of b \<le> MAX_CLASSES \<and>
    checked h (bu_classes b) (max_classes_of b) = Inr (se_classes st) \<and> max_key_limits_of b \<le> MAX_KEY_LIMITS \<and>
    most_denied_of b \<le> MAX_MOST_DENIED \<and> 1 \<le> max_members_of b \<and> max_members_of b \<le> MAX_MAX_MEMBERS \<and>
    period_of b div 4 \<noteq> 0 \<and> auth_new (bu_gossip_auth b) (bu_secrets b) = Inr (se_auth st) \<and>
    salt_of b = Inr (se_salt st) \<and>
    se_core st = core_of (c_limit (se_core st)) (hot_keys_of b) (tracked_keys_of b) \<and> se_swim st = swim_of (period_of b) \<and>
    se_policy st = policy_to_core (unwrap_or (bu_policy b) default_user_policy) \<and>
    se_quorum_memory st = (case bu_quorum_memory b of None \<Rightarrow> DEFAULT_QUORUM_MEMORY | Some d \<Rightarrow> nanos_of d) \<and>
    se_dry_run st = bu_dry_run b \<and> se_max_classes st = max_classes_of b \<and> se_max_key_limits st = max_key_limits_of b \<and>
    se_most_denied st = most_denied_of b \<and> se_max_members st = max_members_of b"
proof -
  have given: "and_then (ok_or (bu_limit b) MissingLimit) (\<lambda>given.
      let given = (case bu_burst b of Some burst \<Rightarrow> with_burst given burst | None \<Rightarrow> given) in f given) =
    and_then (ok_or (given_limit b) MissingLimit) f" for f :: "user_limit \<Rightarrow> guard_error + settings"
    by (simp add: and_then_def ok_or_def given_limit_def split: option.split)
  show ?thesis
    unfolding builder_settings_def given salt_of_def [symmetric] hot_keys_of_def [symmetric] tracked_keys_of_def [symmetric] max_classes_of_def [symmetric]
      max_key_limits_of_def [symmetric] most_denied_of_def [symmetric] max_members_of_def [symmetric] period_of_def [symmetric]
    by (cases st) (auto simp: accepted_iff not_less core_of_def)
qed

section \<open>What the core is told is valid\<close>

lemma constants_between: "0 < ALPHA" "ALPHA \<le> 1" "0 \<le> BETA" "BETA \<le> 1"
proof -
  have small: "\<bar>1 / 2 :: rat\<bar> \<le> 2 ^ 1023" "\<bar>1 / 20 :: rat\<bar> \<le> 2 ^ 1023"
    using one_le_power [of "2 :: rat" 1023] by simp_all
  have half: "rnd 53 (-1074) (1 / 2) = 1 / 2" using rnd_pow2 [of 53 "-1074" "-1"] by (simp add: power_int_def)
  have "0 \<le> rnd 53 (-1074) (1 / 20)" by (rule rnd_nonneg) simp
  moreover have "rnd 53 (-1074) (1 / 20) \<le> rnd 53 (-1074) 1" by (rule rnd_mono) simp_all
  moreover have "rnd 53 (-1074) 1 = 1" using rnd_of_int [of 1] by simp
  ultimately have "0 < R (1 / 20) \<or> R (1 / 20) = 0" "R (1 / 20) < 1 \<or> R (1 / 20) = 1" by linarith+
  then show "0 < ALPHA" "ALPHA \<le> 1" "0 \<le> BETA" "BETA \<le> 1"
    by (simp_all add: ALPHA_def BETA_def f64_of_rat_Fin [OF small(1)] f64_of_rat_Fin [OF small(2)] half f64_ops)
qed

lemma core_valid:
  assumes "limit_ok l" "0 < hot" "hot \<le> MAX_DEMAND_KEYS" "hot \<le> tracked_max"
  shows "config_validate (core_of l hot tracked_max) = Some ()"
  using assms constants_between
  by (auto simp: config_validate_def core_of_def limit_ok_def limit_validate_def MAX_DEMAND_KEYS_def MAX_HOT_KEYS_def)

lemma swim_valid:
  assumes "period div 4 \<noteq> 0"
  shows "swim_validate (swim_of period) = Some ()"
proof -
  have "unat (period div 4) \<noteq> 0" using assms by (simp add: unat_eq_0)
  then have four: "4 \<le> unat period" by (simp add: unat_div)
  have half: "unat (period div 2) = unat period div 2" by (simp add: unat_div)
  have "0 < period" "0 < period div 2" "period div 2 < period"
    using four half by (simp_all add: word_less_nat_alt)
  moreover have "max (sw_suspicion_timeout swim_default) period \<le> max (sw_tombstone_ttl swim_default) period"
    by (rule max.mono) (simp_all add: swim_default_def ONE_MS_def)
  ultimately show ?thesis by (simp add: swim_validate_def swim_of_def)
qed

section \<open>The start\<close>

lemma node_new_ok:
  assumes "config_validate c = Some ()" "swim_validate sw = Some ()"
  shows "\<exists>s. node_new c sw local addr seed = Some s"
proof -
  have "\<exists>lm. limiter_new c = Some lm"
    using assms(1) by (auto simp: limiter_new_def hot_new_def config_validate_def split: bind_splits)
  moreover have "\<exists>mt. set_max (table_new local addr) DEFAULT_MAX_MEMBERS = Some mt"
    by (simp add: set_max_def DEFAULT_MAX_MEMBERS_def)
  ultimately show ?thesis using assms(2) by (auto simp: node_new_def Let_def split: prod.split)
qed

text \<open>What setting a node up keeps.\<close>

definition fresh_node :: "peer_id \<Rightarrow> node \<Rightarrow> bool" where
  "fresh_node local s = (node_wf s \<and> mt_local (n_members s) = local \<and> n_last_now s = 0 \<and> \<not> n_left s)"

lemma refresh_cap_simps [simp]:
  "n_last_now (refresh_cap s now) = n_last_now s" "n_left (refresh_cap s now) = n_left s" "n_members (refresh_cap s now) = n_members s"
  "n_seeds (refresh_cap s now) = n_seeds s"
  by (simp_all add: refresh_cap_def Let_def)

lemma fresh_setup:
  assumes "fresh_node local s"
  shows "fresh_node local (set_partition_policy s policy)" "fresh_node local (set_quorum_memory s memory)"
    "fresh_node local (expect_peers s b)" "1 \<le> n \<Longrightarrow> \<exists>s'. set_max_members s n = Some s' \<and> fresh_node local s'"
    "seed \<noteq> local \<Longrightarrow> \<exists>s'. add_seed s seed addr = Some s' \<and> fresh_node local s'"
proof -
  have s: "node_wf s" "mt_local (n_members s) = local" "n_last_now s = 0" "\<not> n_left s" using assms by (simp_all add: fresh_node_def)
  note keep = setup_wf [OF s(1)]
  show "fresh_node local (set_partition_policy s policy)"
    using keep(5) [of policy] s by (simp add: fresh_node_def set_partition_policy_def Let_def)
  show "fresh_node local (set_quorum_memory s memory)"
    using keep(6) [of memory] s by (simp add: fresh_node_def set_quorum_memory_def)
  show "fresh_node local (expect_peers s b)"
    using keep(4) [of b] s by (simp add: fresh_node_def expect_peers_def Let_def)
  show "\<exists>s'. set_max_members s n = Some s' \<and> fresh_node local s'" if "1 \<le> n"
  proof -
    let ?s' = "s\<lparr>n_members := (n_members s)\<lparr>mt_max := n\<rparr>\<rparr>"
    have run: "set_max_members s n = Some ?s'" using that by (simp add: set_max_members_def set_max_def)
    then show ?thesis using keep(7) [OF run] s by (simp add: fresh_node_def same_identity_def)
  qed
  show "\<exists>s'. add_seed s seed addr = Some s' \<and> fresh_node local s'" if away: "seed \<noteq> local"
  proof -
    obtain s' where run: "add_seed s seed addr = Some s'" using away s(2) by (simp add: add_seed_def Let_def)
    then have "n_left s' = n_left s \<and> n_last_now s' = n_last_now s \<and> n_members s' = n_members s"
      by (auto simp: add_seed_def Let_def split: if_splits)
    then show ?thesis using run keep(2) [OF run] s by (simp add: fresh_node_def)
  qed
qed

lemma start_seeds_ok:
  "fresh_node local s \<Longrightarrow> nm_local nm = local \<Longrightarrow> nm_added nm = [] \<Longrightarrow>
    \<exists>s' nm'. start_seeds h local (s, nm) seeds = Some (s', nm') \<and> fresh_node local s' \<and> nm_local nm' = local \<and> nm_added nm' = []"
proof (induction seeds arbitrary: s nm)
  case (Cons seed seeds)
  let ?ident = "peer_id_of h (address_of_socket seed)"
  show ?case
  proof (cases "?ident = local")
    case True
    then show ?thesis using Cons by (simp add: Let_def)
  next
    case False
    obtain s' where "add_seed s ?ident (address_of_socket seed) = Some s'" "fresh_node local s'"
      using fresh_setup(5) [OF Cons.prems(1) False] by blast
    then show ?thesis using Cons.IH [of s' "names_keep nm ?ident"] Cons.prems False by (simp add: Let_def names_keep_def)
  qed
qed simp

lemma start_ok:
  assumes core: "config_validate (se_core st) = Some ()" "swim_validate (se_swim st) = Some ()" "1 \<le> se_max_members st"
    and l: "to_core (se_default_limit st) = Inr (c_limit (se_core st))" "user_limit_wf (se_default_limit st)"
    and cs: "checked h given (se_max_classes st) = Inr (se_classes st)" "\<forall>c \<in> set given. given_made_wf c"
  shows "\<exists>dv. start h st entropy table_seed = Some dv \<and> runtime_wf h dv \<and> fresh_node (peer_id_of h (address_of_socket (se_advertise st))) (dv_node dv) \<and>
    sh_running (dv_shared dv)"
proof -
  let ?me = "address_of_socket (se_advertise st)"
  let ?local = "peer_id_of h ?me"
  obtain node0 where n0: "node_new (se_core st) (se_swim st) ?local ?me (?local XOR entropy) = Some node0"
    using node_new_ok [OF core(1,2)] by blast
  have "fresh_node ?local node0" using node_new_wf [OF n0] by (simp add: fresh_node_def)
  then have "fresh_node ?local (set_quorum_memory (set_partition_policy node0 (se_policy st)) (se_quorum_memory st))"
    by (intro fresh_setup)
  from fresh_setup(4) [OF this core(3)] obtain node2 where
    n2: "set_max_members (set_quorum_memory (set_partition_policy node0 (se_policy st)) (se_quorum_memory st)) (se_max_members st) = Some node2"
      "fresh_node ?local node2"
    by blast
  obtain node3 nm where n3: "start_seeds h ?local (node2, names_new ?local) (se_seeds st) = Some (node3, nm)" "fresh_node ?local node3"
    "nm_local nm = ?local" "nm_added nm = []"
    using start_seeds_ok [OF n2(2), of "names_new ?local" h "se_seeds st"] by (auto simp: names_new_def)
  define node where "node = (if se_names st \<noteq> [] then expect_peers node3 True else node3)"
  have node: "fresh_node ?local node" using n3(2) fresh_setup(3) [OF n3(2)] by (simp add: node_def)
  define cl where "cl = classes_new h (se_default_limit st) (c_limit (se_core st)) (se_classes st) (se_max_classes st)"
  have "classes_wf h cl" unfolding cl_def by (rule classes_new_wf [OF l(1) cs(1)])
  moreover have "classes_made cl"
    using checked_made [OF cs] l(2) by (simp add: cl_def classes_made_table table_made_def classes_new_def)
  moreover have "key_limits_wf (key_limits_new (se_max_key_limits st))" "key_limits_made (key_limits_new (se_max_key_limits st))"
    by (simp_all add: key_limits_new_def key_limits_wf_def key_limits_made_def)
  ultimately have lim: "limits_wf h cl (key_limits_new (se_max_key_limits st))" by (simp add: limits_wf_def)
  obtain q where q: "new_key_quota_in node (strictest (cl_table cl)) = Some q" "quota_wf q"
    using new_key_quota_ok [OF strictest_burst [OF lim]] by blast
  obtain w where w: "pack q = Some w" "packed_ok w" using packed_pack [OF q(2)] by blast
  have "\<exists>t. key_table_new (c_max_tracked_keys (se_core st)) q table_seed = Some t"
    using w(1) by (simp add: key_table_new_def slot_new_def atomic_new_def Let_def)
  then obtain t where t: "key_table_new (c_max_tracked_keys (se_core st)) q table_seed = Some t" by blast
  define dv where "dv = \<lparr>dv_node = node, dv_names = nm,
    dv_shared = \<lparr>sh_table = t, sh_cluster_size = node_cluster_size node, sh_running = True,
      sh_most_denied = se_most_denied st, sh_dry_run = se_dry_run st, sh_report = report_default, sh_classes = cl,
      sh_key_limits = key_limits_new (se_max_key_limits st), sh_fresh_factor = node_new_key_factor node,
      sh_free_quota = w, sh_auth = se_auth st, sh_salt = se_salt st\<rparr>,
    dv_rejected = rejected_none, dv_auth = se_auth st\<rparr>"
  have "start h st entropy table_seed = Some dv"
    using n0 n2(1) n3(1) q(1) t w(1) by (simp add: start_def Let_def node_def [symmetric] cl_def [symmetric] dv_def)
  moreover have "runtime_wf h dv"
    using node n3(3,4) key_table_new_ok [OF q(2) t] lim w(2)
    by (simp add: runtime_wf_def dv_def shared_wf_def names_wf_def fresh_node_def)
  ultimately show ?thesis using node by (simp add: dv_def)
qed

section \<open>What a builder should accept\<close>

text \<open>An address a peer could reach: not the unspecified one.\<close>

fun ip_of :: "socket_addr \<Rightarrow> bytes" where
  "ip_of (SocketV4 ip port) = ip"
| "ip_of (SocketV6 ip port flowinfo scope) = ip"

definition reachable :: "socket_addr \<Rightarrow> bool" where
  "reachable a = (\<exists>byte \<in> set (ip_of a). byte \<noteq> 0)"

definition addresses_fine :: "builder \<Rightarrow> bool" where
  "addresses_fine b = (\<exists>text bound. bu_bind b = Some text \<and> parse_socket text = Some bound \<and>
     (case bu_advertise b of
        None \<Rightarrow> reachable bound
      | Some text' \<Rightarrow> (\<exists>advertise. parse_socket text' = Some advertise \<and> reachable advertise \<and>
          socket_port advertise \<noteq> 0 \<and> socket_port bound \<noteq> 0)))"

text \<open>
  A name: labels of letters, digits, \<open>-\<close> and \<open>_\<close> with dots between them and perhaps one after them, of which the last is
  not a number.
\<close>

definition label_bytes :: "u8 set" where
  "label_bytes = {48..57} \<union> {65..90} \<union> {97..122} \<union> {45, 95}"

definition joined :: "bytes list \<Rightarrow> bytes" where
  "joined labels = concat (map (\<lambda>l. l @ [46]) (butlast labels)) @ last labels"

definition host_name :: "bytes \<Rightarrow> bool" where
  "host_name host = (\<exists>labels. labels \<noteq> [] \<and> (host = joined labels \<or> host = joined labels @ [46]) \<and>
     (\<forall>l \<in> set labels. l \<noteq> [] \<and> set l \<subseteq> label_bytes) \<and> \<not> set (last labels) \<subseteq> {48..57})"

text \<open>A seed: an address, or a name, a colon and a port.\<close>

definition seed_fine :: "bytes \<Rightarrow> bool" where
  "seed_fine text = (parse_socket text \<noteq> None \<or>
     (\<exists>host port. text = host @ [58] @ port \<and> host_name host \<and> parse_u16 port \<noteq> None))"

definition limit_fine :: "user_limit \<Rightarrow> bool" where
  "limit_fine l = (ul_count l \<noteq> 0 \<and> ul_burst l \<le> MAX_BURST)"

text \<open>Classes: named, limited, and of no more names than there may be classes.\<close>

definition classes_fine :: "hashes \<Rightarrow> (bytes \<times> user_limit) list \<Rightarrow> nat \<Rightarrow> bool" where
  "classes_fine h cs most = ((\<forall>(name, l) \<in> set cs. name \<noteq> [] \<and> limit_fine l) \<and>
     card (class_hash h ` fst ` set cs) \<le> most)"

section \<open>The checks are these\<close>

lemma settled_fine: "(\<exists>bound advertise. settled_addresses b = Inr (bound, advertise)) \<longleftrightarrow> addresses_fine b"
proof -
  have r: "reachable a \<longleftrightarrow> \<not> socket_unspecified a" for a
    by (cases a) (auto simp: reachable_def list_all_iff)
  show ?thesis
    by (cases "bu_advertise b") (auto simp: settled_addresses_iff addresses_fine_def r)
qed

lemma ascii_sets:
  "is_ascii_digit c \<longleftrightarrow> c \<in> {48..57}"
  "is_ascii_alphanumeric c \<or> c = MINUS \<or> c = UNDERSCORE \<longleftrightarrow> c \<in> label_bytes"
  by (auto simp: is_ascii_digit_def is_ascii_alphanumeric_def label_bytes_def MINUS_def UNDERSCORE_def)

lemma is_label_set: "is_label l \<longleftrightarrow> l \<noteq> [] \<and> set l \<subseteq> label_bytes"
  by (auto simp: is_label_def list_all_iff ascii_sets)

lemma dot_no_label: "46 \<notin> label_bytes"
  by (simp add: label_bytes_def word_le_nat_alt)

lemma joined_simps [simp]:
  "joined [l] = l"
  "ls \<noteq> [] \<Longrightarrow> joined (l # ls) = l @ [46] @ joined ls"
  by (simp_all add: joined_def)

lemma split_at_ne [simp]: "split_at c s \<noteq> []"
  by (induction c s rule: split_at.induct) (auto split: list.splits)

lemma joined_push: "ls \<noteq> [] \<Longrightarrow> joined ((x # hd ls) # tl ls) = x # joined ls"
  by (cases ls; cases "tl ls") simp_all

lemma joined_split: "joined (split_at 46 s) = s"
proof (induction s)
  case (Cons x s)
  show ?case
  proof (cases "x = 46")
    case True
    then show ?thesis using Cons by simp
  next
    case False
    obtain p ps where "split_at 46 s = p # ps" by (meson split_at_ne neq_Nil_conv)
    then show ?thesis using Cons False joined_push [of "p # ps" x] by simp
  qed
qed simp

lemma split_at_append: "46 \<notin> set l \<Longrightarrow> split_at 46 (l @ 46 # s) = l # split_at 46 s"
  by (induction l) auto

lemma split_at_none: "46 \<notin> set l \<Longrightarrow> split_at 46 l = [l]"
  by (induction l) auto

lemma split_joined: "ls \<noteq> [] \<Longrightarrow> \<forall>l \<in> set ls. 46 \<notin> set l \<Longrightarrow> split_at 46 (joined ls) = ls"
proof (induction ls)
  case (Cons l ls)
  then show ?case by (cases "ls = []") (simp_all add: split_at_append split_at_none)
qed simp

lemma split_at_mem: "p \<in> set (split_at c s) \<Longrightarrow> set p \<subseteq> set s"
proof (induction c s arbitrary: p rule: split_at.induct)
  case (2 c x s)
  obtain q qs where "split_at c s = q # qs" by (meson split_at_ne neq_Nil_conv)
  with 2 show ?case by (auto split: if_splits; fastforce)
qed simp

text \<open>The name of a seed, as it is read.\<close>

definition name_read :: "bytes \<Rightarrow> bool" where
  "name_read host = (let labels = (if host \<noteq> [] \<and> last host = DOT then butlast host else host); parts = split_at DOT labels
     in labels \<noteq> [] \<and> list_all is_label parts \<and> \<not> list_all is_ascii_digit (last parts))"

lemma joined_last:
  assumes "ls \<noteq> []" "\<forall>l \<in> set ls. l \<noteq> [] \<and> set l \<subseteq> label_bytes"
  shows "joined ls \<noteq> [] \<and> last (joined ls) \<noteq> 46"
proof -
  have "last ls \<noteq> []" "last (last ls) \<in> label_bytes" using assms last_in_set by (blast, meson last_in_set subsetD)
  then show ?thesis using dot_no_label by (auto simp: joined_def)
qed

lemma name_read_iff: "name_read host \<longleftrightarrow> host_name host"
proof -
  have digits: "list_all is_ascii_digit l \<longleftrightarrow> set l \<subseteq> {48..57}" for l
    by (auto simp: list_all_iff ascii_sets(1))
  have parts: "list_all is_label ls \<longleftrightarrow> (\<forall>l \<in> set ls. l \<noteq> [] \<and> set l \<subseteq> label_bytes)" for ls
    by (simp add: list_all_iff is_label_set)
  show ?thesis
  proof
    assume r: "name_read host"
    define labels where "labels = (if host \<noteq> [] \<and> last host = DOT then butlast host else host)"
    have l: "list_all is_label (split_at 46 labels)" "\<not> list_all is_ascii_digit (last (split_at 46 labels))"
      using r by (auto simp: name_read_def Let_def labels_def DOT_def)
    have "host = joined (split_at 46 labels) \<or> host = joined (split_at 46 labels) @ [46]"
      unfolding joined_split by (auto simp: labels_def DOT_def) (metis append_butlast_last_id)
    then show "host_name host" unfolding host_name_def using l parts digits
      by (intro exI [of _ "split_at 46 labels"]) auto
  next
    assume "host_name host"
    then obtain ls where ls: "ls \<noteq> []" "host = joined ls \<or> host = joined ls @ [46]"
      "\<forall>l \<in> set ls. l \<noteq> [] \<and> set l \<subseteq> label_bytes" "\<not> set (last ls) \<subseteq> {48..57}"
      unfolding host_name_def by blast
    have e: "joined ls \<noteq> []" "last (joined ls) \<noteq> 46" using joined_last [OF ls(1,3)] by simp_all
    have "split_at 46 (joined ls) = ls" using ls(1,3) dot_no_label by (intro split_joined) auto
    moreover have "(if host \<noteq> [] \<and> last host = DOT then butlast host else host) = joined ls"
      using ls(2) e by (auto simp: DOT_def)
    ultimately show "name_read host" using ls e parts digits by (simp add: name_read_def DOT_def)
  qed
qed

text \<open>The colon a seed is split at is the last.\<close>

lemma rsplit_once_iff:
  "rsplit_once c s = Some (a, z) \<longleftrightarrow> s = a @ [c] @ z \<and> c \<notin> set z"
proof
  assume r: "rsplit_once c s = Some (a, z)"
  have c: "c \<in> set s" and az: "a = rev (tl (dropWhile (\<lambda>x. x \<noteq> c) (rev s)))" "z = rev (takeWhile (\<lambda>x. x \<noteq> c) (rev s))"
    using r by (auto simp: rsplit_once_def split: if_splits)
  have d: "dropWhile (\<lambda>x. x \<noteq> c) (rev s) = c # tl (dropWhile (\<lambda>x. x \<noteq> c) (rev s))"
  proof -
    have ne: "dropWhile (\<lambda>x. x \<noteq> c) (rev s) \<noteq> []" using c by (simp add: dropWhile_eq_Nil_conv)
    then have "hd (dropWhile (\<lambda>x. x \<noteq> c) (rev s)) = c" using hd_dropWhile [OF ne] by simp
    with ne show ?thesis by (metis list.collapse)
  qed
  have "rev s = rev z @ [c] @ rev a"
    using takeWhile_dropWhile_id [of "\<lambda>x. x \<noteq> c" "rev s"] d by (simp add: az)
  then have "s = a @ [c] @ z" by (metis rev_append rev_rev_ident rev_singleton_conv append.assoc)
  moreover have "c \<notin> set z" unfolding az(2) by (auto dest: set_takeWhileD)
  ultimately show "s = a @ [c] @ z \<and> c \<notin> set z" by blast
next
  assume s: "s = a @ [c] @ z \<and> c \<notin> set z"
  have t: "takeWhile (\<lambda>x. x \<noteq> c) (rev z @ c # rev a) = rev z" "dropWhile (\<lambda>x. x \<noteq> c) (rev z @ c # rev a) = c # rev a"
    using s by (auto simp: takeWhile_append dropWhile_append)
  show "rsplit_once c s = Some (a, z)" using s t by (simp add: rsplit_once_def)
qed

lemma read_digits_all: "read_digits 10 s = (ds, []) \<Longrightarrow> x \<in> set s \<Longrightarrow> to_digit 10 x \<noteq> None"
  by (induction s arbitrary: ds) (auto split: option.splits prod.splits)

lemma port_no_colon: "parse_u16 port \<noteq> None \<Longrightarrow> 58 \<notin> set port"
proof
  assume p: "parse_u16 port \<noteq> None" and c: "58 \<in> set port"
  have d: "to_digit 10 58 = None" by (simp add: to_digit_def)
  obtain ds where r: "read_digits 10 (if hd port = PLUS then tl port else port) = (ds, [])" and ne: "port \<noteq> []"
    using p by (auto simp: parse_u16_def Let_def split: if_splits prod.splits)
  have "58 \<in> set (if hd port = PLUS then tl port else port)"
    using c ne by (cases port) (auto simp: PLUS_def)
  from read_digits_all [OF r this] d show False by simp
qed

lemma read_seed_fine: "read_seed text \<noteq> None \<longleftrightarrow> seed_fine text"
proof (cases "parse_socket text")
  case None
  have "read_seed text \<noteq> None \<longleftrightarrow>
      (\<exists>host port. rsplit_once COLON text = Some (host, port) \<and> parse_u16 port \<noteq> None \<and> name_read host)"
    by (auto simp: read_seed_def None name_read_def Let_def split: bind_splits)
  also have "\<dots> \<longleftrightarrow> seed_fine text"
    using port_no_colon by (auto simp: seed_fine_def None rsplit_once_iff name_read_iff COLON_def)
  finally show ?thesis .
qed (simp add: read_seed_def seed_fine_def)

lemma sort_seeds_fine: "(\<exists>r. sort_seeds ts = Inr r) \<longleftrightarrow> (\<forall>t \<in> set ts. seed_fine t)"
proof -
  have "(\<exists>r. sort_seeds ts = Inr r) \<longleftrightarrow> (\<forall>t \<in> set ts. read_seed t \<noteq> None)"
    by (induction ts) (auto split: option.splits sum.splits)
  then show ?thesis using read_seed_fine by simp
qed

lemma sort_seeds_bad: "sort_seeds ts = Inl err \<Longrightarrow> \<exists>t \<in> set ts. err = BadSeed t \<and> \<not> seed_fine t"
  by (induction ts) (auto simp flip: read_seed_fine split: option.splits sum.splits)

lemma to_core_fine: "(\<exists>core. to_core l = Inr core) \<longleftrightarrow> limit_fine l"
  by (auto simp: to_core_def limit_fine_def not_less)

lemma checked_from_fine:
  assumes "om_wf named" "length named \<le> n"
  shows "(\<exists>m. checked_from h n named cs = Inr m) \<longleftrightarrow>
    (\<forall>(name, l) \<in> set cs. name \<noteq> [] \<and> limit_fine l) \<and> card (set (om_keys named) \<union> class_hash h ` fst ` set cs) \<le> n"
  using assms
proof (induction h n named cs rule: checked_from.induct)
  case (1 h n named)
  then show ?case using distinct_card [OF om_wf_distinct [OF 1(1)]] by simp
next
  case (2 h n named name l cs)
  show ?case
  proof (cases "name \<noteq> [] \<and> limit_fine l")
    case True
    then obtain core where core: "to_core l = Inr core" using to_core_fine by blast
    let ?named = "om_put (class_hash h name) (name, l, core) named"
    have wf: "om_wf ?named" using "2.prems"(1) by simp
    have k: "set (om_keys ?named) \<union> class_hash h ` fst ` set cs =
        set (om_keys named) \<union> class_hash h ` fst ` set ((name, l) # cs)" by auto
    have len: "card (set (om_keys ?named)) = length ?named" using distinct_card [OF om_wf_distinct [OF wf]] by simp
    show ?thesis
    proof (cases "n < length ?named")
      case True': True
      have "card (set (om_keys ?named)) \<le> card (set (om_keys ?named) \<union> class_hash h ` fst ` set cs)"
        by (intro card_mono) auto
      then have "\<not> card (set (om_keys named) \<union> class_hash h ` fst ` set ((name, l) # cs)) \<le> n"
        using True' len k by simp
      then show ?thesis using True True' core by simp
    next
      case False
      then show ?thesis using "2.IH" [OF _ core refl] True core wf k by simp
    qed
  next
    case False
    then show ?thesis using to_core_fine [of l] by (auto split: sum.splits)
  qed
qed

lemma checked_fine: "(\<exists>cs'. checked h cs n = Inr cs') \<longleftrightarrow> classes_fine h cs n"
  using checked_from_fine [of "[]" n h cs] by (auto simp: checked_def classes_fine_def split: sum.splits)


section \<open>What an error says\<close>

text \<open>The fault each error tells of.\<close>

definition limits_given :: "builder \<Rightarrow> user_limit set" where
  "limits_given b = set_option (bu_limit b) \<union> snd ` set (bu_classes b)"

fun faulty :: "hashes \<Rightarrow> builder \<Rightarrow> guard_error \<Rightarrow> bool" where
  "faulty h b MissingBind = (bu_bind b = None)"
| "faulty h b (BadAddress t) = (t \<in> set_option (bu_bind b) \<union> set_option (bu_advertise b) \<and> parse_socket t = None)"
| "faulty h b MissingAdvertise =
     (bu_advertise b = None \<and> (\<exists>t a. bu_bind b = Some t \<and> parse_socket t = Some a \<and> \<not> reachable a))"
| "faulty h b UnspecifiedAdvertise = (\<exists>t a. bu_advertise b = Some t \<and> parse_socket t = Some a \<and> \<not> reachable a)"
| "faulty h b AdvertisePortZero = (bu_advertise b \<noteq> None \<and>
     (\<exists>t \<in> set_option (bu_bind b) \<union> set_option (bu_advertise b). \<exists>a. parse_socket t = Some a \<and> socket_port a = 0))"
| "faulty h b (BadSeed t) = (t \<in> set (bu_seeds b) \<and> \<not> seed_fine t)"
| "faulty h b MissingLimit = (bu_limit b = None)"
| "faulty h b ZeroLimit = (\<exists>l \<in> limits_given b. ul_count l = 0)"
| "faulty h b (TooLargeBurst n) = (MAX_BURST < n \<and> (bu_burst b = Some n \<or> (\<exists>l \<in> limits_given b. ul_burst l = n)))"
| "faulty h b (TooManyHotKeys n) = (n = hot_keys_of b \<and> (n = 0 \<or> MAX_DEMAND_KEYS < n))"
| "faulty h b TooFewTrackedKeys = (tracked_keys_of b < hot_keys_of b)"
| "faulty h b (TooManyTrackedKeys n) = (n = tracked_keys_of b \<and> MAX_TRACKED_KEYS < n)"
| "faulty h b EmptyClassName = ([] \<in> fst ` set (bu_classes b))"
| "faulty h b (TooManyClasses n) = (n = max_classes_of b \<and>
     (MAX_CLASSES < n \<or> n < card (class_hash h ` fst ` set (bu_classes b))))"
| "faulty h b (TooLargeMaxKeyLimits n) = (n = max_key_limits_of b \<and> MAX_KEY_LIMITS < n)"
| "faulty h b (TooManyMostDenied n) = (n = most_denied_of b \<and> MAX_MOST_DENIED < n)"
| "faulty h b (TooLargeMaxMembers n) = (n = max_members_of b \<and> (n = 0 \<or> MAX_MAX_MEMBERS < n))"
| "faulty h b ZeroPeriod = (period_of b < 4)"
| "faulty h b (GossipAuth (TooManySecrets n)) = (n = length (bu_secrets b) \<and> MAX_SECRETS < n)"
| "faulty h b (GossipAuth NoSecrets) = (bu_gossip_auth b \<noteq> Off \<and> bu_secrets b = [])"
| "faulty h b (ShortSalt n) = (bu_salt b = Some (Inl n))"
| "faulty h b _ = False"

named_theorems refused_iff "when a check or a chain of checks refuses"

lemma and_then_Inl [refused_iff]: "and_then r f = Inl err \<longleftrightarrow> r = Inl err \<or> (\<exists>x. r = Inr x \<and> f x = Inl err)"
  by (simp add: and_then_def split: sum.split)

lemma refuse_if_Inl [refused_iff]: "refuse_if c e = Inl err \<longleftrightarrow> c \<and> err = e"
  by (auto simp: refuse_if_def)

lemma ok_or_Inl [refused_iff]: "ok_or x e = Inl err \<longleftrightarrow> x = None \<and> err = e"
  by (auto simp: ok_or_def split: option.split)

lemma relabelled_Inl [refused_iff]:
  "(case r of Inl e \<Rightarrow> Inl (g e) | Inr a \<Rightarrow> Inr a) = Inl err \<longleftrightarrow> (\<exists>e. r = Inl e \<and> err = g e)"
  by (auto split: sum.split)

lemma settled_faulty: "settled_addresses b = Inl err \<Longrightarrow> faulty h b err"
proof -
  have r: "reachable a \<longleftrightarrow> \<not> socket_unspecified a" for a
    by (cases a) (auto simp: reachable_def list_all_iff)
  assume "settled_addresses b = Inl err"
  then show ?thesis
    by (cases "bu_advertise b")
      (auto simp: settled_addresses_def address_in_def accepted_iff refused_iff r split: if_splits)
qed

lemma to_core_faulty:
  "to_core l = Inl err \<Longrightarrow> err = ZeroLimit \<and> ul_count l = 0 \<or> err = TooLargeBurst (ul_burst l) \<and> MAX_BURST < ul_burst l"
  by (auto simp: to_core_def split: if_splits)

lemma given_faulty:
  assumes "given_limit b = Some l" "to_core l = Inl err"
  shows "faulty h b err"
proof -
  obtain given where g: "bu_limit b = Some given" "l = (case bu_burst b of Some n \<Rightarrow> with_burst given n | None \<Rightarrow> given)"
    using assms(1) by (auto simp: given_limit_def)
  have mem: "given \<in> limits_given b" using g(1) by (simp add: limits_given_def)
  show ?thesis
  proof (cases "bu_burst b")
    case None
    then show ?thesis using to_core_faulty [OF assms(2)] g mem by auto
  next
    case (Some n)
    have "n = max n 1" if "MAX_BURST < max n 1"
      using that by (cases "n \<le> 1") (simp_all add: max_def gcra_consts)
    then show ?thesis using to_core_faulty [OF assms(2)] g mem Some by (auto simp: with_burst_def)
  qed
qed

lemma checked_from_faulty:
  assumes "checked_from h n named cs = Inl err" "om_wf named"
  shows "err = EmptyClassName \<and> [] \<in> fst ` set cs \<or> (\<exists>l \<in> snd ` set cs. to_core l = Inl err) \<or>
    err = TooManyClasses n \<and> n < card (set (om_keys named) \<union> class_hash h ` fst ` set cs)"
  using assms
proof (induction h n named cs rule: checked_from.induct)
  case (2 h n named name l cs)
  define nmd where "nmd = (\<lambda>core. om_put (class_hash h name) (name, l, core) named)"
  have k: "set (om_keys (nmd core)) \<union> class_hash h ` fst ` set cs =
      set (om_keys named) \<union> class_hash h ` fst ` set ((name, l) # cs)" for core by (auto simp: nmd_def)
  consider "name = []" "err = EmptyClassName" | "to_core l = Inl err" |
    (put) core where "name \<noteq> []" "to_core l = Inr core" "n < length (nmd core)" "err = TooManyClasses n" |
    (more) core where "name \<noteq> []" "to_core l = Inr core" "\<not> n < length (nmd core)" "checked_from h n (nmd core) cs = Inl err"
    using "2.prems"(1) by (auto simp: Let_def nmd_def split: if_splits sum.splits)
  then show ?case
  proof cases
    case put
    have wf: "om_wf (nmd core)" using "2.prems"(2) by (simp add: nmd_def)
    have "card (set (om_keys (nmd core))) \<le> card (set (om_keys (nmd core)) \<union> class_hash h ` fst ` set cs)"
      by (intro card_mono) auto
    then show ?thesis using put distinct_card [OF om_wf_distinct [OF wf]] k [of core] by simp
  next
    case more
    have "om_wf (nmd core)" using "2.prems"(2) by (simp add: nmd_def)
    from "2.IH" [OF more(1,2) refl more(3,4) [unfolded nmd_def] this [unfolded nmd_def], folded nmd_def] show ?thesis unfolding k by auto
  qed auto
qed simp

lemma checked_faulty:
  assumes "checked h (bu_classes b) (max_classes_of b) = Inl err"
  shows "faulty h b err"
proof -
  have "checked_from h (max_classes_of b) [] (bu_classes b) = Inl err"
    using assms by (auto simp: checked_def split: sum.splits)
  from checked_from_faulty [OF this om_wf_Nil] consider "err = EmptyClassName" "[] \<in> fst ` set (bu_classes b)" |
    l where "l \<in> snd ` set (bu_classes b)" "to_core l = Inl err" |
    "err = TooManyClasses (max_classes_of b)" "max_classes_of b < card (class_hash h ` fst ` set (bu_classes b))"
    by auto
  then show ?thesis
  proof cases
    case (2 l)
    then have "l \<in> limits_given b" by (simp add: limits_given_def)
    then show ?thesis using to_core_faulty [OF 2(2)] by auto
  qed simp_all
qed

lemma auth_faulty: "auth_new (bu_gossip_auth b) (bu_secrets b) = Inl e \<Longrightarrow> faulty h b (GossipAuth e)"
  by (auto simp: auth_new_def split: if_splits)

lemma salt_faulty: "salt_of b = Inl err \<Longrightarrow> faulty h b err"
  by (auto simp: salt_of_def split: option.splits sum.splits)

lemma quarter_zero: "p div 4 = 0 \<longleftrightarrow> p < 4" for p :: nanos
  by (simp add: unat_eq_0 [symmetric] unat_div word_less_nat_alt div_eq_0_iff)

lemma settings_faulty:
  assumes "builder_settings h b = Inl err"
  shows "faulty h b err"
proof -
  have given: "and_then (ok_or (bu_limit b) MissingLimit) (\<lambda>given.
      let given = (case bu_burst b of Some burst \<Rightarrow> with_burst given burst | None \<Rightarrow> given) in f given) =
    and_then (ok_or (given_limit b) MissingLimit) f" for f :: "user_limit \<Rightarrow> guard_error + settings"
    by (simp add: and_then_def ok_or_def given_limit_def split: option.split)
  have none: "given_limit b = None \<longleftrightarrow> bu_limit b = None" by (simp add: given_limit_def)
  consider "settled_addresses b = Inl err" | "sort_seeds (bu_seeds b) = Inl err" | "bu_limit b = None" "err = MissingLimit" |
    l where "given_limit b = Some l" "to_core l = Inl err" | "hot_keys_of b = 0 \<or> MAX_DEMAND_KEYS < hot_keys_of b" "err = TooManyHotKeys (hot_keys_of b)" |
    "tracked_keys_of b < hot_keys_of b" "err = TooFewTrackedKeys" | "MAX_TRACKED_KEYS < tracked_keys_of b" "err = TooManyTrackedKeys (tracked_keys_of b)" |
    "MAX_CLASSES < max_classes_of b" "err = TooManyClasses (max_classes_of b)" | "checked h (bu_classes b) (max_classes_of b) = Inl err" |
    "MAX_KEY_LIMITS < max_key_limits_of b" "err = TooLargeMaxKeyLimits (max_key_limits_of b)" |
    "MAX_MOST_DENIED < most_denied_of b" "err = TooManyMostDenied (most_denied_of b)" |
    "\<not> (1 \<le> max_members_of b \<and> max_members_of b \<le> MAX_MAX_MEMBERS)" "err = TooLargeMaxMembers (max_members_of b)" |
    "period_of b div 4 = 0" "err = ZeroPeriod" |
    e where "auth_new (bu_gossip_auth b) (bu_secrets b) = Inl e" "err = GossipAuth e" | "salt_of b = Inl err"
    using assms
    unfolding builder_settings_def given salt_of_def [symmetric] hot_keys_of_def [symmetric] tracked_keys_of_def [symmetric] max_classes_of_def [symmetric]
      max_key_limits_of_def [symmetric] most_denied_of_def [symmetric] max_members_of_def [symmetric] period_of_def [symmetric]
    by (auto simp: refused_iff accepted_iff none Let_def split: prod.splits)
  then show ?thesis
  proof cases
    case 1
    then show ?thesis by (rule settled_faulty)
  next
    case 2
    then show ?thesis using sort_seeds_bad by fastforce
  next
    case 4
    then show ?thesis by (rule given_faulty)
  next
    case 9
    then show ?thesis by (rule checked_faulty)
  next
    case 14
    then show ?thesis using auth_faulty by simp
  next
    case 15
    then show ?thesis by (rule salt_faulty)
  qed (auto simp: quarter_zero not_le)
qed

section \<open>The promises of a builder\<close>

definition builder_made :: "builder \<Rightarrow> bool" where
  "builder_made b = ((\<forall>l. bu_limit b = Some l \<longrightarrow> user_limit_wf l) \<and> (\<forall>c \<in> set (bu_classes b). given_made_wf c))"

definition setting_made :: "setting \<Rightarrow> bool" where
  "setting_made s = (case s of DefaultLimit l \<Rightarrow> user_limit_wf l | ClassOf name l \<Rightarrow> user_limit_wf l | _ \<Rightarrow> True)"

lemma builder_set_made: "builder_made b \<Longrightarrow> setting_made s \<Longrightarrow> builder_made (builder_set h b s)"
  by (cases s) (auto simp: builder_made_def setting_made_def given_made_wf_def limit_per_second_def user_limit_made)

lemma builder_told_made: "builder_made b \<Longrightarrow> \<forall>s \<in> set ss. setting_made s \<Longrightarrow> builder_made (foldl (builder_set h) b ss)"
  by (induction ss arbitrary: b) (simp_all add: builder_set_made)

lemma builder_new_made [simp]: "builder_made builder_new"
  by (simp add: builder_made_def builder_new_def)

lemma core_of_tracked: "c_max_tracked_keys (core_of l hot n) = n"
  by (simp add: core_of_def)

lemma settings_valid:
  assumes made: "builder_made b" and st: "builder_settings h b = Inr st"
  shows "user_limit_wf (se_default_limit st) \<and> config_validate (se_core st) = Some () \<and> swim_validate (se_swim st) = Some ()"
proof -
  note s = st [unfolded settings_iff]
  have "given_limit b = Some (se_default_limit st)" using s by blast
  then obtain given where given: "bu_limit b = Some given"
    "se_default_limit st = (case bu_burst b of Some burst \<Rightarrow> with_burst given burst | None \<Rightarrow> given)"
    by (auto simp: given_limit_def)
  have l: "user_limit_wf (se_default_limit st)"
    unfolding given(2) using made given(1) by (simp add: builder_made_def user_limit_made(2) split: option.split)
  have core: "config_validate (se_core st) = Some ()"
  proof -
    have "limit_ok (c_limit (se_core st))" using to_core_ok [OF l] s by blast
    then have "config_validate (core_of (c_limit (se_core st)) (hot_keys_of b) (tracked_keys_of b)) = Some ()"
      using s by (intro core_valid) simp_all
    then show ?thesis using s by simp
  qed
  have "swim_validate (se_swim st) = Some ()" using swim_valid [of "period_of b"] s by simp
  then show ?thesis using l core by blast
qed

lemma settings_start:
  assumes made: "builder_made b" and st: "builder_settings h b = Inr st"
  shows "\<exists>dv. start h (st\<lparr>se_advertise := advertise\<rparr>) entropy table_seed = Some dv \<and> runtime_wf h dv \<and>
    fresh_node (peer_id_of h (address_of_socket advertise)) (dv_node dv) \<and> sh_running (dv_shared dv)"
proof -
  note s = st [unfolded settings_iff]
  note valid = settings_valid [OF made st]
  have cs: "checked h (bu_classes b) (se_max_classes st) = Inr (se_classes st)" using s by simp
  have "\<forall>c \<in> set (bu_classes b). given_made_wf c" using made by (simp add: builder_made_def)
  from start_ok [of "st\<lparr>se_advertise := advertise\<rparr>" h "bu_classes b" entropy table_seed] valid cs this s
  show ?thesis by simp
qed

lemma spawn_ok:
  assumes "builder_made b"
  shows "\<exists>r. spawn h su b = Some r \<and> (\<forall>dv. r = Inr dv \<longrightarrow> runtime_wf h dv \<and> n_last_now (dv_node dv) = 0 \<and>
    \<not> n_left (dv_node dv) \<and> sh_running (dv_shared dv))"
proof (cases "builder_settings h b")
  case (Inl err)
  then show ?thesis by (simp add: spawn_def)
next
  case (Inr st)
  have same: "st\<lparr>se_advertise := se_advertise st\<rparr> = st" by simp
  obtain dv1 where dv1: "start h (st\<lparr>se_advertise := the (su_local_addr su)\<rparr>) (su_entropy su) (su_table_seed su) = Some dv1" "runtime_wf h dv1"
    "n_last_now (dv_node dv1) = 0" "\<not> n_left (dv_node dv1)" "sh_running (dv_shared dv1)"
    using settings_start [OF assms Inr] unfolding fresh_node_def by meson
  obtain dv2 where dv2: "start h st (su_entropy su) (su_table_seed su) = Some dv2" "runtime_wf h dv2"
    "n_last_now (dv_node dv2) = 0" "\<not> n_left (dv_node dv2)" "sh_running (dv_shared dv2)"
    using settings_start [OF assms Inr, of "se_advertise st"] unfolding fresh_node_def same by meson
  show ?thesis using Inr dv1 dv2 by (simp add: spawn_def started_def)
qed

text \<open>
  C15. No guard ever panics. Whatever a builder is told, in any order, and whatever the operating system answers, spawning
  either tells an error or starts a guard that is running; and whatever is then asked and told of it and whatever
  its background task hears, on a clock that does not run backwards, it does not panic and keeps every invariant of its
  node, slots, classes, limits of keys and seeds.
\<close>

theorem guard_never_panics:
  assumes env: "env_ok env" and told: "\<forall>s \<in> set told. setting_made s"
  shows "\<exists>r. spawn h su (foldl (builder_set h) builder_new told) = Some r \<and>
    (\<forall>dv. r = Inr dv \<longrightarrow> sh_running (dv_shared dv) \<and> \<not> n_left (dv_node dv) \<and>
      (\<forall>calls. calls_ok 0 calls \<longrightarrow> (\<exists>dv'. runtime_run hmac h env dv calls = Some dv' \<and> runtime_wf h dv')))"
proof -
  obtain r where r: "spawn h su (foldl (builder_set h) builder_new told) = Some r"
    "\<forall>dv. r = Inr dv \<longrightarrow> runtime_wf h dv \<and> n_last_now (dv_node dv) = 0 \<and> \<not> n_left (dv_node dv) \<and> sh_running (dv_shared dv)"
    using spawn_ok [OF builder_told_made [OF builder_new_made told], of h su h] by blast
  have "\<exists>dv'. runtime_run hmac h env dv calls = Some dv' \<and> runtime_wf h dv'" if "r = Inr dv" "calls_ok 0 calls" for dv calls
    using runtime_run_ok [OF env _ _ that(2), of h dv hmac] r(2) that(1) by auto
  then show ?thesis using r by blast
qed

text \<open>\<open>127.0.0.1:80\<close> as bytes.\<close>

definition example_text :: bytes where
  "example_text = [49, 50, 55, 46, 48, 46, 48, 46, 49, 58, 56, 48]"

definition example_builder :: builder where
  "example_builder = foldl (builder_set example_hashes) builder_new [BindTo example_text, PerSecond 100]"

definition example_surroundings :: surroundings where
  "example_surroundings = \<lparr>su_runtime = True, su_timers = True, su_bound = (\<lambda>a. True),
     su_local_addr = Some (SocketV4 [127, 0, 0, 1] 80), su_nonblocking = True, su_io = True, su_registered = True,
     su_entropy = 3, su_table_seed = 5\<rparr>"

lemma example_text_parsed: "parse_socket example_text = Some (SocketV4 [127, 0, 0, 1] 80)"
  by (simp add: example_text_def parse_socket_def read_socket_v4_def read_ipv4_def read_separator_def read_octet_def read_number_def
      to_digit_def number_of_digits_def read_port_def DOT_def COLON_def ZERO_def)

lemma example_settings: "\<exists>st. builder_settings example_hashes example_builder = Inr st"
proof -
  have core: "to_core (limit_per_second 100) = Inr \<lparr>l_rate = limit_rate_per_sec (limit_per_second 100), l_burst = 5\<rparr>"
    by (rule example_to_core)
  have "nanos_of (200 * 1000000) div 4 \<noteq> 0" by (simp add: nanos_of_def)
  then show ?thesis
    by (simp add: builder_settings_def example_builder_def builder_new_def settled_addresses_def and_then_def ok_or_def refuse_if_def
        address_in_def example_text_parsed Let_def core unwrap_or_def MAX_DEMAND_KEYS_def MAX_TRACKED_KEYS_def MAX_CLASSES_def
        MAX_KEY_LIMITS_def MAX_MOST_DENIED_def MAX_MAX_MEMBERS_def DEFAULT_MAX_MEMBERS_def checked_def auth_new_def MAX_SECRETS_def)
qed

theorem guard_never_panics_witness:
  "\<exists>dv dv'. spawn example_hashes example_surroundings example_builder = Some (Inr dv) \<and>
    runtime_run (\<lambda>mac data. []) example_hashes example_env dv [Request [] [1] 9, Handled TickDue 5, SetDryRun True, Handled (Datagram [3]) 6] = Some dv'"
proof -
  have told: "\<forall>s \<in> set [BindTo example_text, PerSecond 100]. setting_made s" by (simp add: setting_made_def)
  obtain st where st: "builder_settings example_hashes example_builder = Inr st" using example_settings by blast
  obtain r where r: "spawn example_hashes example_surroundings example_builder = Some r"
    "\<forall>dv. r = Inr dv \<longrightarrow> (\<forall>calls. calls_ok 0 calls \<longrightarrow>
      (\<exists>dv'. runtime_run (\<lambda>mac data. []) example_hashes example_env dv calls = Some dv' \<and> runtime_wf example_hashes dv'))"
    using guard_never_panics [OF example_env_ok told, of example_hashes example_surroundings "\<lambda>mac data. []"]
    unfolding example_builder_def by blast
  have "\<exists>dv. r = Inr dv"
    using r(1) st by (auto simp: spawn_def started_def example_surroundings_def split: option.splits)
  then obtain dv where dv: "r = Inr dv" by blast
  have "calls_ok 0 [Request [] [1] 9, Handled TickDue 5, SetDryRun True, Handled (Datagram [3]) 6]" by simp
  then show ?thesis using r dv by blast
qed

text \<open>The checks that accept are those of the parts.\<close>

lemma settings_accepted:
  "(\<exists>st. builder_settings h b = Inr st) \<longleftrightarrow>
    (\<exists>bound advertise. settled_addresses b = Inr (bound, advertise)) \<and> (\<exists>r. sort_seeds (bu_seeds b) = Inr r) \<and>
    (\<exists>l core. given_limit b = Some l \<and> to_core l = Inr core) \<and>
    0 < hot_keys_of b \<and> hot_keys_of b \<le> MAX_DEMAND_KEYS \<and> hot_keys_of b \<le> tracked_keys_of b \<and>
    tracked_keys_of b \<le> MAX_TRACKED_KEYS \<and> max_classes_of b \<le> MAX_CLASSES \<and>
    (\<exists>cs. checked h (bu_classes b) (max_classes_of b) = Inr cs) \<and>
    max_key_limits_of b \<le> MAX_KEY_LIMITS \<and> most_denied_of b \<le> MAX_MOST_DENIED \<and>
    1 \<le> max_members_of b \<and> max_members_of b \<le> MAX_MAX_MEMBERS \<and> period_of b div 4 \<noteq> 0 \<and>
    (\<exists>a. auth_new (bu_gossip_auth b) (bu_secrets b) = Inr a) \<and> (\<exists>s. salt_of b = Inr s)"
  (is "?lhs \<longleftrightarrow> ?rhs")
proof
  assume ?lhs
  then obtain st where "builder_settings h b = Inr st" by blast
  note st = this [unfolded settings_iff]
  show ?rhs using st by blast
next
  assume r: ?rhs
  then obtain bound advertise seeds nms l core cs a s where parts: "settled_addresses b = Inr (bound, advertise)"
    "sort_seeds (bu_seeds b) = Inr (seeds, nms)" "given_limit b = Some l" "to_core l = Inr core"
    "checked h (bu_classes b) (max_classes_of b) = Inr cs" "auth_new (bu_gossip_auth b) (bu_secrets b) = Inr a" "salt_of b = Inr s"
    by auto
  let ?st = "\<lparr>se_bind = bound, se_advertise = advertise, se_seeds = seeds, se_names = nms,
    se_core = core_of core (hot_keys_of b) (tracked_keys_of b), se_swim = swim_of (period_of b),
    se_policy = policy_to_core (unwrap_or (bu_policy b) default_user_policy),
    se_quorum_memory = (case bu_quorum_memory b of None \<Rightarrow> DEFAULT_QUORUM_MEMORY | Some d \<Rightarrow> nanos_of d),
    se_dry_run = bu_dry_run b, se_classes = cs, se_max_classes = max_classes_of b, se_max_key_limits = max_key_limits_of b,
    se_most_denied = most_denied_of b, se_max_members = max_members_of b, se_default_limit = l, se_auth = a, se_salt = s\<rparr>"
  have "c_limit (core_of core (hot_keys_of b) (tracked_keys_of b)) = core" by (simp add: core_of_def)
  then have "builder_settings h b = Inr ?st" unfolding settings_iff using parts r by simp
  then show ?lhs by blast
qed

text \<open>
  C16. What a builder refuses. Its settings are accepted exactly if: the address to bind, and the one to advertise if one
  is given, is an address; the one peers are told, which is the one to bind if none is given, is not the unspecified one,
  and if one is given, neither port is 0; every seed is an address, or a name and a port; there is a limit, it and the
  limits of the classes are not of nothing and have a burst within bounds; every class has a name, and they are not too
  many; each number is within its bound; the period of the protocol has four parts; there are secrets if the mode asks
  for them, and not too many; and a salt given was not too short. Else the error told is of a fault the builder has:
  \<open>faulty\<close> says which, for each.
\<close>

theorem builder_accepts:
  "((\<exists>st. builder_settings h b = Inr st) \<longleftrightarrow>
    addresses_fine b \<and> list_all seed_fine (bu_seeds b) \<and>
    (\<exists>given. bu_limit b = Some given \<and>
      limit_fine (case bu_burst b of Some burst \<Rightarrow> given\<lparr>ul_burst := max burst 1\<rparr> | None \<Rightarrow> given)) \<and>
    classes_fine h (bu_classes b) (max_classes_of b) \<and>
    0 < hot_keys_of b \<and> hot_keys_of b \<le> MAX_DEMAND_KEYS \<and> hot_keys_of b \<le> tracked_keys_of b \<and>
    tracked_keys_of b \<le> MAX_TRACKED_KEYS \<and> max_classes_of b \<le> MAX_CLASSES \<and>
    max_key_limits_of b \<le> MAX_KEY_LIMITS \<and> most_denied_of b \<le> MAX_MOST_DENIED \<and>
    1 \<le> max_members_of b \<and> max_members_of b \<le> MAX_MAX_MEMBERS \<and> 4 \<le> period_of b \<and>
    length (bu_secrets b) \<le> MAX_SECRETS \<and> (bu_gossip_auth b = Off \<or> 0 < length (bu_secrets b)) \<and>
    (\<forall>n. bu_salt b \<noteq> Some (Inl n))) \<and>
   (case builder_settings h b of Inl err \<Rightarrow> faulty h b err | Inr st \<Rightarrow> True)"
  (is "(?lhs \<longleftrightarrow> ?rhs) \<and> ?told")
proof
  have a: "(\<exists>a. auth_new mode secrets = Inr a) \<longleftrightarrow> length secrets \<le> MAX_SECRETS \<and> (mode = Off \<or> 0 < length secrets)" for mode secrets
    by (auto simp: auth_new_def not_less)
  have salt: "(\<exists>s. salt_of b = Inr s) \<longleftrightarrow> (\<forall>n. bu_salt b \<noteq> Some (Inl n))"
    by (auto simp: salt_of_def split: option.splits sum.splits)
  have period: "p div 4 \<noteq> 0 \<longleftrightarrow> 4 \<le> p" for p :: nanos
    by (simp add: quarter_zero not_less)
  have given: "(\<exists>l core. given_limit b = Some l \<and> to_core l = Inr core) \<longleftrightarrow> (\<exists>given. bu_limit b = Some given \<and>
      limit_fine (case bu_burst b of Some burst \<Rightarrow> given\<lparr>ul_burst := max burst 1\<rparr> | None \<Rightarrow> given))"
    by (auto simp: given_limit_def with_burst_def to_core_fine cong: option.case_cong)
  have seeds: "(\<exists>r. sort_seeds (bu_seeds b) = Inr r) \<longleftrightarrow> list_all seed_fine (bu_seeds b)"
    using sort_seeds_fine [of "bu_seeds b"] by (simp add: list_all_iff)
  show "?lhs \<longleftrightarrow> ?rhs"
    unfolding settings_accepted settled_fine seeds given checked_fine a salt period by blast
  show ?told using settings_faulty [of h b] by (simp split: sum.split)
qed

text \<open>
  Settings that are accepted are well formed: every address has the bytes its family has, the configurations of the
  limiter and of the protocol pass the assertions of the core, each class has a valid limit under a name of its own, and
  the secrets are there if the mode asks for them.
\<close>

theorem settings_well_formed:
  assumes made: "builder_made b" and st: "builder_settings h b = Inr st"
  shows "socket_wf (se_bind st) \<and> socket_wf (se_advertise st) \<and> list_all socket_wf (se_seeds st) \<and>
    config_validate (se_core st) = Some () \<and> swim_validate (se_swim st) = Some () \<and>
    named_ok h (se_max_classes st) (by_name h (se_classes st)) \<and> se_max_classes st \<le> MAX_CLASSES \<and>
    to_core (se_default_limit st) = Inr (c_limit (se_core st)) \<and> c_max_tracked_keys (se_core st) \<le> MAX_TRACKED_KEYS \<and>
    (au_mode (se_auth st) \<noteq> Off \<longrightarrow> au_macs (se_auth st) \<noteq> [])"
proof -
  note s = st [unfolded settings_iff]
  have addrs: "settled_addresses b = Inr (se_bind st, se_advertise st)" "sort_seeds (bu_seeds b) = Inr (se_seeds st, se_names st)"
    using s by blast+
  have "socket_wf (se_bind st)" "socket_wf (se_advertise st)"
    using addrs(1) [unfolded settled_addresses_iff] parse_socket_wf by (auto split: option.splits)
  moreover have "list_all socket_wf (se_seeds st)" using sort_seeds_wf [OF addrs(2)] by (simp add: list_all_iff)
  moreover have "checked h (bu_classes b) (se_max_classes st) = Inr (se_classes st)" using s by simp
  then have "named_ok h (se_max_classes st) (by_name h (se_classes st))" by (rule checked_ok)
  moreover have "auth_new (bu_gossip_auth b) (bu_secrets b) = Inr (se_auth st)" using s by blast
  then have "au_mode (se_auth st) \<noteq> Off \<longrightarrow> au_macs (se_auth st) \<noteq> []"
    by (cases "se_auth st") (auto simp: auth_new_def auth_off_def split: if_splits)
  moreover have "c_max_tracked_keys (se_core st) = tracked_keys_of b"
  proof -
    have "se_core st = core_of (c_limit (se_core st)) (hot_keys_of b) (tracked_keys_of b)" using s by blast
    then show ?thesis by (metis core_of_tracked)
  qed
  moreover note settings_valid [OF made st]
  ultimately show ?thesis using s by simp
qed

theorem settings_well_formed_witness:
  "\<exists>st. builder_settings example_hashes example_builder = Inr st \<and> socket_wf (se_advertise st) \<and> swim_validate (se_swim st) = Some ()"
proof -
  obtain st where st: "builder_settings example_hashes example_builder = Inr st" using example_settings by blast
  have "builder_made example_builder"
    unfolding example_builder_def by (rule builder_told_made) (simp_all add: setting_made_def)
  from settings_well_formed [OF this st] show ?thesis using st by blast
qed

end
