(* ===== verification/Sidecar_Contract.thy ===== *)
theory Sidecar_Contract
  imports Sidecar Denied_Contract Builder_Contract
begin

text \<open>
  What the API of the sidecar promises (\<open>rateguard-sidecar/src/lib.rs\<close>): that what is checked and kept is text, that limits
  read back, that every request is answered and a refused one changes nothing, and what a check is answered.
\<close>

section \<open>Text\<close>

fun utf8 :: "bytes \<Rightarrow> bool" where
  "utf8 [] = True"
| "utf8 (b # s) = (let (n, whole) = unit_at (b # s) in whole \<and> utf8 (drop (n - 1) s))"

lemma continues_between: "continues b \<longleftrightarrow> 128 \<le> b \<and> b \<le> 191"
proof -
  have "(192 :: u8) = NOT (mask 6)" by (simp add: mask_eq_exp_minus_1)
  then have "b AND 192 = b AND NOT (mask 6)" by (simp only:)
  also have "\<dots> = b AND NOT (b AND mask 6)" by (rule bit_eqI) (auto simp: bit_simps)
  also have "\<dots> = b - (b AND mask 6)" by (rule disjunctive_diff_eq_and_not [symmetric]) (auto simp: bit_eq_iff bit_simps)
  also have "b AND mask 6 = take_bit 6 b" by (rule take_bit_eq_mask [symmetric])
  finally have split: "b AND 192 = b - take_bit 6 b" .
  have low: "unat (take_bit 6 b) = unat b mod 64" by (simp add: take_bit_eq_mod unat_mod)
  then have "take_bit 6 b \<le> b" by (simp add: word_le_nat_alt)
  then have "unat (b AND 192) = unat b - unat b mod 64" using low by (simp only: split unat_sub)
  moreover have "continues b \<longleftrightarrow> unat (b AND 192) = 128" by (simp add: continues_def word_unat_eq_iff)
  moreover have "unat b - unat b mod 64 = 128 \<longleftrightarrow> 128 \<le> unat b \<and> unat b \<le> 191"
  proof -
    have "unat b = 64 * (unat b div 64) + unat b mod 64" "unat b mod 64 < 64" by simp_all
    moreover have "x = 64 * q + r \<Longrightarrow> r < 64 \<Longrightarrow> (x - r = 128) = (128 \<le> x \<and> x \<le> 191)" for x q r :: nat by presburger
    ultimately show ?thesis by blast
  qed
  ultimately show ?thesis by (simp add: word_le_nat_alt)
qed

lemma continues_not_0 [simp]: "\<not> continues 0"
  by (simp add: continues_between)

lemma continues_there: "continues (byte_at s i) \<Longrightarrow> i < length s \<and> continues (s ! i)"
  by (simp add: byte_at_def split: if_splits)

lemma second_continues: "second_of_three b c \<Longrightarrow> continues c" "second_of_four b c \<Longrightarrow> continues c"
  by (auto simp: second_of_three_def second_of_four_def continues_between word_le_nat_alt)

lemma unit_at_whole:
  assumes "unit_at s = (n, True)" "s \<noteq> []"
  shows "1 \<le> n" "n \<le> length s" "\<And>i. 1 \<le> i \<Longrightarrow> i < n \<Longrightarrow> continues (s ! i)"
proof -
  let ?c = "\<lambda>i. continues (byte_at s i)"
  have "n = 1 \<or> n = 2 \<and> ?c 1 \<or> n = 3 \<and> ?c 1 \<and> ?c 2 \<or> n = 4 \<and> ?c 1 \<and> ?c 2 \<and> ?c 3"
    using assms(1) second_continues by (auto simp: unit_at_def Let_def split: if_splits)
  moreover have "?c i \<Longrightarrow> i < length s \<and> continues (s ! i)" for i by (rule continues_there)
  moreover have "1 \<le> length s" using assms(2) by (cases s) simp_all
  ultimately show "1 \<le> n" "n \<le> length s" "\<And>i. 1 \<le> i \<Longrightarrow> i < n \<Longrightarrow> continues (s ! i)"
    by (auto simp: less_Suc_eq numeral_eq_Suc Suc_le_eq)
qed

lemma unit_at_positive: "1 \<le> fst (unit_at s)"
  by (simp add: unit_at_def Let_def)

lemma unit_at_front:
  assumes "unit_at s = (n, True)" "s \<noteq> []"
  shows "unit_at (take n s @ t) = (n, True)"
proof -
  have same: "byte_at (take n s @ t) i = byte_at s i" if "i < n" for i
    using that unit_at_whole(2) [OF assms] by (simp add: byte_at_def nth_append)
  have n: "0 < n" using unit_at_whole(1) [OF assms] by simp
  show ?thesis using assms(1) same [OF n] same [of 1] same [of 2] same [of 3]
    by (auto simp: unit_at_def Let_def split: if_splits)
qed

lemma utf8_whole:
  assumes "unit_at s = (n, True)" "s \<noteq> []"
  shows "utf8 (take n s @ t) = utf8 t"
proof -
  have n: "1 \<le> n" "n \<le> length s" using unit_at_whole [OF assms] by simp_all
  then obtain b r where r: "take n s @ t = b # r" by (cases s; cases n) auto
  then have "drop (n - 1) r = drop n (take n s @ t)" using n by (cases n) simp_all
  also have "\<dots> = t" using n(2) by simp
  finally show ?thesis using unit_at_front [OF assms, of t] by (simp add: r)
qed

lemma utf8_unfold: "s \<noteq> [] \<Longrightarrow> utf8 s \<longleftrightarrow> snd (unit_at s) \<and> utf8 (drop (fst (unit_at s)) s)"
  using unit_at_positive [of s] by (cases s; cases "fst (unit_at s)") (auto simp: Let_def split_beta)

lemma lossy_unfold: "s \<noteq> [] \<Longrightarrow>
    lossy s = (if snd (unit_at s) then take (fst (unit_at s)) s else REPLACEMENT) @ lossy (drop (fst (unit_at s)) s)"
  using unit_at_positive [of s] by (cases s; cases "fst (unit_at s)") (auto simp: Let_def split_beta)

lemma utf8_replacement: "utf8 (REPLACEMENT @ t) = utf8 t"
proof -
  have "unit_at REPLACEMENT = (3, True)" by code_simp
  then show ?thesis using utf8_whole [of REPLACEMENT 3 t] by (simp add: REPLACEMENT_def)
qed

lemma lossy_utf8: "utf8 (lossy s)"
proof (induction s rule: length_induct)
  case (1 s)
  show ?case
  proof (cases "s = []")
    case False
    have "length (drop (fst (unit_at s)) s) < length s" using False unit_at_positive [of s] by simp
    then have IH: "utf8 (lossy (drop (fst (unit_at s)) s))" using 1 by blast
    show ?thesis
    proof (cases "snd (unit_at s)")
      case True
      then have "unit_at s = (fst (unit_at s), True)" by (simp add: prod_eq_iff)
      then show ?thesis using IH True False utf8_whole by (simp add: lossy_unfold)
    next
      case bad: False
      then show ?thesis using IH False by (simp add: lossy_unfold utf8_replacement)
    qed
  qed simp
qed

lemma lossy_same: "utf8 s \<Longrightarrow> lossy s = s"
proof (induction s rule: length_induct)
  case (1 s)
  show ?case
  proof (cases "s = []")
    case False
    have "length (drop (fst (unit_at s)) s) < length s" using False unit_at_positive [of s] by simp
    moreover have "snd (unit_at s)" "utf8 (drop (fst (unit_at s)) s)" using 1(2) False by (simp_all add: utf8_unfold)
    ultimately show ?thesis using 1(1) False by (simp add: lossy_unfold)
  qed simp
qed

lemma utf8_boundary: "utf8 s \<Longrightarrow> is_char_boundary s i \<Longrightarrow> utf8 (take i s)"
proof (induction s arbitrary: i rule: length_induct)
  case (1 s)
  show ?case
  proof (cases "s = []")
    case False
    let ?n = "fst (unit_at s)"
    have w: "unit_at s = (?n, True)" "utf8 (drop ?n s)" using 1(2) False by (simp_all add: utf8_unfold prod_eq_iff)
    note u = unit_at_whole [OF w(1) False]
    show ?thesis
    proof (cases "i < ?n")
      case True
      have "i = 0"
      proof (rule ccontr)
        assume "i \<noteq> 0"
        then have "continues (s ! i)" using u(3) True by simp
        then show False using 1(3) \<open>i \<noteq> 0\<close> True u(2) by (simp add: is_char_boundary_def starts_char_def continues_def)
      qed
      then show ?thesis by simp
    next
      case past: False
      have "is_char_boundary (drop ?n s) (i - ?n)"
        using 1(3) past u(1,2) by (auto simp: is_char_boundary_def)
      moreover have "length (drop ?n s) < length s" using u(1,2) by simp
      ultimately have "utf8 (take (i - ?n) (drop ?n s))" using 1(1) w(2) by blast
      moreover have "take i s = take ?n s @ take (i - ?n) (drop ?n s)" using past by (metis le_add_diff_inverse linorder_not_less take_add)
      ultimately show ?thesis by (simp add: utf8_whole [OF w(1) False])
    qed
  qed simp
qed

lemma boundary_below_spec: "is_char_boundary s (boundary_below s e) \<and> boundary_below s e \<le> e"
  by (induction s e rule: boundary_below.induct) (auto simp: is_char_boundary_def)

lemma cut_text: "utf8 s \<Longrightarrow> utf8 (fst (cut s)) \<and> length (fst (cut s)) \<le> MAX_LEN"
  using boundary_below_spec [of s MAX_LEN] utf8_boundary by (auto simp: cut_def min.coboundedI2)

text \<open>
  C37. What is checked and kept is text, whatever bytes a request holds: a key is checked as it was sent exactly if it is
  UTF-8, and as UTF-8 otherwise; the name kept of it is UTF-8 too, cut between two characters, and no longer than
  \<open>MAX_LEN\<close>, and says so when it was cut.
\<close>

theorem names_are_text:
  "utf8 (lossy key) \<and> (lossy key = key \<longleftrightarrow> utf8 key) \<and>
   (let nk = named_new (lossy cls) (lossy key) in
      utf8 (nk_class nk) \<and> utf8 (nk_key nk) \<and> length (nk_class nk) \<le> MAX_LEN \<and> length (nk_key nk) \<le> MAX_LEN \<and>
      (nk_truncated nk \<longleftrightarrow> nk_key nk \<noteq> lossy key))"
proof -
  have "lossy key = key \<longleftrightarrow> utf8 key" using lossy_utf8 [of key] lossy_same [of key] by auto
  moreover have "snd (cut (lossy key)) \<longleftrightarrow> fst (cut (lossy key)) \<noteq> lossy key"
    using boundary_below_spec [of "lossy key" MAX_LEN] by (auto simp: cut_def dest: arg_cong [of _ _ length])
  ultimately show ?thesis
    using lossy_utf8 cut_text [OF lossy_utf8 [of key]] cut_text [OF lossy_utf8 [of cls]] by (simp add: named_new_def)
qed

section \<open>Limits in bodies\<close>

text \<open>What \<open>serde_json\<close> promises: an object made of numbers is read as made.\<close>

definition json_laws :: "'v web \<Rightarrow> bool" where
  "json_laws w = (\<forall>kvs. distinct (map fst kvs) \<longrightarrow> (\<exists>obj. v_object w (v_make w kvs) = Some obj \<and>
     (\<forall>k. case map_of kvs k of None \<Rightarrow> obj k = None
        | Some n \<Rightarrow> \<exists>v. obj k = Some v \<and> v_u64 w v = Some (ucast n) \<and> \<not> v_null w v)))"

lemma json_keys [simp]:
  "ascii ''per_second'' \<noteq> ascii ''burst''" "ascii ''per_minute'' \<noteq> ascii ''burst''" "ascii ''per_hour'' \<noteq> ascii ''burst''"
  "ascii ''per_second'' \<noteq> ascii ''per_minute''" "ascii ''per_second'' \<noteq> ascii ''per_hour''"
  "ascii ''per_minute'' \<noteq> ascii ''per_hour''"
  "ascii ''burst'' \<noteq> ascii ''per_second''" "ascii ''burst'' \<noteq> ascii ''per_minute''" "ascii ''burst'' \<noteq> ascii ''per_hour''"
  "ascii ''per_minute'' \<noteq> ascii ''per_second''" "ascii ''per_hour'' \<noteq> ascii ''per_second''"
  "ascii ''per_hour'' \<noteq> ascii ''per_minute''"
  by (simp_all add: ascii_def)

lemma count_in_read:
  fixes n :: u32
  assumes "v_u64 w v = Some (ucast n)"
  shows "count_in w key v = Inr n"
proof -
  have "unat n < 2 ^ 32" using unat_lt_2p [of n] by simp
  then have "(ucast n :: u64) \<le> 2 ^ 32 - 1" by (simp add: word_le_nat_alt unat_ucast_up)
  moreover have "ucast (ucast n :: u64) = n" by (rule ucast_ucast_up) simp
  ultimately show ?thesis using assms by (simp add: count_in_def)
qed

lemma limit_of_keys_valid:
  "limit_of_keys w obj l keys = Inr (Some l') \<Longrightarrow> (\<And>x. l = Some x \<Longrightarrow> ul_count x \<noteq> 0 \<and> ul_burst x \<noteq> 0) \<Longrightarrow>
    ul_count l' \<noteq> 0 \<and> ul_burst l' \<noteq> 0"
proof (induction keys arbitrary: l)
  case (Cons e keys)
  obtain key period where e: "e = (key, period)" by force
  have new: "ul_burst (user_limit_new n period) \<noteq> 0" for n
    using user_limit_made(1) [of n period] by (auto simp: user_limit_wf_def)
  have count: "ul_count (user_limit_new n period) = n" for n by (simp add: user_limit_new_def)
  show ?case
  proof (cases "obj key")
    case None
    then show ?thesis using Cons e by simp
  next
    case (Some v)
    then obtain n where "n \<noteq> 0" "limit_of_keys w obj (Some (user_limit_new n period)) keys = Inr (Some l')"
      using Cons.prems(1) e by (auto simp: accepted_iff)
    then show ?thesis using new count by (intro Cons.IH) auto
  qed
qed simp

lemma limit_from_json_valid:
  assumes "limit_from_json w v = Inr l"
  shows "ul_count l \<noteq> 0 \<and> ul_burst l \<noteq> 0"
proof -
  obtain obj l0 where l0: "limit_of_keys w obj None period_keys = Inr (Some l0)"
    "(case obj (ascii ''burst'') of None \<Rightarrow> Inr l0
      | Some b \<Rightarrow> if v_null w b then Inr l0 else and_then (count_in w (ascii ''burst'') b) (\<lambda>n. Inr (with_burst l0 n))) = (Inr l :: limit_refusal + user_limit)"
    using assms unfolding limit_from_json_def accepted_iff by blast
  have "ul_count l0 \<noteq> 0 \<and> ul_burst l0 \<noteq> 0" by (rule limit_of_keys_valid [OF l0(1)]) simp
  moreover have "max n 1 \<noteq> (0 :: u32)" for n by (auto simp: max_def)
  ultimately show ?thesis using l0(2) by (auto simp: accepted_iff with_burst_def split: option.splits if_splits)
qed

lemma limit_read_back:
  assumes laws: "json_laws w" and l: "ul_count l \<noteq> 0" "ul_burst l \<noteq> 0"
  shows "\<exists>v. limit_to_json w l = Some v \<and> limit_from_json w v = Inr l"
proof -
  obtain key where key: "limit_to_json w l = Some (v_make w [(key, ul_count l), (ascii ''burst'', ul_burst l)])"
    "(key, ul_period l) \<in> set period_keys"
    by (cases "ul_period l") (auto simp: limit_to_json_def period_keys_def)
  let ?kvs = "[(key, ul_count l), (ascii ''burst'', ul_burst l)]"
  have ne: "key \<noteq> ascii ''burst''" using key(2) by (auto simp: period_keys_def)
  then obtain obj where obj: "v_object w (v_make w ?kvs) = Some obj"
    "\<And>k. case map_of ?kvs k of None \<Rightarrow> obj k = None | Some n \<Rightarrow> \<exists>v. obj k = Some v \<and> v_u64 w v = Some (ucast n) \<and> \<not> v_null w v"
    using laws [unfolded json_laws_def, rule_format, of ?kvs] by auto
  have none: "obj k = None" if "k \<noteq> key" "k \<noteq> ascii ''burst''" for k using obj(2) [of k] that by simp
  obtain v where v: "obj key = Some v" "v_u64 w v = Some (ucast (ul_count l))" using obj(2) [of key] by auto
  obtain b where b: "obj (ascii ''burst'') = Some b" "v_u64 w b = Some (ucast (ul_burst l))" "\<not> v_null w b"
    using obj(2) [of "ascii ''burst''"] ne by auto
  have "1 \<le> ul_burst l" using l(2) by (simp add: word_le_nat_alt Suc_le_eq unat_gt_0)
  then have "max (ul_burst l) 1 = ul_burst l" by simp
  then have "with_burst (user_limit_new (ul_count l) (ul_period l)) (ul_burst l) = l"
    by (cases l) (simp add: with_burst_def user_limit_new_def)
  moreover have "limit_of_keys w obj None period_keys = Inr (Some (user_limit_new (ul_count l) (ul_period l)))"
  proof (cases "ul_period l")
    case Second
    then have "key = ascii ''per_second''" using key(2) by (auto simp: period_keys_def)
    then show ?thesis using Second v none l(1) count_in_read [OF v(2)] by (simp add: period_keys_def and_then_def refuse_if_def)
  next
    case Minute
    then have "key = ascii ''per_minute''" using key(2) by (auto simp: period_keys_def)
    then show ?thesis using Minute v none l(1) count_in_read [OF v(2)]
      by (simp add: period_keys_def and_then_def refuse_if_def)
  next
    case Hour
    then have "key = ascii ''per_hour''" using key(2) by (auto simp: period_keys_def)
    then show ?thesis using Hour v none l(1) count_in_read [OF v(2)]
      by (simp add: period_keys_def and_then_def refuse_if_def)
  qed
  ultimately have "limit_from_json w (v_make w ?kvs) = Inr l"
    using obj(1) b count_in_read [OF b(2)] by (simp add: limit_from_json_def and_then_def ok_or_def)
  then show ?thesis using key(1) by blast
qed

text \<open>
  A limit reads back. A limit told as JSON is read as the same limit: exactly the limits that count something and have
  a burst, which are all those a body can give.
\<close>

theorem limit_json_roundtrip:
  assumes "json_laws w"
  shows "((\<exists>v. limit_to_json w l = Some v \<and> limit_from_json w v = Inr l) \<longleftrightarrow> ul_count l \<noteq> 0 \<and> ul_burst l \<noteq> 0) \<and>
    ((\<exists>v. limit_from_json w v = Inr l) \<longleftrightarrow> ul_count l \<noteq> 0 \<and> ul_burst l \<noteq> 0)"
proof (cases "ul_count l \<noteq> 0 \<and> ul_burst l \<noteq> 0")
  case True
  then obtain v where "limit_to_json w l = Some v" "limit_from_json w v = Inr l" using limit_read_back [OF assms] by metis
  then show ?thesis using True by auto
next
  case False
  then have "limit_from_json w v \<noteq> Inr l" for v using limit_from_json_valid [of w v l] by metis
  then show ?thesis using False by simp
qed

text \<open>A \<open>Value\<close> to evaluate examples with.\<close>

datatype example_value = ExampleObject "(bytes \<times> u32) list" | ExampleNumber u32

definition example_web :: "example_value web" where
  "example_web = \<lparr>w_check = (\<lambda>body. Some (body, None)), w_map = (\<lambda>body. Some []), w_list = (\<lambda>body. None),
     w_value = (\<lambda>body. Some (ExampleObject [(ascii ''per_minute'', 600)])), w_switch = (\<lambda>body. Some True),
     w_query = (\<lambda>query. Some (query, [])), w_body_limit = 2097152,
     v_object = (\<lambda>v. case v of ExampleObject kvs \<Rightarrow> Some (\<lambda>k. map_option ExampleNumber (map_of kvs k)) | ExampleNumber n \<Rightarrow> None),
     v_u64 = (\<lambda>v. case v of ExampleNumber n \<Rightarrow> Some (ucast n) | ExampleObject kvs \<Rightarrow> None), v_string = (\<lambda>v. None),
     v_null = (\<lambda>v. False), v_make = ExampleObject\<rparr>"

lemma example_web_laws: "json_laws example_web"
  by (auto simp: json_laws_def example_web_def split: option.split)

theorem limit_json_roundtrip_witness:
  "\<exists>v. limit_to_json example_web \<lparr>ul_count = 600, ul_period = Minute, ul_burst = 30\<rparr> = Some v \<and>
    limit_from_json example_web v = Inr \<lparr>ul_count = 600, ul_period = Minute, ul_burst = 30\<rparr>"
  using limit_json_roundtrip [OF example_web_laws, of "\<lparr>ul_count = 600, ul_period = Minute, ul_burst = 30\<rparr>"] by simp

section \<open>What is asked of the guard\<close>

lemma check_hashed_table: "check_hashed h sh cls key now = Some (ck, sh') \<Longrightarrow> \<exists>t. sh' = sh\<lparr>sh_table := t\<rparr>"
  by (auto simp: check_hashed_def Let_def split: bind_splits prod.splits)

lemma traced_default: "guard_check_traced h sh key now = guard_check_in_traced h sh [] key now"
  by (simp add: guard_check_traced_def guard_check_in_traced_def class_hash_def)

lemma traced_ok:
  assumes "shared_wf h sh"
  shows "\<exists>ck t. guard_check_in_traced h sh cls key now = Some (ck, sh\<lparr>sh_table := t\<rparr>) \<and> shared_wf h (sh\<lparr>sh_table := t\<rparr>)"
proof -
  let ?c = "class_hash h cls"
  let ?key = "guard_hash h sh ?c key"
  have "?key \<noteq> EMPTY" "?key \<noteq> BUSY"
    using salted_hash_free [of h "sh_salt sh" ?c key] by (simp_all add: guard_hash_def EMPTY_def BUSY_def)
  from check_hashed_ok [OF assms this, of ?c now]
  obtain ck sh' where run: "check_hashed h sh ?c ?key now = Some (ck, sh')" "shared_wf h sh'" by blast
  obtain t where "sh' = sh\<lparr>sh_table := t\<rparr>" using check_hashed_table [OF run(1)] by blast
  then show ?thesis using run by (auto simp: guard_check_in_traced_def Let_def)
qed

lemma share_in_ok:
  assumes "shared_wf h sh"
  shows "guard_share_in h sh cls key \<noteq> None"
proof (cases "table_find h (sh_table sh) (guard_key_hash_in h sh cls key)")
  case None
  then show ?thesis by (simp add: guard_share_in_def)
next
  case (Some i)
  have t: "table_ok h (sh_table sh)" using assms by (simp add: shared_wf_def)
  have key: "guard_key_hash_in h sh cls key \<noteq> EMPTY" "guard_key_hash_in h sh cls key \<noteq> BUSY"
    using salted_hash_free [of h "sh_salt sh" "class_hash h cls" key] by (simp_all add: guard_key_hash_in_def guard_hash_def EMPTY_def BUSY_def)
  have "i < length (kt_slots (sh_table sh))"
    by (cases rule: claim_places [OF t key, case_names Found Full Taken]) (use Some in auto)
  then have "slot_ok (kt_slots (sh_table sh) ! i)" using t by (simp add: table_ok_def)
  then obtain q where "slot_quota (sh_table sh) i = Some q" using packed_unpack by (auto simp: slot_ok_def slot_quota_def)
  then show ?thesis using Some by (simp add: guard_share_in_def)
qed

lemma limit_to_json_total: "limit_to_json w l \<noteq> None"
  by (cases "ul_period l") (simp_all add: limit_to_json_def)

lemma key_stats_ok:
  assumes "shared_wf h (ap_guard app)"
  shows "serve_key_stats h w app query told \<noteq> None"
proof (cases "w_query w query")
  case None
  then show ?thesis by (simp add: serve_key_stats_def)
next
  case (Some r)
  obtain key cls where r: "r = (key, cls)" by force
  have "guard_key_stats h (ap_guard app) cls key (told cls key) \<noteq> None"
    using share_in_ok [OF assms, of cls key] by (auto simp: guard_key_stats_def split: option.split)
  then obtain s where s: "guard_key_stats h (ap_guard app) cls key (told cls key) = Some s" by blast
  show ?thesis
  proof (cases s)
    case None
    then show ?thesis using Some r s by (simp add: serve_key_stats_def)
  next
    case (Some st)
    obtain l where "limit_to_json w (kst_limit st) = Some l" using limit_to_json_total [of w "kst_limit st"] by blast
    moreover have "(case kst_shadow st of None \<Rightarrow> Some None | Some x \<Rightarrow> map_option Some (limit_to_json w x)) \<noteq> None"
      using limit_to_json_total [of w] by (simp split: option.split)
    ultimately show ?thesis using \<open>w_query w query = Some r\<close> r s Some by (auto simp: serve_key_stats_def)
  qed
qed

section \<open>What is changed through the API\<close>

lemma limits_read_made: "limits_from_json w vs = Inr ls \<Longrightarrow> \<forall>c \<in> set ls. given_made_wf c"
proof (induction w vs arbitrary: ls rule: limits_from_json.induct)
  case (2 w name v vs)
  then obtain l ls' where "limit_from_json w v = Inr l" "limits_from_json w vs = Inr ls'" "ls = (name, l) # ls'"
    by (auto simp: accepted_iff split: sum.splits)
  moreover have "user_limit_wf l" using limit_from_json_valid [OF \<open>limit_from_json w v = Inr l\<close>]
    by (simp add: user_limit_wf_def word_neq_0_conv)
  ultimately show ?case using "2.IH" by (simp add: given_made_wf_def)
qed simp

lemma key_limit_read_made:
  assumes "key_limit_from_json w v = Inr e"
  shows "entry_made e"
proof -
  obtain l as_class kl where kl: "snd (snd e) = kl"
    "(case (l, as_class) of
        (Some x, None) \<Rightarrow> (case limit_from_json w x of Inl err \<Rightarrow> Inl (BadLimit err) | Inr l \<Rightarrow> Inr (OwnLimit l))
      | (None, Some name) \<Rightarrow> Inr (OfClass name)
      | _ \<Rightarrow> Inl LimitAndClass) = (Inr kl :: entry_refusal + key_limit)"
    using assms unfolding key_limit_from_json_def accepted_iff by auto
  have "user_limit_wf x" if "limit_from_json w y = Inr x" for x y
    using limit_from_json_valid [OF that] by (simp add: user_limit_wf_def word_neq_0_conv)
  then show ?thesis using kl by (cases l; cases as_class; cases "limit_from_json w (the l)") (auto simp: entry_made_def)
qed

lemma key_limits_read_made: "key_limits_from_json w i vs = Inr es \<Longrightarrow> \<forall>e \<in> set es. entry_made e"
proof (induction w i vs arbitrary: es rule: key_limits_from_json.induct)
  case (2 w i v vs)
  then obtain e es' where "key_limit_from_json w v = Inr e" "key_limits_from_json w (i + 1) vs = Inr es'" "es = e # es'"
    by (auto simp: accepted_iff split: sum.splits)
  then show ?case using "2.IH" key_limit_read_made by simp
qed simp

text \<open>What a change by an operation of the classes or of the key limits is answered and leaves.\<close>

definition changed_ok :: "hashes \<Rightarrow> app \<Rightarrow> 'v response \<times> app \<Rightarrow> bool" where
  "changed_ok h app r = (shared_wf h (ap_guard (snd r)) \<and> (\<forall>err. fst r = BadRequest err \<longrightarrow> snd r = app) \<and>
     ap_admin (snd r) = ap_admin app)"

lemma changed_same: "shared_wf h (ap_guard app) \<Longrightarrow> changed_ok h app (r, app)"
  by (simp add: changed_ok_def)

lemma classes_changed:
  assumes wf: "shared_wf h (ap_guard app)" and made: "class_op_made op"
  shows "changed_ok h app (answered app (on_classes (ap_guard app) (class_step h (sh_classes (ap_guard app)) op)))"
proof -
  let ?cl = "sh_classes (ap_guard app)"
  obtain r cl' where run: "class_step h ?cl op = (r, cl')" by force
  have lim: "classes_wf h ?cl" "classes_made ?cl" using wf by (simp_all add: shared_wf_def limits_wf_def)
  have "classes_wf h cl' \<and> (\<forall>err. r = Inl err \<longrightarrow> cl' = ?cl)" using class_step_wf [OF lim(1) run] by blast
  moreover have "classes_made cl'" using class_step_made [OF lim(2) made, of h] run by simp
  ultimately show ?thesis using wf run
    by (auto simp: changed_ok_def answered_def on_classes_def shared_wf_def limits_wf_def split: sum.splits)
qed

lemma key_limits_changed:
  assumes wf: "shared_wf h (ap_guard app)" and made: "key_limit_op_made op"
  shows "changed_ok h app (answered app (on_key_limits (ap_guard app) (key_limit_step (sh_key_limits (ap_guard app)) op)))"
proof -
  let ?kl = "sh_key_limits (ap_guard app)"
  obtain r kl' where run: "key_limit_step ?kl op = (r, kl')" by force
  have lim: "key_limits_wf ?kl" "key_limits_made ?kl" using wf by (simp_all add: shared_wf_def limits_wf_def)
  have "key_limits_wf kl' \<and> (\<forall>err. r = Inl err \<longrightarrow> kl' = ?kl)" using key_limit_step_wf [OF lim(1) run] by blast
  moreover have "key_limits_made kl'" using key_limit_step_made [OF lim(2) made] run by simp
  ultimately show ?thesis using wf run
    by (auto simp: changed_ok_def answered_def on_key_limits_def shared_wf_def limits_wf_def split: sum.splits)
qed

lemma set_classes_ok:
  assumes wf: "shared_wf h (ap_guard app)"
  shows "changed_ok h app (serve_set_classes h w app body)" "changed_ok h app (serve_set_shadows h w app body)"
    "changed_ok h app (serve_set_limit w app body)"
proof -
  have "changed_ok h app (answered app (guard_set_classes h (ap_guard app) ls))"
    "changed_ok h app (answered app (guard_set_shadows h (ap_guard app) ls))" if "\<forall>c \<in> set ls. given_made_wf c" for ls
    using classes_changed [OF wf, of "ReplaceClasses ls"] classes_changed [OF wf, of "ReplaceShadows ls"] that
    by (simp_all add: class_op_made_def guard_set_classes_def guard_set_shadows_def)
  then have read: "limits_from_json w vs = Inr ls \<Longrightarrow> changed_ok h app (answered app (guard_set_classes h (ap_guard app) ls))"
    "limits_from_json w vs = Inr ls \<Longrightarrow> changed_ok h app (answered app (guard_set_shadows h (ap_guard app) ls))" for vs ls
    using limits_read_made [of w vs ls] by blast+
  show "changed_ok h app (serve_set_classes h w app body)" "changed_ok h app (serve_set_shadows h w app body)"
    by (auto simp: serve_set_classes_def serve_set_shadows_def changed_same [OF wf] read split: option.split sum.split)
  have "changed_ok h app (answered app (guard_set_limit (ap_guard app) l))" if "limit_from_json w v = Inr l" for v l
    using classes_changed [OF wf, of "SetDefault l"] limit_from_json_valid [OF that]
    by (simp add: class_op_made_def guard_set_limit_def user_limit_wf_def word_neq_0_conv)
  then show "changed_ok h app (serve_set_limit w app body)"
    by (auto simp: serve_set_limit_def changed_same [OF wf] split: option.split sum.split)
qed

lemma set_key_limits_ok:
  assumes wf: "shared_wf h (ap_guard app)"
  shows "changed_ok h app (serve_set_key_limits h w app body)"
proof -
  have "changed_ok h app (answered app (guard_set_key_limits h (ap_guard app) es))" if "\<forall>e \<in> set es. entry_made e" for es
  proof -
    have "key_limit_op_made (ReplaceKeys (map (\<lambda>(class, key, l). (guard_key_hash_in h (ap_guard app) class key, (class, key, l))) es))"
      using that by (auto simp: key_limit_op_made_def)
    from key_limits_changed [OF wf this] show ?thesis by (simp add: guard_set_key_limits_def)
  qed
  then have "changed_ok h app (answered app (guard_set_key_limits h (ap_guard app) es))" if "key_limits_from_json w 0 vs = Inr es" for vs es
    using key_limits_read_made [OF that] by blast
  then show ?thesis by (auto simp: serve_set_key_limits_def changed_same [OF wf] split: option.split sum.split)
qed

lemma set_dry_run_ok: "shared_wf h (ap_guard app) \<Longrightarrow> changed_ok h app (serve_set_dry_run w app body)"
  by (auto simp: serve_set_dry_run_def changed_ok_def guard_set_dry_run_def shared_wf_def split: option.split)

definition same_rules :: "shared \<Rightarrow> shared \<Rightarrow> bool" where
  "same_rules sh sh' = (sh_classes sh' = sh_classes sh \<and> sh_key_limits sh' = sh_key_limits sh \<and> sh_dry_run sh' = sh_dry_run sh \<and>
     sh_auth sh' = sh_auth sh \<and> sh_salt sh' = sh_salt sh)"

lemma admin_route_ok:
  assumes "shared_wf h (ap_guard app)" "changed_ok h app (f app body)"
  shows "\<exists>r app'. admin_route w app f body = Some (r, app') \<and> changed_ok h app (r, app') \<and> (\<not> ap_admin app \<longrightarrow> app' = app)"
  using assms by (cases "f app body") (simp add: admin_route_def changed_same)

lemma serve_ok:
  assumes wf: "shared_wf h (ap_guard app)"
  shows "\<exists>r app'. serve h w told now app c = Some (r, app') \<and> changed_ok h app (r, app') \<and>
    (\<not> ap_admin app \<longrightarrow> same_rules (ap_guard app) (ap_guard app'))"
proof -
  have admin: "\<exists>r app'. admin_route w app f body = Some (r, app') \<and> changed_ok h app (r, app') \<and>
      (\<not> ap_admin app \<longrightarrow> same_rules (ap_guard app) (ap_guard app'))" if ok: "changed_ok h app (f app body)"
    for f :: "app \<Rightarrow> bytes \<Rightarrow> 'a response \<times> app" and body
  proof -
    obtain r app' where "admin_route w app f body = Some (r, app')" "changed_ok h app (r, app')" "\<not> ap_admin app \<longrightarrow> app' = app"
      using admin_route_ok [where f = f, OF wf ok] by blast
    then show ?thesis by (auto simp: same_rules_def)
  qed
  have same: "\<exists>r' app'. Some (r, app) = Some (r', app') \<and> changed_ok h app (r', app') \<and>
      (\<not> ap_admin app \<longrightarrow> same_rules (ap_guard app) (ap_guard app'))" for r :: "'a response"
    using changed_same [OF wf, of r] by (simp add: same_rules_def)
  show ?thesis
  proof (cases c)
    case (PostCheck body)
    show ?thesis
    proof (cases "MAX_BODY < length body \<or> w_check w body = None")
      case True
      then show ?thesis using same PostCheck by (auto simp: serve_check_def)
    next
      case False
      then obtain kb cb where body: "w_check w body = Some (kb, cb)" "\<not> MAX_BODY < length body" by auto
      obtain ck t where run: "guard_check_in_traced h (ap_guard app) (unwrap_or (map_option lossy cb) []) (lossy kb) now =
          Some (ck, (ap_guard app)\<lparr>sh_table := t\<rparr>)" "shared_wf h ((ap_guard app)\<lparr>sh_table := t\<rparr>)"
        using traced_ok [OF wf] by blast
      have "(case map_option lossy cb of Some c \<Rightarrow> guard_check_in_traced h (ap_guard app) c (lossy kb) now
          | None \<Rightarrow> guard_check_traced h (ap_guard app) (lossy kb) now) = Some (ck, (ap_guard app)\<lparr>sh_table := t\<rparr>)"
        using run(1) by (cases cb) (simp_all add: traced_default unwrap_or_def)
      then show ?thesis using PostCheck body run(2)
        by (cases "ck_decision ck") (simp_all add: serve_check_def Let_def changed_ok_def same_rules_def)
    qed
  next
    case (GetKeys query)
    obtain r where "serve_key_stats h w app query told = Some r" using key_stats_ok [OF wf, of w query told] by blast
    then show ?thesis using GetKeys same [of r] by simp
  next
    case (PutClasses body)
    show ?thesis unfolding PutClasses serve.simps by (rule admin, rule set_classes_ok [OF wf])
  next
    case (PutLimit body)
    show ?thesis unfolding PutLimit serve.simps by (rule admin, rule set_classes_ok [OF wf])
  next
    case (PutDryRun body)
    show ?thesis unfolding PutDryRun serve.simps by (rule admin, rule set_dry_run_ok [OF wf])
  next
    case (PutKeyLimits body)
    show ?thesis unfolding PutKeyLimits serve.simps by (rule admin, rule set_key_limits_ok [OF wf])
  next
    case (PutShadows body)
    show ?thesis unfolding PutShadows serve.simps by (rule admin, rule set_classes_ok [OF wf])
  qed (use same in simp_all)
qed

fun serve_all ::
  "hashes \<Rightarrow> 'v web \<Rightarrow> (bytes \<Rightarrow> bytes \<Rightarrow> key_rates option) \<Rightarrow> app \<Rightarrow> (call \<times> nanos) list \<Rightarrow> ('v response list \<times> app) option" where
  "serve_all h w told app [] = Some ([], app)"
| "serve_all h w told app ((c, now) # cs) = do {
     (r, app1) \<leftarrow> serve h w told now app c;
     (rs, app2) \<leftarrow> serve_all h w told app1 cs;
     Some (r # rs, app2)
   }"

lemma serve_all_ok:
  "shared_wf h (ap_guard app) \<Longrightarrow> \<exists>rs app'. serve_all h w told app calls = Some (rs, app') \<and> length rs = length calls \<and>
    shared_wf h (ap_guard app') \<and> ap_admin app' = ap_admin app \<and> (\<not> ap_admin app \<longrightarrow> same_rules (ap_guard app) (ap_guard app'))"
proof (induction calls arbitrary: app)
  case Nil
  then show ?case by (simp add: same_rules_def)
next
  case (Cons e calls)
  obtain c now where e: "e = (c, now)" by force
  obtain r app1 where s: "serve h w told now app c = Some (r, app1)" "changed_ok h app (r, app1)"
    "\<not> ap_admin app \<longrightarrow> same_rules (ap_guard app) (ap_guard app1)"
    using serve_ok [OF Cons.prems] by blast
  have "shared_wf h (ap_guard app1)" "ap_admin app1 = ap_admin app" using s(2) by (simp_all add: changed_ok_def)
  from Cons.IH [OF this(1)] this(2) show ?case using s(1,3) e by (auto simp: same_rules_def)
qed

text \<open>
  C30. The sidecar serves. Whatever requests come, whatever their bodies and whenever, each is answered and nothing panics:
  the guard keeps its invariant. A request refused with a \<open>400\<close> changes nothing at all, neither a limit, a name nor a
  count. And without \<open>admin\<close> no request changes a limit, the dry run, the secrets or the salt.
\<close>

theorem sidecar_serves:
  assumes "shared_wf h sh"
  shows "\<exists>rs app. serve_all h w told (app_new sh admin metrics) calls = Some (rs, app) \<and> length rs = length calls \<and>
    shared_wf h (ap_guard app) \<and>
    (\<forall>c now err app'. serve h w told now app c = Some (BadRequest err, app') \<longrightarrow> app' = app) \<and>
    (\<not> admin \<longrightarrow> same_rules sh (ap_guard app))"
proof -
  let ?app = "app_new sh admin metrics"
  have new: "ap_guard ?app = sh" "ap_admin ?app = admin" by (simp_all add: app_new_def)
  obtain rs app where run: "serve_all h w told ?app calls = Some (rs, app)" "length rs = length calls" "shared_wf h (ap_guard app)"
      "\<not> ap_admin ?app \<longrightarrow> same_rules (ap_guard ?app) (ap_guard app)"
    using serve_all_ok [of h ?app w told calls] assms new by auto
  have "app' = app" if "serve h w told now app c = Some (BadRequest err, app')" for c now err app'
    using serve_ok [OF run(3), of w told now c] that by (simp add: changed_ok_def)
  then show ?thesis using run new by auto
qed

theorem sidecar_serves_witness:
  "\<exists>rs app. serve_all example_hashes example_web (\<lambda>cls key. None) (app_new example_shared True False)
      [(PostCheck [97], 1000), (PutLimit [], 2000), (PutKeyLimits [], 3000), (GetKeys [97], 4000), (GetStats, 5000)] = Some (rs, app) \<and>
    length rs = 5 \<and> shared_wf example_hashes (ap_guard app)"
  using sidecar_serves [OF example_shared_wf, of example_web "\<lambda>cls key. None" True False
    "[(PostCheck [97], 1000), (PutLimit [], 2000), (PutKeyLimits [], 3000), (GetKeys [97], 4000), (GetStats, 5000)]"]
  by auto

section \<open>A check\<close>

lemma millis_up_bounds: "unat t \<le> millis_up t * 1000000 \<and> millis_up t * 1000000 < unat t + 1000000"
proof -
  have "unat t + 999999 = 1000000 * millis_up t + (unat t + 999999) mod 1000000" by (simp add: millis_up_def)
  moreover have "(unat t + 999999) mod 1000000 < 1000000" by simp
  ultimately show ?thesis by linarith
qed

fun hash_of_denial :: "denial \<Rightarrow> u64" where
  "hash_of_denial (Denial hash cls key) = hash"
| "hash_of_denial (ShadowDenial hash cls key) = hash"

lemma denied_get_names:
  assumes "denied_ok capacity n d"
  shows "denied_get d hash = None \<longleftrightarrow> map_of (fst (denied_names d)) hash = None \<and> map_of (snd (denied_names d)) hash = None"
proof -
  have "recent_ok n (dn_real d)" "recent_ok n (dn_shadow d)" using assms by (simp_all add: denied_ok_def)
  from recent_ok_get [OF this(1)] recent_ok_get [OF this(2)] show ?thesis
    by (simp add: denied_get_def denied_names_def split: option.split)
qed

lemma map_of_newest: "\<exists>found. map_of (xs @ [(hash, nk)]) hash = Some found"
  by (cases "map_of xs hash") (simp_all add: map_add_Some_iff)

lemma denial_named:
  assumes ok: "denied_ok capacity n d" "n < 2 ^ 64 - 1" and capacity: "0 < capacity"
  shows "denied_get (denied_step d e) (hash_of_denial e) \<noteq> None"
proof -
  note s = denied_step_spec [OF ok, of e]
  obtain named shadow where names: "denied_names d = (named, shadow)" by force
  have "map_of (fst (names_step capacity (named, shadow) e)) (hash_of_denial e) \<noteq> None \<or>
      map_of (snd (names_step capacity (named, shadow) e)) (hash_of_denial e) \<noteq> None"
  proof (cases e)
    case (Denial hash cls key)
    then show ?thesis using capacity by (simp add: map_of_newest add_newest_def del: map_of_append split: option.split)
  next
    case (ShadowDenial hash cls key)
    then show ?thesis using capacity by (simp add: map_of_newest add_newest_def del: map_of_append split: option.split)
  qed
  then show ?thesis using s denied_get_names [of capacity "n + 1" "denied_step d e" "hash_of_denial e"] names by auto
qed

text \<open>Whether a check denied its key, or would have by its shadow.\<close>

definition denies :: "checked_request \<Rightarrow> bool" where
  "denies ck = (is_denied (ck_decision ck) \<or> (case ck_shadow ck of Some d \<Rightarrow> is_denied d | None \<Rightarrow> False))"

lemma name_denied_steps:
  "name_denied h app cls key ck = (let hash = guard_key_hash_in h (ap_guard app) cls key in
     if is_denied (ck_decision ck) then denied_step (ap_denied app) (Denial hash cls key)
     else if denies ck then denied_step (ap_denied app) (ShadowDenial hash cls key)
     else ap_denied app)"
  by (simp add: name_denied_def denies_def Let_def)

text \<open>
  C31. A check through the sidecar is the guard's, of the class and key as text, no class being the default one. The answer is
  the decision's alone, a denial's wait rounded up to the next millisecond: a client that waits it does not retry too
  early. A key denied, or denied by its shadow only, is named afterwards; any other check leaves the names alone.
\<close>

theorem sidecar_check_answers:
  assumes wf: "shared_wf h (ap_guard app)" and body: "w_check w body = Some (key_bytes, class_bytes)"
    and names: "denied_ok capacity n (ap_denied app)" "n < 2 ^ 64 - 1" "0 < capacity"
    and key: "key = lossy key_bytes" and cls: "cls = unwrap_or (map_option lossy class_bytes) []"
  shows "\<exists>ck sh' r app'. guard_check_in_traced h (ap_guard app) cls key now = Some (ck, sh') \<and>
    serve_check h w app body now = Some (r, app') \<and> ap_guard app' = sh' \<and> denied_ok capacity (n + 1) (ap_denied app') \<and>
    (case ck_decision ck of Allowed \<Rightarrow> r = Admit
     | Denied t \<Rightarrow> \<exists>ms. r = Refuse ms \<and> unat t \<le> ms * 1000000 \<and> ms * 1000000 < unat t + 1000000) \<and>
    (if denies ck then denied_get (ap_denied app') (guard_key_hash_in h (ap_guard app) cls key) \<noteq> None
     else ap_denied app' = ap_denied app)"
proof -
  obtain ck t where run: "guard_check_in_traced h (ap_guard app) cls key now = Some (ck, (ap_guard app)\<lparr>sh_table := t\<rparr>)"
    using traced_ok [OF wf] by blast
  have "(case map_option lossy class_bytes of Some c \<Rightarrow> guard_check_in_traced h (ap_guard app) c key now
      | None \<Rightarrow> guard_check_traced h (ap_guard app) key now) = Some (ck, (ap_guard app)\<lparr>sh_table := t\<rparr>)"
    using run cls by (cases class_bytes) (simp_all add: traced_default unwrap_or_def)
  then have s: "serve_check h w app body now = Some (case ck_decision ck of Allowed \<Rightarrow> Admit | Denied retry \<Rightarrow> Refuse (millis_up retry),
      app\<lparr>ap_guard := (ap_guard app)\<lparr>sh_table := t\<rparr>, ap_denied := name_denied h app cls key ck\<rparr>)"
    using body key cls by (cases class_bytes) (simp_all add: serve_check_def Let_def)
  have "denied_ok capacity (n + 1) (ap_denied app)" using names(1) recent_ok_mono [of n _ "n + 1"] by (simp add: denied_ok_def)
  then have "denied_ok capacity (n + 1) (name_denied h app cls key ck)"
    using denied_step_spec [OF names(1,2)] by (simp add: name_denied_steps Let_def del: denied_step.simps)
  moreover have "denied_get (name_denied h app cls key ck) (guard_key_hash_in h (ap_guard app) cls key) \<noteq> None" if "denies ck"
    using that denial_named [OF names, of "Denial (guard_key_hash_in h (ap_guard app) cls key) cls key"]
      denial_named [OF names, of "ShadowDenial (guard_key_hash_in h (ap_guard app) cls key) cls key"]
    by (simp add: name_denied_steps Let_def)
  moreover have "name_denied h app cls key ck = ap_denied app" if "\<not> denies ck"
    using that by (simp add: name_denied_steps Let_def) (simp add: denies_def)
  moreover have "case ck_decision ck of Allowed \<Rightarrow> (case ck_decision ck of Allowed \<Rightarrow> Admit | Denied retry \<Rightarrow> Refuse (millis_up retry)) = (Admit :: 'a response)
     | Denied t \<Rightarrow> \<exists>ms. (case ck_decision ck of Allowed \<Rightarrow> Admit | Denied retry \<Rightarrow> Refuse (millis_up retry)) = (Refuse ms :: 'a response) \<and>
         unat t \<le> ms * 1000000 \<and> ms * 1000000 < unat t + 1000000"
    using millis_up_bounds by (cases "ck_decision ck") simp_all
  ultimately show ?thesis using run s by (intro exI conjI) auto
qed

theorem sidecar_check_answers_witness:
  "\<exists>ck sh' r app'. guard_check_in_traced example_hashes example_shared [] [97] 1000 = Some (ck, sh') \<and>
    serve_check example_hashes example_web (app_new example_shared True False) [97] 1000 = Some (r, app') \<and> ap_guard app' = sh'"
proof -
  let ?app = "app_new example_shared True False"
  have wf: "shared_wf example_hashes (ap_guard ?app)" using example_shared_wf by (simp add: app_new_def)
  have body: "w_check example_web [97] = Some ([97], None)" by (simp add: example_web_def)
  have names: "denied_ok 1024 0 (ap_denied ?app)" "(0 :: nat) < 2 ^ 64 - 1" "0 < (1024 :: nat)"
    using denied_new_ok(1) [of 1024] by (simp_all add: app_new_def denied_default_def)
  have "[97] = lossy [97 :: u8]" by (simp add: unit_at_def byte_at_def utf8_char_width_def)
  from sidecar_check_answers [OF wf body names this refl, of 1000] show ?thesis
    by (auto simp: unwrap_or_def app_new_def)
qed

end
