(* ===== verification/Sidecar_Args_Contract.thy ===== *)
theory Sidecar_Args_Contract
  imports Sidecar Builder_Contract
begin

text \<open>
  What the flags and files of the sidecar promise (\<open>rateguard-sidecar/src/secrets.rs\<close>, \<open>args.rs\<close>): which files of secrets are
  read, and that a builder the flags make starts a guard or is refused for something the flags do not check.
\<close>

section \<open>The file of secrets\<close>

definition secret_lines :: "bytes list \<Rightarrow> bytes list" where
  "secret_lines ls = filter (\<lambda>l. l \<noteq> []) (map trim_ascii ls)"

lemma secret_new_Inr: "secret_new bytes = Inr s \<longleftrightarrow> s = bytes \<and> MIN_SECRET \<le> length bytes"
  by (auto simp: secret_new_def)

lemma read_lines_Inr:
  "read_secret_lines base64 i full acc ls = Inr r \<Longrightarrow>
    \<exists>ss. r = acc @ ss \<and> map base64 (secret_lines ls) = map Some ss \<and> list_all (\<lambda>s. MIN_SECRET \<le> length s) ss"
proof (induction base64 i full acc ls rule: read_secret_lines.induct)
  case (1 base64 i full acc)
  then show ?case by (simp add: secret_lines_def)
next
  case (2 base64 i full acc l ls)
  show ?case
  proof (cases "trim_ascii l = []")
    case True
    then show ?thesis using "2.IH"(1) [OF refl True] "2.prems" by (simp add: secret_lines_def)
  next
    case False
    obtain s where s: "base64 (trim_ascii l) = Some s" "MIN_SECRET \<le> length s"
        "read_secret_lines base64 (i + 1) (length (trim_ascii l) = 64) (acc @ [s]) ls = Inr r"
      using "2.prems" False by (auto simp: Let_def secret_new_Inr split: option.splits sum.splits if_splits)
    have "secret_new s = Inr s" using s(2) by (simp add: secret_new_Inr)
    have "\<exists>ss. r = (acc @ [s]) @ ss \<and> map base64 (secret_lines ls) = map Some ss \<and> list_all (\<lambda>s. MIN_SECRET \<le> length s) ss"
    proof (rule "2.IH"(2) [OF refl False s(1) _ \<open>secret_new s = Inr s\<close> s(3)])
      show "\<not> (full \<and> ((case secret_new s of Inl x \<Rightarrow> True | Inr x \<Rightarrow> False) \<or> length acc = 2))"
        using "2.prems" False s(1) by (auto simp: Let_def)
    qed
    then obtain ss where "r = acc @ s # ss" "map base64 (secret_lines ls) = map Some ss" "list_all (\<lambda>s. MIN_SECRET \<le> length s) ss"
      by auto
    then show ?thesis using s False by (intro exI [of _ "s # ss"]) (simp add: secret_lines_def)
  qed
qed

lemma read_lines_enough:
  "map base64 (secret_lines ls) = map Some ss \<Longrightarrow> list_all (\<lambda>s. MIN_SECRET \<le> length s) ss \<Longrightarrow> length acc + length ss \<le> 2 \<Longrightarrow>
    read_secret_lines base64 i full acc ls = Inr (acc @ ss)"
proof (induction ls arbitrary: i full acc ss)
  case Nil
  then show ?case by (simp add: secret_lines_def)
next
  case (Cons l ls)
  show ?case
  proof (cases "trim_ascii l = []")
    case True
    then show ?thesis using Cons by (simp add: secret_lines_def)
  next
    case False
    then obtain s ss' where ss: "ss = s # ss'" "base64 (trim_ascii l) = Some s" "map base64 (secret_lines ls) = map Some ss'"
      using Cons.prems(1) by (auto simp: secret_lines_def)
    have "secret_new s = Inr s" using Cons.prems(2) ss(1) by (simp add: secret_new_Inr)
    moreover have "length acc \<noteq> 2" using Cons.prems(3) ss(1) by simp
    moreover have "read_secret_lines base64 (i + 1) (length (trim_ascii l) = 64) (acc @ [s]) ls = Inr ((acc @ [s]) @ ss')"
      by (rule Cons.IH [OF ss(3)]) (use Cons.prems(2,3) ss(1) in simp_all)
    ultimately show ?thesis using False ss by simp
  qed
qed

text \<open>A round of rereading: secrets that cannot be read or are refused leave those in force alone.\<close>

lemma reload_secrets_spec:
  assumes "reload_secrets base64 files path mode sh = (goes_on, failed, sh')"
  shows "goes_on = sh_running sh \<and> (failed \<or> \<not> goes_on \<longrightarrow> sh' = sh) \<and>
    (goes_on \<and> \<not> failed \<longrightarrow> (\<exists>ss a. read_secrets base64 files path = Inr ss \<and> auth_new mode ss = Inr a \<and> sh' = sh\<lparr>sh_auth := a\<rparr>))"
  using assms by (auto simp: reload_secrets_def guard_set_gossip_auth_def split: if_splits sum.splits)

text \<open>
  C35. The secrets of a file. They are read exactly if the file can be, and hold, line by line and blank lines aside, at most
  two secrets of at least \<open>MIN_SECRET\<close> bytes each in base64: these, in the order of the file, so the first signs. The guess
  that a line is the rest of a wrapped secret only decides which error is told, and refuses no file it should read.
\<close>

theorem secrets_read:
  "read_secrets base64 files path = Inr ss \<longleftrightarrow>
    (\<exists>content. files path = Some content \<and> map base64 (secret_lines (split_at NEWLINE content)) = map Some ss) \<and>
    list_all (\<lambda>s. MIN_SECRET \<le> length s) ss \<and> length ss \<le> 2"
proof
  assume "read_secrets base64 files path = Inr ss"
  then obtain content where content: "files path = Some content" "length ss \<le> 2"
      "read_secret_lines base64 0 False [] (split_at NEWLINE content) = Inr ss"
    unfolding read_secrets_def accepted_iff by auto
  from read_lines_Inr [OF content(3)]
  show "(\<exists>content. files path = Some content \<and> map base64 (secret_lines (split_at NEWLINE content)) = map Some ss) \<and>
      list_all (\<lambda>s. MIN_SECRET \<le> length s) ss \<and> length ss \<le> 2"
    using content(1,2) by auto
next
  assume ok: "(\<exists>content. files path = Some content \<and> map base64 (secret_lines (split_at NEWLINE content)) = map Some ss) \<and>
      list_all (\<lambda>s. MIN_SECRET \<le> length s) ss \<and> length ss \<le> 2"
  then obtain content where content: "files path = Some content" "map base64 (secret_lines (split_at NEWLINE content)) = map Some ss" by blast
  have "read_secret_lines base64 0 False [] (split_at NEWLINE content) = Inr ([] @ ss)"
    by (rule read_lines_enough [OF content(2)]) (use ok in simp_all)
  then show "read_secrets base64 files path = Inr ss" using content(1) ok by (simp add: read_secrets_def and_then_def ok_or_def refuse_if_def)
qed

section \<open>The flags\<close>

lemma limit_spec_wf: "limit_spec_of_text s = Some spec \<Longrightarrow> user_limit_wf (ls_limit spec)"
  by (auto simp: limit_spec_of_text_def limit_in_unit_def user_limit_made limit_per_second_def limit_per_minute_def
      limit_per_hour_def split: list.splits bind_splits option.splits if_splits)

lemma class_spec_wf: "class_spec_of_text s = Some (name, l) \<Longrightarrow> user_limit_wf l"
  using limit_spec_wf by (auto simp: class_spec_of_text_def split: bind_splits if_splits)

text \<open>The errors that are not about secrets or the salt.\<close>

definition plain_error :: "guard_error \<Rightarrow> bool" where
  "plain_error err = (case err of GossipAuth _ \<Rightarrow> False | ShortSalt _ \<Rightarrow> False | _ \<Rightarrow> True)"

lemma address_plain: "settled_addresses b = Inl err \<Longrightarrow> plain_error err"
  by (auto simp: settled_addresses_def address_in_def and_then_Inl refuse_if_Inl ok_or_Inl plain_error_def
      split: option.splits if_splits)

lemma seeds_plain: "sort_seeds texts = Inl err \<Longrightarrow> plain_error err"
  by (induction texts) (auto simp: plain_error_def split: option.splits sum.splits)

lemma to_core_plain: "to_core l = Inl err \<Longrightarrow> plain_error err"
  by (auto simp: to_core_def plain_error_def split: if_splits)

lemma checked_plain: "checked h cs n = Inl err \<Longrightarrow> plain_error err"
proof -
  have "checked_from h n named cs = Inl err \<Longrightarrow> plain_error err" for named
    by (induction h n named cs rule: checked_from.induct)
      (auto simp: plain_error_def[of EmptyClassName] plain_error_def[of "TooManyClasses _"] Let_def to_core_plain split: if_splits sum.splits)
  then show "checked h cs n = Inl err \<Longrightarrow> plain_error err" by (auto simp: checked_def split: sum.splits)
qed

lemma settings_plain:
  assumes "builder_settings h b = Inl err" "auth_new (bu_gossip_auth b) (bu_secrets b) = Inr auth" "salt_of b = Inr salt"
  shows "plain_error err"
proof -
  have other: "plain_error MissingLimit" "plain_error (TooManyHotKeys n)" "plain_error TooFewTrackedKeys"
    "plain_error (TooManyTrackedKeys n)" "plain_error (TooManyClasses n)" "plain_error (TooLargeMaxKeyLimits n)"
    "plain_error (TooManyMostDenied n)" "plain_error (TooLargeMaxMembers n)" "plain_error ZeroPeriod" for n
    by (simp_all add: plain_error_def)
  show ?thesis
    using assms(1) unfolding builder_settings_def salt_of_def [symmetric] assms(2,3)
    by (auto simp: and_then_Inl refuse_if_Inl ok_or_Inl Let_def other
        dest: address_plain seeds_plain to_core_plain checked_plain split: sum.splits)
qed

text \<open>A setting that is not about secrets or the salt.\<close>

definition unsigned_builder :: "builder \<Rightarrow> bool" where
  "unsigned_builder b = (bu_gossip_auth b = Off \<and> bu_secrets b = [] \<and> bu_salt b = None)"

definition plain_setting :: "setting \<Rightarrow> bool" where
  "plain_setting s = (case s of GossipSecrets _ _ \<Rightarrow> False | Salt _ \<Rightarrow> False | _ \<Rightarrow> True)"

lemma plain_setting_keeps: "unsigned_builder b \<Longrightarrow> plain_setting s \<Longrightarrow> unsigned_builder (builder_set h b s)"
  by (cases s) (simp_all add: unsigned_builder_def plain_setting_def)

lemma set_given_keeps:
  assumes "\<And>v. plain_setting (f v)" "\<And>v. setting_made (f v)" "unsigned_builder b" "builder_made b"
  shows "unsigned_builder (set_given h f x b)" "builder_made (set_given h f x b)"
  using assms plain_setting_keeps builder_set_made by (auto simp: set_given_def split: option.split)

lemma classes_told:
  "unsigned_builder b \<Longrightarrow> builder_made b \<Longrightarrow> \<forall>(name, l) \<in> set cs. user_limit_wf l \<Longrightarrow>
    unsigned_builder (foldl (\<lambda>b (name, l). builder_set h b (ClassOf name l)) b cs) \<and>
    builder_made (foldl (\<lambda>b (name, l). builder_set h b (ClassOf name l)) b cs)"
proof (induction cs arbitrary: b)
  case (Cons c cs)
  obtain name l where c: "c = (name, l)" by force
  have "unsigned_builder (builder_set h b (ClassOf name l))"
    by (rule plain_setting_keeps [OF Cons.prems(1)]) (simp add: plain_setting_def)
  moreover have "builder_made (builder_set h b (ClassOf name l))"
    by (rule builder_set_made [OF Cons.prems(2)]) (use Cons.prems(3) c in \<open>simp add: setting_made_def\<close>)
  moreover have "\<forall>(name, l) \<in> set cs. user_limit_wf l" using Cons.prems(3) by simp
  ultimately show ?case using Cons.IH [of "builder_set h b (ClassOf name l)"] c by (simp del: builder_set.simps)
qed simp

lemma args_settings_made:
  assumes "user_limit_wf (ls_limit (ar_limit a))" "\<forall>(name, l) \<in> set (ar_classes a). user_limit_wf l"
  shows "unsigned_builder (args_settings h a) \<and> builder_made (args_settings h a)"
proof -
  let ?b0 = "foldl (builder_set h) builder_new
    [DefaultLimit (ls_limit (ar_limit a)), BindTo (ar_bind a), Seeds (ar_seeds a), DryRun (ar_dry_run a)]"
  have b0: "unsigned_builder ?b0" "builder_made ?b0"
    using assms(1) by (simp_all add: unsigned_builder_def builder_made_def builder_new_def)
  have kinds: "plain_setting (Burst v1)" "setting_made (Burst v1)" "plain_setting (Advertise v2)" "setting_made (Advertise v2)"
    "plain_setting (PolicyOf v3)" "setting_made (PolicyOf v3)" "plain_setting (TrackedKeys v4)" "setting_made (TrackedKeys v4)"
    "plain_setting (HotKeys v4)" "setting_made (HotKeys v4)" "plain_setting (MaxClasses v4)" "setting_made (MaxClasses v4)"
    "plain_setting (MostDenied v4)" "setting_made (MostDenied v4)" "plain_setting (MaxMembers v4)" "setting_made (MaxMembers v4)"
    for v1 v2 v3 v4
    by (simp_all add: plain_setting_def setting_made_def)
  note given = set_given_keeps [of Burst, OF kinds(1,2)] set_given_keeps [of Advertise, OF kinds(3,4)]
    set_given_keeps [of PolicyOf, OF kinds(5,6)] set_given_keeps [of TrackedKeys, OF kinds(7,8)] set_given_keeps [of HotKeys, OF kinds(9,10)]
    set_given_keeps [of MaxClasses, OF kinds(11,12)] set_given_keeps [of MostDenied, OF kinds(13,14)]
    set_given_keeps [of MaxMembers, OF kinds(15,16)]
  show ?thesis unfolding args_settings_def Let_def
    by (rule classes_told) (use b0 assms(2) in \<open>simp_all add: given del: foldl.simps\<close>)
qed

definition secrets_fine :: "(bytes \<Rightarrow> bytes option) \<Rightarrow> (bytes \<Rightarrow> bytes option) \<Rightarrow> args \<Rightarrow> bool" where
  "secrets_fine base64 files a = (case ar_secret_file a of
     None \<Rightarrow> args_gossip_auth a = Off
   | Some path \<Rightarrow> (case read_secrets base64 files path of Inl _ \<Rightarrow> False | Inr ss \<Rightarrow> ss \<noteq> [] \<or> args_gossip_auth a = Off))"

definition salt_fine :: "(bytes \<Rightarrow> bytes option) \<Rightarrow> args \<Rightarrow> bool" where
  "salt_fine files a = (case ar_salt_file a of
     None \<Rightarrow> True
   | Some path \<Rightarrow> (case files path of None \<Rightarrow> False | Some salt \<Rightarrow> SALT_NEEDED \<le> length salt))"

lemma read_secrets_bounded: "read_secrets base64 files path = Inr ss \<Longrightarrow> length ss \<le> 2"
  unfolding read_secrets_def accepted_iff by auto

lemma args_secrets_made:
  assumes "args_secrets h base64 files a b = Inr b'" "unsigned_builder b" "builder_made b"
  shows "(\<exists>auth. auth_new (bu_gossip_auth b') (bu_secrets b') = Inr auth) \<and> bu_salt b' = None \<and> builder_made b'"
proof (cases "ar_secret_file a")
  case None
  then have "b' = b" using assms(1) by (auto simp: args_secrets_def Let_def split: if_splits)
  then show ?thesis using assms(2,3) by (simp add: unsigned_builder_def auth_new_def)
next
  case (Some path)
  then obtain ss where ss: "read_secrets base64 files path = Inr ss" "ss \<noteq> [] \<or> args_gossip_auth a = Off"
      "b' = builder_set h b (GossipSecrets (args_gossip_auth a) ss)"
    using assms(1) by (auto simp: args_secrets_def Let_def split: sum.splits if_splits)
  have "\<exists>auth. auth_new (args_gossip_auth a) ss = Inr auth"
    using ss(2) read_secrets_bounded [OF ss(1)] by (auto simp: auth_new_def MAX_SECRETS_def)
  then show ?thesis using ss(3) assms(2,3) by (simp add: unsigned_builder_def builder_made_def)
qed

lemma args_salt_made:
  assumes "args_salt h files a b = Inr b'" "bu_salt b = None" "builder_made b"
  shows "bu_gossip_auth b' = bu_gossip_auth b \<and> bu_secrets b' = bu_secrets b \<and> builder_made b' \<and> (\<exists>salt. salt_of b' = Inr salt)"
proof (cases "ar_salt_file a")
  case None
  then show ?thesis using assms by (auto simp: args_salt_def salt_of_def)
next
  case (Some path)
  then obtain salt where s: "files path = Some salt" "SALT_NEEDED \<le> length salt" "b' = builder_set h b (Salt salt)"
    using assms(1) by (auto simp: args_salt_def split: option.splits if_splits)
  have "MIN_SALT \<le> length salt" using s(2) by (simp add: SALT_NEEDED_def MIN_SALT_def)
  then show ?thesis using s(3) assms(3) by (auto simp: salt_of_def salt_new_def builder_made_def)
qed

text \<open>
  C34. What the flags refuse. They make a builder exactly if gossip that is to be signed has a file with secrets in it and the
  salt's file holds a salt; and a builder they make starts a guard, or is refused for something else: never for its secrets or
  its salt, which the flags name the file of, and never by a panic.
\<close>

theorem flags_refused_by_name:
  assumes "limit_spec_of_text limit_text = Some (ar_limit a)"
    and "map class_spec_of_text class_texts = map Some (ar_classes a)"
  shows "((\<exists>b. args_builder h base64 files a = Inr b) \<longleftrightarrow> secrets_fine base64 files a \<and> salt_fine files a) \<and>
    (\<forall>b. args_builder h base64 files a = Inr b \<longrightarrow>
      (\<exists>r. spawn h su b = Some r \<and>
        (case r of Inl err \<Rightarrow> plain_error err | Inr dv \<Rightarrow> sh_running (dv_shared dv) \<and> runtime_wf h dv)))"
proof -
  let ?b = "args_settings h a"
  have "user_limit_wf l" if "(name, l) \<in> set (ar_classes a)" for name l
  proof -
    have "Some (name, l) \<in> set (map class_spec_of_text class_texts)" using that by (simp add: assms(2))
    then obtain x where "class_spec_of_text x = Some (name, l)" by (metis (no_types, lifting) ex_map_conv imageE list.set_map)
    then show ?thesis by (rule class_spec_wf)
  qed
  then have b: "unsigned_builder ?b" "builder_made ?b"
    using args_settings_made [of a h] limit_spec_wf [OF assms(1)] by auto
  have iff: "(\<exists>b. args_builder h base64 files a = Inr b) \<longleftrightarrow> secrets_fine base64 files a \<and> salt_fine files a"
    by (auto simp: args_builder_def accepted_iff args_secrets_def args_salt_def secrets_fine_def salt_fine_def Let_def
        split: option.splits sum.splits)
  have "\<exists>r. spawn h su b' = Some r \<and> (case r of Inl err \<Rightarrow> plain_error err | Inr dv \<Rightarrow> sh_running (dv_shared dv) \<and> runtime_wf h dv)"
    if run: "args_builder h base64 files a = Inr b'" for b'
  proof -
    obtain b1 where b1: "args_secrets h base64 files a ?b = Inr b1" "args_salt h files a b1 = Inr b'"
      using run by (auto simp: args_builder_def accepted_iff)
    note m1 = args_secrets_made [OF b1(1) b]
    have m: "bu_gossip_auth b' = bu_gossip_auth b1" "bu_secrets b' = bu_secrets b1" "builder_made b'" "\<exists>salt. salt_of b' = Inr salt"
      using m1 args_salt_made [OF b1(2)] by simp_all
    obtain auth where auth: "auth_new (bu_gossip_auth b') (bu_secrets b') = Inr auth" using m1 unfolding m(1,2) by blast
    obtain salt where salt: "salt_of b' = Inr salt" using m(4) by blast
    obtain r where r: "spawn h su b' = Some r" "\<forall>dv. r = Inr dv \<longrightarrow> runtime_wf h dv \<and> n_last_now (dv_node dv) = 0 \<and>
        \<not> n_left (dv_node dv) \<and> sh_running (dv_shared dv)"
      using spawn_ok [OF m(3), of h su] by blast
    have plain: "plain_error err" if "r = Inl err" for err
    proof (cases "builder_settings h b'")
      case (Inl err')
      then show ?thesis using that r(1) settings_plain [OF Inl auth salt] by (simp add: spawn_def)
    next
      case (Inr st)
      have "err \<in> {NoRuntime, NoTimer, Bind, NoIo}"
        using r(1) Inr that by (auto simp: spawn_def started_def split: if_splits option.splits)
      then show ?thesis by (auto simp: plain_error_def)
    qed
    then show ?thesis using r by (auto split: sum.split)
  qed
  then show ?thesis using iff by blast
qed

definition example_args :: args where
  "example_args = \<lparr>ar_limit = \<lparr>ls_limit = limit_per_second 100, ls_has_burst = False\<rparr>, ar_burst = None, ar_classes = [],
     ar_bind = example_text, ar_advertise = None, ar_seeds = [], ar_policy = None, ar_tracked_keys = None, ar_hot_keys = None,
     ar_max_classes = None, ar_most_denied = None, ar_max_members = None, ar_dry_run = False,
     ar_listen = SocketV4 [127, 0, 0, 1] 7947, ar_metrics_listen = None, ar_admin = False, ar_drain = 10 * 10 ^ 9,
     ar_secret_file = Some [115], ar_mode = None, ar_salt_file = None\<rparr>"

theorem flags_refused_by_name_witness:
  "\<exists>b r. args_builder example_hashes (\<lambda>line. Some (replicate 32 65)) (\<lambda>path. Some [65]) example_args = Inr b \<and>
    spawn example_hashes example_surroundings b = Some r \<and>
    args_builder example_hashes (\<lambda>line. Some line) (\<lambda>path. Some []) example_args = Inl NoSecretsInFile"
proof -
  let ?a = example_args and ?base64 = "\<lambda>line :: bytes. Some (replicate 32 (65 :: u8))" and ?files = "\<lambda>path :: bytes. Some [65 :: u8]"
  have limit: "limit_spec_of_text [49, 48, 48] = Some (ar_limit ?a)"
    by (simp add: limit_spec_of_text_def SLASH_def parse_u32_def parse_unsigned_def PLUS_def MINUS_def to_digit_def Let_def
        number_of_digits_def limit_in_unit_def example_args_def)
  have classes: "map class_spec_of_text [] = map Some (ar_classes ?a)" by (simp add: example_args_def)
  have mode: "args_gossip_auth ?a = Required" "ar_secret_file ?a = Some [115]" by (simp_all add: args_gossip_auth_def example_args_def)
  have "read_secrets ?base64 ?files [115] = Inr [replicate 32 65]"
    by (simp add: read_secrets_def and_then_def ok_or_def refuse_if_def trim_ascii_def is_ascii_whitespace_def NEWLINE_def
        secret_new_def MIN_SECRET_def)
  then have fine: "secrets_fine ?base64 ?files ?a \<and> salt_fine ?files ?a"
    using mode by (simp add: secrets_fine_def salt_fine_def example_args_def)
  have "read_secrets (\<lambda>line. Some line) (\<lambda>path. Some []) [115] = Inr []"
    by (simp add: read_secrets_def and_then_def ok_or_def refuse_if_def trim_ascii_def)
  then have "args_builder example_hashes (\<lambda>line. Some line) (\<lambda>path. Some []) ?a = Inl NoSecretsInFile"
    using mode by (simp add: args_builder_def args_secrets_def and_then_def)
  note refused = this
  note made = flags_refused_by_name [OF limit classes, of example_hashes ?base64 ?files example_surroundings]
  obtain b where b: "args_builder example_hashes ?base64 ?files ?a = Inr b" using fine made [THEN conjunct1] by blast
  obtain r where "spawn example_hashes example_surroundings b = Some r"
    using made [THEN conjunct2, rule_format, OF b] by blast
  with b refused show ?thesis by (intro exI conjI)
qed

end
