(* ===== verification/Tower_Layer.thy ===== *)
theory Tower_Layer
  imports Runtime_Contract
begin

text \<open>
  The middleware of the \<open>rateguard\<close> crate (\<open>rateguard/src/tower.rs\<close>): a request is checked by the key a function of the user
  takes from it, and handed to the service within or answered with a 429. What the service within answers is left out.
\<close>

datatype layer_key = InDefault bytes | InNamed bytes bytes

record 'req layer =
  ly_guard :: shared
  ly_key :: "'req \<Rightarrow> layer_key option"

fun layer_check :: "hashes \<Rightarrow> shared \<Rightarrow> layer_key \<Rightarrow> nanos \<Rightarrow> (user_decision \<times> shared) option" where
  "layer_check h sh (InDefault key) now = guard_check h sh key now"
| "layer_check h sh (InNamed cls key) now = guard_check_in h sh cls key now"

datatype 'req outcome = PassedOn 'req | TooManyRequests nat

text \<open>The seconds of \<open>Retry-After\<close>: \<open>as_millis\<close> drops what is under a millisecond.\<close>

definition retry_after_seconds :: "nanos \<Rightarrow> nat" where
  "retry_after_seconds t = max ((unat t div 1000000 + 999) div 1000) 1"

definition layer_call :: "hashes \<Rightarrow> 'req layer \<Rightarrow> 'req \<Rightarrow> nanos \<Rightarrow> ('req outcome \<times> 'req layer) option" where
  "layer_call h ly req now = (case ly_key ly req of
     None \<Rightarrow> Some (PassedOn req, ly)
   | Some key \<Rightarrow> do {
       (d, sh) \<leftarrow> layer_check h (ly_guard ly) key now;
       Some (case d of Allowed \<Rightarrow> PassedOn req | Denied retry_after \<Rightarrow> TooManyRequests (retry_after_seconds retry_after),
         ly\<lparr>ly_guard := sh\<rparr>)
     })"

lemma layer_check_ok:
  assumes "shared_wf h sh"
  shows "\<exists>d sh'. layer_check h sh key now = Some (d, sh') \<and> shared_wf h sh'"
proof -
  have "guard_check h sh k now = guard_check_in h sh [] k now" for k
    by (simp add: guard_check_def guard_check_in_def guard_check_in_traced_def class_hash_def)
  then show ?thesis using request_ok [OF assms] by (cases key) simp_all
qed

lemma retry_after_bounds:
  "1 \<le> retry_after_seconds t" "unat t < retry_after_seconds t * 1000000000 + 1000000"
  "retry_after_seconds t = 1 \<or> retry_after_seconds t * 1000000000 < unat t + 1000000000"
proof -
  define ms where "ms = unat t div 1000000"
  define s where "s = (ms + 999) div 1000"
  have t: "unat t = 1000000 * ms + unat t mod 1000000" "unat t mod 1000000 < 1000000" by (simp_all add: ms_def)
  have s: "ms + 999 = 1000 * s + (ms + 999) mod 1000" "(ms + 999) mod 1000 < 1000" by (simp_all add: s_def)
  have r: "retry_after_seconds t = max s 1" by (simp add: retry_after_seconds_def s_def ms_def)
  have "unat t < s * 1000000000 + 1000000" using t s by linarith
  moreover have "s * 1000000000 < unat t + 1000000000" using t s by linarith
  moreover have "s * 1000000000 \<le> max s 1 * 1000000000" by simp
  ultimately show "1 \<le> retry_after_seconds t" "unat t < retry_after_seconds t * 1000000000 + 1000000"
    "retry_after_seconds t = 1 \<or> retry_after_seconds t * 1000000000 < unat t + 1000000000"
    unfolding r by (simp, linarith, simp add: max_def)
qed

text \<open>
  C36. What the middleware answers. A request without a key is passed on and changes nothing; one with a key is passed on
  exactly if the guard allows it. A denial tells at least one second, no more than a second over the guard's wait, and
  less than a millisecond under it: the wait is cut to milliseconds before it is rounded up to seconds, so a wait of one
  second and a nanosecond is told as one second.
\<close>

theorem layer_answers:
  assumes "shared_wf h (ly_guard ly)"
  shows "\<exists>o' ly'. layer_call h ly req now = Some (o', ly') \<and> shared_wf h (ly_guard ly') \<and>
    (case ly_key ly req of
       None \<Rightarrow> o' = PassedOn req \<and> ly' = ly
     | Some key \<Rightarrow> \<exists>d. layer_check h (ly_guard ly) key now = Some (d, ly_guard ly') \<and>
        (case d of Allowed \<Rightarrow> o' = PassedOn req
         | Denied t \<Rightarrow> \<exists>s. o' = TooManyRequests s \<and> 1 \<le> s \<and> unat t < s * 1000000000 + 1000000 \<and>
             (s = 1 \<or> s * 1000000000 < unat t + 1000000000))) \<and>
    retry_after_seconds 1000000001 = 1"
proof (cases "ly_key ly req")
  case None
  then show ?thesis using assms by (simp add: layer_call_def retry_after_seconds_def)
next
  case (Some key)
  obtain d sh' where "layer_check h (ly_guard ly) key now = Some (d, sh')" "shared_wf h sh'"
    using layer_check_ok [OF assms] by blast
  then show ?thesis using Some retry_after_bounds
    by (cases d) (simp_all add: layer_call_def retry_after_seconds_def [of 1000000001])
qed

theorem layer_answers_witness:
  "\<exists>o' ly'. layer_call example_hashes \<lparr>ly_guard = example_shared, ly_key = (\<lambda>req. Some (InDefault [req]))\<rparr> 7 1000 = Some (o', ly') \<and>
    shared_wf example_hashes (ly_guard ly')"
  using layer_answers [of example_hashes "\<lparr>ly_guard = example_shared, ly_key = (\<lambda>req. Some (InDefault [req]))\<rparr>" 7 1000] example_shared_wf
  by auto

end
