(* ===== verification/Spec2Isabelle.thy ===== *)
theory Spec2Isabelle
  imports Gcra_Atomic Auth Limiter_Requests Peer_Reports Key_Table_Race Sidecar_Contract Sidecar_Args_Contract Tower_Layer
begin

text \<open>
  \<^bold>\<open>rateguard\<close>: a rate limiter whose nodes share one limit per key by gossip. Each node counts the demand for a key, tells
  its peers, and takes a share of the limit in proportion to its part of the demand; a key is held to its share by a GCRA
  limiter. This library models the limiter core (\<open>rateguard-core\<close>), the wire format (\<open>rateguard-proto\<close>), the runtime
  around them (\<open>rateguard\<close>) and the sidecar that serves it over HTTP (\<open>rateguard-sidecar\<close>), and proves what makes each part
  correct.

  \<^bold>\<open>How the parts interact.\<close> A request goes through a \<open>Guard\<close>: its key is hashed, a slot of the key table is found or taken,
  and the slot's atomic GCRA decides. A background task, the driver, owns the \<open>Node\<close>. At each tick it takes the counts of
  the slots, gives them to the node, lets the node run one step of its protocol, and writes the quotas the node decided back
  to the slots. A datagram is opened by the gossip authentication, screened and handed to the node. The node keeps a SWIM
  member table, a buffer of news to piggyback, the demand its peers reported, and a per-key limiter with a bounded set of
  hot keys; it cuts its shares to a floor when it cannot be sure of the cluster.

  \<^bold>\<open>Which theory models what.\<close> Definitions carry the name of the Rust item they translate, with a prefix where names clash.

  \<^item> \<open>Prelude\<close>: checked and saturating words, the option monad with \<open>ensure\<close> for assertions, maps kept in order (\<open>omap\<close>
    for \<open>BTreeMap\<close>, with insertion, removal and \<open>retain\<close>), lemmas on lists, and the collections of rules.
  \<^item> \<open>Float64\<close>: \<open>f64\<close> with rounding to nearest even, infinities and one NaN, on rationals of 53 significant bits.
  \<^item> \<open>Gcra\<close>, \<open>Gcra_Admission\<close>, \<open>Gcra_Atomic\<close> (\<open>rateguard-core/src/gcra.rs\<close>): quotas and their packing into a word, \<open>Gcra\<close>,
    \<open>AtomicGcra\<close>, \<open>ShadowGcra\<close>; what any of them admits; and the compare-and-swap loops under interference.
  \<^item> \<open>Rng\<close> (\<open>rng.rs\<close>), \<open>Demand\<close> (\<open>demand.rs\<close>), \<open>Allocation\<close> (\<open>allocation.rs\<close>), \<open>Hot_Set\<close> (\<open>hot_set.rs\<close>), \<open>Partition\<close>
    (\<open>partition.rs\<close>), \<open>Gossip\<close> (\<open>gossip.rs\<close>): one theory each, the model and its lemmas.
  \<^item> \<open>Limiter\<close>, \<open>Limiter_Invariant\<close>, \<open>Limiter_Requests\<close> (\<open>limiter.rs\<close>): the state of a key, the calls of \<open>Limiter\<close>, their
    invariant, and the isolation of one key from the others.
  \<^item> \<open>Membership\<close>, \<open>Member_Table\<close> (\<open>membership.rs\<close>, \<open>member.rs\<close>): the trait as a locale, and the SWIM table that provides it.
  \<^item> \<open>Peer_Demand\<close>, \<open>Peer_Reports\<close> (\<open>peer_demand.rs\<close>): the last report of every peer, contested epochs, expiry.
  \<^item> \<open>Node_State\<close>, \<open>Node\<close>, \<open>Node_Invariant\<close>, \<open>Node_Protocol\<close>, \<open>Node_Contract\<close> (\<open>node.rs\<close>, \<open>boundary.rs\<close>): the node, one
    definition per method; \<open>handle\<close> is a step, the datagrams to send are left in \<open>n_actions\<close>.
  \<^item> \<open>Wire\<close>, \<open>Auth\<close> (\<open>rateguard-proto/src/lib.rs\<close>, \<open>auth.rs\<close>): messages and their limits, signed frames.
  \<^item> \<open>User_Limit\<close> (\<open>rateguard/src/limit.rs\<close>, \<open>key.rs\<close>, the errors of \<open>config.rs\<close>), \<open>Classes\<close>, \<open>Class_Contract\<close>
    (\<open>classes.rs\<close>, \<open>key_limits.rs\<close>): limits as given, how keys are hashed, classes, shadows and limits of single keys.
  \<^item> \<open>Key_Table\<close>, \<open>Key_Table_Contract\<close>, \<open>Key_Table_Race\<close> (\<open>table.rs\<close>): the slots, what claims and releases do one after
    the other, and what they do interleaved access by access.
  \<^item> \<open>Guard\<close>, \<open>Guard_Contract\<close> (\<open>guard.rs\<close>, \<open>stats.rs\<close>): the request path, and everything a guard can be told or asked.
  \<^item> \<open>Driver\<close>, \<open>Driver_Contract\<close> (\<open>driver.rs\<close>): screening, datagrams, ticks, the floor, seeds given by name,
    and leaving, where each datagram goes out with the state a check finds at that moment, so that the order of the floor and the
    news is seen. The task keeps the secrets it read last (\<open>dv_auth\<close>) apart from those the guards set (\<open>sh_auth\<close>).
  \<^item> \<open>Runtime_Contract\<close>: guard and driver together, as one state that requests, changes and events act on.
  \<^item> \<open>Socket_Text\<close>: \<open>str::parse\<close> of the standard library for addresses and ports. \<open>Builder\<close>, \<open>Builder_Contract\<close>
    (\<open>config.rs\<close>): the builder, the settings it comes to, the errors it tells, and the start of a guard.
  \<^item> \<open>Tower_Layer\<close> (\<open>tower.rs\<close>): what the middleware answers a request.
  \<^item> \<open>Denied_Names\<close>, \<open>Denied_Contract\<close> (\<open>rateguard-sidecar/src/denied.rs\<close>): the tables of names behind hashes, and the lists
    they are. \<open>Sidecar_Args\<close>, \<open>Sidecar_Args_Contract\<close> (\<open>args.rs\<close>, \<open>secrets.rs\<close>): the texts of the flags, the file of
    secrets, the builder they make. \<open>Sidecar\<close>, \<open>Sidecar_Contract\<close> (\<open>lib.rs\<close>): limits as JSON, a handler per route.

  \<^bold>\<open>What the lemmas show.\<close> For the limiters: the bound on what any window admits, exact bursts and retry times, that the atomic
  limiter refines the sequential one, and that its loops are linearizable. For the shared structures: an invariant that
  every operation keeps, what each operation does on every branch, and that concurrent claims give a key one slot. For the
  protocol: that a node panics exactly for a mistake of its caller, which no datagram is, that what it sends fits a datagram, that the
  cap it holds its keys to is the least floor among the reasons for one, that the table
  of members follows the SWIM order of news, and that shares respect the limit and the floor. For the runtime: that a
  guard holds each key to its quota, that no count is lost between slots and node, and that no guard a builder starts is
  brought to panic or to break an invariant by any sequence of requests, changes and events. For the sidecar: that every
  request is answered, that one refused changes nothing, and that the flags name what they refuse.

  \<^bold>\<open>Conventions.\<close> Rust integers are words of their width; \<open>usize\<close> lengths and counts are natural numbers. A panic (an assertion, a
  failed \<open>expect\<close>, an overflow the code checks) is \<open>None\<close>; an \<open>Err\<close> is \<open>Inl\<close>. A plain \<open>+\<close> on a word wraps, as it does in a
  release build; the code saturates wherever it could matter, and the saturation is kept. The two zeros of \<open>f64\<close> are one
  value and so are all NaNs: the code never tells them apart. A clock reading is an argument. The maps of the standard
  library without an order are association lists in order of their keys, and where the order can be seen (the node's
  draws) it is a parameter.

  \<^bold>\<open>Termination and bounds.\<close> Every function is total: loops over collections are recursion on the list, the four loops that are
  not (\<open>introduce_loop\<close>, \<open>drop_oldest\<close>, \<open>next_power_from\<close>, \<open>lossy\<close>) recurse on a measure, and no fuel is used. The compare-and-swap
  loops of the slots and limiters are step relations, where \<open>calls_return\<close> bounds the accesses of every claim and release.

  \<^bold>\<open>Parameters.\<close> Code that is not in the repository is an argument: \<open>exp\<close> and \<open>log10\<close> of the platform (hypothesis: of a
  number not above zero \<open>exp\<close> is between 0 and 1, and \<open>log10\<close> of a cluster size is finite, not negative and at most 400), the postcard codec (what fits the limits of a message fits a datagram; for
  \<open>wire_roundtrip\<close>, that it reads back what it wrote), the keyed hash of the \<open>hmac\<close> and \<open>sha2\<close> crates, the hashes xxh3, SipHash and
  SHA-256, base64 and the reading of files, and what axum and serde read of a request (for \<open>limit_json_roundtrip\<close>, that a
  \<open>Value\<close> made of numbers reads as made). Every hypothesis is met by a concrete function in a witness.

  \<^bold>\<open>Memory models.\<close> \<open>Gcra_Atomic\<close> lets a load return any earlier value of the cell and a compare-and-swap fail for no reason.
  \<open>Key_Table_Race\<close> models the ordering of the claim's accesses as in C11: a load sees what its thread has seen or a later
  write, and a sequentially consistent fence orders it. Requests and the driver's visits of the slots are steps of their own in
  \<open>Runtime_Contract\<close>: how one tick interleaves with requests within the visit of a slot is not modelled there.

  \<^bold>\<open>Not modelled.\<close> \<open>transport.rs\<close> and \<open>metrics.rs\<close>, which are input and output; the futures of \<open>tower.rs\<close>; the tasks, timers and
  channels of tokio that deliver the events of \<open>Driver\<close>; of the sidecar the sockets, clap's parsing of the command line, the
  layout of the answers and the process of \<open>main.rs\<close> with its signals; and the simulator, a test harness.
\<close>

end
